(* ===== verification/Kernel_Prelude.thy ===== *)
theory Kernel_Prelude
  imports Main "HOL-Library.Word" "HOL-Library.Monad_Syntax"
begin

unbundle bit_operations_syntax

text \<open>
  Shared vocabulary of the development: the machine integers of
  \<^verbatim>\<open>include/sys/defs.h\<close>, C strings and byte buffers, little-endian fields, and the
  lemmas on lists, options and words that the component theories use.

  Conventions used everywhere:
  \<^item> a pointer is the 64-bit word the code casts it to, and \<open>0\<close> is \<open>NULL\<close>;
  \<^item> a buffer is the list of the bytes that may be read through its pointer;
  \<^item> an operation of type \<open>'a option\<close> returns \<open>None\<close> exactly when the C code does not
    come back: a failed \<open>assert\<close>, \<open>panic_halt\<close>, an explicit \<open>while(1)\<close>, or an access
    through \<open>NULL\<close> or outside its buffer.  Error codes the C code returns are values.
\<close>

section \<open>Machine integers\<close>

type_synonym u8 = "8 word"
type_synonym u16 = "16 word"
type_synonym u32 = "32 word"
type_synonym u64 = "64 word"
type_synonym ptr = "64 word"
type_synonym bytes = "8 word list"

abbreviation NULL :: ptr where "NULL \<equiv> 0"

named_theorems buf_simps \<open>rewrite rules on buffers, C strings and little-endian fields\<close>
named_theorems word_facts \<open>unsigned readings of the word operations the kernel uses\<close>

section \<open>Words\<close>

lemma unat_u64_bound [simp]: "unat (x :: u64) < 18446744073709551616"
  using unsigned_less [of x] by simp

lemma unat_u32_bound [simp]: "unat (x :: u32) < 4294967296"
  using unsigned_less [of x] by simp

lemma unat_u8_bound [simp]: "unat (x :: u8) < 256"
  using unsigned_less [of x] by simp

lemma unat_add_nowrap [word_facts]:
  "unat (a :: 'a :: len word) + unat b < 2 ^ LENGTH('a) \<Longrightarrow> unat (a + b) = unat a + unat b"
  by (simp add: unat_word_ariths)

lemma unat_sub_nowrap [word_facts]:
  "b \<le> (a :: 'a :: len word) \<Longrightarrow> unat (a - b) = unat a - unat b"
  by (rule unat_sub)

lemma unat_Suc_less [word_facts]:
  "(c :: 'a :: len word) < e \<Longrightarrow> unat (c + 1) = Suc (unat c)"
proof -
  assume "c < e"
  then have "unat c < unat e" by (simp add: word_less_nat_alt)
  moreover have "unat e < 2 ^ LENGTH('a)" by (rule unsigned_less)
  ultimately have "unat c + 1 < 2 ^ LENGTH('a)" by linarith
  then show ?thesis
    by (simp add: unat_word_ariths take_bit_nat_eq_self flip: take_bit_eq_mod)
qed

lemma unat_nat64: "n < 2 ^ 64 \<Longrightarrow> unat (of_nat n :: u64) = n"
  by (simp add: unat_of_nat take_bit_nat_eq_self)

lemma sint_small [word_facts]:
  assumes "unat (w :: 'a :: len word) < 2 ^ (LENGTH('a) - 1)"
  shows "sint w = int (unat w)"
proof -
  have u: "uint w = int (unat w)" by simp
  have "int (unat w) < int (2 ^ (LENGTH('a) - 1))" using assms by (simp only: of_nat_less_iff)
  then have lt: "uint w < 2 ^ (LENGTH('a) - 1)" unfolding u by simp
  have "- (2 ^ (LENGTH('a) - 1)) \<le> (0 :: int)" by simp
  then have "- (2 ^ (LENGTH('a) - 1)) \<le> uint w" using uint_ge_0 order_trans by blast
  with lt show ?thesis unfolding sint_uint u [symmetric] by (intro signed_take_bit_int_eq_self) simp_all
qed

lemma sint_of_nat_small [word_facts]:
  assumes "n < 2 ^ (LENGTH('a) - 1)"
  shows "sint (of_nat n :: 'a :: len word) = int n"
proof -
  have "n < 2 ^ LENGTH('a)"
    using assms by (rule less_le_trans) (simp add: power_increasing)
  then have "unat (of_nat n :: 'a word) = n" by (simp add: unat_of_nat take_bit_nat_eq_self)
  then show ?thesis using sint_small [of "of_nat n :: 'a word"] assms by simp
qed

lemma sint_u32_cases: "sint (w :: u32) = uint w - (if bit w 31 then 2 ^ 32 else 0)"
proof -
  have "sint w = signed_take_bit 31 (uint w)" by (simp add: sint_uint)
  also have "\<dots> = take_bit 32 (uint w) - 2 ^ 32 * of_bool (bit (uint w) 31)"
    using signed_take_bit_eq_take_bit_minus [of 31 "uint w"] by simp
  also have "take_bit 32 (uint w) = uint w"
    using uint_bounded [of w] by (intro take_bit_int_eq_self) simp_all
  finally show ?thesis by (simp add: bit_uint_iff)
qed

lemma low_mask: "0xFFFFFFFF = (mask 32 :: u64)"
  by (simp add: mask_eq_exp_minus_1)

lemma unat_byte: "unat (ucast (drop_bit n w :: u32) :: u8) = unat w div 2 ^ n mod 256"
proof -
  have "unat (drop_bit n w) = unat w div 2 ^ n"
    by (simp add: unat_drop_bit_eq drop_bit_eq_div [where 'a = nat])
  then show ?thesis by (simp add: unsigned_ucast_eq take_bit_eq_mod [where 'a = nat])
qed

section \<open>Buffers\<close>

text \<open>Overwriting a stretch of a buffer, what a copy loop into it amounts to.\<close>

definition put_at :: "'a list \<Rightarrow> nat \<Rightarrow> 'a list \<Rightarrow> 'a list" where
  "put_at xs i ys = take i xs @ ys @ drop (i + length ys) xs"

definition get_at :: "'a list \<Rightarrow> nat \<Rightarrow> nat \<Rightarrow> 'a list" where
  "get_at xs i n = take n (drop i xs)"

lemma length_put_at [simp, buf_simps]:
  "i + length ys \<le> length xs \<Longrightarrow> length (put_at xs i ys) = length xs"
  by (simp add: put_at_def)

lemma length_get_at [simp, buf_simps]:
  "i + n \<le> length xs \<Longrightarrow> length (get_at xs i n) = n"
  by (simp add: get_at_def)

lemma get_put_same [buf_simps]:
  "i + length ys \<le> length xs \<Longrightarrow> get_at (put_at xs i ys) i (length ys) = ys"
  by (simp add: get_at_def put_at_def)

lemma nth_put_at:
  assumes "i + length ys \<le> length xs" "k < length xs"
  shows "put_at xs i ys ! k = (if i \<le> k \<and> k < i + length ys then ys ! (k - i) else xs ! k)"
proof -
  consider "k < i" | "i \<le> k" "k < i + length ys" | "i + length ys \<le> k" by linarith
  then show ?thesis
  proof cases
    case 1
    with assms show ?thesis by (simp add: put_at_def nth_append)
  next
    case 2
    with assms have "k - i < length ys" by linarith
    with 2 assms show ?thesis by (simp add: put_at_def nth_append)
  next
    case 3
    with assms have "\<not> k < min (length xs) i" "\<not> k - min (length xs) i < length ys" by auto
    with 3 assms show ?thesis
      by (simp add: put_at_def nth_append min_absorb2)
  qed
qed

lemma nth_get_at [buf_simps]:
  "i + n \<le> length xs \<Longrightarrow> k < n \<Longrightarrow> get_at xs i n ! k = xs ! (i + k)"
  by (simp add: get_at_def)

lemma get_put_other [buf_simps]:
  assumes "i + length ys \<le> length xs" "j + n \<le> length xs"
    and "j + n \<le> i \<or> i + length ys \<le> j"
  shows "get_at (put_at xs i ys) j n = get_at xs j n"
proof (rule nth_equalityI)
  show "length (get_at (put_at xs i ys) j n) = length (get_at xs j n)"
    using assms by simp
next
  fix k assume "k < length (get_at (put_at xs i ys) j n)"
  with assms have "k < n" by simp
  with assms show "get_at (put_at xs i ys) j n ! k = get_at xs j n ! k"
    by (auto simp: nth_get_at nth_put_at)
qed

text \<open>Access to a byte of a buffer; outside of it, it is undefined.\<close>

definition byte_at :: "bytes \<Rightarrow> nat \<Rightarrow> u8 option" where
  "byte_at b i = (if i < length b then Some (b ! i) else None)"

definition put_byte :: "bytes \<Rightarrow> nat \<Rightarrow> u8 \<Rightarrow> bytes option" where
  "put_byte b i v = (if i < length b then Some (b[i := v]) else None)"

lemma byte_at_append [simp]:
  "byte_at (pre @ c # post) (length pre) = Some c"
  by (simp add: byte_at_def)

lemma put_byte_append [simp]:
  "put_byte (pre @ c # post) (length pre) v = Some (pre @ v # post)"
  by (simp add: put_byte_def list_update_append)

section \<open>Little-endian fields\<close>

text \<open>A 64-bit field of a packed structure, read from and written to a byte buffer.\<close>

fun le_of :: "nat \<Rightarrow> u64 \<Rightarrow> bytes" where
  "le_of 0 w = []"
| "le_of (Suc n) w = ucast w # le_of n (drop_bit 8 w)"

fun of_le :: "bytes \<Rightarrow> u64" where
  "of_le [] = 0"
| "of_le (b # bs) = ucast b OR push_bit 8 (of_le bs)"

definition get64 :: "bytes \<Rightarrow> nat \<Rightarrow> u64" where
  "get64 bs i = of_le (get_at bs i 8)"

definition put64 :: "bytes \<Rightarrow> nat \<Rightarrow> u64 \<Rightarrow> bytes" where
  "put64 bs i w = put_at bs i (le_of 8 w)"

lemma length_le_of [simp]: "length (le_of n w) = n"
  by (induction n arbitrary: w) auto

lemma of_le_of_le: "of_le (le_of n w) = take_bit (8 * n) w"
proof (induction n arbitrary: w)
  case 0
  then show ?case by simp
next
  case (Suc n)
  show ?case
  proof (rule bit_word_eqI)
    fix k assume "k < LENGTH(64)"
    then show "bit (of_le (le_of (Suc n) w)) k \<longleftrightarrow> bit (take_bit (8 * Suc n) w) k"
      by (auto simp: Suc bit_simps)
  qed
qed

lemma of_le_of_le8 [simp, buf_simps]: "of_le (le_of 8 w) = w"
  by (simp add: of_le_of_le take_bit_word_eq_self)

lemma length_put64 [simp, buf_simps]: "i + 8 \<le> length bs \<Longrightarrow> length (put64 bs i w) = length bs"
  by (simp add: put64_def)

lemma get64_put64_same [simp, buf_simps]: "i + 8 \<le> length bs \<Longrightarrow> get64 (put64 bs i w) i = w"
  using get_put_same [of i "le_of 8 w" bs] by (simp add: get64_def put64_def)

lemma get64_put_at_other [buf_simps]:
  "i + length ys \<le> length bs \<Longrightarrow> j + 8 \<le> length bs \<Longrightarrow> j + 8 \<le> i \<or> i + length ys \<le> j
   \<Longrightarrow> get64 (put_at bs i ys) j = get64 bs j"
  by (simp add: get64_def get_put_other)

lemma get64_put64_other [buf_simps]:
  "i + 8 \<le> length bs \<Longrightarrow> j + 8 \<le> length bs \<Longrightarrow> j + 8 \<le> i \<or> i + 8 \<le> j
   \<Longrightarrow> get64 (put64 bs i w) j = get64 bs j"
  by (simp add: put64_def get64_put_at_other)

lemma get_at_put64_other [buf_simps]:
  "i + 8 \<le> length bs \<Longrightarrow> j + n \<le> length bs \<Longrightarrow> j + n \<le> i \<or> i + 8 \<le> j
   \<Longrightarrow> get_at (put64 bs i w) j n = get_at bs j n"
  by (simp add: put64_def get_put_other)

section \<open>C strings\<close>

text \<open>
  \<open>is_cstr b s\<close>: the buffer \<open>b\<close> holds the string \<open>s\<close>, that is \<open>s\<close>, a terminating
  zero byte and whatever follows in the buffer.
\<close>

definition is_cstr :: "bytes \<Rightarrow> bytes \<Rightarrow> bool" where
  "is_cstr b s \<longleftrightarrow> 0 \<notin> set s \<and> (\<exists>rest. b = s @ 0 # rest)"

definition cstr :: "bytes \<Rightarrow> bytes" where
  "cstr b = takeWhile (\<lambda>c. c \<noteq> 0) b"

lemma is_cstrI [intro]: "0 \<notin> set s \<Longrightarrow> is_cstr (s @ 0 # rest) s"
  by (auto simp: is_cstr_def)

lemma is_cstr_cstr: "is_cstr b s \<Longrightarrow> cstr b = s"
  unfolding is_cstr_def cstr_def by (auto simp: takeWhile_tail)

lemma is_cstr_unique: "is_cstr b s \<Longrightarrow> is_cstr b t \<Longrightarrow> s = t"
  by (metis is_cstr_cstr)

lemma cstr_is_cstr: "0 \<in> set b \<Longrightarrow> is_cstr b (cstr b)"
proof -
  assume "0 \<in> set b"
  then obtain xs ys where b: "b = xs @ 0 # ys" and "0 \<notin> set xs"
    by (metis split_list_first)
  then have "cstr b = xs" by (auto simp: cstr_def takeWhile_tail)
  with b \<open>0 \<notin> set xs\<close> show ?thesis by (auto simp: is_cstr_def)
qed

lemma is_cstr_terminated: "is_cstr b s \<Longrightarrow> 0 \<in> set b"
  by (auto simp: is_cstr_def)

lemma is_cstr_append: "is_cstr b s \<Longrightarrow> is_cstr (b @ rest) s"
  by (auto simp: is_cstr_def)

lemma is_cstr_code [code]: "is_cstr b s \<longleftrightarrow> 0 \<in> set b \<and> cstr b = s"
  by (metis cstr_is_cstr is_cstr_cstr is_cstr_terminated)

lemma is_cstr_Nil [simp]: "\<not> is_cstr [] s"
  by (simp add: is_cstr_def)

lemma is_cstr_Cons [simp]:
  "is_cstr (c # b) s \<longleftrightarrow> (if c = 0 then s = [] else \<exists>t. s = c # t \<and> is_cstr b t)"
  unfolding is_cstr_def by (cases s) (auto simp: Cons_eq_append_conv)

section \<open>Options\<close>

lemma bind_eq_Some_conv': "(Option.bind m f = Some y) \<longleftrightarrow> (\<exists>x. m = Some x \<and> f x = Some y)"
  by (cases m) auto

end
