(* ===== verification/Misc.thy ===== *)
theory Misc
  imports Kernel_Prelude
begin

text \<open>
  The utility routines of \<^verbatim>\<open>sys/misc.c\<close>.  \<open>memset\<close> and \<open>memcpy\<close> act on a byte
  memory addressed by 64-bit words, with the pointer comparison and the pointer increments
  of the C loops at their machine width; the string routines read byte buffers.
\<close>

section \<open>State and operations\<close>

type_synonym byte_mem = "64 word \<Rightarrow> 8 word"

text \<open>\<open>get_random\<close>: the linear congruential generator; a zero limit traps in the division.\<close>

definition get_random :: "u32 \<Rightarrow> u32 \<Rightarrow> (u32 \<times> u32) option" where
  "get_random seed limit =
     (let seed' = seed * 25173 + 13849
      in if limit = 0 then None else Some (seed' mod limit, seed'))"

text \<open>\<open>memset\<close>: the loop runs while \<open>cursor < end\<close>, compared as addresses.\<close>

function memset_loop :: "byte_mem \<Rightarrow> u64 \<Rightarrow> u64 \<Rightarrow> u8 \<Rightarrow> byte_mem" where
  "memset_loop m cursor end' v =
     (if cursor < end' then memset_loop (m(cursor := v)) (cursor + 1) end' v else m)"
  by pat_completeness auto
termination
  by (relation "measure (\<lambda>(m, c, e, v). unat e - unat c)")
     (auto simp: word_less_nat_alt unat_Suc_less)

declare memset_loop.simps [simp del]

definition memset :: "byte_mem \<Rightarrow> u64 \<Rightarrow> u8 \<Rightarrow> u64 \<Rightarrow> byte_mem" where
  "memset m addr v sz = memset_loop m addr (addr + sz) v"

text \<open>\<open>memcpy\<close>: \<open>while (n--)\<close>, copying forwards byte by byte.\<close>

fun memcpy_loop :: "byte_mem \<Rightarrow> u64 \<Rightarrow> u64 \<Rightarrow> nat \<Rightarrow> byte_mem" where
  "memcpy_loop m dest src 0 = m"
| "memcpy_loop m dest src (Suc n) = memcpy_loop (m(dest := m src)) (dest + 1) (src + 1) n"

definition memcpy :: "byte_mem \<Rightarrow> u64 \<Rightarrow> u64 \<Rightarrow> u64 \<Rightarrow> byte_mem" where
  "memcpy m dest src n = memcpy_loop m dest src (unat n)"

text \<open>\<open>streq\<close> and \<open>strlen\<close> read until a terminating zero; \<open>None\<close> when they run off a buffer.\<close>

fun streq :: "bytes \<Rightarrow> bytes \<Rightarrow> bool option" where
  "streq (a # as) (b # bs) =
     (if a = b then (if a = 0 then Some True else streq as bs) else Some False)"
| "streq _ _ = None"

fun strlen_from :: "u32 \<Rightarrow> bytes \<Rightarrow> u32 option" where
  "strlen_from ret [] = None"
| "strlen_from ret (c # cs) = (if c = 0 then Some ret else strlen_from (ret + 1) cs)"

definition strlen :: "bytes \<Rightarrow> u32 option" where
  "strlen a = strlen_from 0 a"

text \<open>\<open>memeq\<close>: the count is tested for 1 only after an equal pair was read.\<close>

fun memeq :: "bytes \<Rightarrow> bytes \<Rightarrow> int \<Rightarrow> bool option" where
  "memeq (a # as) (b # bs) sz =
     (if a = b then (if sz = 1 then Some True else memeq as bs (sz - 1)) else Some False)"
| "memeq _ _ sz = None"

text \<open>\<open>math_min\<close>: a variadic minimum whose argument list ends at the value \<open>(uint64_t)-1\<close>.\<close>

fun math_min_from :: "u64 \<Rightarrow> u64 list \<Rightarrow> u64 option" where
  "math_min_from m [] = None"
| "math_min_from m (n # ap) =
     (if n = - 1 then Some m else math_min_from (if n < m then n else m) ap)"

definition math_min :: "u64 \<Rightarrow> u64 list \<Rightarrow> u64 option" where
  "math_min first ap = math_min_from first ap"

text \<open>\<open>assert\<close>: prints and loops for ever when the condition is false.\<close>

definition assert :: "bool \<Rightarrow> unit option" where
  "assert b = (if b then Some () else None)"

section \<open>Lemmas\<close>

lemma assert_Some [simp]: "assert b = Some u \<longleftrightarrow> b"
  by (simp add: assert_def)

lemma assert_True [simp]: "assert True = Some ()"
  by (simp add: assert_def)

lemma memset_loop_apply:
  "memset_loop m c e v a = (if c \<le> a \<and> a < e then v else m a)"
proof (induction m c e v rule: memset_loop.induct)
  case (1 m c e v)
  show ?case
  proof (cases "c < e")
    case True
    then have "(c + 1 \<le> a) \<longleftrightarrow> c < a"
      by (simp add: word_less_nat_alt word_le_nat_alt unat_Suc_less Suc_le_eq)
    moreover have "memset_loop (m(c := v)) (c + 1) e v a
        = (if c + 1 \<le> a \<and> a < e then v else (m(c := v)) a)"
      using True by (rule 1)
    ultimately show ?thesis
      using True by (auto simp: memset_loop.simps [of m c e v] simp del: fun_upd_apply)
         (auto simp: order_le_less)
  next
    case False
    then show ?thesis by (auto simp: memset_loop.simps [of m c e v])
  qed
qed

lemma memset_apply: "memset m addr v sz a = (if addr \<le> a \<and> a < addr + sz then v else m a)"
  by (simp add: memset_def memset_loop_apply)

lemma streq_cstr: "is_cstr a s \<Longrightarrow> is_cstr b t \<Longrightarrow> streq a b = Some (s = t)"
  by (induction a b arbitrary: s t rule: streq.induct) (auto split: if_splits)

lemma strlen_from_cstr: "is_cstr a s \<Longrightarrow> strlen_from r a = Some (r + of_nat (length s))"
  by (induction r a arbitrary: s rule: strlen_from.induct) (auto split: if_splits)

lemma strlen_cstr: "is_cstr a s \<Longrightarrow> strlen a = Some (of_nat (length s))"
  by (simp add: strlen_def strlen_from_cstr)

lemma memeq_take:
  "0 < n \<Longrightarrow> n \<le> length a \<Longrightarrow> n \<le> length b \<Longrightarrow>
   memeq a b (int n) = Some (take n a = take n b)"
proof (induction n arbitrary: a b)
  case 0
  then show ?case by simp
next
  case (Suc n)
  then obtain x xs y ys where [simp]: "a = x # xs" "b = y # ys"
    by (metis Suc_le_length_iff)
  show ?case using Suc by (cases n) auto
qed

lemma math_min_from_least:
  "\<forall>n \<in> set ns. n \<noteq> - 1 \<Longrightarrow> math_min_from m (ns @ [- 1]) = Some (fold min ns m)"
  by (induction ns arbitrary: m) (auto simp: min_def not_less)

end
