(* ===== verification/Phy_Page.thy ===== *)
theory Phy_Page
  imports Misc
begin

text \<open>
  The physical page allocator of \<^verbatim>\<open>sys/memory/phy_page.c\<close>: the table of page entries
  built from the boot loader's memory map, the search for free entries, and the use records
  that count which memory maps of processes share a page.  A \<open>page_entry*\<close> is the index of
  the entry in the table; physical memory is a map from 8-byte aligned addresses to 64-bit
  cells, which is the granularity at which the kernel reads page tables and copies pages.  The
  table of page entries is kept apart from that memory; \<open>get_phy_page_mem\<close> is the allocation of
  one page on the table where the code has it, in memory, and \<open>get_phy_page_one\<close> says when the
  two agree.
\<close>

section \<open>State\<close>

record page_use_record =
  ur_type :: u8
  ur_pt :: ptr

record page_entry =
  base :: u64
  used_by :: u8
  use_record :: "page_use_record list"

text \<open>
  \<open>page_entry_before\<close> is the word the code reads as \<open>(page_entry_base - 1)->base\<close>, which is
  outside the table.  The linked use records of an entry are a list, empty for \<open>NULL\<close>.
\<close>

record phy =
  pages :: "page_entry list"
  page_entry_before :: u64
  pmem :: "u64 \<Rightarrow> u64"

definition PAGE_ENTRY_SIZE :: u64 where "PAGE_ENTRY_SIZE = 24"
definition MEMORY_CAP :: u64 where "MEMORY_CAP = 0x6400000"

definition zero_page :: "(u64 \<Rightarrow> u64) \<Rightarrow> u64 \<Rightarrow> (u64 \<Rightarrow> u64)" where
  "zero_page m b = (\<lambda>a. if a - b < 4096 then 0 else m a)"

section \<open>Searching free entries\<close>

fun find_free_from :: "nat \<Rightarrow> page_entry list \<Rightarrow> nat option" where
  "find_free_from i [] = None"
| "find_free_from i (e # es) = (if used_by e = 0 then Some i else find_free_from (Suc i) es)"

definition find_free_page_entry :: "page_entry list \<Rightarrow> nat option" where
  "find_free_page_entry es = find_free_from 0 es"

definition base_before :: "phy \<Rightarrow> nat \<Rightarrow> u64" where
  "base_before s c = (case c of 0 \<Rightarrow> page_entry_before s | Suc c' \<Rightarrow> base (pages s ! c'))"

text \<open>
  The inner loop of \<open>find_free_page_entry_many\<close>: \<open>Inl\<close> when it returns its start, \<open>Inr\<close> the
  cursor at which it stops.  The outer loop shares the cursor and steps past that entry.
\<close>

function run_from :: "phy \<Rightarrow> u32 \<Rightarrow> nat \<Rightarrow> nat \<Rightarrow> u32 \<Rightarrow> nat + nat" where
  "run_from s num starts_at c accu =
     (if c < length (pages s) then
        if accu = num then Inl starts_at
        else if base_before s c + 4096 \<noteq> base (pages s ! c) then Inr c
        else if used_by (pages s ! c) \<noteq> 0 then Inr c
        else run_from s num starts_at (Suc c) (accu + 1)
      else Inr c)"
  by pat_completeness auto
termination
  by (relation "measure (\<lambda>(s, num, st, c, accu). length (pages s) - c)") auto

declare run_from.simps [simp del]

lemma run_from_ge: "run_from s num st c accu = Inr c' \<Longrightarrow> c \<le> c'"
  by (induction s num st c accu rule: run_from.induct)
     (subst (asm) (2) run_from.simps, auto split: if_splits)

function many_from :: "phy \<Rightarrow> u32 \<Rightarrow> nat \<Rightarrow> nat option" where
  "many_from s num c =
     (if c < length (pages s) then
        (case run_from s num c c 0 of Inl st \<Rightarrow> Some st | Inr c' \<Rightarrow> many_from s num (Suc c'))
      else None)"
  by pat_completeness auto
termination
  by (relation "measure (\<lambda>(s, num, c). length (pages s) - c)") (auto dest: run_from_ge)

declare many_from.simps [simp del]

definition find_free_page_entry_many :: "phy \<Rightarrow> u32 \<Rightarrow> nat option" where
  "find_free_page_entry_many s num = many_from s num 0"

section \<open>Building the table\<close>

record smap =
  sm_base :: u64
  sm_length :: u64
  sm_type :: u32

text \<open>\<open>page_entry_base\<close>, the table and \<open>total_space\<close> while \<open>phy_page_init\<close> runs.\<close>

record init_state =
  table_base :: u64
  table :: "page_entry list"
  total_space :: u64

definition table_end :: "init_state \<Rightarrow> u64" where
  "table_end t = table_base t + PAGE_ENTRY_SIZE * of_nat (length (table t))"

definition set_used :: "page_entry list \<Rightarrow> nat \<Rightarrow> u8 \<Rightarrow> page_entry list" where
  "set_used es i u = es[i := (es ! i)\<lparr>used_by := u\<rparr>]"

text \<open>
  One iteration of the two zone loops, which are the same text: when the end of the table is
  at a page boundary, the first free page is reserved for it (the write through \<open>NULL\<close> when
  there is none touches no entry), then the entry is appended.
\<close>

definition add_entry :: "init_state \<Rightarrow> u64 \<Rightarrow> init_state" where
  "add_entry t zone_cursor =
     (let es = (if table_end t mod 4096 = 0 then
                  (case find_free_page_entry (table t) of
                     Some i \<Rightarrow> set_used (table t) i 1
                   | None \<Rightarrow> table t)
                else table t)
      in t\<lparr>table := es @ [\<lparr>base = zone_cursor, used_by = 0, use_record = []\<rparr>],
           total_space := total_space t + 4096\<rparr>)"

function zone_loop :: "init_state \<Rightarrow> u64 \<Rightarrow> u64 \<Rightarrow> init_state" where
  "zone_loop t zone_cursor zone_end =
     (if zone_cursor < zone_end then
        if total_space t > MEMORY_CAP then t
        else zone_loop (add_entry t zone_cursor) (zone_cursor + 4096) zone_end
      else t)"
  by pat_completeness auto
termination
proof (relation "measure (\<lambda>(t, c, e). unat MEMORY_CAP + 1 - unat (total_space t))")
  fix t :: init_state and zc ze :: u64
  assume "\<not> MEMORY_CAP < total_space t"
  then have le: "unat (total_space t) \<le> unat MEMORY_CAP" by (simp add: word_le_nat_alt not_less)
  have "unat (total_space t + 4096) = unat (total_space t) + 4096"
    using le unat_add_nowrap [of "total_space t" 4096] by (simp add: MEMORY_CAP_def)
  with le show "((add_entry t zc, zc + 4096, ze), t, zc, ze)
      \<in> measure (\<lambda>(t, c, e). unat MEMORY_CAP + 1 - unat (total_space t))"
    by (simp add: add_entry_def Let_def)
qed simp

declare zone_loop.simps [simp del]

text \<open>
  The zones of the memory map in order.  The second usable zone must start at \<open>0x100000\<close>; the
  kernel keeps its first 3 MiB and the table is placed at \<open>0x400000\<close>, its first entry being
  the page that holds the table's start.  Other zones are appended when page aligned.
\<close>

definition usable :: "smap \<Rightarrow> bool" where
  "usable z \<longleftrightarrow> sm_type z = 1 \<and> sm_length z \<noteq> 0"

definition second_zone :: "u64 \<Rightarrow> smap \<Rightarrow> init_state \<Rightarrow> init_state option" where
  "second_zone page_table_size z t =
     (if sm_base z \<noteq> 0x100000 then None
      else
        (let smap_base = 0x400000; smap_length = sm_length z - 0x300000
         in if page_table_size > smap_length then None
            else Some (zone_loop
                   (t\<lparr>table_base := smap_base,
                      table := [\<lparr>base = smap_base, used_by = 1, use_record = []\<rparr>]\<rparr>)
                   (smap_base + 4096) (smap_base + smap_length))))"

definition other_zone :: "smap \<Rightarrow> init_state \<Rightarrow> init_state" where
  "other_zone z t =
     (if sm_base z mod 4096 \<noteq> 0 then t
      else zone_loop t (sm_base z) (sm_base z + sm_length z))"

fun init_zones :: "u64 \<Rightarrow> smap list \<Rightarrow> nat \<Rightarrow> init_state \<Rightarrow> init_state option" where
  "init_zones page_table_size [] count t = Some t"
| "init_zones page_table_size (z # zs) count t =
     (if usable z then
        (if count = 1 then
           (case second_zone page_table_size z t of
              None \<Rightarrow> None
            | Some t' \<Rightarrow> init_zones page_table_size zs (Suc count) t')
         else init_zones page_table_size zs (Suc count) (other_zone z t))
      else init_zones page_table_size zs count t)"

text \<open>The loader's module words: skip to type \<open>0x9001\<close>, then packed 20-byte entries.\<close>

function find_smap_module :: "u32 list \<Rightarrow> u32 list option" where
  "find_smap_module ml =
     (if length ml < 2 then None
      else if ml ! 0 = 0x9001 then Some ml
      else if ml ! 1 + 2 = 0 then None
      else find_smap_module (drop (unat (ml ! 1 + 2)) ml))"
  by pat_completeness auto
termination
proof (relation "measure length")
  fix ml :: "u32 list"
  assume "\<not> length ml < 2" "ml ! 1 + 2 \<noteq> 0"
  moreover from this have "0 < unat (ml ! 1 + 2)" by (simp add: unat_gt_0)
  ultimately show "(drop (unat (ml ! 1 + 2)) ml, ml) \<in> measure length" by auto
qed simp

declare find_smap_module.simps [simp del]

definition word_pair :: "u32 \<Rightarrow> u32 \<Rightarrow> u64" where
  "word_pair lo hi = ucast lo OR push_bit 32 (ucast hi)"

fun decode_smaps :: "nat \<Rightarrow> u32 list \<Rightarrow> smap list option" where
  "decode_smaps 0 ws = Some []"
| "decode_smaps (Suc n) (w0 # w1 # w2 # w3 # w4 # ws) =
     map_option (Cons \<lparr>sm_base = word_pair w0 w1, sm_length = word_pair w2 w3, sm_type = w4\<rparr>)
       (decode_smaps n ws)"
| "decode_smaps (Suc n) _ = None"

definition phy_page_init :: "u32 list \<Rightarrow> init_state \<Rightarrow> init_state option" where
  "phy_page_init modulep t =
     (case find_smap_module modulep of
        None \<Rightarrow> None
      | Some ml \<Rightarrow>
          (case decode_smaps ((unat (ml ! 1) + 19) div 20) (drop 2 ml) of
             None \<Rightarrow> None
           | Some zs \<Rightarrow>
               (let total_page_count = (\<Sum>z \<leftarrow> filter usable zs. sm_length z div 4096);
                    page_table_size = total_page_count * PAGE_ENTRY_SIZE
                in init_zones page_table_size zs 0 (t\<lparr>total_space := 0\<rparr>))))"

section \<open>Allocation\<close>

fun mark_run :: "page_entry list \<Rightarrow> nat \<Rightarrow> nat \<Rightarrow> u8 \<Rightarrow> page_entry list option" where
  "mark_run es c 0 u = Some es"
| "mark_run es c (Suc num) u =
     (if c < length es \<and> used_by (es ! c) = 0 then mark_run (set_used es c u) (Suc c) num u
      else None)"

definition get_phy_page :: "phy \<Rightarrow> u32 \<Rightarrow> u8 \<Rightarrow> (u64 \<times> phy) option" where
  "get_phy_page s num u =
     (if num > 1 then
        (case find_free_page_entry_many s num of
           None \<Rightarrow> None
         | Some i \<Rightarrow>
             (case mark_run (pages s) i (unat num) u of
                None \<Rightarrow> None
              | Some es \<Rightarrow>
                  Some (base (es ! i), s\<lparr>pages := es, pmem := zero_page (pmem s) (base (es ! i))\<rparr>)))
      else
        (case find_free_page_entry (pages s) of
           None \<Rightarrow> None
         | Some i \<Rightarrow>
             Some (base (pages s ! i),
                   s\<lparr>pages := set_used (pages s) i u,
                     pmem := zero_page (pmem s) (base (pages s ! i))\<rparr>)))"

text \<open>
  The branch for one page once more, on a table of \<open>n\<close> entries of three cells each that lies in
  memory at \<open>tb\<close>: \<open>base\<close>, \<open>used_by\<close> in the low byte of the second cell, and the pointer to the use
  records.  The page returned is read from the entry after the page has been zeroed.
\<close>

definition entry_addr :: "u64 \<Rightarrow> nat \<Rightarrow> u64" where
  "entry_addr tb i = tb + PAGE_ENTRY_SIZE * of_nat i"

definition mem_used :: "(u64 \<Rightarrow> u64) \<Rightarrow> u64 \<Rightarrow> nat \<Rightarrow> u8" where
  "mem_used m tb i = ucast (m (entry_addr tb i + 8))"

definition get_phy_page_mem :: "u64 \<Rightarrow> nat \<Rightarrow> u8 \<Rightarrow> (u64 \<Rightarrow> u64) \<Rightarrow> (u64 \<times> (u64 \<Rightarrow> u64)) option" where
  "get_phy_page_mem tb n u m =
     (case find (\<lambda>i. mem_used m tb i = 0) [0..<n] of
        None \<Rightarrow> None
      | Some i \<Rightarrow>
          let new_page = entry_addr tb i;
              m1 = m(new_page + 8 := (m (new_page + 8) AND NOT (mask 8)) OR ucast u);
              m2 = zero_page m1 (m1 new_page)
          in Some (m2 new_page, m2))"

definition get_phy_page_for_program :: "phy \<Rightarrow> ptr \<Rightarrow> (nat \<times> phy) option" where
  "get_phy_page_for_program s mp =
     (case find_free_page_entry (pages s) of
        None \<Rightarrow> None
      | Some i \<Rightarrow>
          Some (i, s\<lparr>pages := (pages s)[i := (pages s ! i)\<lparr>used_by := 3,
                       use_record := [\<lparr>ur_type = 1, ur_pt = mp\<rparr>]\<rparr>]\<rparr>))"

definition dup_page_for_program :: "phy \<Rightarrow> nat \<Rightarrow> ptr \<Rightarrow> phy option" where
  "dup_page_for_program s i mp =
     (let e = pages s ! i
      in if \<not> i < length (pages s) \<or> used_by e \<noteq> 3 then None
         else (case use_record e of
                 [] \<Rightarrow> None
               | r # rs \<Rightarrow>
                   Some (s\<lparr>pages := (pages s)[i := e\<lparr>use_record :=
                     (r\<lparr>ur_type := 1\<rparr> # rs) @ [\<lparr>ur_type = 1, ur_pt = mp\<rparr>]\<rparr>]\<rparr>)))"

text \<open>
  \<open>free_page_for_program\<close>: a matching head record is unlinked alone, and the page is freed
  when it was the only one (the entry's pointer is left as it is); otherwise every matching
  record after the head is unlinked, and there must be one.
\<close>

definition free_page_for_program :: "phy \<Rightarrow> nat \<Rightarrow> ptr \<Rightarrow> phy option" where
  "free_page_for_program s i mp =
     (let e = pages s ! i
      in if \<not> i < length (pages s) \<or> used_by e \<noteq> 3 then None
         else (case use_record e of
                 [] \<Rightarrow> None
               | r # rs \<Rightarrow>
                   if ur_pt r = mp then
                     (case rs of
                        [] \<Rightarrow> Some (s\<lparr>pages := (pages s)[i := e\<lparr>used_by := 0\<rparr>]\<rparr>)
                      | _ \<Rightarrow> Some (s\<lparr>pages := (pages s)[i := e\<lparr>use_record := rs\<rparr>]\<rparr>))
                   else if \<exists>r' \<in> set rs. ur_pt r' = mp then
                     Some (s\<lparr>pages := (pages s)[i := e\<lparr>use_record :=
                       r # filter (\<lambda>r'. ur_pt r' \<noteq> mp) rs\<rparr>]\<rparr>)
                   else None))"

section \<open>What the searches return\<close>

lemma find_free_from_Some:
  "find_free_from k es = Some i \<longleftrightarrow>
     k \<le> i \<and> i - k < length es \<and> used_by (es ! (i - k)) = 0 \<and> (\<forall>j < i - k. used_by (es ! j) \<noteq> 0)"
proof (induction k es rule: find_free_from.induct)
  case (1 k)
  then show ?case by simp
next
  case (2 k e es)
  show ?case
  proof (cases "used_by e = 0")
    case True
    then show ?thesis by (cases "i = k") (auto intro: exI [of _ 0])
  next
    case False
    have "\<And>m. (\<forall>j < Suc m. used_by ((e # es) ! j) \<noteq> 0) \<longleftrightarrow> (\<forall>j < m. used_by (es ! j) \<noteq> 0)"
      using False by (auto simp: All_less_Suc2)
    note shift = this
    show ?thesis
    proof (cases "i \<le> k")
      case True
      with False 2 show ?thesis by auto
    next
      case iklt: False
      then obtain m where "i = Suc k + m" by (metis less_iff_Suc_add not_le add_Suc)
      with False 2 show ?thesis by (simp add: shift del: nth_Cons_Suc)
    qed
  qed
qed

lemma find_free_Some_iff:
  "find_free_page_entry es = Some i \<longleftrightarrow>
     i < length es \<and> used_by (es ! i) = 0 \<and> (\<forall>j < i. used_by (es ! j) \<noteq> 0)"
  by (simp add: find_free_page_entry_def find_free_from_Some)

lemma find_free_None_iff:
  "find_free_page_entry es = None \<longleftrightarrow> (\<forall>e \<in> set es. used_by e \<noteq> 0)"
proof -
  have "find_free_from k es = None \<longleftrightarrow> (\<forall>e \<in> set es. used_by e \<noteq> 0)" for k
    by (induction k es rule: find_free_from.induct) auto
  then show ?thesis by (simp add: find_free_page_entry_def)
qed

definition free_run :: "phy \<Rightarrow> nat \<Rightarrow> nat \<Rightarrow> bool" where
  "free_run s i n \<longleftrightarrow> i + n \<le> length (pages s) \<and>
     (\<forall>k < n. used_by (pages s ! (i + k)) = 0 \<and>
        base (pages s ! (i + k)) = base_before s (i + k) + 4096)"

lemma run_from_Inl:
  assumes "run_from s num st c accu = Inl r"
    and "c = st + unat accu" "free_run s st (unat accu)" "unat accu \<le> unat num"
  shows "r = st \<and> free_run s st (unat num) \<and> st + unat num < length (pages s)"
  using assms
proof (induction s num st c accu rule: run_from.induct)
  case (1 s num st c accu)
  show ?case
  proof (cases "accu = num")
    case True
    with 1 show ?thesis by (subst (asm) (2) run_from.simps) (auto split: if_splits)
  next
    case False
    with 1 have c: "c < length (pages s)" "base_before s c + 4096 = base (pages s ! c)"
      "used_by (pages s ! c) = 0" and r: "run_from s num st (Suc c) (accu + 1) = Inl r"
      by (subst (asm) (2) run_from.simps; auto split: if_splits)+
    from False 1 have "unat accu < unat num"
      by (metis nat_less_le unsigned_word_eqI)
    then have "accu < num" by (simp add: word_less_nat_alt)
    then have u: "unat (accu + 1) = Suc (unat accu)" by (rule unat_Suc_less)
    have "free_run s st (unat (accu + 1))"
      using 1 c u by (auto simp: free_run_def less_Suc_eq)
    with False 1 c r u \<open>unat accu < unat num\<close> show ?thesis by simp
  qed
qed

lemma many_from_free_run:
  "many_from s num c = Some i \<Longrightarrow> free_run s i (unat num) \<and> i + unat num < length (pages s)"
proof (induction s num c rule: many_from.induct)
  case (1 s num c)
  show ?case
  proof (cases "c < length (pages s)")
    case True
    show ?thesis
    proof (cases "run_from s num c c 0")
      case (Inl r)
      then have "r = c \<and> free_run s c (unat num) \<and> c + unat num < length (pages s)"
        by (rule run_from_Inl) (use True in \<open>auto simp: free_run_def\<close>)
      with Inl True 1 show ?thesis by (simp add: many_from.simps [of s num c])
    next
      case (Inr c')
      with True 1 show ?thesis by (simp add: many_from.simps [of s num c])
    qed
  next
    case False
    with 1 show ?thesis by (simp add: many_from.simps [of s num c])
  qed
qed

section \<open>What allocation does to the table\<close>

definition free_bases :: "phy \<Rightarrow> u64 set" where
  "free_bases s = base ` {e \<in> set (pages s). used_by e = 0}"

lemma length_set_used [simp]: "length (set_used es i u) = length es"
  by (simp add: set_used_def)

lemma map_base_set_used [simp]: "map base (set_used es i u) = map base es"
proof (cases "i < length es")
  case True
  then have "(map base es)[i := base (es ! i)] = map base es"
    by (metis list_update_id nth_map)
  then show ?thesis by (simp add: set_used_def map_update)
qed (simp add: set_used_def list_update_beyond)

lemma free_bases_filter: "free_bases s = set (map base (filter (\<lambda>e. used_by e = 0) (pages s)))"
  by (auto simp: free_bases_def)

lemma free_bases_nth:
  "b \<in> free_bases s \<longleftrightarrow> (\<exists>k < length (pages s). used_by (pages s ! k) = 0 \<and> b = base (pages s ! k))"
  unfolding free_bases_def by (auto simp: image_iff in_set_conv_nth Bex_def)

lemma free_bases_update:
  assumes d: "distinct (map base (pages s))" and i: "i < length (pages s)"
    and e: "used_by e \<noteq> 0" "base e = base (pages s ! i)"
  shows "free_bases (s\<lparr>pages := (pages s)[i := e]\<rparr>) = free_bases s - {base (pages s ! i)}"
proof -
  have eq: "base (pages s ! k) = base (pages s ! i) \<longleftrightarrow> k = i" if "k < length (pages s)" for k
    using nth_eq_iff_index_eq [OF d, of k i] i that by simp
  have nth: "(pages s)[i := e] ! k = (if k = i then e else pages s ! k)" if "k < length (pages s)" for k
    using that by (simp add: nth_list_update)
  have "b \<in> free_bases (s\<lparr>pages := (pages s)[i := e]\<rparr>) \<longleftrightarrow>
      (\<exists>k < length (pages s). k \<noteq> i \<and> used_by (pages s ! k) = 0 \<and> b = base (pages s ! k))" for b
    unfolding free_bases_nth using e(1) by (auto simp: nth cong: conj_cong split: if_splits)
  then show ?thesis by (intro set_eqI) (use eq in \<open>auto simp: free_bases_nth [of _ s]\<close>)
qed

lemma free_bases_set_used:
  "distinct (map base (pages s)) \<Longrightarrow> i < length (pages s) \<Longrightarrow> u \<noteq> 0 \<Longrightarrow>
   free_bases (s\<lparr>pages := set_used (pages s) i u\<rparr>) = free_bases s - {base (pages s ! i)}"
  unfolding set_used_def by (rule free_bases_update) simp_all

lemma map_base_update [simp]:
  "base e = base (es ! i) \<Longrightarrow> map base (es[i := e]) = map base es"
  by (cases "i < length es") (simp_all add: map_update list_update_same_conv list_update_beyond)

lemma mark_run_Some:
  assumes "c + n \<le> length es" "\<forall>k < n. used_by (es ! (c + k)) = 0"
  shows "\<exists>es'. mark_run es c n u = Some es' \<and> length es' = length es \<and>
           (\<forall>k < length es. es' ! k =
              (if c \<le> k \<and> k < c + n then (es ! k)\<lparr>used_by := u\<rparr> else es ! k))"
  using assms
proof (induction n arbitrary: es c)
  case 0
  then show ?case by auto
next
  case (Suc n)
  let ?es = "set_used es c u"
  have "\<forall>k < n. used_by (?es ! (Suc c + k)) = 0"
  proof (intro allI impI)
    fix k assume "k < n"
    then have "used_by (es ! (c + Suc k)) = 0" using Suc.prems(2) by blast
    then show "used_by (?es ! (Suc c + k)) = 0" by (simp add: set_used_def)
  qed
  with Suc.IH [of "Suc c" ?es] Suc.prems obtain es' where
    "mark_run ?es (Suc c) n u = Some es'" "length es' = length es"
    "\<forall>k < length es. es' ! k =
       (if Suc c \<le> k \<and> k < Suc c + n then (?es ! k)\<lparr>used_by := u\<rparr> else ?es ! k)"
    by auto
  moreover have "used_by (es ! c) = 0" using Suc.prems(2) by auto
  ultimately show ?case using Suc.prems(1)
    by (auto simp: set_used_def nth_list_update)
qed

section \<open>Sharing pages between memory maps\<close>

text \<open>
  The interface the process code relies on: a page is owned by a set of memory maps, the
  last release gives it back.
\<close>

locale page_sharing =
  fixes wf :: "'s \<Rightarrow> bool"
    and users :: "'s \<Rightarrow> nat \<Rightarrow> ptr set"
    and avail :: "'s \<Rightarrow> nat set"
    and alloc :: "'s \<Rightarrow> ptr \<Rightarrow> (nat \<times> 's) option"
    and dup :: "'s \<Rightarrow> nat \<Rightarrow> ptr \<Rightarrow> 's option"
    and free :: "'s \<Rightarrow> nat \<Rightarrow> ptr \<Rightarrow> 's option"
  assumes alloc_law: "wf s \<Longrightarrow> alloc s m = Some (i, s') \<Longrightarrow>
      i \<in> avail s \<and> wf s' \<and> users s' = (users s)(i := {m}) \<and> avail s' = avail s - {i}"
    and alloc_ready: "wf s \<Longrightarrow> avail s \<noteq> {} \<Longrightarrow> alloc s m \<noteq> None"
    and dup_law: "wf s \<Longrightarrow> users s i \<noteq> {} \<Longrightarrow> m \<notin> users s i \<Longrightarrow>
      \<exists>s'. dup s i m = Some s' \<and> wf s' \<and> users s' = (users s)(i := insert m (users s i)) \<and>
           avail s' = avail s"
    and free_law: "wf s \<Longrightarrow> m \<in> users s i \<Longrightarrow>
      \<exists>s'. free s i m = Some s' \<and> wf s' \<and> users s' = (users s)(i := users s i - {m}) \<and>
           avail s' = (if users s i = {m} then insert i (avail s) else avail s)"
begin

lemma share_then_release:
  assumes "wf s" "users s i \<noteq> {}" "m \<notin> users s i"
  shows "\<exists>s1 s2. dup s i m = Some s1 \<and> free s1 i m = Some s2 \<and>
           users s2 = users s \<and> avail s2 = avail s"
proof -
  from dup_law [OF assms] obtain s1 where s1: "dup s i m = Some s1" "wf s1"
    "users s1 = (users s)(i := insert m (users s i))" "avail s1 = avail s" by blast
  then have "m \<in> users s1 i" by simp
  from free_law [OF s1(2) this] obtain s2 where s2: "free s1 i m = Some s2"
    "users s2 = (users s1)(i := users s1 i - {m})"
    "avail s2 = (if users s1 i = {m} then insert i (avail s1) else avail s1)" by blast
  moreover have "users s1 i \<noteq> {m}" using s1 assms by auto
  ultimately show ?thesis using s1 assms by (auto simp: fun_upd_idem_iff)
qed

fun release_all :: "'s \<Rightarrow> nat \<Rightarrow> ptr list \<Rightarrow> 's option" where
  "release_all s i [] = Some s"
| "release_all s i (m # ms) = (case free s i m of None \<Rightarrow> None | Some s' \<Rightarrow> release_all s' i ms)"

lemma release_all_frees:
  assumes "wf s" "distinct ms" "set ms = users s i" "ms \<noteq> []"
  shows "\<exists>s'. release_all s i ms = Some s' \<and> wf s' \<and> users s' = (users s)(i := {}) \<and>
           avail s' = insert i (avail s)"
  using assms
proof (induction ms arbitrary: s)
  case Nil
  then show ?case by simp
next
  case (Cons m ms)
  then have "m \<in> users s i" by auto
  from free_law [OF Cons.prems(1) this] obtain s1 where s1: "free s i m = Some s1" "wf s1"
    "users s1 = (users s)(i := users s i - {m})"
    "avail s1 = (if users s i = {m} then insert i (avail s) else avail s)" by blast
  show ?case
  proof (cases "ms = []")
    case True
    with Cons.prems s1 show ?thesis by auto
  next
    case False
    from Cons.prems s1 have "set ms = users s1 i" by auto
    moreover from Cons.prems False have "users s i \<noteq> {m}"
      by (metis distinct.simps(2) list.set_intros(1) list.set(2) list.set_sel(1) singletonD insertI2)
    ultimately obtain s2 where "release_all s1 i ms = Some s2" "wf s2"
      "users s2 = (users s1)(i := {})" "avail s2 = insert i (avail s1)"
      using Cons.IH [OF s1(2) _ _ False] Cons.prems(2) by (metis distinct.simps(2))
    moreover have "(users s1)(i := {}) = (users s)(i := {})" using s1 by simp
    ultimately show ?thesis using s1 \<open>users s i \<noteq> {m}\<close> by (auto simp: fun_upd_def)
  qed
qed

end

definition users_wf :: "phy \<Rightarrow> bool" where
  "users_wf s \<longleftrightarrow> (\<forall>e \<in> set (pages s). used_by e = 3 \<longrightarrow>
     use_record e \<noteq> [] \<and> distinct (map ur_pt (use_record e)))"

definition page_users :: "phy \<Rightarrow> nat \<Rightarrow> ptr set" where
  "page_users s i = (if i < length (pages s) \<and> used_by (pages s ! i) = 3
     then ur_pt ` set (use_record (pages s ! i)) else {})"

definition avail_pages :: "phy \<Rightarrow> nat set" where
  "avail_pages s = {i. i < length (pages s) \<and> used_by (pages s ! i) = 0}"

lemma users_wf_update:
  "users_wf s \<Longrightarrow> used_by e = 3 \<longrightarrow> use_record e \<noteq> [] \<and> distinct (map ur_pt (use_record e))
   \<Longrightarrow> users_wf (s\<lparr>pages := (pages s)[i := e]\<rparr>)"
  unfolding users_wf_def using set_update_subset_insert [of "pages s" i e] by fastforce

lemma page_users_update:
  "i < length (pages s) \<Longrightarrow> page_users (s\<lparr>pages := (pages s)[i := e]\<rparr>) =
     (page_users s)(i := if used_by e = 3 then ur_pt ` set (use_record e) else {})"
  by (rule ext) (auto simp: page_users_def nth_list_update)

lemma avail_pages_update:
  "i < length (pages s) \<Longrightarrow> avail_pages (s\<lparr>pages := (pages s)[i := e]\<rparr>) =
     (if used_by e = 0 then insert i (avail_pages s) else avail_pages s - {i})"
  by (auto simp: avail_pages_def nth_list_update split: if_splits)

lemmas page_update = users_wf_update page_users_update avail_pages_update

interpretation phy_sharing: page_sharing users_wf page_users avail_pages
  get_phy_page_for_program dup_page_for_program free_page_for_program
proof (unfold_locales, goal_cases)
  case (1 s m i s')
  then show ?case
    by (auto simp: get_phy_page_for_program_def find_free_Some_iff avail_pages_def nth_list_update
        page_users_update intro!: users_wf_update split: option.splits if_splits)
next
  case (2 s m)
  then show ?case
    by (auto simp: get_phy_page_for_program_def find_free_None_iff avail_pages_def
        split: option.splits)
next
  case (3 s i m)
  then have i: "i < length (pages s)" "used_by (pages s ! i) = 3"
    by (auto simp: page_users_def split: if_splits)
  with 3 obtain r rs where rs: "use_record (pages s ! i) = r # rs"
    by (auto simp: page_users_def neq_Nil_conv)
  from 3 i have "pages s ! i \<in> set (pages s)" by simp
  with 3(1) i rs have "distinct (map ur_pt (r # rs))" by (force simp: users_wf_def)
  moreover from 3 i rs have "m \<notin> ur_pt ` set (r # rs)" by (auto simp: page_users_def)
  moreover have "i \<notin> avail_pages s" using i by (simp add: avail_pages_def)
  ultimately show ?case using 3 i rs
    by (auto simp: dup_page_for_program_def Let_def page_update page_users_def insert_commute
        intro!: users_wf_update)
next
  case (4 s m i)
  then have i: "i < length (pages s)" "used_by (pages s ! i) = 3"
    by (auto simp: page_users_def split: if_splits)
  with 4 obtain r rs where rs: "use_record (pages s ! i) = r # rs"
    by (cases "use_record (pages s ! i)") (auto simp: page_users_def)
  from 4 i have "pages s ! i \<in> set (pages s)" by simp
  with 4(1) i rs have d: "distinct (map ur_pt (r # rs))" by (force simp: users_wf_def)
  have pu: "page_users s i = ur_pt ` set (r # rs)" using i rs by (simp add: page_users_def)
  have na: "i \<notin> avail_pages s" using i by (simp add: avail_pages_def)
  show ?case
  proof (cases "ur_pt r = m")
    case True
    with 4 i rs d pu na show ?thesis
      by (cases rs)
         (auto simp: free_page_for_program_def Let_def page_update intro!: users_wf_update)
  next
    case False
    with 4 pu have "\<exists>r' \<in> set rs. ur_pt r' = m" by auto
    moreover have "insert (ur_pt r) (ur_pt ` {x \<in> set rs. ur_pt x \<noteq> m}) = page_users s i - {m}"
      using False pu by auto
    ultimately show ?thesis using False 4 i rs d pu na
      by (auto simp: free_page_for_program_def Let_def page_update distinct_map_filter
          intro!: users_wf_update)
  qed
qed

section \<open>The table that \<open>phy_page_init\<close> builds\<close>

definition reserved :: "nat \<Rightarrow> nat" where
  "reserved n = 1 + (n - 1) div 512"

definition zone_table :: "nat \<Rightarrow> page_entry list" where
  "zone_table n = map (\<lambda>k. \<lparr>base = 0x400000 + 4096 * of_nat k,
      used_by = (if k < reserved n then 1 else 0), use_record = []\<rparr>) [0..<n]"

lemma length_zone_table [simp]: "length (zone_table n) = n"
  by (simp add: zone_table_def)

lemma find_free_zone_table:
  "find_free_page_entry (zone_table n) = (if reserved n < n then Some (reserved n) else None)"
proof (cases "reserved n < n")
  case True
  then show ?thesis by (simp add: find_free_Some_iff zone_table_def)
next
  case False
  then show ?thesis by (auto simp: find_free_None_iff zone_table_def)
qed

lemma table_end_boundary:
  assumes "n < 30000"
  shows "(0x400000 + PAGE_ENTRY_SIZE * of_nat n :: u64) mod 4096 = 0 \<longleftrightarrow> 512 dvd n"
proof -
  have u: "unat (0x400000 + PAGE_ENTRY_SIZE * of_nat n :: u64) = 0x400000 + 24 * n"
    using assms by (simp add: PAGE_ENTRY_SIZE_def unat_word_ariths unat_of_nat)
  have "(0x400000 + PAGE_ENTRY_SIZE * of_nat n :: u64) mod 4096 = 0 \<longleftrightarrow>
      (0x400000 + 24 * n) mod 4096 = 0"
    by (simp add: unat_mod u flip: unat_eq_0)
  also have "\<dots> \<longleftrightarrow> 4096 dvd 0x400000 + 24 * n" by (simp add: dvd_eq_mod_eq_0)
  also have "\<dots> \<longleftrightarrow> 4096 dvd 24 * n"
    using dvd_add_right_iff [of 4096 "0x400000 :: nat" "24 * n"] by simp
  also have "\<dots> \<longleftrightarrow> 8 * 512 dvd 8 * (3 * n)" by simp
  also have "\<dots> \<longleftrightarrow> 512 dvd 3 * n" 
    by (simp only: nat_mult_dvd_cancel_disj) simp
  also have "\<dots> \<longleftrightarrow> 512 dvd n"
  proof -
    have "coprime (512 :: nat) 3" by (simp add: coprime_iff_gcd_eq_1 gcd_non_0_nat)
    then show ?thesis by (rule coprime_dvd_mult_right_iff)
  qed
  finally show ?thesis .
qed

lemma reserved_Suc:
  "0 < n \<Longrightarrow> reserved (Suc n) = (if 512 dvd n then Suc (reserved n) else reserved n)"
  unfolding reserved_def by (cases n) (auto simp: div_Suc dvd_eq_mod_eq_0)

lemma reserved_less: "1 < n \<Longrightarrow> reserved n < n"
  unfolding reserved_def using div_less_dividend [of 512 "n - 1"] by simp

lemma add_entry_zone:
  assumes "0 < n" "n < 30000" "table_base t = 0x400000" "table t = zone_table n"
  shows "table (add_entry t (0x400000 + 4096 * of_nat n)) = zone_table (Suc n)"
proof -
  let ?es = "if table_end t mod 4096 = 0 then
               (case find_free_page_entry (table t) of
                  Some i \<Rightarrow> set_used (table t) i 1 | None \<Rightarrow> table t)
             else table t"
  have b: "table_end t mod 4096 = 0 \<longleftrightarrow> 512 dvd n"
    using assms by (simp add: table_end_def table_end_boundary)
  have "?es = map (\<lambda>k. \<lparr>base = 0x400000 + 4096 * of_nat k,
      used_by = (if k < reserved (Suc n) then 1 else 0), use_record = []\<rparr>) [0..<n]"
  proof (cases "512 dvd n")
    case True
    with assms(1) have "1 < n" by (auto elim!: dvdE)
    with True assms b show ?thesis
      by (simp add: find_free_zone_table reserved_less reserved_Suc)
         (auto intro!: nth_equalityI simp: zone_table_def set_used_def nth_list_update less_Suc_eq)
  next
    case False
    with assms b show ?thesis by (simp add: zone_table_def reserved_Suc)
  qed
  moreover have "\<not> n < reserved (Suc n)"
    using assms(1) reserved_less [of "Suc n"] by simp
  ultimately show ?thesis
    by (simp add: add_entry_def Let_def zone_table_def)
qed

lemma add_entry_fields [simp]:
  "table_base (add_entry t z) = table_base t"
  "total_space (add_entry t z) = total_space t + 4096"
  by (simp_all add: add_entry_def Let_def)

lemma zone_loop_table:
  assumes "0 < n" "table_base t = 0x400000" "table t = zone_table n"
    and "c = 0x400000 + 4096 * of_nat n"
    and "4096 * (n - 1) \<le> unat (total_space t)" "unat (total_space t) \<le> unat MEMORY_CAP + 4096"
  shows "table_base (zone_loop t c e) = 0x400000 \<and>
    (\<exists>m. 0 < m \<and> m \<le> 25602 \<and> table (zone_loop t c e) = zone_table m)"
  using assms
proof (induction t c e arbitrary: n rule: zone_loop.induct)
  case (1 t c e)
  from 1 have n: "n \<le> 25602" by (simp add: MEMORY_CAP_def)
  show ?case
  proof (cases "c < e \<and> \<not> MEMORY_CAP < total_space t")
    case True
    then have le: "unat (total_space t) \<le> unat MEMORY_CAP"
      by (simp add: word_le_nat_alt not_less)
    have u: "unat (total_space t + 4096) = unat (total_space t) + 4096"
      using le unat_add_nowrap [of "total_space t" 4096] by (simp add: MEMORY_CAP_def)
    have tab: "table (add_entry t c) = zone_table (Suc n)"
      using 1 n by (simp add: add_entry_zone)
    have "table_base (zone_loop (add_entry t c) (c + 4096) e) = 0x400000 \<and>
      (\<exists>m. 0 < m \<and> m \<le> 25602 \<and> table (zone_loop (add_entry t c) (c + 4096) e) = zone_table m)"
      by (rule "1.IH" [of "Suc n"]) (use True 1 le u tab in \<open>auto simp: algebra_simps\<close>)
    with True show ?thesis by (simp add: zone_loop.simps [of t c e])
  next
    case False
    then have "zone_loop t c e = t" by (auto simp: zone_loop.simps [of t c e])
    with 1 n show ?thesis by auto
  qed
qed

lemma second_zone_table:
  assumes "second_zone pts z t = Some t'" "total_space t \<le> MEMORY_CAP"
  shows "table_base t' = 0x400000 \<and> (\<exists>m. 0 < m \<and> m \<le> 25602 \<and> table t' = zone_table m)"
proof -
  let ?start = "t\<lparr>table_base := 0x400000,
    table := [\<lparr>base = 0x400000, used_by = 1, use_record = []\<rparr>]\<rparr>"
  let ?e = "0x400000 + (sm_length z - 0x300000) :: u64"
  from assms have t': "t' = zone_loop ?start (0x400000 + 4096) ?e"
    by (auto simp: second_zone_def Let_def split: if_splits)
  have "unat (total_space t) \<le> unat MEMORY_CAP" using assms by (simp add: word_le_nat_alt)
  then show ?thesis
    unfolding t'
    by (intro zone_loop_table [of 1]) (auto simp: zone_table_def reserved_def)
qed

text \<open>A zone that is long enough is entered in full, up to the memory cap.\<close>

lemma zone_loop_grows:
  assumes "unat c + 4096 * k \<le> unat e"
    and "unat (total_space t) + 4096 * k \<le> unat MEMORY_CAP"
  shows "length (table t) + k \<le> length (table (zone_loop t c e))"
  using assms
proof (induction k arbitrary: t c)
  case 0
  have "length (table t) \<le> length (table (zone_loop t c e))"
  proof (induction t c e rule: zone_loop.induct)
    case (1 t c e)
    have "length (table t) \<le> length (table (add_entry t c))"
      by (auto simp: add_entry_def Let_def split: option.splits)
    with 1 show ?case by (auto simp: zone_loop.simps [of t c e])
  qed
  then show ?case by simp
next
  case (Suc k)
  then have ce: "unat c + 4096 < 18446744073709551616"
    using unat_u64_bound [of e] by (simp del: unat_u64_bound)
  from Suc have "c < e" "\<not> MEMORY_CAP < total_space t"
    by (simp_all add: word_less_nat_alt)
  then have step: "zone_loop t c e = zone_loop (add_entry t c) (c + 4096) e"
    by (simp add: zone_loop.simps [of t c e])
  have "unat (c + 4096) = unat c + 4096" using ce unat_add_nowrap [of c 4096] by simp
  moreover have "unat (total_space t + 4096) = unat (total_space t) + 4096"
    using Suc unat_add_nowrap [of "total_space t" 4096] by (simp add: MEMORY_CAP_def)
  moreover have "length (table (add_entry t c)) = Suc (length (table t))"
    by (auto simp: add_entry_def Let_def split: option.splits)
  ultimately show ?case
    using Suc.IH [of "c + 4096" "add_entry t c"] Suc.prems step by simp
qed

section \<open>Properties\<close>

lemma get_phy_page_single:
  assumes "distinct (map base (pages s))" "num \<le> 1" "u \<noteq> 0" "free_bases s \<noteq> {}"
  shows "\<exists>b s'. get_phy_page s num u = Some (b, s') \<and> b \<in> free_bases s \<and>
           free_bases s' = free_bases s - {b} \<and> map base (pages s') = map base (pages s) \<and>
           pmem s' = (\<lambda>a. if a - b < 4096 then 0 else pmem s a)"
proof -
  from assms(4) have "find_free_page_entry (pages s) \<noteq> None"
    by (auto simp: free_bases_def find_free_None_iff)
  then obtain i where i: "find_free_page_entry (pages s) = Some i" by blast
  then have l: "i < length (pages s)" and f: "used_by (pages s ! i) = 0"
    by (simp_all add: find_free_Some_iff)
  from l f have "base (pages s ! i) \<in> free_bases s" by (simp add: free_bases_def)
  moreover have "\<not> 1 < num" using assms(2) by simp
  moreover have "free_bases (s\<lparr>pages := set_used (pages s) i u, pmem := m\<rparr>)
      = free_bases s - {base (pages s ! i)}" for m
    using free_bases_set_used [OF assms(1) l assms(3)] by (simp add: free_bases_def)
  ultimately show ?thesis using i
    by (simp add: get_phy_page_def zero_page_def)
qed

text \<open>
  The state \<open>s\<close> as it lies in memory \<open>m\<close>: the table at \<open>tb\<close>, and the memory of \<open>s\<close> elsewhere; and
  a page none of whose bytes belongs to the table.
\<close>

definition in_memory :: "u64 \<Rightarrow> phy \<Rightarrow> (u64 \<Rightarrow> u64) \<Rightarrow> bool" where
  "in_memory tb s m \<longleftrightarrow>
     (\<forall>i < length (pages s). m (entry_addr tb i) = base (pages s ! i) \<and> mem_used m tb i = used_by (pages s ! i)) \<and>
     (\<forall>a. 24 * length (pages s) \<le> unat (a - tb) \<longrightarrow> m a = pmem s a)"

definition apart :: "u64 \<Rightarrow> nat \<Rightarrow> u64 \<Rightarrow> bool" where
  "apart tb n b \<longleftrightarrow> (\<forall>k < 24 * n. \<not> tb + of_nat k - b < 4096)"

lemma entry_addr_off: "entry_addr tb i = tb + of_nat (24 * i)" "entry_addr tb i + 8 = tb + of_nat (24 * i + 8)"
  by (simp_all add: entry_addr_def PAGE_ENTRY_SIZE_def)

lemma entry_addr_cells:
  assumes "i < n" "j < n" "n < 2 ^ 59"
  shows "entry_addr tb j \<noteq> entry_addr tb i + 8" "entry_addr tb j + 8 = entry_addr tb i + 8 \<longleftrightarrow> j = i"
    "unat (entry_addr tb i + 8 - tb) < 24 * n"
    "apart tb n b \<Longrightarrow> \<not> entry_addr tb i - b < 4096" "apart tb n b \<Longrightarrow> \<not> entry_addr tb i + 8 - b < 4096"
proof -
  have u: "unat (of_nat k :: u64) = k" if "k < 24 * n" for k
    using that assms(3) by (simp add: unat_of_nat take_bit_nat_eq_self)
  have inj: "tb + of_nat k = (tb + of_nat l :: u64) \<longleftrightarrow> k = l" if "k < 24 * n" "l < 24 * n" for k l
    using u [OF that(1)] u [OF that(2)] by (metis add_left_cancel)
  have "24 * j \<noteq> 24 * i + 8" by presburger
  then show "entry_addr tb j \<noteq> entry_addr tb i + 8"
    unfolding entry_addr_off(2) unfolding entry_addr_off(1) using inj [of "24 * j" "24 * i + 8"] assms by linarith
  show "entry_addr tb j + 8 = entry_addr tb i + 8 \<longleftrightarrow> j = i"
    unfolding entry_addr_off(2) using inj [of "24 * j + 8" "24 * i + 8"] assms by auto
  show "unat (entry_addr tb i + 8 - tb) < 24 * n"
    unfolding entry_addr_off(2) using u [of "24 * i + 8"] assms by simp
  have out: "\<not> tb + of_nat k - b < 4096" if "apart tb n b" "k < 24 * n" for k using that by (simp add: apart_def)
  show "apart tb n b \<Longrightarrow> \<not> entry_addr tb i - b < 4096" "apart tb n b \<Longrightarrow> \<not> entry_addr tb i + 8 - b < 4096"
    unfolding entry_addr_off(2) unfolding entry_addr_off(1) by (rule out, assumption, use assms in linarith)+
qed

lemma ucast_mark: "ucast ((w AND NOT (mask 8)) OR ucast (u :: u8) :: u64) = u"
  by (rule bit_word_eqI) (auto simp: bit_simps)

lemma find_free_mem:
  assumes "in_memory tb s m"
  shows "find (\<lambda>i. mem_used m tb i = 0) [0..<length (pages s)] = find_free_page_entry (pages s)"
proof -
  have eq: "mem_used m tb i = used_by (pages s ! i)" if "i < length (pages s)" for i
    using assms that by (simp add: in_memory_def)
  show ?thesis
  proof (cases "find_free_page_entry (pages s)")
    case None
    then have "find (\<lambda>i. mem_used m tb i = 0) [0..<length (pages s)] = None"
      using eq by (auto simp: find_free_None_iff find_None_iff)
    with None show ?thesis by simp
  next
    case (Some k)
    then have "find (\<lambda>i. mem_used m tb i = 0) [0..<length (pages s)] = Some k"
      using eq by (auto simp: find_free_Some_iff find_Some_iff intro!: exI [of _ k])
    with Some show ?thesis by simp
  qed
qed

lemma get_phy_page_mem_agrees:
  assumes g: "get_phy_page s num u = Some (b, s')" and "num \<le> 1" and im: "in_memory tb s m" and l: "length (pages s) < 2 ^ 59"
  shows "\<exists>b' m'. get_phy_page_mem tb (length (pages s)) u m = Some (b', m') \<and> (\<forall>a. a - b < 4096 \<longrightarrow> m' a = 0) \<and>
     (apart tb (length (pages s)) b \<longrightarrow> b' = b \<and> in_memory tb s' m')"
proof -
  have n1: "\<not> 1 < num" using assms(2) by simp
  from g n1 obtain i where i: "find_free_page_entry (pages s) = Some i" "b = base (pages s ! i)"
    "s' = s\<lparr>pages := set_used (pages s) i u, pmem := zero_page (pmem s) b\<rparr>"
    by (auto simp: get_phy_page_def split: option.splits)
  have li: "i < length (pages s)" using i(1) by (simp add: find_free_Some_iff)
  define m1 where "m1 = m(entry_addr tb i + 8 := (m (entry_addr tb i + 8) AND NOT (mask 8)) OR ucast u)"
  note cells = entry_addr_cells [OF li _ l]
  have bi: "m1 (entry_addr tb i) = b"
    using im li i(2) by (simp add: m1_def in_memory_def)
  have gm: "get_phy_page_mem tb (length (pages s)) u m = Some (zero_page m1 b (entry_addr tb i), zero_page m1 b)"
    using find_free_mem [OF im] i(1) bi by (simp add: get_phy_page_mem_def Let_def m1_def)
  have "zero_page m1 b (entry_addr tb i) = b \<and> in_memory tb s' (zero_page m1 b)" if ap: "apart tb (length (pages s)) b"
  proof -
    have "zero_page m1 b (entry_addr tb j) = base (set_used (pages s) i u ! j) \<and>
        mem_used (zero_page m1 b) tb j = used_by (set_used (pages s) i u ! j)" if j: "j < length (pages s)" for j
      using entry_addr_cells(4,5) [OF j j l ap] cells(1,2) [OF j] im j ucast_mark
      by (auto simp: in_memory_def set_used_def nth_list_update mem_used_def zero_page_def m1_def)
    moreover have "zero_page m1 b a = zero_page (pmem s) b a" if a: "24 * length (pages s) \<le> unat (a - tb)" for a
      using cells(3) [OF li, of tb] im a by (auto simp: zero_page_def m1_def in_memory_def)
    moreover have "zero_page m1 b (entry_addr tb i) = b"
      using cells(4) [OF li ap] bi by (simp add: zero_page_def)
    ultimately show ?thesis by (simp add: in_memory_def i(3))
  qed
  then show ?thesis using gm by (simp add: zero_page_def)
qed

text \<open>
  C22. Allocating one page: whenever some entry is free the call returns, the page handed out
  was free and is not free afterwards, no other page changes hands, the entries keep their
  pages, and the handed-out page, and nothing else in physical memory, reads as zero. With the table
  in memory the same call zeroes the same page; when that page is apart from the table, it returns
  the same address and leaves the state of the first call in memory, and otherwise every
  entry inside the page is lost: it reads as a free entry for the page at address 0.
\<close>

theorem get_phy_page_one:
  assumes "distinct (map base (pages s))" "num \<le> 1" "u \<noteq> 0" "free_bases s \<noteq> {}"
    and "in_memory tb s m" "length (pages s) < 2 ^ 59"
  shows "\<exists>b s' b' m'. get_phy_page s num u = Some (b, s') \<and> b \<in> free_bases s \<and>
           free_bases s' = free_bases s - {b} \<and> map base (pages s') = map base (pages s) \<and>
           pmem s' = (\<lambda>a. if a - b < 4096 then 0 else pmem s a) \<and>
           get_phy_page_mem tb (length (pages s)) u m = Some (b', m') \<and> (\<forall>a. a - b < 4096 \<longrightarrow> m' a = 0) \<and>
           (apart tb (length (pages s)) b \<longrightarrow> b' = b \<and> in_memory tb s' m') \<and>
           (\<forall>j. entry_addr tb j - b < 4096 \<and> entry_addr tb j + 8 - b < 4096 \<longrightarrow>
              m' (entry_addr tb j) = 0 \<and> mem_used m' tb j = 0)"
proof -
  from get_phy_page_single [OF assms(1-4)] obtain b s' where
    g: "get_phy_page s num u = Some (b, s')" "b \<in> free_bases s" "free_bases s' = free_bases s - {b}"
      "map base (pages s') = map base (pages s)" "pmem s' = (\<lambda>a. if a - b < 4096 then 0 else pmem s a)" by blast
  from get_phy_page_mem_agrees [OF g(1) assms(2,5,6)] obtain b' m' where
    "get_phy_page_mem tb (length (pages s)) u m = Some (b', m')" "\<forall>a. a - b < 4096 \<longrightarrow> m' a = 0"
    "apart tb (length (pages s)) b \<longrightarrow> b' = b \<and> in_memory tb s' m'" by blast
  then show ?thesis using g by (intro exI [of _ b] exI [of _ s'] exI [of _ b'] exI [of _ m']) (simp add: mem_used_def)
qed

definition phy_example :: phy where
  "phy_example = \<lparr>pages = [\<lparr>base = 0x400000, used_by = 1, use_record = []\<rparr>,
     \<lparr>base = 0x401000, used_by = 0, use_record = []\<rparr>,
     \<lparr>base = 0x402000, used_by = 0, use_record = []\<rparr>,
     \<lparr>base = 0x403000, used_by = 3, use_record = [\<lparr>ur_type = 1, ur_pt = 8\<rparr>, \<lparr>ur_type = 1, ur_pt = 16\<rparr>]\<rparr>],
     page_entry_before = 0, pmem = (\<lambda>_. 7)\<rparr>"

text \<open>The table of \<open>phy_example\<close> in memory at \<open>0x400000\<close>, where its pages are.\<close>

definition table_example :: "u64 \<Rightarrow> u64" where
  "table_example = (\<lambda>_. 7)(0x400000 := 0x400000, 0x400008 := 1, 0x400018 := 0x401000, 0x400020 := 0,
     0x400030 := 0x402000, 0x400038 := 0, 0x400048 := 0x403000, 0x400050 := 3)"

theorem get_phy_page_one_witness:
  "\<exists>b s' m'. get_phy_page phy_example 1 2 = Some (b, s') \<and> b \<in> free_bases phy_example \<and>
     free_bases s' = free_bases phy_example - {b} \<and>
     get_phy_page_mem 0x400000 4 2 table_example = Some (b, m') \<and> in_memory 0x400000 s' m'"
proof -
  have "pages phy_example ! 1 \<in> set (pages phy_example)" "used_by (pages phy_example ! 1) = 0"
    by (simp_all add: phy_example_def)
  then have ne: "free_bases phy_example \<noteq> {}" unfolding free_bases_def by blast
  have len: "length (pages phy_example) = 4" by (simp add: phy_example_def)
  have "table_example a = 7" if "96 \<le> unat (a - 0x400000)" for a
    using that by (auto simp: table_example_def)
  moreover have "table_example (entry_addr 0x400000 i) = base (pages phy_example ! i) \<and>
      mem_used table_example 0x400000 i = used_by (pages phy_example ! i)" if "i < 4" for i
  proof -
    consider "i = 0" | "i = 1" | "i = 2" | "i = 3" using \<open>i < 4\<close> by linarith
    then show ?thesis
      by cases (simp_all add: phy_example_def table_example_def entry_addr_def PAGE_ENTRY_SIZE_def mem_used_def)
  qed
  ultimately have im: "in_memory 0x400000 phy_example table_example"
    unfolding in_memory_def len by (simp add: phy_example_def)
  have ap: "apart 0x400000 4 b" if "b \<in> free_bases phy_example" for b
  proof -
    have "b = 0x401000 \<or> b = 0x402000" using that by (auto simp: free_bases_def phy_example_def)
    then have "4096 \<le> unat (0x400000 + of_nat k - b)" if "k < 96" for k
      using that by (auto simp: unat_sub_if' unat_word_ariths unat_of_nat)
    then show ?thesis by (auto simp: apart_def word_less_nat_alt not_less)
  qed
  have d: "distinct (map base (pages phy_example))" by (simp add: phy_example_def)
  have "(1 :: u32) \<le> 1" "(2 :: u8) \<noteq> 0" "length (pages phy_example) < 2 ^ 59" by (simp_all add: len)
  from get_phy_page_one [OF d this(1,2) ne im this(3)] obtain b s' b' m' where
    "get_phy_page phy_example 1 2 = Some (b, s')" "b \<in> free_bases phy_example" "free_bases s' = free_bases phy_example - {b}"
    "get_phy_page_mem 0x400000 4 2 table_example = Some (b', m')" "apart 0x400000 4 b \<longrightarrow> b' = b \<and> in_memory 0x400000 s' m'"
    unfolding len by blast
  with ap show ?thesis by blast
qed

text \<open>
  Allocating a run: an index returned by the multi-page search starts \<open>num\<close> free entries
  whose pages are consecutive in memory, so the marking loop of \<open>get_phy_page\<close> never meets its
  assertion: the call returns, exactly these entries change owner, and the entry after the
  run is still inside the table.
\<close>

theorem get_phy_page_many:
  assumes "num > 1" "find_free_page_entry_many s num = Some i"
  shows "\<exists>s'. get_phy_page s num u = Some (base (pages s ! i), s') \<and>
           i + unat num < length (pages s) \<and> length (pages s') = length (pages s) \<and>
           (\<forall>k < unat num. used_by (pages s ! (i + k)) = 0 \<and>
              base (pages s ! (i + k)) = base_before s (i + k) + 4096) \<and>
           (\<forall>k < length (pages s). pages s' ! k =
              (if i \<le> k \<and> k < i + unat num then (pages s ! k)\<lparr>used_by := u\<rparr> else pages s ! k))"
proof -
  from assms(2) have run: "free_run s i (unat num)" "i + unat num < length (pages s)"
    by (simp_all add: find_free_page_entry_many_def many_from_free_run)
  then obtain es where es: "mark_run (pages s) i (unat num) u = Some es"
    "length es = length (pages s)"
    "\<forall>k < length (pages s). es ! k =
       (if i \<le> k \<and> k < i + unat num then (pages s ! k)\<lparr>used_by := u\<rparr> else pages s ! k)"
    using mark_run_Some [of i "unat num" "pages s" u] by (auto simp: free_run_def)
  from es(3) run have "base (es ! i) = base (pages s ! i)" by simp
  with es run assms show ?thesis
    by (auto simp: get_phy_page_def free_run_def)
qed

theorem get_phy_page_many_witness:
  "\<exists>s'. get_phy_page phy_example 2 2 = Some (base (pages phy_example ! 1), s') \<and>
     1 + unat (2 :: u32) < length (pages phy_example) \<and>
     length (pages s') = length (pages phy_example) \<and>
     (\<forall>k < unat (2 :: u32). used_by (pages phy_example ! (1 + k)) = 0 \<and>
        base (pages phy_example ! (1 + k)) = base_before phy_example (1 + k) + 4096) \<and>
     (\<forall>k < length (pages phy_example). pages s' ! k =
        (if 1 \<le> k \<and> k < 1 + unat (2 :: u32)
         then (pages phy_example ! k)\<lparr>used_by := 2\<rparr> else pages phy_example ! k))"
proof (rule get_phy_page_many)
  have [simp]: "length (pages phy_example) = 4" by (simp add: phy_example_def)
  have r0: "run_from phy_example 2 0 0 0 = Inr 0"
    by (subst run_from.simps) (simp add: base_before_def phy_example_def)
  have "run_from phy_example 2 1 (Suc (Suc 1)) 2 = Inl 1" by (subst run_from.simps) simp
  then have "run_from phy_example 2 1 (Suc 1) 1 = Inl 1"
    by (subst run_from.simps) (simp add: base_before_def phy_example_def)
  then have "run_from phy_example 2 1 1 0 = Inl 1"
    by (subst run_from.simps) (simp add: base_before_def phy_example_def)
  then have "many_from phy_example 2 1 = Some 1" by (subst many_from.simps) simp
  then show "find_free_page_entry_many phy_example 2 = Some 1"
    by (simp add: find_free_page_entry_many_def) (subst many_from.simps, simp add: r0)
qed simp

text \<open>
  C23. Shared pages are returned exactly when their last map lets go: from any well-formed
  table, releasing a page for each of its distinct users in turn, in whatever order, always
  returns, leaves every other page's users alone and ends with the page available again.
\<close>

theorem free_page_for_program_last_user:
  assumes "users_wf s" "distinct ms" "set ms = page_users s i" "ms \<noteq> []"
  shows "\<exists>s'. page_sharing.release_all free_page_for_program s i ms = Some s' \<and>
           page_users s' = (page_users s)(i := {}) \<and>
           avail_pages s' = insert i (avail_pages s)"
  using phy_sharing.release_all_frees [OF assms] by blast

theorem free_page_for_program_last_user_witness:
  "\<exists>s'. page_sharing.release_all free_page_for_program phy_example 3 [16, 8] = Some s' \<and>
     page_users s' = (page_users phy_example)(3 := {}) \<and>
     avail_pages s' = insert 3 (avail_pages phy_example)"
  by (rule free_page_for_program_last_user)
     (auto simp: users_wf_def phy_example_def page_users_def)

text \<open>
  A page mapped for one more process and then released by it is as before: after
  \<open>dup_page_for_program\<close> and \<open>free_page_for_program\<close> of the same map, all users and the set
  of available pages are unchanged, so the other process still owns the page.
\<close>

theorem dup_then_free_restores:
  assumes "users_wf s" "page_users s i \<noteq> {}" "m \<notin> page_users s i"
  shows "\<exists>s1 s2. dup_page_for_program s i m = Some s1 \<and> free_page_for_program s1 i m = Some s2 \<and>
           page_users s2 = page_users s \<and> avail_pages s2 = avail_pages s"
  by (rule phy_sharing.share_then_release [OF assms])

theorem dup_then_free_restores_witness:
  "\<exists>s1 s2. dup_page_for_program phy_example 3 24 = Some s1 \<and>
     free_page_for_program s1 3 24 = Some s2 \<and>
     page_users s2 = page_users phy_example \<and> avail_pages s2 = avail_pages phy_example"
  by (rule dup_then_free_restores) (auto simp: users_wf_def phy_example_def page_users_def)

text \<open>
  The table of the main zone: it starts at \<open>0x400000\<close>, its entries are the consecutive
  pages from there in order and without repetition, at most 25602 of them, and the entries in
  use are exactly a prefix.
\<close>

theorem phy_page_init_zone:
  assumes "second_zone pts z t = Some t'" "total_space t \<le> MEMORY_CAP"
  shows "table_base t' = 0x400000 \<and> 0 < length (table t') \<and> length (table t') \<le> 25602 \<and>
    (\<forall>k < length (table t').
       base (table t' ! k) = 0x400000 + 4096 * of_nat k \<and>
       (used_by (table t' ! k) \<noteq> 0 \<longleftrightarrow> k \<le> (length (table t') - 1) div 512)) \<and>
    distinct (map base (table t'))"
proof -
  from second_zone_table [OF assms] obtain m where
    m: "table_base t' = 0x400000" "0 < m" "m \<le> 25602" "table t' = zone_table m" by blast
  have inj: "inj_on (\<lambda>k. 0x400000 + 4096 * of_nat k :: u64) {..<m}"
  proof (rule inj_onI)
    fix a b
    assume ab: "a \<in> {..<m}" "b \<in> {..<m}"
      and "0x400000 + 4096 * of_nat a = (0x400000 + 4096 * of_nat b :: u64)"
    then have "unat (4096 * of_nat a :: u64) = unat (4096 * of_nat b :: u64)" by simp
    with ab m show "a = b" by (simp add: unat_word_ariths unat_of_nat)
  qed
  have "distinct (map base (zone_table m))"
    using inj by (simp add: zone_table_def distinct_map comp_def atLeast0LessThan)
  moreover have "\<forall>k < m. base (zone_table m ! k) = 0x400000 + 4096 * of_nat k \<and>
      (used_by (zone_table m ! k) \<noteq> 0 \<longleftrightarrow> k \<le> (m - 1) div 512)"
    by (auto simp: zone_table_def reserved_def)
  ultimately show ?thesis using m by simp
qed

definition zone_example :: smap where
  "zone_example = \<lparr>sm_base = 0x100000, sm_length = 0x302800, sm_type = 1\<rparr>"

definition init_example :: init_state where
  "init_example = \<lparr>table_base = 0, table = [], total_space = 0\<rparr>"

theorem phy_page_init_zone_witness:
  "\<exists>t'. second_zone 72 zone_example init_example = Some t' \<and>
    table_base t' = 0x400000 \<and> 0 < length (table t') \<and> length (table t') \<le> 25602 \<and>
    distinct (map base (table t'))"
proof -
  obtain t' where t': "second_zone 72 zone_example init_example = Some t'"
    by (simp add: second_zone_def zone_example_def)
  have "total_space init_example \<le> MEMORY_CAP" by (simp add: init_example_def)
  from phy_page_init_zone [OF t' this] t' show ?thesis by blast
qed

text \<open>
  Page entries take 24 bytes, but a page is reserved for the table only when its end is at
  a multiple of 4096, which is every third page it grows into.  So from 171 entries on, the
  first page the allocator hands out after start-up starts inside the table itself.
\<close>

theorem phy_page_init_hands_out_table:
  assumes "second_zone pts z t = Some t'" "total_space t \<le> MEMORY_CAP" "171 \<le> length (table t')"
  shows "\<exists>k. find_free_page_entry (table t') = Some k \<and>
           table_base t' < base (table t' ! k) \<and> base (table t' ! k) < table_end t'"
proof -
  from second_zone_table [OF assms(1,2)] obtain m where
    m: "table_base t' = 0x400000" "0 < m" "m \<le> 25602" "table t' = zone_table m" by blast
  with assms(3) have ge: "171 \<le> m" by simp
  let ?k = "reserved m"
  have k: "?k < m" using ge by (intro reserved_less) simp
  have "4096 * ?k < 24 * m"
  proof (cases "m \<le> 512")
    case True
    then have "(m - 1) div 512 = 0" using m by simp
    with ge show ?thesis by (simp add: reserved_def)
  next
    case False
    have "512 * ((m - 1) div 512) \<le> m - 1" by simp
    with False show ?thesis by (simp add: reserved_def)
  qed
  moreover have "unat (0x400000 + 4096 * of_nat ?k :: u64) = 0x400000 + 4096 * ?k"
    using k m by (simp add: unat_word_ariths unat_of_nat)
  moreover have "unat (0x400000 + PAGE_ENTRY_SIZE * of_nat m :: u64) = 0x400000 + 24 * m"
    using m by (simp add: PAGE_ENTRY_SIZE_def unat_word_ariths unat_of_nat)
  moreover have "0 < ?k" by (simp add: reserved_def)
  moreover have "base (zone_table m ! ?k) = 0x400000 + 4096 * of_nat ?k"
    using k by (simp add: zone_table_def)
  ultimately show ?thesis
    using m k by (auto simp: find_free_zone_table table_end_def word_less_nat_alt)
qed

definition large_zone :: smap where
  "large_zone = \<lparr>sm_base = 0x100000, sm_length = 0x3AB000, sm_type = 1\<rparr>"

theorem phy_page_init_hands_out_table_witness:
  "\<exists>t' k. second_zone 4104 large_zone init_example = Some t' \<and>
     find_free_page_entry (table t') = Some k \<and>
     table_base t' < base (table t' ! k) \<and> base (table t' ! k) < table_end t'"
proof -
  let ?start = "init_example\<lparr>table_base := 0x400000,
    table := [\<lparr>base = 0x400000, used_by = 1, use_record = []\<rparr>]\<rparr>"
  let ?t = "zone_loop ?start 0x401000 0x4AB000"
  have z: "second_zone 4104 large_zone init_example = Some ?t"
    by (simp add: second_zone_def large_zone_def)
  have "length (table ?start) + 170 \<le> length (table ?t)"
    by (rule zone_loop_grows) (simp_all add: init_example_def MEMORY_CAP_def)
  then have "171 \<le> length (table ?t)" by simp
  with phy_page_init_hands_out_table [OF z] z show ?thesis
    by (auto simp: init_example_def)
qed

end
