(* ===== verification/Paging.thy ===== *)
theory Paging
  imports Phy_Page
begin

text \<open>
  The four-level page tables of a process: the walks \<open>translate_cr3\<close> and \<open>set_pte_rw\<close> of
  \<^verbatim>\<open>sys/memory/phy_page.c\<close> and the routines of \<^verbatim>\<open>sys/thread/kthread.c\<close> that add pages to
  an address space.  Table entries are 64-bit cells of physical memory, written through the
  bit fields of \<^verbatim>\<open>struct PML4E\<close>, \<^verbatim>\<open>PDPE\<close>, \<^verbatim>\<open>PDE\<close> and \<^verbatim>\<open>PTE\<close>.
\<close>

section \<open>Entries\<close>

definition FRAME_MASK :: u64 where "FRAME_MASK = 0xFFFFFFFFFF000"

definition frame :: "u64 \<Rightarrow> u64" where
  "frame w = w AND FRAME_MASK"

definition present :: "u64 \<Rightarrow> bool" where
  "present w \<longleftrightarrow> w AND 1 \<noteq> 0"

text \<open>Assignment to the bit field of \<open>n\<close> bits at position \<open>lo\<close>.\<close>

definition put_field :: "u64 \<Rightarrow> nat \<Rightarrow> nat \<Rightarrow> u64 \<Rightarrow> u64" where
  "put_field w lo n v = (w AND NOT (push_bit lo (mask n))) OR push_bit lo (v AND mask n)"

definition set_P :: "u64 \<Rightarrow> u64" where "set_P w = put_field w 0 1 1"
definition set_RW :: "u64 \<Rightarrow> u64 \<Rightarrow> u64" where "set_RW v w = put_field w 1 1 v"
definition set_US :: "u64 \<Rightarrow> u64 \<Rightarrow> u64" where "set_US v w = put_field w 2 1 v"
definition set_PS :: "u64 \<Rightarrow> u64 \<Rightarrow> u64" where "set_PS v w = put_field w 7 1 v"
definition set_addr :: "u64 \<Rightarrow> u64 \<Rightarrow> u64" where "set_addr v w = put_field w 12 40 v"

text \<open>Address of the entry for \<open>va\<close> in the table \<open>table_word\<close> points to, at bit \<open>sh\<close>.\<close>

definition entry_at :: "u64 \<Rightarrow> u64 \<Rightarrow> nat \<Rightarrow> u64" where
  "entry_at table_word va sh = frame table_word + 8 * (drop_bit sh va AND 0x1FF)"

definition translate_cr3 :: "(u64 \<Rightarrow> u64) \<Rightarrow> u64 \<Rightarrow> u64 \<Rightarrow> u64" where
  "translate_cr3 m pml4 va =
     (let pdp = m (entry_at pml4 va 39)
      in if \<not> present pdp then 0
         else let pd = m (entry_at pdp va 30)
              in if \<not> present pd then 0
                 else let pt = m (entry_at pd va 21)
                      in if \<not> present pt then 0
                         else let pte = m (entry_at pt va 12)
                              in if \<not> present pte then 0 else frame pte + (va AND 0xFFF))"

definition set_pte_rw :: "(u64 \<Rightarrow> u64) \<Rightarrow> u64 \<Rightarrow> u64 \<Rightarrow> bool \<Rightarrow> bool \<times> (u64 \<Rightarrow> u64)" where
  "set_pte_rw m pml4 va rw =
     (let pdp = m (entry_at pml4 va 39)
      in if \<not> present pdp then (False, m)
         else let pd = m (entry_at pdp va 30)
              in if \<not> present pd then (False, m)
                 else let pt = m (entry_at pd va 21)
                      in if \<not> present pt then (False, m)
                         else let pte = entry_at pt va 12
                              in if \<not> present (m pte) then (False, m)
                                 else (True, m(pte := if \<not> rw then m pte AND 0xFFFFFFFFFFFFFFFD
                                                      else m pte OR 2)))"

section \<open>Address spaces\<close>

text \<open>
  \<open>struct m_map\<close>; \<open>mm_ptr\<close> is the node's own address, which identifies it in the use records
  of its page, and \<open>phy_page\<close> is the index of its page entry.
\<close>

record m_map =
  mm_ptr :: ptr
  mm_type :: u8
  phy_page :: nat
  vir_addr :: u64
  mm_proc :: ptr
  shared :: bool
  rw :: bool

text \<open>The part of \<open>struct Process\<close> these routines use; \<open>first_map\<close> is the linked list.\<close>

record addr_space =
  self :: ptr
  cr3 :: u64
  first_map :: "m_map list"

text \<open>
  The memory of the kernel: the page table of physical pages and the addresses that the
  coming calls of \<open>sf_calloc\<close> for memory-map nodes return, in order; an exhausted supply is
  a \<open>NULL\<close> return, through which the callers write.
\<close>

record kmem =
  kphy :: phy
  map_supply :: "ptr list"

definition sf_calloc_map :: "kmem \<Rightarrow> (ptr \<times> kmem) option" where
  "sf_calloc_map k = (case map_supply k of [] \<Rightarrow> None | p # ps \<Rightarrow> Some (p, k\<lparr>map_supply := ps\<rparr>))"

definition kread :: "kmem \<Rightarrow> u64 \<Rightarrow> u64" where
  "kread k a = pmem (kphy k) a"

definition kwrite :: "u64 \<Rightarrow> u64 \<Rightarrow> kmem \<Rightarrow> kmem" where
  "kwrite a v k = k\<lparr>kphy := (kphy k)\<lparr>pmem := (pmem (kphy k))(a := v)\<rparr>\<rparr>"

definition kzero :: "u64 \<Rightarrow> kmem \<Rightarrow> kmem" where
  "kzero b k = k\<lparr>kphy := (kphy k)\<lparr>pmem := zero_page (pmem (kphy k)) b\<rparr>\<rparr>"

definition page_base :: "kmem \<Rightarrow> nat \<Rightarrow> u64" where
  "page_base k i = base (pages (kphy k) ! i)"

definition add_new_m_map_for_process ::
  "kmem \<Rightarrow> 'z addr_space_scheme \<Rightarrow> u8 \<Rightarrow> bool \<Rightarrow> bool \<Rightarrow> u64
     \<Rightarrow> (m_map \<times> 'z addr_space_scheme \<times> kmem) option" where
  "add_new_m_map_for_process k proc type sh w va =
     do {
       (p, k1) \<leftarrow> sf_calloc_map k;
       (i, ph) \<leftarrow> get_phy_page_for_program (kphy k1) p;
       let k2 = kzero (base (pages ph ! i)) (k1\<lparr>kphy := ph\<rparr>);
       let map = \<lparr>mm_ptr = p, mm_type = type, phy_page = i, vir_addr = va, mm_proc = self proc,
                  shared = sh, rw = w\<rparr>;
       Some (map, proc\<lparr>first_map := first_map proc @ [map]\<rparr>, k2)
     }"

definition dup_new_m_map_for_process ::
  "kmem \<Rightarrow> 'z addr_space_scheme \<Rightarrow> u8 \<Rightarrow> bool \<Rightarrow> bool \<Rightarrow> u64 \<Rightarrow> nat
     \<Rightarrow> (m_map \<times> 'z addr_space_scheme \<times> kmem) option" where
  "dup_new_m_map_for_process k proc type sh w va old_page =
     do {
       (p, k1) \<leftarrow> sf_calloc_map k;
       ph \<leftarrow> dup_page_for_program (kphy k1) old_page p;
       let map = \<lparr>mm_ptr = p, mm_type = type, phy_page = old_page, vir_addr = va,
                  mm_proc = self proc, shared = sh, rw = w\<rparr>;
       Some (map, proc\<lparr>first_map := first_map proc @ [map]\<rparr>, k1\<lparr>kphy := ph\<rparr>)
     }"

text \<open>
  The block repeated at every level of the three walks below: when the entry is not present,
  a zeroed page becomes the next table.  The entry's \<open>PS\<close> bit is cleared except in a PML4E.
\<close>

definition ensure_table ::
  "bool \<Rightarrow> u64 \<Rightarrow> kmem \<Rightarrow> 'z addr_space_scheme \<Rightarrow> ('z addr_space_scheme \<times> kmem) option" where
  "ensure_table is_pml4e e k proc =
     (if kread k e AND 1 = 0 then
        do {
          (map, proc', k1) \<leftarrow> add_new_m_map_for_process k proc 1 False False 0;
          let pd = page_base k1 (phy_page map);
          let k2 = kzero pd k1;
          let w = set_US 1 (set_RW 1 (set_P (kread k2 e)));
          Some (proc', kwrite e (set_addr (drop_bit 12 pd) (if is_pml4e then w else set_PS 0 w)) k2)
        }
      else Some (proc, k))"

definition walk_tables ::
  "kmem \<Rightarrow> 'z addr_space_scheme \<Rightarrow> u64 \<Rightarrow> (u64 \<times> 'z addr_space_scheme \<times> kmem) option" where
  "walk_tables k proc new_address =
     do {
       let pml4e = entry_at (cr3 proc) new_address 39;
       (p1, k1) \<leftarrow> ensure_table True pml4e k proc;
       let pdpe = entry_at (kread k1 pml4e) new_address 30;
       (p2, k2) \<leftarrow> ensure_table False pdpe k1 p1;
       let pde = entry_at (kread k2 pdpe) new_address 21;
       (p3, k3) \<leftarrow> ensure_table False pde k2 p2;
       Some (entry_at (kread k3 pde) new_address 12, p3, k3)
     }"

definition bool_bit :: "bool \<Rightarrow> u64" where
  "bool_bit b = (if b then 1 else 0)"

definition write_pte :: "u64 \<Rightarrow> bool \<Rightarrow> u64 \<Rightarrow> kmem \<Rightarrow> kmem" where
  "write_pte e w dest k =
     kwrite e (set_addr (drop_bit 12 dest) (set_US 1 (set_RW (bool_bit w) (set_P (kread k e))))) k"

definition add_page_for_process ::
  "kmem \<Rightarrow> 'z addr_space_scheme \<Rightarrow> u64 \<Rightarrow> bool \<Rightarrow> u8 \<Rightarrow> (u64 \<times> 'z addr_space_scheme \<times> kmem) option"
  where
  "add_page_for_process k proc new_address w map_type =
     do {
       (pte, p1, k1) \<leftarrow> walk_tables k proc new_address;
       (map, p2, k2) \<leftarrow> add_new_m_map_for_process k1 p1 map_type False w new_address;
       let dest = page_base k2 (phy_page map);
       Some (dest, p2, write_pte pte w dest k2)
     }"

definition map_page_for_process ::
  "kmem \<Rightarrow> 'z addr_space_scheme \<Rightarrow> u64 \<Rightarrow> bool \<Rightarrow> u64 \<Rightarrow> (u64 \<times> 'z addr_space_scheme \<times> kmem) option"
  where
  "map_page_for_process k proc new_address w points_to =
     do {
       (pte, p1, k1) \<leftarrow> walk_tables k proc new_address;
       Some (points_to, p1, write_pte pte w points_to k1)
     }"

text \<open>\<open>dup_page_for_process\<close> maps read-only, and only where nothing is mapped yet.\<close>

definition dup_page_for_process ::
  "kmem \<Rightarrow> 'z addr_space_scheme \<Rightarrow> u64 \<Rightarrow> bool \<Rightarrow> nat \<Rightarrow> (u64 \<times> 'z addr_space_scheme \<times> kmem) option"
  where
  "dup_page_for_process k proc_dest new_address w ptr_to =
     do {
       (pte, p1, k1) \<leftarrow> walk_tables k proc_dest new_address;
       if kread k1 pte AND 1 = 0 then
         do {
           (map, p2, k2) \<leftarrow> dup_new_m_map_for_process k1 p1 2 True w new_address ptr_to;
           let dest = page_base k2 (phy_page map);
           Some (dest, p2, write_pte pte False dest k2)
         }
       else Some (frame (kread k1 pte), p1, k1)
     }"

section \<open>Bits of entries\<close>

lemma FRAME_MASK_eq: "FRAME_MASK = push_bit 12 (mask 40)"
  by (simp add: FRAME_MASK_def mask_eq_exp_minus_1)

lemma bit_frame: "bit (frame w) n \<longleftrightarrow> 12 \<le> n \<and> n < 52 \<and> bit w n"
  by (auto simp: frame_def FRAME_MASK_eq bit_simps)

lemma bit_put_field:
  "n < 64 \<Longrightarrow> bit (put_field w lo k v) n \<longleftrightarrow> (if lo \<le> n \<and> n < lo + k then bit v (n - lo) else bit w n)"
  by (auto simp: put_field_def bit_simps)

lemma present_bit: "present w \<longleftrightarrow> bit w 0"
  by (simp add: present_def and_one_eq bit_0 odd_iff_mod_2_eq_one)

lemma not_present_and: "(w AND 1 = 0) \<longleftrightarrow> \<not> present w"
  by (simp add: present_def)

lemma frame_frame [simp]: "frame (frame w) = frame w"
  by (rule bit_word_eqI) (auto simp: bit_frame)

lemma frame_set_addr [simp]: "frame b = b \<Longrightarrow> frame (set_addr (drop_bit 12 b) w) = b"
proof (rule bit_word_eqI)
  fix n assume b: "frame b = b" and n: "n < LENGTH(64)"
  then have "bit b n \<longleftrightarrow> 12 \<le> n \<and> n < 52 \<and> bit b n" by (metis bit_frame)
  with n show "bit (frame (set_addr (drop_bit 12 b) w)) n \<longleftrightarrow> bit b n"
    by (auto simp: bit_frame set_addr_def bit_put_field bit_simps)
qed

lemma present_fields [simp]:
  "present (set_addr v w) = present w" "present (set_US v w) = present w"
  "present (set_RW v w) = present w" "present (set_PS v w) = present w" "present (set_P w)"
  by (simp_all add: present_bit set_addr_def set_US_def set_RW_def set_PS_def set_P_def bit_put_field)

lemma frame_nat:
  assumes "frame t = t"
  obtains p where "unat t = 4096 * p" "p < 2 ^ 40"
proof -
  have b: "12 \<le> n \<and> n < 52" if "bit t n" for n
    using assms that by (metis bit_frame)
  have "take_bit 12 t = 0"
    by (rule bit_word_eqI) (auto simp: bit_simps dest: b)
  then have "take_bit 12 (unat t) = 0"
    by (simp flip: unsigned_take_bit_eq)
  then obtain p where p: "unat t = 4096 * p"
    by (auto simp: take_bit_eq_mod)
  have "take_bit 52 t = t"
    by (rule bit_word_eqI) (auto simp: bit_simps dest: b)
  then have "take_bit 52 (unat t) = unat t"
    by (simp flip: unsigned_take_bit_eq)
  then have "unat t < 2 ^ 52" by (metis take_bit_nat_less_exp)
  with p that show thesis by simp
qed

lemma in_page_iff:
  assumes "frame t = t" "frame b = b" "unat x < 4096"
  shows "(t + x) - b < 4096 \<longleftrightarrow> t = b"
proof -
  obtain p q where p: "unat t = 4096 * p" "p < 2 ^ 40" and q: "unat b = 4096 * q" "q < 2 ^ 40"
    using assms by (metis frame_nat)
  have tx: "unat (t + x) = 4096 * p + unat x"
    using p assms(3) by (subst unat_add_nowrap) simp_all
  show ?thesis
  proof (cases "b \<le> t + x")
    case True
    then have d: "unat (t + x - b) = 4096 * p + unat x - 4096 * q"
      using tx q by (simp add: unat_sub)
    have "4096 * p + unat x - 4096 * q < 4096 \<longleftrightarrow> p = q"
      using True tx q assms(3) by (auto simp: word_le_nat_alt)
    then show ?thesis using d p q by (auto simp: word_less_nat_alt word_unat_eq_iff)
  next
    case False
    then have lt: "4096 * p + unat x < 4096 * q" using tx q by (simp add: word_le_nat_alt)
    have "unat (t + x - b) = 2 ^ 64 + (4096 * p + unat x) - 4096 * q"
      using False tx q unat_sub_if' [of "t + x" b] by (simp add: word_le_nat_alt)
    with lt p q show ?thesis by (auto simp: word_less_nat_alt word_unat_eq_iff)
  qed
qed

lemma entry_offset: "unat (8 * (drop_bit sh va AND 0x1FF) :: u64) < 4096"
proof -
  have "drop_bit sh va AND 0x1FF \<le> (0x1FF :: u64)" by (rule word_and_le1)
  then have "unat (drop_bit sh va AND 0x1FF) \<le> 511" by (simp add: word_le_nat_alt)
  then show ?thesis by (simp add: unat_word_ariths)
qed

lemma entry_at_page:
  "frame b = b \<Longrightarrow> entry_at w va sh - b < 4096 \<longleftrightarrow> frame w = b"
  unfolding entry_at_def by (rule in_page_iff) (simp_all add: entry_offset)

lemma entry_at_eq_frame:
  assumes "entry_at w va sh = entry_at w' va' sh'"
  shows "frame w = frame w'"
proof -
  have "entry_at w va sh - frame w < 4096" by (simp add: entry_at_page)
  then have "entry_at w' va' sh' - frame w < 4096" by (simp add: assms)
  then show ?thesis by (simp add: entry_at_page)
qed

section \<open>Reference walk\<close>

text \<open>
  The walk as a recursion over the levels: the word reached, and the table frames visited.
\<close>

fun walk_word :: "(u64 \<Rightarrow> u64) \<Rightarrow> u64 \<Rightarrow> u64 \<Rightarrow> nat list \<Rightarrow> u64 option" where
  "walk_word m w va [] = Some w"
| "walk_word m w va (sh # shs) =
     (if present (m (entry_at w va sh)) then walk_word m (m (entry_at w va sh)) va shs else None)"

fun walk_frames :: "(u64 \<Rightarrow> u64) \<Rightarrow> u64 \<Rightarrow> u64 \<Rightarrow> nat list \<Rightarrow> u64 list" where
  "walk_frames m w va [] = [frame w]"
| "walk_frames m w va (sh # shs) =
     frame w # (if present (m (entry_at w va sh))
                then walk_frames m (m (entry_at w va sh)) va shs else [])"

text \<open>The bit positions of the indices: the three upper levels, and all four.\<close>

definition LEVELS :: "nat list" where "LEVELS = [39, 30, 21]"
definition PTE_LEVELS :: "nat list" where "PTE_LEVELS = [39, 30, 21, 12]"

lemma length_LEVELS [simp]: "length LEVELS = 3"
  by (simp add: LEVELS_def)

lemma walk_word_levels:
  "walk_word m root va PTE_LEVELS = (case walk_word m root va LEVELS of None \<Rightarrow> None
     | Some r \<Rightarrow> let w = m (entry_at r va 12) in if present w then Some w else None)"
  by (simp add: LEVELS_def PTE_LEVELS_def Let_def)

lemma translate_cr3_walk:
  "translate_cr3 m c va = (case walk_word m c va PTE_LEVELS of
     None \<Rightarrow> 0 | Some pte \<Rightarrow> frame pte + (va AND 0xFFF))"
  by (simp add: translate_cr3_def PTE_LEVELS_def Let_def)

lemma walk_frames_ne [simp]: "walk_frames m w va shs \<noteq> []"
  by (cases shs) auto

lemma hd_walk_frames [simp]: "hd (walk_frames m w va shs) = frame w"
  by (cases shs) auto

lemma last_walk_frames:
  "walk_word m w va shs = Some r \<Longrightarrow> last (walk_frames m w va shs) = frame r"
  by (induction m w va shs rule: walk_word.induct) (auto split: if_splits)

text \<open>A change confined to other frames leaves a walk as it is.\<close>

lemma walk_cong:
  assumes "\<And>w' sh. frame w' \<in> set (butlast (walk_frames m w va shs)) \<Longrightarrow>
     m' (entry_at w' va sh) = m (entry_at w' va sh)"
    and "walk_word m w va shs = Some r"
  shows "walk_word m' w va shs = Some r \<and> walk_frames m' w va shs = walk_frames m w va shs"
  using assms
proof (induction m w va shs rule: walk_word.induct)
  case (1 m w va)
  then show ?case by simp
next
  case (2 m w va sh shs)
  from 2(3) have p: "present (m (entry_at w va sh))"
    and r: "walk_word m (m (entry_at w va sh)) va shs = Some r" by (auto split: if_splits)
  with 2(2) have e: "m' (entry_at w va sh) = m (entry_at w va sh)" by simp
  have "walk_word m' (m (entry_at w va sh)) va shs = Some r \<and>
      walk_frames m' (m (entry_at w va sh)) va shs = walk_frames m (m (entry_at w va sh)) va shs"
    by (rule "2.IH" [OF p _ r]) (use 2(2) p in auto)
  with p e show ?case by simp
qed

section \<open>The kernel's page frames\<close>

definition frames_ok :: "kmem \<Rightarrow> bool" where
  "frames_ok k \<longleftrightarrow> distinct (map base (pages (kphy k))) \<and>
     (\<forall>e \<in> set (pages (kphy k)). frame (base e) = base e)"

definition kfree :: "kmem \<Rightarrow> u64 set" where
  "kfree k = free_bases (kphy k)"

lemma finite_kfree [simp]: "finite (kfree k)"
  by (simp add: kfree_def free_bases_def)

lemma kfree_frame: "frames_ok k \<Longrightarrow> b \<in> kfree k \<Longrightarrow> frame b = b"
  by (auto simp: frames_ok_def kfree_def free_bases_def)

lemma frames_ok_pages:
  "map base (pages (kphy k')) = map base (pages (kphy k)) \<Longrightarrow> frames_ok k' = frames_ok k"
proof -
  assume eq: "map base (pages (kphy k')) = map base (pages (kphy k))"
  then have "base ` set (pages (kphy k')) = base ` set (pages (kphy k))" by (metis set_map)
  then have "(\<forall>b \<in> base ` set (pages (kphy k')). frame b = b) \<longleftrightarrow>
    (\<forall>b \<in> base ` set (pages (kphy k)). frame b = b)" by simp
  with eq show ?thesis by (simp add: frames_ok_def)
qed

lemma kfields [simp]:
  "kread (kwrite a v k) x = (if x = a then v else kread k x)"
  "kread (kzero b k) x = (if x - b < 4096 then 0 else kread k x)"
  "kfree (kwrite a v k) = kfree k" "kfree (kzero b k) = kfree k"
  "frames_ok (kwrite a v k) = frames_ok k" "frames_ok (kzero b k) = frames_ok k"
  "map_supply (kwrite a v k) = map_supply k" "map_supply (kzero b k) = map_supply k"
  "page_base (kwrite a v k) i = page_base k i" "page_base (kzero b k) i = page_base k i"
  by (simp_all add: kread_def kwrite_def kzero_def zero_page_def kfree_def free_bases_def
      frames_ok_def page_base_def)

text \<open>Entries of pages in use are not changed.\<close>

definition keeps_used :: "kmem \<Rightarrow> kmem \<Rightarrow> bool" where
  "keeps_used k k' \<longleftrightarrow> (\<forall>i < length (pages (kphy k)). used_by (pages (kphy k) ! i) \<noteq> 0 \<longrightarrow>
     i < length (pages (kphy k')) \<and> pages (kphy k') ! i = pages (kphy k) ! i)"

lemma keeps_used_refl [simp]: "keeps_used k k"
  by (simp add: keeps_used_def)

lemma keeps_used_trans: "keeps_used k k1 \<Longrightarrow> keeps_used k1 k2 \<Longrightarrow> keeps_used k k2"
  by (auto simp: keeps_used_def)

lemma keeps_used_writes [simp]:
  "keeps_used k (kwrite a v k1) = keeps_used k k1" "keeps_used k (kzero b k1) = keeps_used k k1"
  by (simp_all add: keeps_used_def kwrite_def kzero_def)

lemma add_new_m_map_spec:
  assumes ok: "frames_ok k" and sup: "map_supply k \<noteq> []" and fr: "kfree k \<noteq> {}"
  shows "\<exists>map k'. add_new_m_map_for_process k proc type sh w va =
      Some (map, proc\<lparr>first_map := first_map proc @ [map]\<rparr>, k') \<and> frames_ok k' \<and>
      page_base k' (phy_page map) \<in> kfree k \<and>
      kfree k' = kfree k - {page_base k' (phy_page map)} \<and> map_supply k' = tl (map_supply k) \<and>
      keeps_used k k' \<and> mm_ptr map = hd (map_supply k) \<and> mm_type map = type \<and> vir_addr map = va \<and> rw map = w \<and>
      (\<forall>a. kread k' a = (if a - page_base k' (phy_page map) < 4096 then 0 else kread k a))"
proof -
  obtain p ps where p: "map_supply k = p # ps" using sup by (cases "map_supply k") auto
  obtain i where i: "find_free_page_entry (pages (kphy k)) = Some i"
    using fr by (cases "find_free_page_entry (pages (kphy k))")
      (auto simp: kfree_def free_bases_def find_free_None_iff)
  then have l: "i < length (pages (kphy k))" "used_by (pages (kphy k) ! i) = 0"
    by (simp_all add: find_free_Some_iff)
  let ?e = "(pages (kphy k) ! i)\<lparr>used_by := 3, use_record := [\<lparr>ur_type = 1, ur_pt = p\<rparr>]\<rparr>"
  let ?ph = "(kphy k)\<lparr>pages := (pages (kphy k))[i := ?e]\<rparr>"
  let ?b = "base (pages (kphy k) ! i)"
  let ?k = "kzero ?b (k\<lparr>map_supply := ps, kphy := ?ph\<rparr>)"
  let ?m = "\<lparr>mm_ptr = p, mm_type = type, phy_page = i, vir_addr = va, mm_proc = self proc,
     shared = sh, rw = w\<rparr>"
  have d: "distinct (map base (pages (kphy k)))" using ok by (simp add: frames_ok_def)
  have "free_bases ?ph = free_bases (kphy k) - {?b}"
    by (rule free_bases_update [OF d l(1)]) simp_all
  moreover have "?b \<in> kfree k" using l by (auto simp: kfree_def free_bases_nth)
  moreover have "frames_ok (k\<lparr>map_supply := ps, kphy := ?ph\<rparr>)"
    by (rule iffD2 [OF frames_ok_pages ok]) simp
  moreover have "add_new_m_map_for_process k proc type sh w va =
      Some (?m, proc\<lparr>first_map := first_map proc @ [?m]\<rparr>, ?k)"
    using p i l by (simp add: add_new_m_map_for_process_def sf_calloc_map_def
        get_phy_page_for_program_def Let_def)
  moreover have "page_base ?k i = ?b" using l by (simp add: page_base_def kzero_def)
  moreover have "kread ?k a = (if a - ?b < 4096 then 0 else kread k a)" for a
    by simp (simp add: kread_def)
  moreover have "kfree ?k = free_bases ?ph" unfolding kfields by (simp add: kfree_def)
  moreover have "frames_ok ?k = frames_ok (k\<lparr>map_supply := ps, kphy := ?ph\<rparr>)" by (rule kfields)
  moreover have "keeps_used k ?k" using l by (auto simp: keeps_used_def kzero_def nth_list_update)
  ultimately show ?thesis using p by (intro exI [of _ ?m] exI [of _ ?k]) (simp add: kfree_def)
qed

section \<open>Growing the tables\<close>

text \<open>An address that lies in no free page.\<close>

definition outside :: "kmem \<Rightarrow> u64 \<Rightarrow> bool" where
  "outside k a \<longleftrightarrow> (\<forall>b \<in> kfree k. \<not> a - b < 4096)"

text \<open>
  \<open>k'\<close> comes from \<open>k\<close> by using up free pages, and no present entry was touched.
\<close>

definition grows :: "kmem \<Rightarrow> kmem \<Rightarrow> bool" where
  "grows k k' \<longleftrightarrow> frames_ok k' \<and> kfree k' \<subseteq> kfree k \<and> keeps_used k k' \<and>
     (\<forall>a. outside k a \<longrightarrow> present (kread k a) \<longrightarrow> kread k' a = kread k a)"

lemma outside_mono: "outside k a \<Longrightarrow> kfree k' \<subseteq> kfree k \<Longrightarrow> outside k' a"
  by (auto simp: outside_def)

lemma growsD:
  "grows k k' \<Longrightarrow> outside k a \<Longrightarrow> present (kread k a) \<Longrightarrow> kread k' a = kread k a"
  "grows k k' \<Longrightarrow> outside k a \<Longrightarrow> outside k' a"
  "grows k k' \<Longrightarrow> frames_ok k'" "grows k k' \<Longrightarrow> kfree k' \<subseteq> kfree k"
  "grows k k' \<Longrightarrow> keeps_used k k'"
  by (auto simp: grows_def outside_mono)

lemma grows_refl: "frames_ok k \<Longrightarrow> grows k k"
  by (simp add: grows_def)

lemma grows_trans: "grows k k1 \<Longrightarrow> grows k1 k2 \<Longrightarrow> grows k k2"
  unfolding grows_def by (metis outside_mono subset_trans keeps_used_trans)

lemma outside_entry:
  "frames_ok k \<Longrightarrow> frame w \<notin> kfree k \<Longrightarrow> outside k (entry_at w va sh)"
  unfolding outside_def by (metis entry_at_page kfree_frame)

text \<open>Growing the tables keeps every complete walk through tables in use.\<close>

lemma grows_walk:
  assumes "grows k k'" "frames_ok k" "walk_word (kread k) w va shs = Some r"
    "set (butlast (walk_frames (kread k) w va shs)) \<inter> kfree k = {}"
  shows "walk_word (kread k') w va shs = Some r"
  using assms(3,4)
proof (induction shs arbitrary: w)
  case (Cons sh shs)
  let ?e = "entry_at w va sh"
  from Cons.prems have p: "present (kread k ?e)"
    and r: "walk_word (kread k) (kread k ?e) va shs = Some r" by (auto split: if_splits)
  with Cons.prems have f: "frame w \<notin> kfree k" by simp
  then have "kread k' ?e = kread k ?e"
    using assms(1,2) p by (simp add: growsD outside_entry)
  with Cons.IH [OF r] Cons.prems p show ?case by (auto simp: disjoint_iff)
qed simp

lemma ensure_table_absent:
  assumes ok: "frames_ok k" and sup: "map_supply k \<noteq> []" and fr: "kfree k \<noteq> {}"
    and out: "outside k e" and np: "\<not> present (kread k e)"
  shows "\<exists>map k' b. ensure_table f e k proc = Some (proc\<lparr>first_map := first_map proc @ [map]\<rparr>, k') \<and>
      grows k k' \<and> b \<in> kfree k \<and> kfree k' = kfree k - {b} \<and>
      map_supply k' = tl (map_supply k) \<and> present (kread k' e) \<and> frame (kread k' e) = b \<and>
      (\<forall>a. a - b < 4096 \<longrightarrow> kread k' a = 0)"
proof -
  from add_new_m_map_spec [OF ok sup fr, of proc 1 False False 0] obtain map k1 where
    add: "add_new_m_map_for_process k proc 1 False False 0 =
      Some (map, proc\<lparr>first_map := first_map proc @ [map]\<rparr>, k1)" and ok1: "frames_ok k1"
    and bf: "page_base k1 (phy_page map) \<in> kfree k" and ku: "keeps_used k k1"
    and k1: "kfree k1 = kfree k - {page_base k1 (phy_page map)}" "map_supply k1 = tl (map_supply k)"
    and rd: "\<And>a. kread k1 a = (if a - page_base k1 (phy_page map) < 4096 then 0 else kread k a)"
    by blast
  define b where "b = page_base k1 (phy_page map)"
  have b: "frame b = b" "\<not> e - b < 4096"
    using bf out kfree_frame [OF ok] by (simp_all add: b_def outside_def)
  define v where "v = (let w = set_US 1 (set_RW 1 (set_P (kread k e))) in if f then w else set_PS 0 w)"
  define k' where "k' = kwrite e (set_addr (drop_bit 12 b) v) (kzero b k1)"
  have ens: "ensure_table f e k proc = Some (proc\<lparr>first_map := first_map proc @ [map]\<rparr>, k')"
    using np b(2) by (simp add: ensure_table_def not_present_and add Let_def rd k'_def v_def
        flip: b_def)
  have pv: "present v" by (simp add: v_def Let_def)
  have "grows k k'"
    using ok1 np k1(1) bf ku
    by (auto simp: grows_def k'_def rd outside_def simp flip: b_def)
  moreover have "present (kread k' e)" "frame (kread k' e) = b"
    using pv b(1) by (simp_all add: k'_def)
  moreover have "\<forall>a. a - b < 4096 \<longrightarrow> kread k' a = 0"
    using b(2) by (auto simp: k'_def)
  ultimately show ?thesis
    using ens k1 bf by (intro exI [of _ map] exI [of _ k'] exI [of _ b]) (simp add: k'_def b_def)
qed

text \<open>The three levels of \<open>walk_tables\<close> as one recursion.\<close>

fun ensure_chain ::
  "u64 \<Rightarrow> u64 \<Rightarrow> nat list \<Rightarrow> kmem \<Rightarrow> 'z addr_space_scheme \<Rightarrow> (u64 \<times> 'z addr_space_scheme \<times> kmem) option"
  where
  "ensure_chain w va [] k proc = Some (w, proc, k)"
| "ensure_chain w va (sh # shs) k proc =
     do {
       (p1, k1) \<leftarrow> ensure_table (sh = 39) (entry_at w va sh) k proc;
       ensure_chain (kread k1 (entry_at w va sh)) va shs k1 p1
     }"

lemma walk_tables_chain:
  "walk_tables k proc va =
     do { (w, p, k') \<leftarrow> ensure_chain (cr3 proc) va LEVELS k proc; Some (entry_at w va 12, p, k') }"
  by (simp add: LEVELS_def walk_tables_def Let_def split: bind_split prod.splits)

definition chain_inv :: "nat \<Rightarrow> u64 list \<Rightarrow> u64 \<Rightarrow> u64 \<Rightarrow> nat list \<Rightarrow> kmem \<Rightarrow> bool" where
  "chain_inv n vs w va shs k \<longleftrightarrow> frames_ok k \<and> n \<le> card (kfree k) \<and> n \<le> length (map_supply k) \<and>
     distinct (vs @ walk_frames (kread k) w va shs) \<and>
     set (vs @ walk_frames (kread k) w va shs) \<inter> kfree k = {}"

definition fresh_table :: "kmem \<Rightarrow> kmem \<Rightarrow> u64 \<Rightarrow> bool" where
  "fresh_table k k' r \<longleftrightarrow> frame r \<in> kfree k \<and> (\<forall>a. a - frame r < 4096 \<longrightarrow> kread k' a = 0)"

lemma ensure_chain_spec:
  assumes "chain_inv (length shs + n) vs w va shs k"
  shows "\<exists>r maps k'. ensure_chain w va shs k proc = Some (r, proc\<lparr>first_map := first_map proc @ maps\<rparr>, k') \<and>
      grows k k' \<and> walk_word (kread k') w va shs = Some r \<and> chain_inv n vs w va shs k' \<and>
      (fresh_table k k' r \<or> k' = k)"
  using assms
proof (induction shs arbitrary: vs w k proc)
  case Nil
  then show ?case by (auto simp: chain_inv_def grows_refl intro: exI [of _ "[]"])
next
  case (Cons sh shs)
  let ?e = "entry_at w va sh"
  from Cons.prems have ok: "frames_ok k" and fw: "frame w \<notin> kfree k" by (simp_all add: chain_inv_def)
  then have out: "outside k ?e" by (simp add: outside_entry)
  have step: "\<exists>maps k1. ensure_table (sh = 39) ?e k proc =
      Some (proc\<lparr>first_map := first_map proc @ maps\<rparr>, k1) \<and> grows k k1 \<and> present (kread k1 ?e) \<and>
      chain_inv (length shs + n) (vs @ [frame w]) (kread k1 ?e) va shs k1 \<and>
      (k1 = k \<or> walk_frames (kread k1) (kread k1 ?e) va shs = [frame (kread k1 ?e)] \<and>
         fresh_table k k1 (kread k1 ?e))"
  proof (cases "present (kread k ?e)")
    case True
    then show ?thesis using Cons.prems
      by (intro exI [of _ "[]"] exI [of _ k])
        (auto simp: ensure_table_def not_present_and grows_refl chain_inv_def)
  next
    case False
    have "map_supply k \<noteq> []" "kfree k \<noteq> {}" using Cons.prems by (auto simp: chain_inv_def)
    from ensure_table_absent [OF ok this out False, of "sh = 39" proc] obtain map k1 b where
      s: "ensure_table (sh = 39) ?e k proc = Some (proc\<lparr>first_map := first_map proc @ [map]\<rparr>, k1)"
      and g: "grows k k1" and b: "b \<in> kfree k" "kfree k1 = kfree k - {b}"
      and su: "map_supply k1 = tl (map_supply k)" and p: "present (kread k1 ?e)"
      and fb: "frame (kread k1 ?e) = b" and z: "\<forall>a. a - b < 4096 \<longrightarrow> kread k1 a = 0"
      by blast
    have "frame b = b" using kfree_frame ok b(1) by blast
    then have "kread k1 (entry_at (kread k1 ?e) va sh') = 0" for sh'
      using z fb by (simp add: entry_at_page)
    then have b1: "walk_frames (kread k1) (kread k1 ?e) va shs = [b]"
      using fb by (cases shs) (simp_all add: present_def)
    then have "chain_inv (length shs + n) (vs @ [frame w]) (kread k1 ?e) va shs k1"
      using Cons.prems False b su growsD(3) [OF g]
      by (auto simp: chain_inv_def card_Diff_singleton)
    then show ?thesis using s g p b1 fb b(1) z unfolding fresh_table_def by blast
  qed
  then obtain maps k1 where s: "ensure_table (sh = 39) ?e k proc =
      Some (proc\<lparr>first_map := first_map proc @ maps\<rparr>, k1)" and g: "grows k k1"
    and p: "present (kread k1 ?e)"
    and inv: "chain_inv (length shs + n) (vs @ [frame w]) (kread k1 ?e) va shs k1"
    and new: "k1 = k \<or> walk_frames (kread k1) (kread k1 ?e) va shs = [frame (kread k1 ?e)] \<and>
         fresh_table k k1 (kread k1 ?e)" by blast
  from Cons.IH [OF inv, of "proc\<lparr>first_map := first_map proc @ maps\<rparr>"] obtain r maps' k' where
    c: "ensure_chain (kread k1 ?e) va shs k1 (proc\<lparr>first_map := first_map proc @ maps\<rparr>) =
      Some (r, proc\<lparr>first_map := first_map proc @ maps @ maps'\<rparr>, k')"
    and g': "grows k1 k'" and w: "walk_word (kread k') (kread k1 ?e) va shs = Some r"
    and inv': "chain_inv n (vs @ [frame w]) (kread k1 ?e) va shs k'"
    and new': "fresh_table k1 k' r \<or> k' = k1" by auto
  have e: "kread k' ?e = kread k1 ?e"
    by (rule growsD(1) [OF g']) (use p growsD(2) [OF g out] in auto)
  have "fresh_table k k' r \<or> k' = k"
  proof (cases "k1 = k")
    case False
    with new new' last_walk_frames [OF w] growsD(4) [OF g] show ?thesis by (auto simp: fresh_table_def)
  qed (use new' in simp)
  then show ?case
    using s c grows_trans [OF g g'] w inv' e p
    by (intro exI [of _ r] exI [of _ "maps @ maps'"] exI [of _ k']) (simp add: chain_inv_def)
qed

section \<open>Mapping a page\<close>

text \<open>The last table of a walk may be written without changing the walk to it.\<close>

lemma walk_update_last:
  assumes "walk_word m w va shs = Some r" "distinct (walk_frames m w va shs)"
  shows "walk_word (m(entry_at r va sh := x)) w va shs = Some r"
proof -
  have "frame w' \<noteq> frame r" if "frame w' \<in> set (butlast (walk_frames m w va shs))" for w'
    using that assms(2) last_walk_frames [OF assms(1)]
    by (metis append_butlast_last_id distinct_append disjoint_iff list.set_intros(1) walk_frames_ne)
  then have "(m(entry_at r va sh := x)) (entry_at w' va sh') = m (entry_at w' va sh')"
    if "frame w' \<in> set (butlast (walk_frames m w va shs))" for w' sh'
    using that by (auto dest: entry_at_eq_frame)
  then show ?thesis using walk_cong assms(1) by blast
qed

lemma translate_levels:
  assumes "walk_word m w va LEVELS = Some r" "present (m (entry_at r va 12))"
  shows "translate_cr3 m w va = frame (m (entry_at r va 12)) + (va AND 0xFFF)"
  using assms by (simp add: translate_cr3_walk walk_word_levels)

lemma kread_kwrite: "kread (kwrite a v k) = (kread k)(a := v)"
  by auto

lemma translate_write_pte:
  assumes "walk_word (kread k) w va LEVELS = Some r"
    "distinct (walk_frames (kread k) w va LEVELS)" "frame dest = dest"
  shows "translate_cr3 (kread (write_pte (entry_at r va 12) wr dest k)) w va = dest + (va AND 0xFFF)"
proof -
  let ?k = "write_pte (entry_at r va 12) wr dest k"
  have "walk_word (kread ?k) w va LEVELS = Some r"
    unfolding write_pte_def kread_kwrite by (rule walk_update_last [OF assms(1,2)])
  from translate_levels [OF this] assms(3) show ?thesis by (simp add: write_pte_def)
qed

text \<open>
  What a walk from \<open>cr3\<close> needs to be extended by \<open>n\<close> pages: page-aligned distinct frames,
  no table of the walk on the free list or met twice, and enough free pages and map nodes.
\<close>

definition can_map :: "nat \<Rightarrow> kmem \<Rightarrow> u64 \<Rightarrow> u64 \<Rightarrow> bool" where
  "can_map n k root va \<longleftrightarrow> frames_ok k \<and> n \<le> card (kfree k) \<and> n \<le> length (map_supply k) \<and>
     distinct (walk_frames (kread k) root va LEVELS) \<and>
     set (walk_frames (kread k) root va LEVELS) \<inter> kfree k = {}"

lemma can_map_chain: "can_map n k w va = chain_inv n [] w va LEVELS k"
  by (simp add: can_map_def chain_inv_def)

lemma walk_tables_spec:
  assumes "can_map (3 + n) k (cr3 proc) va"
  shows "\<exists>r maps k'. walk_tables k proc va =
      Some (entry_at r va 12, proc\<lparr>first_map := first_map proc @ maps\<rparr>, k') \<and> grows k k' \<and>
      walk_word (kread k') (cr3 proc) va LEVELS = Some r \<and> can_map n k' (cr3 proc) va \<and>
      (fresh_table k k' r \<or> k' = k)"
proof -
  have "chain_inv (length LEVELS + n) [] (cr3 proc) va LEVELS k"
    using assms by (simp add: can_map_chain)
  from ensure_chain_spec [OF this, of proc] show ?thesis
    unfolding walk_tables_chain can_map_chain by auto
qed

lemma last_table_used:
  "walk_word m w va shs = Some r \<Longrightarrow> set (walk_frames m w va shs) \<inter> F = {} \<Longrightarrow> frame r \<notin> F"
  by (metis disjoint_iff last_in_set last_walk_frames walk_frames_ne)

text \<open>Clearing a free page does not disturb a walk through tables in use.\<close>

lemma clear_free_walk:
  assumes "can_map n k w va" "walk_word (kread k) w va LEVELS = Some r" "b \<in> kfree k"
    and rd: "\<And>a. kread k2 a = (if a - b < 4096 then 0 else kread k a)"
  shows "walk_word (kread k2) w va LEVELS = Some r"
    "walk_frames (kread k2) w va LEVELS = walk_frames (kread k) w va LEVELS"
proof -
  have "frame b = b" using assms(1,3) kfree_frame by (auto simp: can_map_def)
  then have "kread k2 (entry_at w' va sh) = kread k (entry_at w' va sh)"
    if "frame w' \<in> set (walk_frames (kread k) w va LEVELS)" for w' sh
    using that assms(1,3) unfolding rd can_map_def by (auto simp: entry_at_page)
  then show "walk_word (kread k2) w va LEVELS = Some r"
    "walk_frames (kread k2) w va LEVELS = walk_frames (kread k) w va LEVELS"
    using walk_cong [of "kread k" w va LEVELS "kread k2", OF _ assms(2)] by (auto dest!: in_set_butlastD)
qed

text \<open>The routine as a whole: the walk, the new page, and the entry written last.\<close>

lemma add_page_spec:
  assumes "can_map 4 k (cr3 proc) va"
  obtains r maps m dest k2 where
    "add_page_for_process k proc va w ty = Some (dest,
       proc\<lparr>first_map := first_map proc @ maps @ [m]\<rparr>, write_pte (entry_at r va 12) w dest k2)"
    "walk_word (kread k2) (cr3 proc) va LEVELS = Some r"
    "distinct (walk_frames (kread k2) (cr3 proc) va LEVELS)"
    "grows k k2" "dest \<in> kfree k" "dest \<notin> kfree k2" "frame dest = dest" "frame r \<noteq> dest"
    "\<And>a. a - dest < 4096 \<Longrightarrow> kread k2 a = 0"
    "vir_addr m = va" "rw m = w" "mm_type m = ty" "page_base k2 (phy_page m) = dest"
    "frame r \<in> kfree k \<or> kread k (entry_at r va 12) = kread k2 (entry_at r va 12) \<and>
       walk_word (kread k) (cr3 proc) va LEVELS = Some r"
proof -
  have "can_map (3 + 1) k (cr3 proc) va" using assms by simp
  from walk_tables_spec [OF this] obtain r maps k1 where
    t: "walk_tables k proc va = Some (entry_at r va 12, proc\<lparr>first_map := first_map proc @ maps\<rparr>, k1)"
    and g: "grows k k1" and r: "walk_word (kread k1) (cr3 proc) va LEVELS = Some r"
    and c: "can_map 1 k1 (cr3 proc) va" and new: "fresh_table k k1 r \<or> k1 = k" by blast
  then have ok1: "frames_ok k1" and "map_supply k1 \<noteq> []" "kfree k1 \<noteq> {}" by (auto simp: can_map_def)
  from add_new_m_map_spec [OF this, of "proc\<lparr>first_map := first_map proc @ maps\<rparr>" ty False w va]
  obtain m k2 where
    a: "add_new_m_map_for_process k1 (proc\<lparr>first_map := first_map proc @ maps\<rparr>) ty False w va =
      Some (m, proc\<lparr>first_map := first_map proc @ maps @ [m]\<rparr>, k2)"
    and d: "page_base k2 (phy_page m) \<in> kfree k1" and f: "kfree k2 = kfree k1 - {page_base k2 (phy_page m)}"
    and m: "vir_addr m = va" "rw m = w" "mm_type m = ty" and ok2: "frames_ok k2" "keeps_used k1 k2"
    and rd: "\<And>a. kread k2 a = (if a - page_base k2 (phy_page m) < 4096 then 0 else kread k1 a)"
    by auto
  define dest where "dest = page_base k2 (phy_page m)"
  have al: "frame dest = dest" using d ok1 kfree_frame by (simp add: dest_def)
  have fr: "frame r \<noteq> dest"
    using last_table_used [OF r, of "kfree k1"] c d by (auto simp: can_map_def dest_def)
  have "grows k1 k2" using ok2 d f by (auto simp: grows_def outside_def rd)
  with g have g2: "grows k k2" by (rule grows_trans)
  have e: "kread k2 (entry_at r va 12) = kread k1 (entry_at r va 12)"
    using fr al rd by (simp add: entry_at_page dest_def)
  show thesis
  proof (rule that [of dest maps m r k2])
    show "add_page_for_process k proc va w ty = Some (dest,
       proc\<lparr>first_map := first_map proc @ maps @ [m]\<rparr>, write_pte (entry_at r va 12) w dest k2)"
      using t a by (simp add: add_page_for_process_def dest_def Let_def)
  qed (use clear_free_walk [OF c r d rd] c al fr d f m g2 rd growsD(4) [OF g] new e r
      in \<open>auto simp: can_map_def dest_def fresh_table_def\<close>)
qed

lemma add_page_fresh:
  assumes "can_map 4 k (cr3 proc) va"
  shows "\<exists>dest maps m k'. add_page_for_process k proc va w ty =
      Some (dest, proc\<lparr>first_map := first_map proc @ maps @ [m]\<rparr>, k') \<and>
      dest \<in> kfree k \<and> kfree k' \<subseteq> kfree k - {dest} \<and>
      translate_cr3 (kread k') (cr3 proc) va = dest + (va AND 0xFFF) \<and>
      (\<forall>a. a - dest < 4096 \<longrightarrow> kread k' a = 0) \<and>
      vir_addr m = va \<and> rw m = w \<and> mm_type m = ty \<and> page_base k' (phy_page m) = dest"
proof -
  obtain r maps m dest k2 where
    add: "add_page_for_process k proc va w ty = Some (dest,
       proc\<lparr>first_map := first_map proc @ maps @ [m]\<rparr>, write_pte (entry_at r va 12) w dest k2)"
    and r: "walk_word (kread k2) (cr3 proc) va LEVELS = Some r"
      "distinct (walk_frames (kread k2) (cr3 proc) va LEVELS)"
    and d: "grows k k2" "dest \<in> kfree k" "dest \<notin> kfree k2" "frame dest = dest" "frame r \<noteq> dest"
      "\<And>a. a - dest < 4096 \<Longrightarrow> kread k2 a = 0"
    and m: "vir_addr m = va" "rw m = w" "mm_type m = ty" "page_base k2 (phy_page m) = dest"
    using add_page_spec [OF assms] by metis
  have "kread (write_pte (entry_at r va 12) w dest k2) a = 0" if "a - dest < 4096" for a
    using that d by (auto simp: write_pte_def entry_at_page)
  with add d(2,3) m growsD(4) [OF d(1)] translate_write_pte [OF r d(4), of w] show ?thesis
    by (intro exI [of _ dest] exI [of _ maps] exI [of _ m]) (auto simp: write_pte_def)
qed

text \<open>
  C3. Mapping a fresh page: with four free pages and four map nodes at hand, the routine
  returns; the page it returns was free, is free no more and reads zero, is recorded at the
  end of the process's list of maps, and is what the hardware walk finds at the address.
\<close>

theorem add_page_for_process_maps:
  assumes "can_map 4 k (cr3 proc) va"
  shows "\<exists>dest maps m k'. add_page_for_process k proc va w ty =
      Some (dest, proc\<lparr>first_map := first_map proc @ maps @ [m]\<rparr>, k') \<and>
      dest \<in> kfree k \<and> kfree k' \<subseteq> kfree k - {dest} \<and>
      translate_cr3 (kread k') (cr3 proc) va = dest + (va AND 0xFFF) \<and>
      (\<forall>a. a - dest < 4096 \<longrightarrow> kread k' a = 0) \<and>
      vir_addr m = va \<and> rw m = w \<and> mm_type m = ty \<and> page_base k' (phy_page m) = dest"
  using assms by (rule add_page_fresh)

text \<open>
  C4. Mapping a page disturbs nobody: when the address was not mapped before, every address
  that any process has mapped, through tables that are not themselves on the free list,
  translates as before.
\<close>

theorem add_page_for_process_keeps_others:
  assumes "can_map 4 k (cr3 proc) va" "walk_word (kread k) (cr3 proc) va PTE_LEVELS = None"
    and "walk_word (kread k) root va' PTE_LEVELS = Some x"
    and "set (butlast (walk_frames (kread k) root va' PTE_LEVELS)) \<inter> kfree k = {}"
    and "add_page_for_process k proc va w ty = Some (dest, proc', k')"
  shows "translate_cr3 (kread k') root va' = translate_cr3 (kread k) root va'"
proof -
  obtain r k2 where k': "k' = write_pte (entry_at r va 12) w dest k2" and g: "grows k k2"
    and new: "frame r \<in> kfree k \<or> kread k (entry_at r va 12) = kread k2 (entry_at r va 12) \<and>
       walk_word (kread k) (cr3 proc) va LEVELS = Some r"
    by (rule add_page_spec [OF assms(1), of w ty]) (use assms(5) in simp)
  have ok: "frames_ok k" using assms(1) by (simp add: can_map_def)
  have np: "\<not> outside k (entry_at r va 12) \<or> \<not> present (kread k (entry_at r va 12))"
  proof (cases "frame r \<in> kfree k")
    case True
    then show ?thesis using ok kfree_frame by (auto simp: outside_def entry_at_page)
  next
    case False
    with new assms(2) show ?thesis by (auto simp: walk_word_levels split: if_splits)
  qed
  then have "grows k k'"
    using g by (auto simp: grows_def k' write_pte_def)
  from grows_walk [OF this ok assms(3,4)] assms(3) show ?thesis by (simp add: translate_cr3_walk)
qed

definition rw_word :: "bool \<Rightarrow> u64 \<Rightarrow> u64" where
  "rw_word wr w = (if \<not> wr then w AND 0xFFFFFFFFFFFFFFFD else w OR 2)"

lemma bit_rw_word: "bit (rw_word wr w) n = (if n = 1 then wr else bit w n)"
proof -
  have "bit (0xFFFFFFFFFFFFFFFD :: u64) k \<longleftrightarrow> k < 64 \<and> k \<noteq> 1" for k
  proof -
    have "(0xFFFFFFFFFFFFFFFD :: u64) = NOT 2" by simp
    moreover have "bit (NOT 2 :: u64) k \<longleftrightarrow> k < 64 \<and> k \<noteq> 1"
      by (subst bit_not_iff) (auto simp: bit_2_iff)
    ultimately show ?thesis by (simp only:)
  qed
  moreover have "bit w n \<Longrightarrow> n < 64" using bit_imp_le_length [of w n] by simp
  ultimately show ?thesis by (auto simp: rw_word_def bit_and_iff bit_or_iff bit_2_iff)
qed

lemma frame_rw_word [simp]: "frame (rw_word wr w) = frame w"
  by (rule bit_word_eqI) (auto simp: bit_frame bit_rw_word)

lemma present_rw_word [simp]: "present (rw_word wr w) = present w"
  by (simp add: present_bit bit_rw_word)

lemma set_pte_rw_walk:
  "set_pte_rw m root va wr = (case walk_word m root va LEVELS of None \<Rightarrow> (False, m)
     | Some r \<Rightarrow> let e = entry_at r va 12 in
         if present (m e) then (True, m(e := rw_word wr (m e))) else (False, m))"
  by (simp add: set_pte_rw_def LEVELS_def Let_def rw_word_def)

text \<open>
  \<open>set_pte_rw\<close> succeeds exactly on a mapped address, where it sets the writable bit of the
  last-level entry as asked and neither moves the page nor touches any other word of memory.
\<close>

theorem set_pte_rw_sets_bit:
  assumes "distinct (walk_frames m root va LEVELS)"
  shows "case set_pte_rw m root va wr of (ok, m') \<Rightarrow>
      (ok \<longleftrightarrow> walk_word m root va PTE_LEVELS \<noteq> None) \<and>
      translate_cr3 m' root va = translate_cr3 m root va \<and>
      (if ok then \<exists>r x. walk_word m root va LEVELS = Some r \<and>
           walk_word m' root va PTE_LEVELS = Some x \<and> bit x 1 = wr \<and>
           (\<forall>n. n \<noteq> 1 \<longrightarrow> bit x n = bit (m (entry_at r va 12)) n) \<and>
           (\<forall>a. a \<noteq> entry_at r va 12 \<longrightarrow> m' a = m a)
       else m' = m)"
proof (cases "walk_word m root va LEVELS")
  case None
  then show ?thesis by (simp add: set_pte_rw_walk walk_word_levels)
next
  case (Some r)
  let ?e = "entry_at r va 12"
  have "walk_word (m(?e := rw_word wr (m ?e))) root va LEVELS = Some r"
    by (rule walk_update_last [OF Some assms])
  with Some show ?thesis
    by (auto simp: set_pte_rw_walk walk_word_levels translate_cr3_walk bit_rw_word Let_def)
qed

lemma write_pte_walk:
  assumes "walk_word (kread k) w va LEVELS = Some r" "distinct (walk_frames (kread k) w va LEVELS)"
  shows "walk_word (kread (write_pte (entry_at r va 12) wr dest k)) w va PTE_LEVELS =
     Some (kread (write_pte (entry_at r va 12) wr dest k) (entry_at r va 12))"
proof -
  have "walk_word (kread (write_pte (entry_at r va 12) wr dest k)) w va LEVELS = Some r"
    unfolding write_pte_def kread_kwrite by (rule walk_update_last [OF assms])
  then show ?thesis by (simp add: walk_word_levels write_pte_def)
qed

lemma writable_write_pte: "bit (kread (write_pte e wr dest k) e) 1 = wr"
  by (simp add: write_pte_def set_addr_def set_US_def set_RW_def bit_put_field bool_bit_def)

lemma page_users_write_pte [simp]: "page_users (kphy (write_pte e wr dest k)) = page_users (kphy k)"
  by (simp add: write_pte_def kwrite_def page_users_def fun_eq_iff)

text \<open>
  Sharing a page copy-on-write: at an address that is not mapped, the routine returns the
  frame of the page it was given, maps that frame there read-only whatever \<open>rw\<close> says, records
  a shared map and adds exactly that map to the users of the page.
\<close>

theorem dup_page_for_process_shares:
  assumes "can_map 4 k (cr3 proc) va" "walk_word (kread k) (cr3 proc) va PTE_LEVELS = None"
    and "i < length (pages (kphy k))" "used_by (pages (kphy k) ! i) = 3"
    and "use_record (pages (kphy k) ! i) \<noteq> []"
  shows "\<exists>maps m k' x. dup_page_for_process k proc va w i =
      Some (page_base k i, proc\<lparr>first_map := first_map proc @ maps @ [m]\<rparr>, k') \<and>
      translate_cr3 (kread k') (cr3 proc) va = page_base k i + (va AND 0xFFF) \<and>
      walk_word (kread k') (cr3 proc) va PTE_LEVELS = Some x \<and> \<not> bit x 1 \<and>
      shared m \<and> rw m = w \<and> vir_addr m = va \<and> phy_page m = i \<and>
      page_users (kphy k') i = insert (mm_ptr m) (page_users (kphy k) i)"
proof -
  have "can_map (3 + 1) k (cr3 proc) va" using assms by simp
  from walk_tables_spec [OF this] obtain r maps k1 where
    t: "walk_tables k proc va = Some (entry_at r va 12, proc\<lparr>first_map := first_map proc @ maps\<rparr>, k1)"
    and g: "grows k k1" and r: "walk_word (kread k1) (cr3 proc) va LEVELS = Some r"
    and c: "can_map 1 k1 (cr3 proc) va" and new: "fresh_table k k1 r \<or> k1 = k" by blast
  have np: "\<not> present (kread k1 (entry_at r va 12))"
    using new assms(2) r
    by (auto simp: fresh_table_def entry_at_page present_def walk_word_levels Let_def split: if_splits)
  obtain p ps where p: "map_supply k1 = p # ps" using c by (cases "map_supply k1") (auto simp: can_map_def)
  have e: "pages (kphy k1) ! i = pages (kphy k) ! i" "i < length (pages (kphy k1))"
    using growsD(5) [OF g] assms(3,4) by (auto simp: keeps_used_def)
  have al: "frame (page_base k i) = page_base k i"
    using assms(1,3) by (auto simp: can_map_def frames_ok_def page_base_def)
  obtain u us where u: "use_record (pages (kphy k) ! i) = u # us" using assms(5) by (meson neq_Nil_conv)
  let ?ph = "(kphy k1)\<lparr>pages := (pages (kphy k1))[i := (pages (kphy k) ! i)\<lparr>use_record :=
     (u\<lparr>ur_type := 1\<rparr> # us) @ [\<lparr>ur_type = 1, ur_pt = p\<rparr>]\<rparr>]\<rparr>"
  define k2 where "k2 = k1\<lparr>map_supply := ps, kphy := ?ph\<rparr>"
  define m where "m = \<lparr>mm_ptr = p, mm_type = 2, phy_page = i, vir_addr = va,
     mm_proc = self proc, shared = True, rw = w\<rparr>"
  have pb: "page_base k2 i = page_base k i" using e by (simp add: k2_def page_base_def)
  have k2: "kread k2 = kread k1" by (simp add: k2_def kread_def fun_eq_iff)
  have "dup_page_for_process k proc va w i = Some (page_base k i,
      proc\<lparr>first_map := first_map proc @ maps @ [m]\<rparr>,
      write_pte (entry_at r va 12) False (page_base k i) k2)"
    using t np p e u assms(4) pb
    by (simp add: dup_page_for_process_def not_present_and dup_new_m_map_for_process_def
        sf_calloc_map_def dup_page_for_program_def Let_def m_def k2_def)
  moreover have "page_users (kphy k2) i = insert p (page_users (kphy k) i)"
    using e assms(3,4) u by (auto simp: k2_def page_users_def)
  ultimately show ?thesis
    using translate_write_pte [of k2 "cr3 proc" va r "page_base k i" False] r c al
      write_pte_walk [of k2 "cr3 proc" va r False "page_base k i"]
      writable_write_pte [of "entry_at r va 12" False "page_base k i" k2]
    by (intro exI [of _ maps] exI [of _ m]) (simp add: k2 m_def can_map_def)
qed

definition table_example :: kmem where
  "table_example = \<lparr>kphy = \<lparr>pages =
       \<lparr>base = 0x1000, used_by = 3, use_record = [\<lparr>ur_type = 1, ur_pt = 8\<rparr>]\<rparr> #
       map (\<lambda>n. \<lparr>base = 0x1000 * n, used_by = 0, use_record = []\<rparr>) [2, 3, 4, 5],
     page_entry_before = 0, pmem = (\<lambda>_. 0)\<rparr>, map_supply = [100, 200, 300, 400]\<rparr>"

definition space_example :: addr_space where
  "space_example = \<lparr>self = 50, cr3 = 0x1000, first_map = []\<rparr>"

lemma table_example_can_map: "can_map 4 table_example (cr3 space_example) 0x8000000123"
proof -
  have "kfree table_example = {0x2000, 0x3000, 0x4000, 0x5000}"
    by (simp add: kfree_def free_bases_filter table_example_def)
  then show ?thesis
    by (simp add: can_map_def frames_ok_def table_example_def space_example_def LEVELS_def
        kread_def present_def frame_def FRAME_MASK_def)
qed

theorem add_page_for_process_maps_witness:
  "\<exists>dest maps m k'. add_page_for_process table_example space_example 0x8000000123 True 2 =
      Some (dest, space_example\<lparr>first_map := first_map space_example @ maps @ [m]\<rparr>, k') \<and>
      dest \<in> kfree table_example \<and> kfree k' \<subseteq> kfree table_example - {dest} \<and>
      translate_cr3 (kread k') (cr3 space_example) 0x8000000123 = dest + (0x8000000123 AND 0xFFF) \<and>
      (\<forall>a. a - dest < 4096 \<longrightarrow> kread k' a = 0) \<and>
      vir_addr m = 0x8000000123 \<and> rw m = True \<and> mm_type m = 2 \<and> page_base k' (phy_page m) = dest"
  by (rule add_page_for_process_maps [OF table_example_can_map])

theorem dup_page_for_process_shares_witness:
  "\<exists>maps m k' x. dup_page_for_process table_example space_example 0x8000000123 True 0 =
      Some (page_base table_example 0, space_example\<lparr>first_map := first_map space_example @ maps @ [m]\<rparr>, k') \<and>
      translate_cr3 (kread k') (cr3 space_example) 0x8000000123 =
        page_base table_example 0 + (0x8000000123 AND 0xFFF) \<and>
      walk_word (kread k') (cr3 space_example) 0x8000000123 PTE_LEVELS = Some x \<and> \<not> bit x 1 \<and>
      shared m \<and> rw m = True \<and> vir_addr m = 0x8000000123 \<and> phy_page m = 0 \<and>
      page_users (kphy k') 0 = insert (mm_ptr m) (page_users (kphy table_example) 0)"
  by (rule dup_page_for_process_shares [OF table_example_can_map])
    (simp_all add: table_example_def PTE_LEVELS_def kread_def present_def)

text \<open>An address space with one page mapped, at \<open>0x4005\<close>, and four pages free.\<close>

definition mapped_example :: kmem where
  "mapped_example = \<lparr>kphy = \<lparr>pages =
       map (\<lambda>n. \<lparr>base = 0x1000 * n, used_by = 0, use_record = []\<rparr>) [6, 7, 8, 9],
     page_entry_before = 0,
     pmem = (\<lambda>a. if a = 0x1000 then 0x2007 else if a = 0x2000 then 0x3007
       else if a = 0x3000 then 0x4007 else if a = 0x4020 then 0x5007 else 0)\<rparr>,
     map_supply = [100, 200, 300, 400]\<rparr>"

lemma mapped_example_free: "kfree mapped_example = {0x6000, 0x7000, 0x8000, 0x9000}"
  by (simp add: kfree_def free_bases_filter mapped_example_def)

lemma mapped_example_can_map: "can_map 4 mapped_example (cr3 space_example) 0x8000000123"
proof -
  have "frames_ok mapped_example"
    by (simp add: frames_ok_def mapped_example_def frame_def FRAME_MASK_def)
  moreover have "walk_frames (kread mapped_example) (cr3 space_example) 0x8000000123 LEVELS = [0x1000]"
    by (simp add: space_example_def LEVELS_def kread_def present_def frame_def FRAME_MASK_def
        mapped_example_def entry_at_def)
  ultimately show ?thesis
    by (simp add: can_map_def mapped_example_free) (simp add: mapped_example_def)
qed

theorem add_page_for_process_keeps_others_witness:
  "\<exists>dest proc' k'. add_page_for_process mapped_example space_example 0x8000000123 True 2 = Some (dest, proc', k') \<and>
     translate_cr3 (kread k') (cr3 space_example) 0x4005 =
       translate_cr3 (kread mapped_example) (cr3 space_example) 0x4005 \<and>
     translate_cr3 (kread mapped_example) (cr3 space_example) 0x4005 = 0x5005"
proof -
  have w: "walk_word (kread mapped_example) (cr3 space_example) 0x4005 PTE_LEVELS = Some 0x5007"
    "walk_frames (kread mapped_example) (cr3 space_example) 0x4005 PTE_LEVELS = [0x1000, 0x2000, 0x3000, 0x4000, 0x5000]"
    by (simp_all add: space_example_def PTE_LEVELS_def kread_def present_def frame_def FRAME_MASK_def
        mapped_example_def entry_at_def)
  have n: "walk_word (kread mapped_example) (cr3 space_example) 0x8000000123 PTE_LEVELS = None"
    by (simp add: space_example_def PTE_LEVELS_def kread_def present_def frame_def FRAME_MASK_def
        mapped_example_def entry_at_def)
  have dj: "set (butlast (walk_frames (kread mapped_example) (cr3 space_example) 0x4005 PTE_LEVELS)) \<inter>
     kfree mapped_example = {}"
    by (simp add: w mapped_example_free)
  obtain dest proc' k' where "add_page_for_process mapped_example space_example 0x8000000123 True 2 = Some (dest, proc', k')"
    by (rule add_page_spec [OF mapped_example_can_map])
  with add_page_for_process_keeps_others [OF mapped_example_can_map n w(1) dj this] w(1) show ?thesis
    by (simp add: translate_cr3_walk frame_def FRAME_MASK_def)
qed

theorem set_pte_rw_sets_bit_witness:
  "case set_pte_rw (kread mapped_example) 0x1000 0x4005 False of (ok, m') \<Rightarrow>
      (ok \<longleftrightarrow> walk_word (kread mapped_example) 0x1000 0x4005 PTE_LEVELS \<noteq> None) \<and>
      translate_cr3 m' 0x1000 0x4005 = translate_cr3 (kread mapped_example) 0x1000 0x4005 \<and>
      (if ok then \<exists>r x. walk_word (kread mapped_example) 0x1000 0x4005 LEVELS = Some r \<and>
           walk_word m' 0x1000 0x4005 PTE_LEVELS = Some x \<and> bit x 1 = False \<and>
           (\<forall>n. n \<noteq> 1 \<longrightarrow> bit x n = bit (kread mapped_example (entry_at r 0x4005 12)) n) \<and>
           (\<forall>a. a \<noteq> entry_at r 0x4005 12 \<longrightarrow> m' a = kread mapped_example a)
       else m' = kread mapped_example)"
  by (rule set_pte_rw_sets_bit) (simp add: LEVELS_def kread_def present_def frame_def FRAME_MASK_def
        mapped_example_def entry_at_def)

end
