(* ===== verification/Kbrk.thy ===== *)
theory Kbrk
  imports Paging
begin

text \<open>
  The kernel's own page tables and the break of its heap, from \<^verbatim>\<open>sys/memory/phy_page.c\<close>:
  \<^verbatim>\<open>kernel_page_table_init\<close>, \<^verbatim>\<open>move_kbrk\<close>, \<^verbatim>\<open>_kbrk\<close> and \<^verbatim>\<open>kbrk\<close>, over the physical memory of
  \<open>Paging\<close>.
\<close>

section \<open>Operations\<close>

text \<open>The globals \<open>kernel_page_table_PML4\<close>, \<open>kernel_malloc_pd\<close>, \<open>kernel_base_pd\<close>.\<close>

record kpt =
  kernel_page_table_PML4 :: u64
  kernel_malloc_pd :: u64
  kernel_base_pd :: u64

definition KBRK_BASE_ADDRESS :: u64 where "KBRK_BASE_ADDRESS = 0xFFFFFFFF80000000"

definition process_direct_mapping_addr :: u64 where
  "process_direct_mapping_addr = 0xFFFFFF0000000000"

definition alloc_kernel_page :: "kmem \<Rightarrow> (u64 \<times> kmem) option" where
  "alloc_kernel_page k = do { (b, ph) \<leftarrow> get_phy_page (kphy k) 1 2; Some (b, k\<lparr>kphy := ph\<rparr>) }"

text \<open>Assigning the fields of an entry: \<open>P\<close>, \<open>RW\<close>, \<open>US\<close>, \<open>PS\<close> where it is set, and the address.\<close>

definition entry_slot :: "u64 \<Rightarrow> nat \<Rightarrow> u64" where
  "entry_slot tbl i = tbl + 8 * of_nat i"

definition set_entry :: "u64 \<Rightarrow> u64 \<Rightarrow> u64 option \<Rightarrow> u64 \<Rightarrow> kmem \<Rightarrow> kmem" where
  "set_entry e us ps target k =
     (let w = set_US us (set_RW 1 (set_P (kread k e)));
          w' = (case ps of None \<Rightarrow> w | Some v \<Rightarrow> set_PS v w)
      in kwrite e (set_addr (drop_bit 12 target) w') k)"

definition kernel_page_table_init :: "kmem \<Rightarrow> (kpt \<times> kmem) option" where
  "kernel_page_table_init k =
     do {
       (PML4, k1) \<leftarrow> alloc_kernel_page k;
       (PDP1, k2) \<leftarrow> alloc_kernel_page k1;
       (PDP2, k3) \<leftarrow> alloc_kernel_page k2;
       (PD, k4) \<leftarrow> alloc_kernel_page k3;
       (base_pd, k5) \<leftarrow> alloc_kernel_page k4;
       let k6 = fold (\<lambda>i. set_entry (entry_slot base_pd i) 1 (Some 1) (0x200000 * of_nat i)) [0..<512] (kzero base_pd k5);
       let k7 = kzero PD (kzero PDP2 (kzero PDP1 (kzero PML4 k6)));
       let k8 = set_entry (entry_slot PML4 511) 0 None PDP1 k7;
       let k9 = set_entry (entry_slot PML4 0) 0 None PDP2 k8;
       let k10 = set_entry (entry_slot PDP1 511) 0 (Some 0) base_pd k9;
       let k11 = set_entry (entry_slot PDP1 510) 0 None PD k10;
       let k12 = fold (\<lambda>i. set_entry (entry_slot PDP2 i) 0 (Some 1) (0x40000000 * of_nat i)) [0..<512] k11;
       let k13 = set_entry (entry_slot PD 0) 0 (Some 1) 0 k12;
       let k14 = set_entry (entry_slot PD 1) 0 (Some 1) 0x200000 k13;
       Some (\<lparr>kernel_page_table_PML4 = PML4, kernel_malloc_pd = PD, kernel_base_pd = base_pd\<rparr>, k14)
     }"

text \<open>\<open>move_kbrk\<close>: one more entry of a page table, or a new page table and its first entry.\<close>

definition move_kbrk :: "u64 \<Rightarrow> u64 option \<Rightarrow> kmem \<Rightarrow> kmem option" where
  "move_kbrk pd pt k =
     (case pt of
        Some e \<Rightarrow>
          do {
            (new_page, k1) \<leftarrow> alloc_kernel_page k;
            Some (set_entry e 0 None new_page (kzero new_page k1))
          }
      | None \<Rightarrow>
          do {
            (new_page, k1) \<leftarrow> alloc_kernel_page k;
            (new_page_pt, k2) \<leftarrow> alloc_kernel_page k1;
            let k3 = kzero new_page_pt (kzero new_page k2);
            let k4 = set_entry pd 0 (Some 0) new_page_pt k3;
            Some (set_entry new_page_pt 0 None new_page k4)
          })"

definition kbrk_pd :: "kpt \<Rightarrow> kmem \<Rightarrow> u64" where
  "kbrk_pd t k = frame (kread k (entry_slot (frame (kread k (entry_slot (kernel_page_table_PML4 t) 511))) 510))"

definition first_absent :: "kmem \<Rightarrow> u64 \<Rightarrow> nat \<Rightarrow> nat option" where
  "first_absent k tbl from = find (\<lambda>i. kread k (entry_slot tbl i) AND 1 = 0) [from..<512]"

definition kbrk_step :: "kpt \<Rightarrow> u64 \<Rightarrow> kmem \<Rightarrow> (u64 \<times> kmem) option" where
  "kbrk_step t sz k =
     (if sz > 4096 then None
      else
        let pd_base = kbrk_pd t k;
            move = (\<lambda>pd pt. if sz > 0 then move_kbrk pd pt k else Some k)
        in (case first_absent k pd_base 2 of
              None \<Rightarrow> None
            | Some i' \<Rightarrow>
                let i = i' - 1
                in if i = 1 then
                     do { k' \<leftarrow> move (entry_slot pd_base 2) None; Some (KBRK_BASE_ADDRESS + 0x400000, k') }
                   else
                     let pt_base = frame (kread k (entry_slot pd_base i))
                     in (case first_absent k pt_base 0 of
                           Some j \<Rightarrow>
                             do {
                               k' \<leftarrow> move (entry_slot pd_base i) (Some (entry_slot pt_base j));
                               Some (KBRK_BASE_ADDRESS + of_nat i * 0x200000 + of_nat j * 0x1000, k')
                             }
                         | None \<Rightarrow>
                             do {
                               k' \<leftarrow> move (entry_slot pd_base (i + 1)) None;
                               Some (KBRK_BASE_ADDRESS + of_nat (i + 1) * 0x200000, k')
                             })))"

text \<open>
  \<open>kbrk\<close>, and the same loop in the kernel task \<open>TASK_KBRK\<close>: the first step's address is
  returned, and one more step is made for each further page.
\<close>

fun kbrk_more :: "kpt \<Rightarrow> nat \<Rightarrow> kmem \<Rightarrow> kmem option" where
  "kbrk_more t 0 k = Some k"
| "kbrk_more t (Suc n) k = do { (_, k') \<leftarrow> kbrk_step t 4096 k; kbrk_more t n k' }"

definition kbrk :: "kpt \<Rightarrow> u64 \<Rightarrow> kmem \<Rightarrow> (u64 \<times> kmem) option" where
  "kbrk t sz k =
     (if sz mod 4096 \<noteq> 0 then None
      else if sz = 0 then kbrk_step t 0 k
      else do {
        (ret, k1) \<leftarrow> kbrk_step t 4096 k;
        k2 \<leftarrow> kbrk_more t (unat ((sz - 4096) div 4096)) k1;
        Some (ret, k2)
      })"

section \<open>Table slots\<close>

lemma slot_in_page:
  assumes "frame t = t" "frame b = b" "i < 512"
  shows "entry_slot t i - b < 4096 \<longleftrightarrow> t = b"
proof -
  have u: "unat (of_nat i :: u64) = i" using assms(3) by (simp add: unat_of_nat take_bit_nat_eq_self)
  have "unat (8 * of_nat i :: u64) = 8 * i" using assms(3) u by (simp add: unat_word_ariths)
  then show ?thesis unfolding entry_slot_def using assms by (intro in_page_iff) simp_all
qed

lemma slot_inj:
  assumes "frame t = t" "frame t' = t'" "i < 512" "j < 512"
  shows "entry_slot t i = entry_slot t' j \<longleftrightarrow> t = t' \<and> i = j"
proof
  assume eq: "entry_slot t i = entry_slot t' j"
  then have "t = t'" using slot_in_page [OF assms(1,2,3)] slot_in_page [OF assms(2,2,4)] by simp
  with eq have "8 * (of_nat i :: u64) = 8 * of_nat j" by (simp add: entry_slot_def)
  then have "unat (8 * (of_nat i :: u64)) = unat (8 * (of_nat j :: u64))" by simp
  with assms(3,4) \<open>t = t'\<close> show "t = t' \<and> i = j"
    by (simp add: unat_word_ariths unat_of_nat take_bit_nat_eq_self)
qed simp

lemma present_and: "w AND 1 = 0 \<longleftrightarrow> \<not> present w"
  by (rule not_present_and)

lemma set_entry_sel [simp]:
  "x \<noteq> e \<Longrightarrow> kread (set_entry e us ps b k) x = kread k x"
  "kfree (set_entry e us ps b k) = kfree k" "frames_ok (set_entry e us ps b k) = frames_ok k"
  by (simp_all add: set_entry_def Let_def)

lemma set_entry_written:
  "present (kread (set_entry e us ps b k) e)"
  "frame b = b \<Longrightarrow> frame (kread (set_entry e us ps b k) e) = b"
  by (auto simp: set_entry_def Let_def split: option.splits)

lemma alloc_kernel_page_spec:
  assumes "frames_ok k" "kfree k \<noteq> {}"
  shows "\<exists>b k'. alloc_kernel_page k = Some (b, k') \<and> b \<in> kfree k \<and> frame b = b \<and> frames_ok k' \<and>
     kfree k' = kfree k - {b} \<and> (\<forall>a. kread k' a = (if a - b < 4096 then 0 else kread k a))"
proof -
  have d: "distinct (map base (pages (kphy k)))" using assms(1) by (simp add: frames_ok_def)
  from get_phy_page_single [OF d, of 1 2] assms(2) obtain b s' where
    g: "get_phy_page (kphy k) 1 2 = Some (b, s')" "b \<in> kfree k" "free_bases s' = kfree k - {b}"
    "map base (pages s') = map base (pages (kphy k))"
    "pmem s' = (\<lambda>a. if a - b < 4096 then 0 else pmem (kphy k) a)" by (auto simp: kfree_def)
  have "frames_ok (k\<lparr>kphy := s'\<rparr>)" using frames_ok_pages [of "k\<lparr>kphy := s'\<rparr>" k] g(4) assms(1) by simp
  with g assms(1) kfree_frame show ?thesis
    by (auto simp: alloc_kernel_page_def kread_def kfree_def)
qed

section \<open>The heap grows page by page\<close>

lemma find_upt:
  assumes "from \<le> c" "c < n" "\<And>i. from \<le> i \<Longrightarrow> i < n \<Longrightarrow> P i = (c \<le> i)"
  shows "find P [from..<n] = Some c"
proof -
  have "[from..<n] = [from..<c] @ c # [Suc c..<n]"
    using upt_add_eq_append [of "from" c "n - c"] upt_conv_Cons [of c n] assms(1,2) by simp
  moreover have "find P [from..<c] = None" using assms by (auto simp: find_None_iff)
  moreover have "find P (xs @ ys) = (case find P xs of None \<Rightarrow> find P ys | Some x \<Rightarrow> Some x)" for xs ys :: "nat list"
    by (induction xs) auto
  ultimately show ?thesis using assms(3) [of c] assms(1,2) by simp
qed

lemma find_upt_None:
  "(\<And>i. from \<le> i \<Longrightarrow> i < n \<Longrightarrow> \<not> P i) \<Longrightarrow> find P [from..<n] = None"
  by (auto simp: find_None_iff)

text \<open>The tables of the kernel heap: the page table of each region of 512 pages in use.\<close>

definition heap_pdp :: "kpt \<Rightarrow> kmem \<Rightarrow> u64" where
  "heap_pdp t k = frame (kread k (entry_slot (kernel_page_table_PML4 t) 511))"

definition heap_pt :: "kpt \<Rightarrow> kmem \<Rightarrow> nat \<Rightarrow> u64" where
  "heap_pt t k i = frame (kread k (entry_slot (kbrk_pd t k) i))"

definition regions :: "nat \<Rightarrow> nat" where
  "regions n = (n + 511) div 512"

definition heap_tables :: "kpt \<Rightarrow> kmem \<Rightarrow> nat \<Rightarrow> u64 list" where
  "heap_tables t k n = kernel_page_table_PML4 t # heap_pdp t k # kbrk_pd t k # map (heap_pt t k) [2..<2 + regions n]"

text \<open>\<open>heap_at t k n\<close>: exactly the first \<open>n\<close> pages of the heap are mapped.\<close>

definition heap_at :: "kpt \<Rightarrow> kmem \<Rightarrow> nat \<Rightarrow> bool" where
  "heap_at t k n \<longleftrightarrow> frames_ok k \<and> frame (kernel_page_table_PML4 t) = kernel_page_table_PML4 t \<and>
     distinct (heap_tables t k n) \<and> set (heap_tables t k n) \<inter> kfree k = {} \<and>
     (\<forall>i. 2 \<le> i \<longrightarrow> i < 512 \<longrightarrow> present (kread k (entry_slot (kbrk_pd t k) i)) = (i < 2 + regions n)) \<and>
     (\<forall>i < regions n. \<forall>j < 512. present (kread k (entry_slot (heap_pt t k (2 + i)) j)) = (512 * i + j < n))"

text \<open>The frame of page number \<open>p\<close> of the heap.\<close>

definition heap_page :: "kpt \<Rightarrow> kmem \<Rightarrow> nat \<Rightarrow> u64" where
  "heap_page t k p = frame (kread k (entry_slot (heap_pt t k (2 + p div 512)) (p mod 512)))"

lemma heap_table_frames:
  "heap_at t k n \<Longrightarrow> x \<in> set (heap_tables t k n) \<Longrightarrow> frame x = x"
  by (auto simp: heap_at_def heap_tables_def heap_pdp_def kbrk_pd_def heap_pt_def)

lemma heap_pt_table: "i < regions n \<Longrightarrow> heap_pt t k (2 + i) \<in> set (heap_tables t k n)"
  unfolding heap_tables_def by (intro list.set_intros(2)) (simp only: set_map, rule imageI, simp only: set_upt atLeastLessThan_iff, simp)

lemma heap_pt_inj:
  assumes "heap_at t k n" "i < regions n" "j < regions n"
  shows "heap_pt t k (2 + i) = heap_pt t k (2 + j) \<longleftrightarrow> i = j"
proof -
  have "distinct (map (heap_pt t k) [2..<2 + regions n])"
    using assms(1) unfolding heap_at_def heap_tables_def by simp
  then have "inj_on (heap_pt t k) {2..<2 + regions n}" unfolding distinct_map set_upt by blast
  moreover have "2 + i \<in> {2..<2 + regions n}" "2 + j \<in> {2..<2 + regions n}" using assms by simp_all
  ultimately have "heap_pt t k (2 + i) = heap_pt t k (2 + j) \<longleftrightarrow> 2 + i = 2 + j" by (rule inj_on_eq_iff)
  then show ?thesis by simp
qed

lemma pt_not_pd:
  assumes "heap_at t k n" "i < regions n"
  shows "heap_pt t k (2 + i) \<noteq> kbrk_pd t k"
proof -
  have "heap_pt t k (2 + i) \<in> set (map (heap_pt t k) [2..<2 + regions n])"
    using assms(2) by (simp only: set_map set_upt) (rule imageI, simp)
  then show ?thesis using assms(1) unfolding heap_at_def heap_tables_def by auto
qed

lemma regions_bounds: "512 * i < n \<longleftrightarrow> i < regions n" "n \<le> 512 * regions n"
  unfolding regions_def by linarith+

text \<open>Memory that agrees on all slots of the tables, up to one, holds the same tables.\<close>

lemma heap_tables_cong:
  assumes h: "heap_at t k n" and i: "2 \<le> i0" "i0 < 512"
    and same: "\<And>x i. x \<in> set (heap_tables t k n) \<Longrightarrow> i < 512 \<Longrightarrow> \<not> (x = kbrk_pd t k \<and> i = i0) \<Longrightarrow>
      x \<notin> set (map (heap_pt t k) [2..<2 + regions n]) \<Longrightarrow> kread k' (entry_slot x i) = kread k (entry_slot x i)"
  shows "heap_pdp t k' = heap_pdp t k" "kbrk_pd t k' = kbrk_pd t k"
    "\<And>i. i < 512 \<Longrightarrow> i \<noteq> i0 \<Longrightarrow> heap_pt t k' i = heap_pt t k i"
proof -
  have d: "distinct (heap_tables t k n)" using h by (simp add: heap_at_def)
  then have ne: "kernel_page_table_PML4 t \<noteq> kbrk_pd t k" "heap_pdp t k \<noteq> kbrk_pd t k"
    by (auto simp: heap_tables_def)
  have nt: "kernel_page_table_PML4 t \<notin> set (map (heap_pt t k) [2..<2 + regions n])"
    "heap_pdp t k \<notin> set (map (heap_pt t k) [2..<2 + regions n])"
    "kbrk_pd t k \<notin> set (map (heap_pt t k) [2..<2 + regions n])"
    using d by (auto simp: heap_tables_def)
  have m: "kernel_page_table_PML4 t \<in> set (heap_tables t k n)" "heap_pdp t k \<in> set (heap_tables t k n)"
    "kbrk_pd t k \<in> set (heap_tables t k n)" by (simp_all add: heap_tables_def)
  show p: "heap_pdp t k' = heap_pdp t k"
    using same [OF m(1), of 511] ne nt by (simp add: heap_pdp_def)
  show pd: "kbrk_pd t k' = kbrk_pd t k"
    using same [OF m(2), of 510] ne nt p by (simp add: kbrk_pd_def heap_pdp_def)
  show "heap_pt t k' i = heap_pt t k i" if "i < 512" "i \<noteq> i0" for i
    using same [OF m(3), of i] nt that pd by (simp add: heap_pt_def)
qed

text \<open>One more page in a region that has room.\<close>

lemma heap_extend:
  assumes h: "heap_at t k n" and n: "n mod 512 \<noteq> 0" "n < 509 * 512" and fr: "kfree k \<noteq> {}"
  defines "q \<equiv> n div 512" and "r \<equiv> n mod 512"
  shows "\<exists>b k'. move_kbrk (entry_slot (kbrk_pd t k) (2 + q)) (Some (entry_slot (heap_pt t k (2 + q)) r)) k = Some k' \<and>
     heap_at t k' (Suc n) \<and> b \<in> kfree k \<and> kfree k' = kfree k - {b} \<and>
     heap_pt t k' (2 + q) = heap_pt t k (2 + q) \<and> frame (kread k' (entry_slot (heap_pt t k (2 + q)) r)) = b \<and>
     (\<forall>a. a - b < 4096 \<longrightarrow> kread k' a = 0) \<and> (\<forall>p < n. heap_page t k' p = heap_page t k p)"
proof -
  have ok: "frames_ok k" using h by (simp add: heap_at_def)
  from alloc_kernel_page_spec [OF ok fr] obtain b k1 where a: "alloc_kernel_page k = Some (b, k1)"
    and b: "b \<in> kfree k" "frame b = b" and k1: "frames_ok k1" "kfree k1 = kfree k - {b}"
    and rd: "\<And>x. kread k1 x = (if x - b < 4096 then 0 else kread k x)" by blast
  let ?e = "entry_slot (heap_pt t k (2 + q)) r"
  define k' where "k' = set_entry ?e 0 None b (kzero b k1)"
  have nq: "n = 512 * q + r" "r < 512" "0 < r" "q < 509" using n by (auto simp: q_def r_def)
  have rg: "regions n = Suc q" "regions (Suc n) = Suc q" unfolding regions_def using nq by auto
  have pin: "heap_pt t k (2 + q) \<in> set (map (heap_pt t k) [2..<2 + regions n])" using rg by auto
  then have pt: "heap_pt t k (2 + q) \<in> set (heap_tables t k n)" by (simp add: heap_tables_def)
  have fr_all: "frame x = x" "x \<noteq> b" if "x \<in> set (heap_tables t k n)" for x
    using heap_table_frames [OF h that] h b that by (auto simp: heap_at_def)
  have rd': "kread k' x = (if x = ?e then kread k' ?e else if x - b < 4096 then 0 else kread k x)" for x
    unfolding k'_def by (simp add: rd)
  have slots: "kread k' (entry_slot x i) = kread k (entry_slot x i)"
    if "x \<in> set (heap_tables t k n)" "i < 512" "\<not> (x = heap_pt t k (2 + q) \<and> i = r)" for x i
  proof -
    have "entry_slot x i \<noteq> ?e"
      using slot_inj [OF fr_all(1) [OF that(1)] fr_all(1) [OF pt] that(2) nq(2)] that(3) by blast
    moreover have "\<not> entry_slot x i - b < 4096"
      using slot_in_page [OF fr_all(1) [OF that(1)] b(2) that(2)] fr_all(2) [OF that(1)] by blast
    ultimately show ?thesis using rd' [of "entry_slot x i"] by simp
  qed
  have cong: "heap_pdp t k' = heap_pdp t k" "kbrk_pd t k' = kbrk_pd t k" "\<And>i. i < 512 \<Longrightarrow> i \<noteq> 511 \<Longrightarrow> heap_pt t k' i = heap_pt t k i"
    by (rule heap_tables_cong [OF h, of 511]; use slots pin in auto)+
  have e: "present (kread k' ?e)" "frame (kread k' ?e) = b"
    unfolding k'_def using set_entry_written b(2) by auto
  have tb: "heap_tables t k' (Suc n) = heap_tables t k n"
    unfolding heap_tables_def rg cong using cong(3) nq(4) by auto
  have "\<not> ?e - b < 4096" using slot_in_page [OF fr_all(1) [OF pt] b(2) nq(2)] fr_all(2) [OF pt] by simp
  then have z: "kread k' x = 0" if "x - b < 4096" for x using that rd' [of x] by auto
  have "heap_at t k' (Suc n)"
    unfolding heap_at_def tb rg
  proof (intro conjI allI impI)
    show "frames_ok k'" unfolding k'_def using k1 by simp
    show "set (heap_tables t k n) \<inter> kfree k' = {}" using h k1 by (auto simp: heap_at_def k'_def)
    fix i :: nat assume i: "2 \<le> i" "i < 512"
    have "kbrk_pd t k \<in> set (heap_tables t k n)" by (simp add: heap_tables_def)
    moreover have "kbrk_pd t k \<noteq> heap_pt t k (2 + q)" using h pin by (auto simp: heap_at_def heap_tables_def)
    ultimately show "present (kread k' (entry_slot (kbrk_pd t k') i)) = (i < 2 + Suc q)"
      using slots [of "kbrk_pd t k" i] i h rg by (simp add: cong heap_at_def)
  next
    fix i j :: nat assume ij: "i < Suc q" "j < 512"
    have "2 + i < 512" "2 + i \<noteq> 511" using ij nq by auto
    then have hp: "heap_pt t k' (2 + i) = heap_pt t k (2 + i)" by (rule cong(3))
    have pi: "heap_pt t k (2 + i) \<in> set (heap_tables t k n)" by (rule heap_pt_table) (use ij rg in simp)
    have inj: "heap_pt t k (2 + i) = heap_pt t k (2 + q) \<longleftrightarrow> i = q"
      by (rule heap_pt_inj [OF h]) (use ij rg in simp_all)
    show "present (kread k' (entry_slot (heap_pt t k' (2 + i)) j)) = (512 * i + j < Suc n)"
    proof (cases "i = q \<and> j = r")
      case True
      then show ?thesis using e(1) hp nq by simp
    next
      case False
      then have "kread k' (entry_slot (heap_pt t k (2 + i)) j) = kread k (entry_slot (heap_pt t k (2 + i)) j)"
        using slots [OF pi ij(2)] inj by blast
      moreover have "present (kread k (entry_slot (heap_pt t k (2 + i)) j)) = (512 * i + j < n)"
        using h ij rg by (simp add: heap_at_def)
      moreover have "512 * i + j \<noteq> n"
      proof
        assume "512 * i + j = n"
        then have "q = (512 * i + j) div 512" "r = (512 * i + j) mod 512" by (simp_all add: q_def r_def)
        then show False using False ij(2) by simp
      qed
      ultimately show ?thesis using hp by auto
    qed
  qed (use h in \<open>simp_all add: heap_at_def\<close>)
  moreover have "move_kbrk (entry_slot (kbrk_pd t k) (2 + q)) (Some ?e) k = Some k'"
    using a by (simp add: move_kbrk_def k'_def)
  moreover have "kfree k' = kfree k - {b}" unfolding k'_def using k1 by simp
  moreover have "heap_pt t k' (2 + q) = heap_pt t k (2 + q)" using cong(3) nq by simp
  moreover have "heap_page t k' p = heap_page t k p" if p: "p < n" for p
  proof -
    have "512 * (p div 512) < n" using p by (metis div_times_less_eq_dividend le_less_trans mult.commute)
    then have i: "p div 512 < regions n" by (simp only: regions_bounds)
    have "heap_pt t k' (2 + p div 512) = heap_pt t k (2 + p div 512)" using i rg nq by (intro cong(3)) auto
    moreover have "p div 512 = q \<Longrightarrow> p mod 512 \<noteq> r" using p nq(1) by (metis mult_div_mod_eq less_irrefl)
    then have "kread k' (entry_slot (heap_pt t k (2 + p div 512)) (p mod 512)) = kread k (entry_slot (heap_pt t k (2 + p div 512)) (p mod 512))"
      using heap_pt_inj [OF h i, of q] rg by (intro slots heap_pt_table [OF i]) auto
    ultimately show ?thesis by (simp add: heap_page_def)
  qed
  ultimately show ?thesis using b e z by blast
qed

lemma slot_0 [simp]: "entry_slot x 0 = x"
  by (simp add: entry_slot_def)

text \<open>A new region: a page table and its first page.\<close>

lemma heap_new_region:
  assumes h: "heap_at t k n" and n: "n mod 512 = 0" "n \<le> 509 * 512" and fr: "2 \<le> card (kfree k)"
  defines "q \<equiv> n div 512"
  shows "\<exists>b c k'. move_kbrk (entry_slot (kbrk_pd t k) (2 + q)) None k = Some k' \<and>
     heap_at t k' (Suc n) \<and> b \<in> kfree k \<and> c \<in> kfree k \<and> b \<noteq> c \<and> kfree k' = kfree k - {b, c} \<and>
     heap_pt t k' (2 + q) = c \<and> frame (kread k' (entry_slot c 0)) = b \<and>
     (\<forall>a. a - b < 4096 \<longrightarrow> kread k' a = 0) \<and> (\<forall>p < n. heap_page t k' p = heap_page t k p)"
proof -
  have ok: "frames_ok k" using h by (simp add: heap_at_def)
  have "kfree k \<noteq> {}" using fr by auto
  from alloc_kernel_page_spec [OF ok this] obtain b k1 where a1: "alloc_kernel_page k = Some (b, k1)"
    and b: "b \<in> kfree k" "frame b = b" and k1: "frames_ok k1" "kfree k1 = kfree k - {b}"
    and rd1: "\<And>x. kread k1 x = (if x - b < 4096 then 0 else kread k x)" by blast
  have "card (kfree k - {b}) = card (kfree k) - 1" using b(1) by simp
  with fr k1(2) have "card (kfree k1) > 0" by simp
  then have "kfree k1 \<noteq> {}" by auto
  from alloc_kernel_page_spec [OF k1(1) this] obtain c k2 where a2: "alloc_kernel_page k1 = Some (c, k2)"
    and c: "c \<in> kfree k1" "frame c = c" and k2: "frames_ok k2" "kfree k2 = kfree k1 - {c}"
    and rd2: "\<And>x. kread k2 x = (if x - c < 4096 then 0 else kread k1 x)" by blast
  have bc: "b \<noteq> c" "c \<in> kfree k" using c(1) k1(2) by auto
  let ?pd = "kbrk_pd t k"
  let ?e = "entry_slot ?pd (2 + q)"
  define k4 where "k4 = set_entry ?e 0 (Some 0) c (kzero c (kzero b k2))"
  define k' where "k' = set_entry c 0 None b k4"
  have nq: "n = 512 * q" "q \<le> 509" using n by (auto simp: q_def)
  have rg: "regions n = q" "regions (Suc n) = Suc q" unfolding regions_def using nq by auto
  have pdm: "?pd \<in> set (heap_tables t k n)" by (simp add: heap_tables_def)
  have fr_all: "frame x = x" "x \<noteq> b" "x \<noteq> c" if "x \<in> set (heap_tables t k n)" for x
    using heap_table_frames [OF h that] h b bc that by (auto simp: heap_at_def)
  have i0: "2 + q < 512" using nq by simp
  have ec: "?e \<noteq> c" "\<not> ?e - b < 4096" "\<not> ?e - c < 4096"
    using slot_in_page [OF fr_all(1) [OF pdm] c(2) i0] slot_in_page [OF fr_all(1) [OF pdm] b(2) i0]
      fr_all [OF pdm] by auto
  have cb: "\<not> c - b < 4096" using slot_in_page [OF c(2) b(2), of 0] bc by simp
  have rd': "kread k' x = (if x - b < 4096 \<or> x - c < 4096 then 0 else kread k x)" if "x \<noteq> c" "x \<noteq> ?e" for x
    unfolding k'_def k4_def using that by (auto simp: rd1 rd2)
  have e: "present (kread k' ?e)" "frame (kread k' ?e) = c"
  proof -
    have "kread k' ?e = kread k4 ?e" unfolding k'_def using ec(1) by simp
    then show "present (kread k' ?e)" "frame (kread k' ?e) = c"
      unfolding k4_def using set_entry_written c(2) by auto
  qed
  have e2: "present (kread k' c)" "frame (kread k' c) = b" unfolding k'_def using set_entry_written b(2) by auto
  have slots: "kread k' (entry_slot x i) = kread k (entry_slot x i)"
    if "x \<in> set (heap_tables t k n)" "i < 512" "\<not> (x = ?pd \<and> i = 2 + q)" for x i
  proof -
    have "entry_slot x i \<noteq> ?e"
      using slot_inj [OF fr_all(1) [OF that(1)] fr_all(1) [OF pdm] that(2) i0] that(3) by blast
    moreover have "\<not> entry_slot x i - b < 4096" "\<not> entry_slot x i - c < 4096"
      using slot_in_page [OF fr_all(1) [OF that(1)] b(2) that(2)] slot_in_page [OF fr_all(1) [OF that(1)] c(2) that(2)]
        fr_all(2,3) [OF that(1)] by blast+
    moreover from this have "entry_slot x i \<noteq> c" by auto
    ultimately show ?thesis using rd' [of "entry_slot x i"] by simp
  qed
  have cong: "heap_pdp t k' = heap_pdp t k" "kbrk_pd t k' = ?pd" "\<And>i. i < 512 \<Longrightarrow> i \<noteq> 2 + q \<Longrightarrow> heap_pt t k' i = heap_pt t k i"
    by (rule heap_tables_cong [OF h, of "2 + q"]; use slots i0 in auto)+
  have hc: "heap_pt t k' (2 + q) = c" using e(2) cong(2) by (simp add: heap_pt_def)
  have up: "[2..<2 + Suc q] = [2..<2 + q] @ [2 + q]" by simp
  have old: "map (heap_pt t k') [2..<2 + q] = map (heap_pt t k) [2..<2 + q]"
    by (rule map_cong [OF refl]) (use cong(3) i0 in auto)
  have tb: "heap_tables t k' (Suc n) = heap_tables t k n @ [c]"
    unfolding heap_tables_def rg cong(1,2) up map_append old by (simp only: list.map hc append.simps)
  have z: "kread k' x = 0" if "x - b < 4096" for x
    using that rd' [of x] ec(2) cb by auto
  have zc: "kread k' (entry_slot c j) = 0" if "0 < j" "j < 512" for j
  proof -
    have "entry_slot c j - c < 4096" using slot_in_page [OF c(2,2) that(2)] by simp
    moreover have "entry_slot c j \<noteq> c" using slot_inj [OF c(2,2) that(2), of 0] that by simp
    ultimately show ?thesis using rd' [of "entry_slot c j"] ec(3) by metis
  qed
  have "heap_at t k' (Suc n)"
    unfolding heap_at_def tb rg
  proof (intro conjI allI impI)
    show "frames_ok k'" unfolding k'_def k4_def using k2 by simp
    show "distinct (heap_tables t k n @ [c])" using h fr_all(3) by (auto simp: heap_at_def)
    show "set (heap_tables t k n @ [c]) \<inter> kfree k' = {}"
      using h k1(2) k2(2) by (auto simp: heap_at_def k'_def k4_def)
    fix i :: nat assume i: "2 \<le> i" "i < 512"
    show "present (kread k' (entry_slot (kbrk_pd t k') i)) = (i < 2 + Suc q)"
    proof (cases "i = 2 + q")
      case True
      then show ?thesis using e(1) cong(2) by simp
    next
      case False
      then show ?thesis using slots [OF pdm i(2)] i h rg cong(2) by (auto simp: heap_at_def)
    qed
  next
    fix i j :: nat assume ij: "i < Suc q" "j < 512"
    show "present (kread k' (entry_slot (heap_pt t k' (2 + i)) j)) = (512 * i + j < Suc n)"
    proof (cases "i = q")
      case True
      then show ?thesis using hc e2(1) zc ij nq by (cases "j = 0") (auto simp: present_def)
    next
      case False
      then have iq: "i < q" using ij by simp
      then have hp: "heap_pt t k' (2 + i) = heap_pt t k (2 + i)" using cong(3) i0 by simp
      have pi: "heap_pt t k (2 + i) \<in> set (heap_tables t k n)" by (rule heap_pt_table) (use iq rg in simp)
      have "heap_pt t k (2 + i) \<noteq> ?pd" by (rule pt_not_pd [OF h]) (use iq rg in simp)
      then have "kread k' (entry_slot (heap_pt t k (2 + i)) j) = kread k (entry_slot (heap_pt t k (2 + i)) j)"
        using slots [OF pi ij(2)] by blast
      moreover have "present (kread k (entry_slot (heap_pt t k (2 + i)) j)) = (512 * i + j < n)"
        using h ij iq rg by (simp add: heap_at_def)
      moreover have "512 * i + j < n" using nq iq ij by simp
      ultimately show ?thesis using hp by simp
    qed
  qed (use h in \<open>simp_all add: heap_at_def\<close>)
  moreover have "move_kbrk ?e None k = Some k'"
    using a1 a2 by (simp add: move_kbrk_def k'_def k4_def Let_def)
  moreover have "kfree k' = kfree k - {b, c}" unfolding k'_def k4_def using k1 k2 by auto
  moreover have "heap_page t k' p = heap_page t k p" if p: "p < n" for p
  proof -
    have "512 * (p div 512) < n" using p by (metis div_times_less_eq_dividend le_less_trans mult.commute)
    then have i: "p div 512 < regions n" by (simp only: regions_bounds)
    have "heap_pt t k' (2 + p div 512) = heap_pt t k (2 + p div 512)" using i rg nq by (intro cong(3)) auto
    moreover have "kread k' (entry_slot (heap_pt t k (2 + p div 512)) (p mod 512)) = kread k (entry_slot (heap_pt t k (2 + p div 512)) (p mod 512))"
      using pt_not_pd [OF h i] by (intro slots heap_pt_table [OF i]) auto
    ultimately show ?thesis by (simp add: heap_page_def)
  qed
  ultimately show ?thesis using b bc e2 z hc by (metis slot_0)
qed

lemma heap_address:
  "KBRK_BASE_ADDRESS + of_nat (2 + n div 512) * 0x200000 + of_nat (n mod 512) * 0x1000 =
   KBRK_BASE_ADDRESS + 0x400000 + of_nat n * 4096"
proof -
  have "(of_nat n :: u64) = of_nat (512 * (n div 512) + n mod 512)" by simp
  also have "\<dots> = 512 * of_nat (n div 512) + of_nat (n mod 512)" by (simp only: of_nat_add of_nat_mult of_nat_numeral)
  finally have n: "(of_nat n :: u64) = 512 * of_nat (n div 512) + of_nat (n mod 512)" .
  show ?thesis by (subst n) (simp add: algebra_simps)
qed

lemma heap_search:
  assumes h: "heap_at t k n" and n: "n \<le> 509 * 512"
  shows "first_absent k (kbrk_pd t k) 2 = Some (2 + regions n)"
    "n mod 512 \<noteq> 0 \<Longrightarrow> first_absent k (heap_pt t k (2 + n div 512)) 0 = Some (n mod 512)"
    "n mod 512 = 0 \<Longrightarrow> n \<noteq> 0 \<Longrightarrow> first_absent k (heap_pt t k (1 + n div 512)) 0 = None"
proof -
  have "regions n \<le> 509" using n by (simp add: regions_def)
  then show "first_absent k (kbrk_pd t k) 2 = Some (2 + regions n)"
    unfolding first_absent_def using h by (intro find_upt) (auto simp: heap_at_def present_and)
  have nm: "512 * (n div 512) + n mod 512 = n" by simp
  show "first_absent k (heap_pt t k (2 + n div 512)) 0 = Some (n mod 512)" if m: "n mod 512 \<noteq> 0"
  proof -
    have "n div 512 < regions n" using m by (simp flip: regions_bounds) (use nm in linarith)
    then have "\<forall>j < 512. present (kread k (entry_slot (heap_pt t k (2 + n div 512)) j)) = (512 * (n div 512) + j < n)"
      using h unfolding heap_at_def by blast
    moreover have "512 * (n div 512) + j < n \<longleftrightarrow> j < n mod 512" for j
      by (metis nm nat_add_left_cancel_less)
    ultimately show ?thesis unfolding first_absent_def
      by (intro find_upt) (auto simp: present_and not_less)
  qed
  show "first_absent k (heap_pt t k (1 + n div 512)) 0 = None" if m: "n mod 512 = 0" "n \<noteq> 0"
  proof -
    define R where "R = n div 512 - 1"
    have n1: "n = 512 * Suc R" using m nm by (cases "n div 512") (simp_all add: R_def)
    have "R < regions n" using n1 by (simp flip: regions_bounds)
    then have "\<forall>j < 512. present (kread k (entry_slot (heap_pt t k (2 + R)) j)) = (512 * R + j < n)"
      using h unfolding heap_at_def by blast
    moreover have "1 + n div 512 = 2 + R" using n1 by simp
    ultimately show ?thesis unfolding first_absent_def using n1
      by (intro find_upt_None) (simp add: present_and)
  qed
qed

lemma regions_last: "n mod 512 = 0 \<Longrightarrow> regions n = n div 512" "n mod 512 \<noteq> 0 \<Longrightarrow> regions n = Suc (n div 512)"
proof -
  show "regions n = n div 512" if m: "n mod 512 = 0"
  proof -
    obtain q where "n = 512 * q" using m by (metis mod_0_imp_dvd dvdE)
    then show ?thesis by (simp add: regions_def)
  qed
  show "regions n = Suc (n div 512)" if m: "n mod 512 \<noteq> 0"
  proof -
    have "(512 * d + m + 511) div 512 = Suc d" if "0 < m" "m < 512" for d m :: nat
    proof -
      have "512 * d + m + 511 = (m - 1) + Suc d * 512" using that by simp
      then show ?thesis using that by (simp only: div_mult_self1)
    qed
    from this [of "n mod 512" "n div 512"] m show ?thesis by (simp add: regions_def)
  qed
qed

text \<open>Asking for the break changes nothing.\<close>

lemma kbrk_query:
  assumes h: "heap_at t k n" and n: "n \<le> 509 * 512"
  shows "kbrk t 0 k = Some (KBRK_BASE_ADDRESS + 0x400000 + of_nat n * 4096, k)"
proof -
  have "kbrk_step t 0 k = Some (KBRK_BASE_ADDRESS + of_nat (2 + n div 512) * 0x200000 + of_nat (n mod 512) * 0x1000, k)"
  proof (cases "n mod 512 = 0")
    case True
    note rg = regions_last(1) [OF True]
    show ?thesis
    proof (cases "n = 0")
      case True
      then show ?thesis using heap_search(1) [OF h n] rg by (simp add: kbrk_step_def Let_def)
    next
      case False
      have d: "n div 512 \<noteq> 0" using True False by (auto simp: div_eq_0_iff)
      have "2 + regions n - 1 = 1 + n div 512" "1 + n div 512 \<noteq> 1" "Suc (1 + n div 512) = 2 + n div 512" using rg d by simp_all
      then show ?thesis
        using heap_search(1) [OF h n] heap_search(3) [OF h n True False] True
        by (simp add: kbrk_step_def Let_def flip: heap_pt_def)
    qed
  next
    case False
    then have "2 + regions n - 1 = 2 + n div 512" using regions_last(2) by simp
    then show ?thesis using heap_search(1) [OF h n] heap_search(2) [OF h n False]
      by (simp add: kbrk_step_def Let_def flip: heap_pt_def)
  qed
  then show ?thesis unfolding heap_address by (simp add: kbrk_def)
qed

text \<open>One step of the break, in a region that has room or by a new region.\<close>

lemma kbrk_step_extends:
  assumes h: "heap_at t k n" and n: "n \<le> 509 * 512" "n mod 512 = 0 \<or> n < 509 * 512" and fr: "2 \<le> card (kfree k)"
  shows "\<exists>b k'. kbrk_step t 4096 k = Some (KBRK_BASE_ADDRESS + 0x400000 + of_nat n * 4096, k') \<and>
     heap_at t k' (Suc n) \<and> b \<in> kfree k \<and> kfree k' \<subseteq> kfree k - {b} \<and> card (kfree k) \<le> card (kfree k') + 2 \<and>
     heap_page t k' n = b \<and> (\<forall>a. a - b < 4096 \<longrightarrow> kread k' a = 0) \<and>
     (\<forall>p < n. heap_page t k' p = heap_page t k p)"
proof (cases "n mod 512 = 0")
  case True
  from heap_new_region [OF h True n(1) fr] obtain b c k' where
    m: "move_kbrk (entry_slot (kbrk_pd t k) (2 + n div 512)) None k = Some k'" and r: "heap_at t k' (Suc n)"
    "b \<in> kfree k" "c \<in> kfree k" "b \<noteq> c" "kfree k' = kfree k - {b, c}" "heap_pt t k' (2 + n div 512) = c"
    "frame (kread k' (entry_slot c 0)) = b" "\<forall>a. a - b < 4096 \<longrightarrow> kread k' a = 0"
    "\<forall>p < n. heap_page t k' p = heap_page t k p" by blast
  note rg = regions_last(1) [OF True]
  have "kbrk_step t 4096 k = Some (KBRK_BASE_ADDRESS + of_nat (2 + n div 512) * 0x200000 + of_nat (n mod 512) * 0x1000, k')"
  proof (cases "n = 0")
    case True
    then show ?thesis using heap_search(1) [OF h n(1)] rg m by (simp add: kbrk_step_def Let_def)
  next
    case False
    have d: "n div 512 \<noteq> 0" using True False by (auto simp: div_eq_0_iff)
    have "2 + regions n - 1 = 1 + n div 512" "1 + n div 512 \<noteq> 1" "Suc (1 + n div 512) = 2 + n div 512" using rg d by simp_all
    then show ?thesis
      using heap_search(1) [OF h n(1)] heap_search(3) [OF h n(1) True False] m True
      by (simp add: kbrk_step_def Let_def flip: heap_pt_def)
  qed
  moreover have "card (kfree k') = card (kfree k) - 2" using r by (simp add: card_Diff_subset)
  ultimately show ?thesis unfolding heap_address using r True by (intro exI [of _ b] exI [of _ k']) (auto simp: heap_page_def)
next
  case False
  then have n2: "n < 509 * 512" using n by simp
  have "kfree k \<noteq> {}" using fr by auto
  from heap_extend [OF h False n2 this] obtain b k' where
    m: "move_kbrk (entry_slot (kbrk_pd t k) (2 + n div 512)) (Some (entry_slot (heap_pt t k (2 + n div 512)) (n mod 512))) k = Some k'"
    and r: "heap_at t k' (Suc n)" "b \<in> kfree k" "kfree k' = kfree k - {b}"
    "heap_pt t k' (2 + n div 512) = heap_pt t k (2 + n div 512)"
    "frame (kread k' (entry_slot (heap_pt t k (2 + n div 512)) (n mod 512))) = b"
    "\<forall>a. a - b < 4096 \<longrightarrow> kread k' a = 0" "\<forall>p < n. heap_page t k' p = heap_page t k p" by blast
  have "regions n = Suc (n div 512)" by (rule regions_last(2) [OF False])
  then have "2 + regions n - 1 = 2 + n div 512" by simp
  then have "kbrk_step t 4096 k = Some (KBRK_BASE_ADDRESS + of_nat (2 + n div 512) * 0x200000 + of_nat (n mod 512) * 0x1000, k')"
    using heap_search(1) [OF h n(1)] heap_search(2) [OF h n(1) False] m
    by (simp add: kbrk_step_def Let_def flip: heap_pt_def)
  moreover have "card (kfree k') = card (kfree k) - 1" using r by simp
  ultimately show ?thesis unfolding heap_address using r by (intro exI [of _ b] exI [of _ k']) (auto simp: heap_page_def)
qed

lemma kbrk_more_extends:
  assumes "heap_at t k n" "n + m \<le> 509 * 512" "2 * m \<le> card (kfree k)"
  shows "\<exists>k'. kbrk_more t m k = Some k' \<and> heap_at t k' (n + m) \<and> kfree k' \<subseteq> kfree k \<and>
     (\<forall>p < n. heap_page t k' p = heap_page t k p) \<and>
     (\<forall>p. n \<le> p \<longrightarrow> p < n + m \<longrightarrow> heap_page t k' p \<in> kfree k)"
  using assms
proof (induction m arbitrary: k n)
  case 0
  then show ?case by simp
next
  case (Suc m)
  have "n \<le> 509 * 512" "n mod 512 = 0 \<or> n < 509 * 512" "2 \<le> card (kfree k)" using Suc.prems by auto
  from kbrk_step_extends [OF Suc.prems(1) this] obtain b k1 where k1:
    "kbrk_step t 4096 k = Some (KBRK_BASE_ADDRESS + 0x400000 + of_nat n * 4096, k1)" "heap_at t k1 (Suc n)"
    "b \<in> kfree k" "kfree k1 \<subseteq> kfree k - {b}" "card (kfree k) \<le> card (kfree k1) + 2" "heap_page t k1 n = b"
    "\<forall>p < n. heap_page t k1 p = heap_page t k p" by blast
  have "Suc n + m \<le> 509 * 512" "2 * m \<le> card (kfree k1)" using Suc.prems k1(5) by auto
  from Suc.IH [OF k1(2) this] obtain k' where k': "kbrk_more t m k1 = Some k'" "heap_at t k' (Suc n + m)"
    "kfree k' \<subseteq> kfree k1" "\<forall>p < Suc n. heap_page t k' p = heap_page t k1 p"
    "\<forall>p. Suc n \<le> p \<longrightarrow> p < Suc n + m \<longrightarrow> heap_page t k' p \<in> kfree k1" by blast
  have "heap_page t k' p \<in> kfree k" if "n \<le> p" "p < n + Suc m" for p
  proof (cases "p = n")
    case True
    then show ?thesis using k1(3,6) k'(4) by simp
  next
    case False
    then have "heap_page t k' p \<in> kfree k1" using k'(5) that by simp
    then show ?thesis using k1(4) by blast
  qed
  with k1 k' show ?case by (intro exI [of _ k']) auto
qed

lemma kbrk_grows:
  assumes h: "heap_at t k n" and m: "0 < m" "n + m \<le> 509 * 512" "2 * m \<le> card (kfree k)"
  shows "\<exists>k'. kbrk t (of_nat (4096 * m)) k = Some (KBRK_BASE_ADDRESS + 0x400000 + of_nat n * 4096, k') \<and>
     heap_at t k' (n + m) \<and> (\<forall>p < n. heap_page t k' p = heap_page t k p) \<and>
     (\<forall>p. n \<le> p \<longrightarrow> p < n + m \<longrightarrow> heap_page t k' p \<in> kfree k)"
proof -
  obtain l where l: "m = Suc l" using m(1) by (cases m) auto
  have u: "unat (of_nat (4096 * m) :: u64) = 4096 * m"
    by (rule unat_nat64) (use m(2) in simp)
  have s: "of_nat (4096 * m) - 4096 = (of_nat (4096 * l) :: u64)" using l by (simp add: algebra_simps)
  have ul: "unat (of_nat (4096 * l) :: u64) = 4096 * l"
    by (rule unat_nat64) (use m(2) l in simp)
  have c: "(of_nat (4096 * m) :: u64) mod 4096 = 0" "(of_nat (4096 * m) :: u64) \<noteq> 0"
    "unat ((of_nat (4096 * m) - 4096 :: u64) div 4096) = l"
    unfolding s using u ul m(1) by (simp_all only: word_unat_eq_iff unat_mod unat_div) simp_all
  have n: "n \<le> 509 * 512" "n mod 512 = 0 \<or> n < 509 * 512" "2 \<le> card (kfree k)" using m by auto
  from kbrk_more_extends [OF h m(2,3)] obtain k' where
    "kbrk_more t m k = Some k'" "heap_at t k' (n + m)" "\<forall>p < n. heap_page t k' p = heap_page t k p"
    "\<forall>p. n \<le> p \<longrightarrow> p < n + m \<longrightarrow> heap_page t k' p \<in> kfree k" by blast
  moreover from kbrk_step_extends [OF h n] obtain k1 where
    "kbrk_step t 4096 k = Some (KBRK_BASE_ADDRESS + 0x400000 + of_nat n * 4096, k1)" by blast
  ultimately show ?thesis using c l by (simp add: kbrk_def)
qed

text \<open>
  The kernel heap grows at its end and nowhere else.  With \<open>n\<close> pages of heap mapped and
  enough free pages, \<open>kbrk\<close> of \<open>m\<close> pages returns the address just behind the heap; afterwards
  exactly \<open>n + m\<close> pages are mapped, the old ones to the frames they had, and the new ones to
  pages that were free.
\<close>

theorem kbrk_extends_heap:
  assumes h: "heap_at t k n" and m: "0 < m" "n + m \<le> 509 * 512" "2 * m \<le> card (kfree k)"
  shows "\<exists>k'. kbrk t (of_nat (4096 * m)) k = Some (KBRK_BASE_ADDRESS + 0x400000 + of_nat n * 4096, k') \<and>
     heap_at t k' (n + m) \<and> (\<forall>p < n. heap_page t k' p = heap_page t k p) \<and>
     (\<forall>p. n \<le> p \<longrightarrow> p < n + m \<longrightarrow> heap_page t k' p \<in> kfree k)"
  by (rule kbrk_grows [OF assms])

section \<open>The initial tables\<close>

lemma frame_region:
  assumes "i < 512" "12 \<le> sh" "sh \<le> 43"
  shows "frame (push_bit sh (of_nat i :: u64)) = push_bit sh (of_nat i)"
proof (rule bit_word_eqI)
  fix n assume "n < LENGTH(64)"
  have "take_bit 9 (of_nat i :: u64) = of_nat i"
    using assms(1) by (simp add: take_bit_of_nat take_bit_nat_eq_self flip: of_nat_take_bit)
  then have "bit (of_nat i :: u64) m \<Longrightarrow> m < 9" for m by (metis bit_take_bit_iff)
  then show "bit (frame (push_bit sh (of_nat i :: u64))) n = bit (push_bit sh (of_nat i :: u64)) n"
    using assms(2,3) by (auto simp: bit_frame bit_push_bit_iff) fastforce+
qed

text \<open>
  What the processor does with the tables: the walk from \<open>cr3\<close> ends at an entry with the \<open>PS\<close>
  bit (a page of one gigabyte or of two megabytes) or at the fourth level. It gives the physical address and
  whether every entry on the way allows writing (\<open>RW\<close>) and ring 3 (\<open>US\<close>).
\<close>

definition leaf :: "u64 \<Rightarrow> nat \<Rightarrow> u64 \<Rightarrow> u64" where
  "leaf w n va = push_bit n (drop_bit n (frame w)) + take_bit n va"

definition allow :: "u64 list \<Rightarrow> u64 \<Rightarrow> u64 \<times> bool \<times> bool" where
  "allow ws pa = (pa, list_all (\<lambda>w. bit w 1) ws, list_all (\<lambda>w. bit w 2) ws)"

definition hw_walk :: "(u64 \<Rightarrow> u64) \<Rightarrow> u64 \<Rightarrow> u64 \<Rightarrow> (u64 \<times> bool \<times> bool) option" where
  "hw_walk m c va =
     (let pml4e = m (entry_at c va 39)
      in if \<not> present pml4e then None
         else let pdpe = m (entry_at pml4e va 30)
              in if \<not> present pdpe then None
                 else if bit pdpe 7 then Some (allow [pml4e, pdpe] (leaf pdpe 30 va))
                 else let pde = m (entry_at pdpe va 21)
                      in if \<not> present pde then None
                         else if bit pde 7 then Some (allow [pml4e, pdpe, pde] (leaf pde 21 va))
                         else let pte = m (entry_at pde va 12)
                              in if \<not> present pte then None
                                 else Some (allow [pml4e, pdpe, pde, pte] (leaf pte 12 va)))"

definition index_of :: "u64 \<Rightarrow> nat \<Rightarrow> nat" where
  "index_of va sh = unat va div 2 ^ sh mod 512"

lemma index_less [simp]: "index_of va sh < 512"
  by (simp add: index_of_def)

lemma entry_at_slot: "entry_at w va sh = entry_slot (frame w) (index_of va sh)"
proof -
  have "unat (drop_bit sh va AND 0x1FF) = index_of va sh"
  proof -
    have "drop_bit sh va AND 0x1FF = take_bit 9 (drop_bit sh va)" by (simp add: take_bit_eq_mask mask_eq_exp_minus_1)
    then have "unat (drop_bit sh va AND 0x1FF) = take_bit 9 (drop_bit sh (unat va))"
      by (simp add: unsigned_take_bit_eq unsigned_drop_bit_eq take_bit_nat_eq_self)
    then show ?thesis by (simp add: index_of_def take_bit_eq_mod drop_bit_eq_div)
  qed
  then have "of_nat (index_of va sh) = drop_bit sh va AND 0x1FF" by (simp flip: \<open>unat (drop_bit sh va AND 0x1FF) = index_of va sh\<close>)
  then show ?thesis by (simp add: entry_at_def entry_slot_def)
qed

text \<open>An entry that is present and writable, for ring 3 or not, ending the walk or not.\<close>

definition entry_is :: "u64 \<Rightarrow> u64 \<Rightarrow> bool \<Rightarrow> bool \<Rightarrow> bool" where
  "entry_is w target us ps \<longleftrightarrow> present w \<and> frame w = target \<and> bit w 1 \<and> bit w 2 = us \<and> bit w 7 = ps"

lemma set_entry_is:
  assumes "frame b = b" "ps = None \<longrightarrow> kread k e = 0"
  shows "entry_is (kread (set_entry e us ps b k) e) b (bit us 0) (case ps of None \<Rightarrow> False | Some v \<Rightarrow> bit v 0)"
  using assms set_entry_written [where e = e and us = us and ps = ps and b = b and k = k]
  by (auto simp: entry_is_def set_entry_def Let_def set_addr_def set_PS_def set_US_def set_RW_def set_P_def bit_put_field
      split: option.splits)

lemma fill_table:
  fixes f :: "nat \<Rightarrow> u64" and k :: kmem and us v :: u64
  assumes "frame tb = tb" "m \<le> 512" "\<And>i. i < 512 \<Longrightarrow> frame (f i) = f i"
  defines "k' \<equiv> fold (\<lambda>i. set_entry (entry_slot tb i) us (Some v) (f i)) [0..<m] k"
  shows "(\<forall>i < m. entry_is (kread k' (entry_slot tb i)) (f i) (bit us 0) (bit v 0)) \<and>
     (\<forall>x. \<not> x - tb < 4096 \<longrightarrow> kread k' x = kread k x) \<and> kfree k' = kfree k \<and> frames_ok k' = frames_ok k"
  using assms(2) unfolding k'_def
proof (induction m)
  case 0
  then show ?case by simp
next
  case (Suc m)
  let ?k = "fold (\<lambda>i. set_entry (entry_slot tb i) us (Some v) (f i)) [0..<m] k"
  have IH: "\<forall>i < m. entry_is (kread ?k (entry_slot tb i)) (f i) (bit us 0) (bit v 0)"
    "\<forall>x. \<not> x - tb < 4096 \<longrightarrow> kread ?k x = kread k x" "kfree ?k = kfree k" "frames_ok ?k = frames_ok k"
    using Suc by auto
  let ?k' = "set_entry (entry_slot tb m) us (Some v) (f m) ?k"
  have st: "fold (\<lambda>i. set_entry (entry_slot tb i) us (Some v) (f i)) [0..<Suc m] k = ?k'" by simp
  have "entry_is (kread ?k' (entry_slot tb i)) (f i) (bit us 0) (bit v 0)" if "i < Suc m" for i
  proof (cases "i = m")
    case True
    then show ?thesis using set_entry_is [OF assms(3), of m "Some v"] Suc.prems by simp
  next
    case False
    then have "entry_slot tb i \<noteq> entry_slot tb m" using slot_inj [OF assms(1,1), of i m] that Suc.prems by simp
    then show ?thesis using IH(1) that False by simp
  qed
  moreover have "kread ?k' x = kread k x" if "\<not> x - tb < 4096" for x
  proof -
    have "entry_slot tb m - tb < 4096" using slot_in_page [OF assms(1,1), of m] Suc.prems by simp
    then have "x \<noteq> entry_slot tb m" using that by auto
    then show ?thesis using IH(2) that by simp
  qed
  ultimately show ?case unfolding st using IH by simp
qed

lemma alloc_next:
  assumes "frames_ok k" "Suc n \<le> card (kfree k)"
  obtains b k' where "alloc_kernel_page k = Some (b, k')" "b \<in> kfree k" "frame b = b" "frames_ok k'"
    "kfree k' = kfree k - {b}" "n \<le> card (kfree k')"
proof -
  have "kfree k \<noteq> {}" using assms(2) by auto
  from alloc_kernel_page_spec [OF assms(1) this] obtain b k' where
    "alloc_kernel_page k = Some (b, k')" "b \<in> kfree k" "frame b = b" "frames_ok k'" "kfree k' = kfree k - {b}"
    by blast
  with assms(2) that show thesis by simp
qed

lemma regions_0 [simp]: "regions 0 = 0"
  by (simp add: regions_def)

text \<open>
  The five tables as the code lays them out, and the addresses they map: the lower half of a
  terabyte directly, the first gigabyte of physical memory once more at the top, and its first
  four megabytes below that, in front of the heap. Nothing else is mapped.
\<close>

definition kernel_tables :: "(u64 \<Rightarrow> u64) \<Rightarrow> u64 \<Rightarrow> u64 \<Rightarrow> u64 \<Rightarrow> u64 \<Rightarrow> u64 \<Rightarrow> bool" where
  "kernel_tables m a b c d e \<longleftrightarrow>
     entry_is (m (entry_slot a 0)) c False False \<and> (\<forall>i. 0 < i \<and> i < 511 \<longrightarrow> m (entry_slot a i) = 0) \<and>
     entry_is (m (entry_slot a 511)) b False False \<and>
     (\<forall>i < 510. m (entry_slot b i) = 0) \<and> entry_is (m (entry_slot b 510)) d False False \<and>
     entry_is (m (entry_slot b 511)) e False False \<and>
     (\<forall>i < 512. entry_is (m (entry_slot c i)) (0x40000000 * of_nat i) False True) \<and>
     entry_is (m (entry_slot d 0)) 0 False True \<and> entry_is (m (entry_slot d 1)) 0x200000 False True \<and>
     (\<forall>i. 2 \<le> i \<and> i < 512 \<longrightarrow> m (entry_slot d i) = 0) \<and>
     (\<forall>i < 512. entry_is (m (entry_slot e i)) (0x200000 * of_nat i) True True)"

definition kernel_map :: "u64 \<Rightarrow> (u64 \<times> bool \<times> bool) option" where
  "kernel_map va =
     (let v = take_bit 48 va
      in if v < 0x8000000000 then Some (v, True, False)
         else if 0xFFFFC0000000 \<le> v then Some (v - 0xFFFFC0000000, True, False)
         else if 0xFFFF80000000 \<le> v \<and> v < 0xFFFF80400000 then Some (v - 0xFFFF80000000, True, False)
         else None)"

lemma unat_leaf:
  assumes "frame w = 2 ^ n * of_nat i" "i < 512" "n \<le> 30"
  shows "unat (leaf w n va) = 2 ^ n * i + unat va mod 2 ^ n"
proof -
  have le: "2 ^ n \<le> (2 ^ 30 :: nat)" using assms(3) by (intro power_increasing) simp_all
  have b: "2 ^ n * i + unat va mod 2 ^ n < 2 ^ 30 * 512"
  proof -
    have "2 ^ n * i + unat va mod 2 ^ n < 2 ^ n * Suc i" by simp
    also have "\<dots> \<le> 2 ^ 30 * 512" using le assms(2) by (intro mult_le_mono) simp_all
    finally show ?thesis .
  qed
  have "frame w = push_bit n (of_nat i)" using assms(1) by (simp add: push_bit_eq_mult mult.commute)
  then have "push_bit n (drop_bit n (frame w)) = frame w"
    by (auto intro!: bit_word_eqI simp: bit_simps)
  then have "leaf w n va = of_nat (2 ^ n * i + unat va mod 2 ^ n)"
  proof -
    have "take_bit n va = of_nat (unat va mod 2 ^ n)"
      by (simp flip: take_bit_eq_mod unsigned_take_bit_eq)
    then show ?thesis using assms(1) \<open>push_bit n (drop_bit n (frame w)) = frame w\<close> by (simp add: leaf_def)
  qed
  moreover have "unat (of_nat (2 ^ n * i + unat va mod 2 ^ n) :: u64) = 2 ^ n * i + unat va mod 2 ^ n"
    using b unfolding unat_of_nat by (intro mod_less) simp
  ultimately show ?thesis by simp
qed

lemma address_parts:
  fixes va :: u64
  obtains r where "r < 2 ^ 21" "unat va mod 2 ^ 21 = r" "unat va mod 2 ^ 30 = 2 ^ 21 * index_of va 21 + r"
    "unat (take_bit 48 va) = 2 ^ 39 * index_of va 39 + 2 ^ 30 * index_of va 30 + 2 ^ 21 * index_of va 21 + r"
proof -
  have st: "unat va mod 2 ^ (n + 9) = 2 ^ n * index_of va n + unat va mod 2 ^ n" for n
    using mod_mult2_eq [of "unat va" "2 ^ n" 512] by (simp add: power_add index_of_def)
  show thesis
    using st [of 21] st [of 30] st [of 39] unsigned_take_bit_eq [of 48 va, where 'a = nat]
    by (intro that [of "unat va mod 2 ^ 21"]) (simp_all add: take_bit_eq_mod)
qed

lemma kernel_tables_walk:
  assumes t: "kernel_tables m a b c d e" and fr: "frame a = a"
  shows "hw_walk m a va = kernel_map va"
proof -
  obtain r where r: "r < 2 ^ 21" "unat va mod 2 ^ 21 = r" "unat va mod 2 ^ 30 = 2 ^ 21 * index_of va 21 + r"
    "unat (take_bit 48 va) = 2 ^ 39 * index_of va 39 + 2 ^ 30 * index_of va 30 + 2 ^ 21 * index_of va 21 + r"
    by (rule address_parts)
  let ?i = "index_of va 39" and ?j = "index_of va 30" and ?l = "index_of va 21"
  have il: "?i < 512" "?j < 512" "?l < 512" by simp_all
  have n: "unat (take_bit 48 va) = 0x8000000000 * ?i + 0x40000000 * ?j + 0x200000 * ?l + r" "r < 0x200000"
    using r by simp_all
  have np: "\<not> present 0" by (simp add: present_def)
  note ws = hw_walk_def entry_at_slot fr Let_def allow_def
  note km = kernel_map_def Let_def word_less_nat_alt word_le_nat_alt word_unat_eq_iff unat_sub
  consider "?i = 0" | "0 < ?i" "?i < 511" | "?i = 511" "?j < 510" | "?i = 511" "?j = 510" "?l < 2"
    | "?i = 511" "?j = 510" "2 \<le> ?l" | "?i = 511" "?j = 511"
    using il by linarith
  then show ?thesis
  proof cases
    case 1
    have "hw_walk m a va = Some (leaf (m (entry_slot c ?j)) 30 va, True, False)"
      using t 1 by (simp add: kernel_tables_def entry_is_def ws)
    moreover have "unat (leaf (m (entry_slot c ?j)) 30 va) = unat (take_bit 48 va)"
      using t r 1 unat_leaf [of "m (entry_slot c ?j)" 30 ?j va] by (simp add: kernel_tables_def entry_is_def)
    moreover have "unat (take_bit 48 va) < 0x8000000000" using n il 1 by linarith
    ultimately show ?thesis by (simp add: km)
  next
    case 2
    then have "hw_walk m a va = None" using t np by (simp add: kernel_tables_def ws)
    moreover have "0x8000000000 \<le> unat (take_bit 48 va)" "unat (take_bit 48 va) < 0xFFFF80000000" using n il 2 by linarith+
    ultimately show ?thesis by (simp add: km)
  next
    case 3
    then have "hw_walk m a va = None" using t np by (simp add: kernel_tables_def entry_is_def ws)
    moreover have "0x8000000000 \<le> unat (take_bit 48 va)" "unat (take_bit 48 va) < 0xFFFF80000000" using n il 3 by linarith+
    ultimately show ?thesis by (simp add: km)
  next
    case 4
    then have l: "?l = 0 \<or> ?l = 1" by linarith
    then have "hw_walk m a va = Some (leaf (m (entry_slot d ?l)) 21 va, True, False)"
      using t 4 by (auto simp: kernel_tables_def entry_is_def ws)
    moreover have "unat (leaf (m (entry_slot d ?l)) 21 va) = unat (take_bit 48 va) - 0xFFFF80000000"
      using t r(2) n l 4 unat_leaf [of "m (entry_slot d ?l)" 21 ?l va] by (auto simp: kernel_tables_def entry_is_def)
    moreover have "0xFFFF80000000 \<le> unat (take_bit 48 va)" "unat (take_bit 48 va) < 0xFFFF80400000" using n il 4 by linarith+
    ultimately show ?thesis by (simp add: km)
  next
    case 5
    then have "hw_walk m a va = None" using t np by (simp add: kernel_tables_def entry_is_def ws)
    moreover have "0xFFFF80400000 \<le> unat (take_bit 48 va)" "unat (take_bit 48 va) < 0xFFFFC0000000" using n il 5 by linarith+
    ultimately show ?thesis by (simp add: km)
  next
    case 6
    then have "hw_walk m a va = Some (leaf (m (entry_slot e ?l)) 21 va, True, False)"
      using t by (simp add: kernel_tables_def entry_is_def ws)
    moreover have "unat (leaf (m (entry_slot e ?l)) 21 va) = unat (take_bit 48 va) - 0xFFFFC0000000"
      using t r(2) n 6 unat_leaf [of "m (entry_slot e ?l)" 21 ?l va] by (simp add: kernel_tables_def entry_is_def)
    moreover have "0xFFFFC0000000 \<le> unat (take_bit 48 va)" using n il 6 by linarith
    ultimately show ?thesis by (simp add: km)
  qed
qed

lemma kernel_tables_ready:
  assumes ok: "frames_ok k" and fr: "5 \<le> card (kfree k)"
  shows "\<exists>t k'. kernel_page_table_init k = Some (t, k') \<and> heap_at t k' 0 \<and> kfree k' \<subseteq> kfree k \<and>
     card (kfree k) \<le> card (kfree k') + 5 \<and>
     (\<forall>va. hw_walk (kread k') (kernel_page_table_PML4 t) va = kernel_map va)"
proof -
  from ok obtain a k1 where 1: "alloc_kernel_page k = Some (a, k1)" "a \<in> kfree k" "frame a = a" "frames_ok k1"
    "kfree k1 = kfree k - {a}" "4 \<le> card (kfree k1)" by (rule alloc_next [where n = 4]) (use fr in simp)
  from 1(4) obtain b k2 where 2: "alloc_kernel_page k1 = Some (b, k2)" "b \<in> kfree k1" "frame b = b" "frames_ok k2"
    "kfree k2 = kfree k1 - {b}" "3 \<le> card (kfree k2)" by (rule alloc_next [where n = 3]) (use 1 in simp)
  from 2(4) obtain c k3 where 3: "alloc_kernel_page k2 = Some (c, k3)" "c \<in> kfree k2" "frame c = c" "frames_ok k3"
    "kfree k3 = kfree k2 - {c}" "2 \<le> card (kfree k3)" by (rule alloc_next [where n = 2]) (use 2 in simp)
  from 3(4) obtain d k4 where 4: "alloc_kernel_page k3 = Some (d, k4)" "d \<in> kfree k3" "frame d = d" "frames_ok k4"
    "kfree k4 = kfree k3 - {d}" "1 \<le> card (kfree k4)" by (rule alloc_next [where n = 1]) (use 3 in simp)
  from 4(4) obtain e k5 where 5: "alloc_kernel_page k4 = Some (e, k5)" "e \<in> kfree k4" "frame e = e" "frames_ok k5"
    "kfree k5 = kfree k4 - {e}" by (rule alloc_next [where n = 0]) (use 4 in simp)
  have ne: "a \<noteq> b" "a \<noteq> c" "a \<noteq> d" "a \<noteq> e" "b \<noteq> c" "b \<noteq> d" "b \<noteq> e" "c \<noteq> d" "c \<noteq> e" "d \<noteq> e"
    using 1 2 3 4 5 by auto
  note al = 1(3) 2(3) 3(3) 4(3) 5(3)
  define k6 where "k6 = fold (\<lambda>i. set_entry (entry_slot e i) 1 (Some 1) (0x200000 * of_nat i)) [0..<512] (kzero e k5)"
  define k7 where "k7 = kzero d (kzero c (kzero b (kzero a k6)))"
  define k8 where "k8 = set_entry (entry_slot a 511) 0 None b k7"
  define k9 where "k9 = set_entry (entry_slot a 0) 0 None c k8"
  define k10 where "k10 = set_entry (entry_slot b 511) 0 (Some 0) e k9"
  define k11 where "k11 = set_entry (entry_slot b 510) 0 None d k10"
  define k12 where "k12 = fold (\<lambda>i. set_entry (entry_slot c i) 0 (Some 1) (0x40000000 * of_nat i)) [0..<512] k11"
  define k13 where "k13 = set_entry (entry_slot d 0) 0 (Some 1) 0 k12"
  define k14 where "k14 = set_entry (entry_slot d 1) 0 (Some 1) 0x200000 k13"
  let ?t = "\<lparr>kernel_page_table_PML4 = a, kernel_malloc_pd = d, kernel_base_pd = e\<rparr>"
  have ini: "kernel_page_table_init k = Some (?t, k14)"
    using 1(1) 2(1) 3(1) 4(1) 5(1)
    by (simp add: kernel_page_table_init_def Let_def k6_def k7_def k8_def k9_def k10_def k11_def k12_def k13_def k14_def)
  have fm: "frame (0x200000 * of_nat i) = (0x200000 * of_nat i :: u64)"
    "frame (0x40000000 * of_nat i) = (0x40000000 * of_nat i :: u64)" if "i < 512" for i
    using frame_region [OF that, of 21] frame_region [OF that, of 30] by (simp_all add: push_bit_eq_mult mult.commute)
  have f6: "\<forall>i < 512. entry_is (kread k6 (entry_slot e i)) (0x200000 * of_nat i) True True"
    "kfree k6 = kfree k5" "frames_ok k6"
    using fill_table [OF 5(3), of 512 "\<lambda>i. 0x200000 * of_nat i" 1 1 "kzero e k5"] fm(1) 5(4)
    unfolding k6_def by auto
  have f12: "\<forall>x. \<not> x - c < 4096 \<longrightarrow> kread k12 x = kread k11 x" "kfree k12 = kfree k11" "frames_ok k12 = frames_ok k11"
    "\<forall>i < 512. entry_is (kread k12 (entry_slot c i)) (0x40000000 * of_nat i) False True"
    using fill_table [OF 3(3), of 512 "\<lambda>i. 0x40000000 * of_nat i" 0 1 k11] fm(2)
    unfolding k12_def by auto
  have notin: "\<not> entry_slot x i - y < 4096" if "x \<in> {a, b, c, d, e}" "y \<in> {a, b, c, d, e}" "x \<noteq> y" "i < 512" for x y i
    using slot_in_page [of x y i] that al by auto
  have sne: "entry_slot x i \<noteq> entry_slot y j" if "x \<in> {a, b, c, d, e}" "y \<in> {a, b, c, d, e}" "x \<noteq> y \<or> i \<noteq> j" "i < 512" "j < 512" for x y i j
    using slot_inj [of x y i j] that al by auto
  have late: "kread k14 (entry_slot x i) = kread k11 (entry_slot x i)" if "x \<in> {a, b, e}" "i < 512" for x i
    using that f12(1) notin [of x c i] sne [of x d i 0] sne [of x d i 1] ne unfolding k14_def k13_def by auto
  have zero: "kread k7 (entry_slot x i) = 0" if "x \<in> {a, b, c, d}" "i < 512" for x i
    using that slot_in_page [of x x i] al unfolding k7_def by auto
  have early: "kread k11 (entry_slot x i) = kread k7 (entry_slot x i)"
    if "x \<in> {a, b, c, d, e}" "i < 512" "x = a \<longrightarrow> 0 < i \<and> i < 511" "x = b \<longrightarrow> i < 510" for x i
    unfolding k11_def k10_def k9_def k8_def
    using that sne [of x b i 510] sne [of x b i 511] sne [of x a i 0] sne [of x a i 511] by auto
  have ra: "entry_is (kread k14 (entry_slot a 511)) b False False" "entry_is (kread k14 (entry_slot a 0)) c False False"
  proof -
    have "kread k11 (entry_slot a 511) = kread k8 (entry_slot a 511)" "kread k11 (entry_slot a 0) = kread k9 (entry_slot a 0)"
      "kread k8 (entry_slot a 0) = 0"
      unfolding k11_def k10_def k9_def k8_def
      using sne [of a b 511 510] sne [of a b 511 511] sne [of a a 511 0] sne [of a b 0 510] sne [of a b 0 511] ne zero [of a 0]
      by simp_all
    then show "entry_is (kread k14 (entry_slot a 511)) b False False" "entry_is (kread k14 (entry_slot a 0)) c False False"
      using late [of a 511] late [of a 0] zero [of a 511] set_entry_is [OF al(2), of None k7 "entry_slot a 511" 0]
        set_entry_is [OF al(3), of None k8 "entry_slot a 0" 0]
      by (simp_all add: k8_def k9_def)
  qed
  have rb: "entry_is (kread k14 (entry_slot b 510)) d False False" "entry_is (kread k14 (entry_slot b 511)) e False False"
  proof -
    have "kread k11 (entry_slot b 511) = kread k10 (entry_slot b 511)" "kread k10 (entry_slot b 510) = 0"
      unfolding k11_def k10_def k9_def k8_def
      using sne [of b b 511 510] sne [of b a 510 0] sne [of b a 510 511] ne zero [of b 510] by simp_all
    then show "entry_is (kread k14 (entry_slot b 510)) d False False" "entry_is (kread k14 (entry_slot b 511)) e False False"
      using late [of b 510] late [of b 511] set_entry_is [OF al(4), of None k10 "entry_slot b 510" 0]
        set_entry_is [OF al(5), of "Some 0" k9 "entry_slot b 511" 0]
      by (simp_all add: k11_def k10_def)
  qed
  have pd: "kbrk_pd ?t k14 = d" "heap_pdp ?t k14 = b" using ra rb by (simp_all add: kbrk_pd_def heap_pdp_def entry_is_def)
  have rd: "kread k14 (entry_slot d i) = 0" if "2 \<le> i" "i < 512" for i
  proof -
    have "kread k14 (entry_slot d i) = kread k12 (entry_slot d i)"
      unfolding k14_def k13_def using that sne [of d d i 0] sne [of d d i 1] by simp
    also have "\<dots> = kread k11 (entry_slot d i)" using f12(1) notin [of d c i] ne that by simp
    also have "\<dots> = 0" using early [of d i] zero [of d i] ne that by simp
    finally show ?thesis .
  qed
  have re: "kread k14 (entry_slot e i) = kread k6 (entry_slot e i)" if "i < 512" for i
  proof -
    have "kread k14 (entry_slot e i) = kread k11 (entry_slot e i)" using late that by simp
    also have "\<dots> = kread k7 (entry_slot e i)" using early [of e i] ne that by simp
    also have "\<dots> = kread k6 (entry_slot e i)"
      unfolding k7_def using that ne notin [of e a i] notin [of e b i] notin [of e c i] notin [of e d i] by simp
    finally show ?thesis .
  qed
  have rc: "entry_is (kread k14 (entry_slot c i)) (0x40000000 * of_nat i) False True" if "i < 512" for i
    using that f12(4) sne [of c d i 0] sne [of c d i 1] ne unfolding k14_def k13_def by simp
  have rd2: "entry_is (kread k14 (entry_slot d 0)) 0 False True" "entry_is (kread k14 (entry_slot d 1)) 0x200000 False True"
    using sne [of d d 0 1] set_entry_is [OF fm(1) [of 0], of "Some 1" k12 "entry_slot d 0" 0]
      set_entry_is [OF fm(1) [of 1], of "Some 1" k13 "entry_slot d 1" 0]
    by (simp_all add: k14_def k13_def del: slot_0)
  have "kernel_tables (kread k14) a b c d e"
    unfolding kernel_tables_def using ra rb rc rd rd2 re f6(1) late early zero ne by auto
  then have hw: "\<forall>va. hw_walk (kread k14) a va = kernel_map va" using kernel_tables_walk al(1) by blast
  have kf: "kfree k14 = kfree k5" "frames_ok k14"
    using f12 f6 unfolding k14_def k13_def k11_def k10_def k9_def k8_def k7_def by simp_all
  have "heap_at ?t k14 0"
    using kf pd rd ne al(1) 1 2 3 4 5 by (auto simp: heap_at_def heap_tables_def present_def)
  moreover have "card (kfree k) \<le> card (kfree k14) + 5"
  proof -
    have "kfree k14 = kfree k - {a, b, c, d, e}" using kf 1 2 3 4 5 by auto
    moreover have "card {a, b, c, d, e} \<le> 5" by (simp add: card_insert_if)
    ultimately show ?thesis using diff_card_le_card_Diff [of "{a, b, c, d, e}" "kfree k"] by simp
  qed
  moreover have "kfree k14 \<subseteq> kfree k" using kf 1 2 3 4 5 by auto
  ultimately show ?thesis using ini hw by (intro exI [of _ ?t] exI [of _ k14]) simp
qed

text \<open>
  C25. The kernel's first page tables: with five free pages the initialisation returns, the heap
  is empty and ready to grow, and the processor's walk of the tables gives, for every virtual
  address, exactly the kernel's map: the lower 512 gigabytes are the physical addresses themselves,
  the top gigabyte and the four megabytes at \<open>KBRK_BASE_ADDRESS\<close> are the start of physical
  memory, all writable and closed to ring 3, and no other address is mapped.
\<close>

theorem kernel_page_table_init_ready:
  assumes ok: "frames_ok k" and fr: "5 \<le> card (kfree k)"
  shows "\<exists>t k'. kernel_page_table_init k = Some (t, k') \<and> heap_at t k' 0 \<and> kfree k' \<subseteq> kfree k \<and>
     card (kfree k) \<le> card (kfree k') + 5 \<and>
     (\<forall>va. hw_walk (kread k') (kernel_page_table_PML4 t) va = kernel_map va)"
  by (rule kernel_tables_ready [OF assms])

section \<open>Instances\<close>

definition pages_example :: kmem where
  "pages_example = \<lparr>kphy = \<lparr>pages = map (\<lambda>n. \<lparr>base = 0x1000 * n, used_by = 0, use_record = []\<rparr>) [1, 2, 3, 4, 5, 6, 7, 8, 9],
     page_entry_before = 0, pmem = (\<lambda>_. 7)\<rparr>, map_supply = []\<rparr>"

lemma pages_example_ok: "frames_ok pages_example" "card (kfree pages_example) = 9"
proof -
  show "frames_ok pages_example" by (simp add: frames_ok_def pages_example_def frame_def FRAME_MASK_def)
  have "kfree pages_example = {0x1000, 0x2000, 0x3000, 0x4000, 0x5000, 0x6000, 0x7000, 0x8000, 0x9000}"
    by (simp add: kfree_def free_bases_filter pages_example_def)
  then show "card (kfree pages_example) = 9" by simp
qed

theorem kernel_page_table_init_ready_witness:
  "\<exists>t k'. kernel_page_table_init pages_example = Some (t, k') \<and> heap_at t k' 0 \<and>
     hw_walk (kread k') (kernel_page_table_PML4 t) 0xFFFFFFFF80201234 = Some (0x201234, True, False) \<and>
     hw_walk (kread k') (kernel_page_table_PML4 t) 0xFFFFFFFFC0201234 = Some (0x201234, True, False) \<and>
     hw_walk (kread k') (kernel_page_table_PML4 t) 0x7040201234 = Some (0x7040201234, True, False) \<and>
     hw_walk (kread k') (kernel_page_table_PML4 t) 0xFFFFFFFF80400000 = None"
  using kernel_page_table_init_ready [OF pages_example_ok(1)] pages_example_ok(2)
  by (auto simp: kernel_map_def take_bit_eq_mod Let_def)

theorem kbrk_extends_heap_witness:
  "\<exists>t k k'. kernel_page_table_init pages_example = Some (t, k) \<and>
     kbrk t (of_nat (4096 * 2)) k = Some (KBRK_BASE_ADDRESS + 0x400000, k') \<and> heap_at t k' 2"
proof -
  obtain t k where k: "kernel_page_table_init pages_example = Some (t, k)" "heap_at t k 0" "4 \<le> card (kfree k)"
    using kernel_tables_ready [OF pages_example_ok(1)] pages_example_ok(2) by auto
  with kbrk_extends_heap [OF k(2), of 2] show ?thesis by (auto simp: numeral_2_eq_2)
qed

end
