(* ===== verification/File_Table.thy ===== *)
theory File_Table
  imports Misc
begin

text \<open>
  The file table entries of \<^verbatim>\<open>include/sys/disk/file_system.h\<close> and the in-memory pipes of
  \<^verbatim>\<open>sys/disk/file_system.c\<close>: the ring buffer of the read end, with its producer and consumer
  cursors, and the two loops of \<open>file_read\<close> and \<open>file_write\<close> that move bytes through it.
\<close>

section \<open>State and operations\<close>

text \<open>
  \<open>first_waiters\<close> is the linked list of the processes waiting on the entry, in order.
\<close>

record file_table_entry =
  io_type :: u8
  path_str :: bytes
  offset :: u64
  out_to :: ptr
  in_from :: ptr
  buffer :: bytes
  buffer_c_c :: int
  buffer_p_c :: int
  open_count :: int
  first_waiters :: "ptr list"

definition BUFFER_SIZE :: nat where "BUFFER_SIZE = 2048"

text \<open>An entry as \<open>sf_calloc\<close> returns it, and the fields every constructor of the code sets.\<close>

definition empty_entry :: file_table_entry where
  "empty_entry = \<lparr>io_type = 0, path_str = [], offset = 0, out_to = 0, in_from = 0,
     buffer = replicate BUFFER_SIZE 0, buffer_c_c = 0, buffer_p_c = 0, open_count = 0,
     first_waiters = []\<rparr>"

definition new_entry :: "u8 \<Rightarrow> bytes \<Rightarrow> file_table_entry" where
  "new_entry ty path = empty_entry\<lparr>io_type := ty, path_str := path, open_count := 1,
     buffer_p_c := 1, buffer_c_c := 0\<rparr>"

text \<open>
  The loop of the pipe branch of \<open>file_read\<close>: the bytes stored through \<open>read_buffer\<close> and the
  entry afterwards.  The loop's count is \<open>size\<close>.
\<close>

definition next_cursor :: "int \<Rightarrow> int" where
  "next_cursor c = (if c + 1 = int BUFFER_SIZE then 0 else c + 1)"

fun pipe_read :: "file_table_entry \<Rightarrow> nat \<Rightarrow> (bytes \<times> file_table_entry) option" where
  "pipe_read file 0 = Some ([], file)"
| "pipe_read file (Suc sz) =
     (if buffer_p_c file - 1 \<noteq> buffer_c_c file then
        (let c = next_cursor (buffer_c_c file)
         in if 0 \<le> c \<and> c < int (length (buffer file)) then
              do {
                (bs, file') \<leftarrow> pipe_read (file\<lparr>buffer_c_c := c\<rparr>) sz;
                Some (buffer file ! nat c # bs, file')
              }
            else None)
      else Some ([], file))"

text \<open>
  The loop of the pipe branch of \<open>file_write\<close>: whether it ended because all bytes were
  written (then the waiters are woken) or returned early, the count, and the entry.
\<close>

fun pipe_write :: "file_table_entry \<Rightarrow> bytes \<Rightarrow> nat \<Rightarrow> nat \<Rightarrow> (bool \<times> nat \<times> file_table_entry) option"
  where
  "pipe_write out data 0 count = Some (True, count, out)"
| "pipe_write out data (Suc sz) count =
     (if buffer_p_c out = buffer_c_c out then Some (False, count, out)
      else case data of
             [] \<Rightarrow> None
           | b # data' \<Rightarrow>
               (if 0 \<le> buffer_p_c out \<and> buffer_p_c out < int (length (buffer out)) then
                  pipe_write
                    (out\<lparr>buffer := (buffer out)[nat (buffer_p_c out) := b],
                         buffer_p_c := next_cursor (buffer_p_c out)\<rparr>)
                    data' sz (Suc count)
                else None))"

section \<open>The ring as a queue of bytes\<close>

definition ring_wf :: "file_table_entry \<Rightarrow> bool" where
  "ring_wf f \<longleftrightarrow> length (buffer f) = BUFFER_SIZE \<and> 0 \<le> buffer_c_c f \<and> buffer_c_c f < int BUFFER_SIZE \<and>
     0 \<le> buffer_p_c f \<and> buffer_p_c f < int BUFFER_SIZE"

definition ring_count :: "file_table_entry \<Rightarrow> nat" where
  "ring_count f = nat (if buffer_c_c f < buffer_p_c f then buffer_p_c f - buffer_c_c f - 1
     else buffer_p_c f - buffer_c_c f + int BUFFER_SIZE - 1)"

definition ring_index :: "file_table_entry \<Rightarrow> nat \<Rightarrow> nat" where
  "ring_index f k = (let i = nat (buffer_c_c f) + 1 + k in if i < BUFFER_SIZE then i else i - BUFFER_SIZE)"

definition ring_contents :: "file_table_entry \<Rightarrow> bytes" where
  "ring_contents f = map (\<lambda>k. buffer f ! ring_index f k) [0..<ring_count f]"

lemmas ring_defs = ring_wf_def ring_count_def ring_index_def next_cursor_def BUFFER_SIZE_def

lemma length_ring_contents [simp]: "length (ring_contents f) = ring_count f"
  by (simp add: ring_contents_def)

lemma ring_contents_eqI:
  "ring_count f = length xs \<Longrightarrow> (\<And>k. k < length xs \<Longrightarrow> buffer f ! ring_index f k = xs ! k) \<Longrightarrow>
   ring_contents f = xs"
  by (rule nth_equalityI) (simp_all add: ring_contents_def)

lemma ring_contents_nth: "k < ring_count f \<Longrightarrow> ring_contents f ! k = buffer f ! ring_index f k"
  by (simp add: ring_contents_def)

lemma ring_empty_iff:
  "ring_wf f \<Longrightarrow> buffer_p_c f \<noteq> 0 \<Longrightarrow> ring_count f = 0 \<longleftrightarrow> buffer_p_c f - 1 = buffer_c_c f"
  by (auto simp: ring_defs)

lemma ring_full_iff:
  "ring_wf f \<Longrightarrow> ring_count f = BUFFER_SIZE - 1 \<longleftrightarrow> buffer_p_c f = buffer_c_c f"
  by (auto simp: ring_defs)

lemma ring_count_bound: "ring_wf f \<Longrightarrow> ring_count f < BUFFER_SIZE"
  by (auto simp: ring_defs)

lemma ring_pop:
  assumes wf: "ring_wf f" and ne: "ring_count f \<noteq> 0"
  defines "f' \<equiv> f\<lparr>buffer_c_c := next_cursor (buffer_c_c f)\<rparr>"
  shows "ring_wf f'" "ring_contents f = buffer f ! nat (next_cursor (buffer_c_c f)) # ring_contents f'"
    "0 \<le> next_cursor (buffer_c_c f)" "next_cursor (buffer_c_c f) < int (length (buffer f))"
proof -
  show "ring_wf f'" "0 \<le> next_cursor (buffer_c_c f)"
    "next_cursor (buffer_c_c f) < int (length (buffer f))"
    using wf by (auto simp: f'_def ring_defs)
  have c: "ring_count f = Suc (ring_count f')"
    using wf ne by (auto simp: f'_def ring_defs split: if_splits)
  have i0: "ring_index f 0 = nat (next_cursor (buffer_c_c f))"
    using wf by (auto simp: ring_defs Let_def)
  have i: "ring_index f (Suc k) = ring_index f' k" if "k < ring_count f'" for k
    using wf that by (auto simp: f'_def ring_defs Let_def split: if_splits)
  show "ring_contents f = buffer f ! nat (next_cursor (buffer_c_c f)) # ring_contents f'"
  proof (rule ring_contents_eqI)
    fix k assume "k < length (buffer f ! nat (next_cursor (buffer_c_c f)) # ring_contents f')"
    then show "buffer f ! ring_index f k =
        (buffer f ! nat (next_cursor (buffer_c_c f)) # ring_contents f') ! k"
      using i0 i by (cases k) (auto simp: ring_contents_nth f'_def)
  qed (simp add: c)
qed

lemma ring_push:
  fixes b :: u8
  assumes wf: "ring_wf f" and nf: "buffer_p_c f \<noteq> buffer_c_c f"
  defines "f' \<equiv> f\<lparr>buffer := (buffer f)[nat (buffer_p_c f) := b],
     buffer_p_c := next_cursor (buffer_p_c f)\<rparr>"
  shows "ring_wf f'" "ring_contents f' = ring_contents f @ [b]"
    "0 \<le> buffer_p_c f" "buffer_p_c f < int (length (buffer f))"
proof -
  show "ring_wf f'" "0 \<le> buffer_p_c f" "buffer_p_c f < int (length (buffer f))"
    using wf by (auto simp: f'_def ring_defs)
  have c: "ring_count f' = Suc (ring_count f)"
    using wf nf by (auto simp: f'_def ring_defs split: if_splits)
  have il: "ring_index f' (ring_count f) = nat (buffer_p_c f)"
    using wf nf by (auto simp: f'_def ring_defs Let_def split: if_splits)
  have i: "ring_index f' k = ring_index f k" "ring_index f k \<noteq> nat (buffer_p_c f)"
    if "k < ring_count f" for k
    using wf nf that by (auto simp: f'_def ring_defs Let_def split: if_splits)
  show "ring_contents f' = ring_contents f @ [b]"
  proof (rule ring_contents_eqI)
    fix k assume k: "k < length (ring_contents f @ [b])"
    show "buffer f' ! ring_index f' k = (ring_contents f @ [b]) ! k"
    proof (cases "k < ring_count f")
      case True
      then show ?thesis using i [OF True] by (simp add: f'_def nth_append ring_contents_nth)
    next
      case False
      with k have "k = ring_count f" by simp
      then show ?thesis using il wf by (simp add: f'_def ring_wf_def nth_append nat_less_iff)
    qed
  qed (simp add: c)
qed

section \<open>Reading and writing\<close>

lemma pipe_read_spec:
  assumes "ring_wf f" "buffer_p_c f \<noteq> 0"
  shows "\<exists>c. pipe_read f n = Some (take n (ring_contents f), f\<lparr>buffer_c_c := c\<rparr>) \<and>
     ring_wf (f\<lparr>buffer_c_c := c\<rparr>) \<and> ring_contents (f\<lparr>buffer_c_c := c\<rparr>) = drop n (ring_contents f)"
  using assms
proof (induction n arbitrary: f)
  case 0
  then show ?case by (intro exI [of _ "buffer_c_c f"]) simp
next
  case (Suc n)
  show ?case
  proof (cases "ring_count f = 0")
    case True
    then have "ring_contents f = []" by (simp add: ring_contents_def)
    moreover have "buffer_p_c f - 1 = buffer_c_c f" using True ring_empty_iff [OF Suc.prems] by simp
    ultimately show ?thesis using Suc.prems by (intro exI [of _ "buffer_c_c f"]) simp
  next
    case False
    note pop = ring_pop [OF Suc.prems(1) False]
    have ne: "buffer_p_c f - 1 \<noteq> buffer_c_c f" using False ring_empty_iff [OF Suc.prems] by simp
    let ?f = "f\<lparr>buffer_c_c := next_cursor (buffer_c_c f)\<rparr>"
    have "buffer_p_c ?f \<noteq> 0" using Suc.prems(2) by simp
    from Suc.IH [OF pop(1) this] obtain c where
      "pipe_read ?f n = Some (take n (ring_contents ?f), f\<lparr>buffer_c_c := c\<rparr>)"
      "ring_wf (f\<lparr>buffer_c_c := c\<rparr>)" "ring_contents (f\<lparr>buffer_c_c := c\<rparr>) = drop n (ring_contents ?f)"
      by auto
    then show ?thesis using pop(2-4) ne by (intro exI [of _ c]) (simp add: Let_def)
  qed
qed

text \<open>
  With the producer cursor at the start of the buffer the test for an empty ring never holds: a
  read gets as many bytes as it asks for, the queued ones first.
\<close>

lemma pipe_read_any:
  assumes "ring_wf f"
  shows "\<exists>bs c. pipe_read f n = Some (bs, f\<lparr>buffer_c_c := c\<rparr>) \<and> ring_wf (f\<lparr>buffer_c_c := c\<rparr>) \<and>
     take (ring_count f) bs = take n (ring_contents f) \<and>
     length bs = (if buffer_p_c f = 0 then n else min n (ring_count f)) \<and>
     (n \<le> ring_count f \<or> buffer_p_c f \<noteq> 0 \<longrightarrow> ring_contents (f\<lparr>buffer_c_c := c\<rparr>) = drop n (ring_contents f))"
proof (cases "buffer_p_c f = 0")
  case False
  from pipe_read_spec [OF assms False, of n] obtain c where
    "pipe_read f n = Some (take n (ring_contents f), f\<lparr>buffer_c_c := c\<rparr>)"
    "ring_wf (f\<lparr>buffer_c_c := c\<rparr>)" "ring_contents (f\<lparr>buffer_c_c := c\<rparr>) = drop n (ring_contents f)" by blast
  with False show ?thesis by (intro exI [of _ "take n (ring_contents f)"] exI [of _ c]) (simp add: min_def)
next
  case True
  then show ?thesis using assms
  proof (induction n arbitrary: f)
    case 0
    then show ?case by (intro exI [of _ "[]"] exI [of _ "buffer_c_c f"]) simp
  next
    case (Suc n)
    let ?c = "next_cursor (buffer_c_c f)"
    let ?f = "f\<lparr>buffer_c_c := ?c\<rparr>"
    have ne: "buffer_p_c f - 1 \<noteq> buffer_c_c f" and c: "0 \<le> ?c" "?c < int (length (buffer f))" and wf: "ring_wf ?f"
      using Suc.prems by (auto simp: ring_defs)
    have "buffer_p_c ?f = 0" using Suc.prems(1) by simp
    from Suc.IH [OF this wf] obtain bs c' where ih: "pipe_read ?f n = Some (bs, f\<lparr>buffer_c_c := c'\<rparr>)"
      "ring_wf (f\<lparr>buffer_c_c := c'\<rparr>)" "take (ring_count ?f) bs = take n (ring_contents ?f)" "length bs = n"
      "n \<le> ring_count ?f \<Longrightarrow> ring_contents (f\<lparr>buffer_c_c := c'\<rparr>) = drop n (ring_contents ?f)"
      using Suc.prems(1) by auto
    let ?b = "buffer f ! nat ?c"
    have r: "pipe_read f (Suc n) = Some (?b # bs, f\<lparr>buffer_c_c := c'\<rparr>)"
      using ne c ih(1) by (simp add: Let_def)
    show ?case
    proof (cases "ring_count f = 0")
      case True
      with r ih(2,4) Suc.prems(1) show ?thesis
        by (intro exI [of _ "?b # bs"] exI [of _ c']) (simp add: ring_contents_def)
    next
      case False
      note pop = ring_pop(2) [OF Suc.prems(2) False]
      have "length (ring_contents f) = length (?b # ring_contents ?f)" by (rule arg_cong [OF pop])
      then have "ring_count f = Suc (ring_count ?f)" by simp
      with r ih(2-5) pop Suc.prems(1) show ?thesis
        by (intro exI [of _ "?b # bs"] exI [of _ c']) simp
    qed
  qed
qed

lemma pipe_write_spec:
  assumes "ring_wf f" "n \<le> length data"
  shows "\<exists>buf p. pipe_write f data n k =
       Some (n \<le> BUFFER_SIZE - 1 - ring_count f, k + min n (BUFFER_SIZE - 1 - ring_count f),
             f\<lparr>buffer := buf, buffer_p_c := p\<rparr>) \<and>
     ring_wf (f\<lparr>buffer := buf, buffer_p_c := p\<rparr>) \<and>
     ring_contents (f\<lparr>buffer := buf, buffer_p_c := p\<rparr>) =
       ring_contents f @ take (min n (BUFFER_SIZE - 1 - ring_count f)) data"
  using assms
proof (induction n arbitrary: f data k)
  case 0
  then show ?case by (intro exI [of _ "buffer f"] exI [of _ "buffer_p_c f"]) simp
next
  case (Suc n)
  then obtain b data' where d: "data = b # data'" by (cases data) auto
  show ?case
  proof (cases "buffer_p_c f = buffer_c_c f")
    case True
    then have "ring_count f = BUFFER_SIZE - 1" using Suc.prems(1) ring_full_iff by blast
    moreover have same: "f\<lparr>buffer := buffer f, buffer_p_c := buffer_p_c f\<rparr> = f" by simp
    ultimately show ?thesis
      by (intro exI [of _ "buffer f"] exI [of _ "buffer_p_c f"], unfold same)
        (use True Suc.prems(1) in simp)
  next
    case False
    note push = ring_push(1,2) [OF Suc.prems(1) False, of b]
    note range = ring_push(3,4) [OF Suc.prems(1) False]
    let ?f = "f\<lparr>buffer := (buffer f)[nat (buffer_p_c f) := b], buffer_p_c := next_cursor (buffer_p_c f)\<rparr>"
    have "n \<le> length data'" using Suc.prems(2) d by simp
    from Suc.IH [OF push(1) this, of "Suc k"] obtain buf p where
      f': "pipe_write ?f data' n (Suc k) =
        Some (n \<le> BUFFER_SIZE - 1 - ring_count ?f, Suc k + min n (BUFFER_SIZE - 1 - ring_count ?f),
              f\<lparr>buffer := buf, buffer_p_c := p\<rparr>)"
      "ring_wf (f\<lparr>buffer := buf, buffer_p_c := p\<rparr>)"
      "ring_contents (f\<lparr>buffer := buf, buffer_p_c := p\<rparr>) =
        ring_contents ?f @ take (min n (BUFFER_SIZE - 1 - ring_count ?f)) data'" by auto
    have "ring_count ?f = Suc (ring_count f)"
      using arg_cong [OF push(2), of length] by simp
    with ring_count_bound [OF push(1)]
    have r: "BUFFER_SIZE - 1 - ring_count f = Suc (BUFFER_SIZE - 1 - ring_count ?f)" by simp
    have "pipe_write f data (Suc n) k = pipe_write ?f data' n (Suc k)"
      using False range d by simp
    with f' push(2) d r show ?thesis
      by (intro exI [of _ buf] exI [of _ p]) simp
  qed
qed

section \<open>The queue interface\<close>

text \<open>Writes to a queue of bounded capacity: the counts, and the queue behind them.\<close>

fun enqueue_all :: "nat \<Rightarrow> bytes \<Rightarrow> bytes list \<Rightarrow> nat list \<times> bytes" where
  "enqueue_all cap q [] = ([], q)"
| "enqueue_all cap q (xs # xss) =
     (let r = enqueue_all cap (q @ take (cap - length q) xs) xss in (min (length xs) (cap - length q) # fst r, snd r))"

text \<open>
  What a bounded byte queue promises: a write appends what fits and says how much, and a read
  takes from the front, provided the queue is in a state in which reads are \<open>ready\<close>.
\<close>

locale byte_queue =
  fixes inv :: "'q \<Rightarrow> bool"
    and contents :: "'q \<Rightarrow> bytes"
    and capacity :: nat
    and put :: "'q \<Rightarrow> bytes \<Rightarrow> (nat \<times> 'q) option"
    and get :: "'q \<Rightarrow> nat \<Rightarrow> (bytes \<times> 'q) option"
    and ready :: "'q \<Rightarrow> bool"
  assumes put: "inv q \<Longrightarrow> \<exists>q'. put q xs = Some (min (length xs) (capacity - length (contents q)), q') \<and>
      inv q' \<and> contents q' = contents q @ take (capacity - length (contents q)) xs"
    and get: "inv q \<Longrightarrow> ready q \<Longrightarrow> \<exists>q'. get q n = Some (take n (contents q), q') \<and>
      inv q' \<and> contents q' = drop n (contents q)"
begin

text \<open>A sequence of writes, with the counts they report.\<close>

fun put_all :: "'q \<Rightarrow> bytes list \<Rightarrow> (nat list \<times> 'q) option" where
  "put_all q [] = Some ([], q)"
| "put_all q (xs # xss) = do { (n, q') \<leftarrow> put q xs; (ns, q'') \<leftarrow> put_all q' xss; Some (n # ns, q'') }"

lemma put_all_contents:
  "inv q \<Longrightarrow> \<exists>q'. put_all q xss = Some (fst (enqueue_all capacity (contents q) xss), q') \<and> inv q' \<and>
     contents q' = snd (enqueue_all capacity (contents q) xss)"
proof (induction xss arbitrary: q)
  case (Cons xs xss)
  from put [OF Cons.prems, of xs] obtain q1 where
    q1: "put q xs = Some (min (length xs) (capacity - length (contents q)), q1)" "inv q1"
    "contents q1 = contents q @ take (capacity - length (contents q)) xs" by blast
  with Cons.IH [OF q1(2)] show ?case by (auto simp: Let_def split: prod.split)
qed auto

lemma transfer:
  assumes "inv q"
  shows "\<exists>q'. put_all q xss = Some (fst (enqueue_all capacity (contents q) xss), q') \<and>
     contents q' = snd (enqueue_all capacity (contents q) xss) \<and> inv q' \<and>
     (ready q' \<longrightarrow> (\<exists>q''. get q' n = Some (take n (contents q'), q'') \<and> inv q'' \<and>
        contents q'' = drop n (contents q')))"
  using put_all_contents [OF assms, of xss] get by blast

end

definition pipe_put :: "file_table_entry \<Rightarrow> bytes \<Rightarrow> (nat \<times> file_table_entry) option" where
  "pipe_put f xs = map_option snd (pipe_write f xs (length xs) 0)"

interpretation ring: byte_queue ring_wf ring_contents "BUFFER_SIZE - 1" pipe_put pipe_read
  "\<lambda>f. buffer_p_c f \<noteq> 0"
proof unfold_locales
  fix f xs assume "ring_wf f"
  from pipe_write_spec [OF this, of "length xs" xs 0] obtain buf p where
    "pipe_write f xs (length xs) 0 = Some (length xs \<le> BUFFER_SIZE - 1 - ring_count f,
       min (length xs) (BUFFER_SIZE - 1 - ring_count f), f\<lparr>buffer := buf, buffer_p_c := p\<rparr>)"
    "ring_wf (f\<lparr>buffer := buf, buffer_p_c := p\<rparr>)"
    "ring_contents (f\<lparr>buffer := buf, buffer_p_c := p\<rparr>) =
       ring_contents f @ take (min (length xs) (BUFFER_SIZE - 1 - ring_count f)) xs" by auto
  then show "\<exists>q'. pipe_put f xs =
      Some (min (length xs) (BUFFER_SIZE - 1 - length (ring_contents f)), q') \<and> ring_wf q' \<and>
      ring_contents q' = ring_contents f @ take (BUFFER_SIZE - 1 - length (ring_contents f)) xs"
    by (intro exI [of _ "f\<lparr>buffer := buf, buffer_p_c := p\<rparr>"])
      (auto simp: pipe_put_def min_def)
next
  fix f n assume "ring_wf f" "buffer_p_c f \<noteq> 0"
  from pipe_read_spec [OF this, of n] show "\<exists>q'. pipe_read f n = Some (take n (ring_contents f), q') \<and>
      ring_wf q' \<and> ring_contents q' = drop n (ring_contents f)" by blast
qed

text \<open>
  Pipe writes: from any well-formed ring a write returns, it stores the longest prefix of
  its data that fits next to what is queued (2047 bytes in all), reports its length, and the
  queued bytes stay in order in front of it.
\<close>

theorem pipe_write_appends:
  assumes "ring_wf f"
  shows "\<exists>f'. pipe_write f data (length data) 0 =
      Some (length data \<le> 2047 - length (ring_contents f), min (length data) (2047 - length (ring_contents f)), f') \<and>
    ring_wf f' \<and> ring_contents f' = ring_contents f @ take (2047 - length (ring_contents f)) data"
  using pipe_write_spec [OF assms, of "length data" data 0]
  by (auto simp: BUFFER_SIZE_def min_def split: if_splits)

theorem pipe_write_appends_witness:
  "\<exists>f'. pipe_write (new_entry 2 []) [1, 2, 3] (length [1, 2, 3 :: u8]) 0 = Some (True, 3, f') \<and>
     ring_wf f' \<and> ring_contents f' = [1, 2, 3]"
proof -
  have "ring_wf (new_entry 2 [])" "ring_contents (new_entry 2 []) = []"
    by (simp_all add: ring_defs new_entry_def empty_entry_def ring_contents_def)
  with pipe_write_appends [of "new_entry 2 []" "[1, 2, 3]"] show ?thesis
    by (simp add: numeral_3_eq_3 del: pipe_write.simps)
qed

text \<open>
  C12. A pipe is a bounded queue for its writers, and for its readers except at one cursor position.
  Any sequence of writes to a well-formed ring appends of each write the longest prefix that fits into
  2047 bytes, and each write reports the length of that prefix.  A read of \<open>n\<close> bytes then
  delivers the queued bytes in order and takes them off; when the producer cursor is at the start
  of the buffer it delivers \<open>n\<close> bytes in any case, and those behind the queued ones are stale.
\<close>

theorem pipe_transfer:
  assumes "ring_wf f"
  shows "\<exists>f' bs f''. byte_queue.put_all pipe_put f xss = Some (fst (enqueue_all 2047 (ring_contents f) xss), f') \<and>
     ring_contents f' = snd (enqueue_all 2047 (ring_contents f) xss) \<and>
     pipe_read f' n = Some (bs, f'') \<and> ring_wf f'' \<and>
     take (length (ring_contents f')) bs = take n (ring_contents f') \<and>
     length bs = (if buffer_p_c f' = 0 then n else min n (length (ring_contents f'))) \<and>
     (n \<le> length (ring_contents f') \<or> buffer_p_c f' \<noteq> 0 \<longrightarrow> ring_contents f'' = drop n (ring_contents f'))"
proof -
  obtain f' where f: "byte_queue.put_all pipe_put f xss = Some (fst (enqueue_all 2047 (ring_contents f) xss), f')"
    "ring_contents f' = snd (enqueue_all 2047 (ring_contents f) xss)" "ring_wf f'"
    using ring.transfer [OF assms, of xss n] by (auto simp: BUFFER_SIZE_def)
  from pipe_read_any [OF f(3), of n, folded length_ring_contents] obtain bs c where
    "pipe_read f' n = Some (bs, f'\<lparr>buffer_c_c := c\<rparr>)" "ring_wf (f'\<lparr>buffer_c_c := c\<rparr>)"
    "take (length (ring_contents f')) bs = take n (ring_contents f')"
    "length bs = (if buffer_p_c f' = 0 then n else min n (length (ring_contents f')))"
    "n \<le> length (ring_contents f') \<or> buffer_p_c f' \<noteq> 0 \<longrightarrow>
       ring_contents (f'\<lparr>buffer_c_c := c\<rparr>) = drop n (ring_contents f')" by blast
  with f(1,2) show ?thesis by blast
qed

theorem pipe_transfer_witness:
  "\<exists>f' bs f''. byte_queue.put_all pipe_put (new_entry 2 []) [[1, 2], [3]] = Some ([2, 1], f') \<and>
     pipe_read f' 2 = Some (bs, f'') \<and> take 3 bs = [1, 2]"
proof -
  have wf: "ring_wf (new_entry 2 [])" and c: "ring_contents (new_entry 2 []) = []"
    by (simp_all add: ring_defs new_entry_def empty_entry_def ring_contents_def)
  have e: "enqueue_all 2047 [] [[1, 2], [3]] = ([2, 1], [1, 2, 3 :: u8])" by simp
  obtain f' bs f'' where r: "byte_queue.put_all pipe_put (new_entry 2 []) [[1, 2], [3]] = Some ([2, 1], f')"
    "ring_contents f' = [1, 2, 3]" "pipe_read f' 2 = Some (bs, f'')"
    "take (length (ring_contents f')) bs = take 2 (ring_contents f')"
    using pipe_transfer [OF wf, of "[[1, 2], [3]]" 2] unfolding c e fst_conv snd_conv by blast
  have "take 3 bs = [1, 2]" using r(4) unfolding r(2) by (simp add: numeral_3_eq_3 numeral_2_eq_2)
  with r show ?thesis by blast
qed

text \<open>
  The reader's test for an empty ring misses one state: with the producer cursor at the
  start of the buffer every read is satisfied in full, whatever is queued, so that a reader of
  an empty pipe is given bytes nobody wrote.
\<close>

theorem pipe_read_wrapped:
  assumes "ring_wf f" "buffer_p_c f = 0"
  shows "\<exists>bs f'. pipe_read f n = Some (bs, f') \<and> length bs = n"
  using assms
proof (induction n arbitrary: f)
  case (Suc n)
  let ?f = "f\<lparr>buffer_c_c := next_cursor (buffer_c_c f)\<rparr>"
  have "ring_wf ?f" "buffer_p_c ?f = 0" using Suc.prems by (auto simp: ring_defs)
  from Suc.IH [OF this] Suc.prems show ?case by (auto simp: ring_defs Let_def)
qed auto

theorem pipe_read_wrapped_witness:
  "\<exists>f. ring_contents f = [] \<and> (\<exists>bs f'. pipe_read f 5 = Some (bs, f') \<and> length bs = 5)"
proof -
  let ?f = "(new_entry 2 [])\<lparr>buffer_p_c := 0, buffer_c_c := 2047\<rparr>"
  have "ring_wf ?f" "buffer_p_c ?f = 0" "ring_contents ?f = []"
    by (simp_all add: ring_defs new_entry_def empty_entry_def ring_contents_def)
  with pipe_read_wrapped [of ?f 5] show ?thesis by blast
qed

end
