(* ===== verification/Tarfs.thy ===== *)
theory Tarfs
  imports Misc
begin

text \<open>
  The read-only archive file system of \<^verbatim>\<open>sys/tarfs.c\<close>.  The archive is the byte image between
  \<open>tarfs_start\<close> and \<open>tarfs_end\<close>; cursors are signed offsets into it, and the loops over its
  headers are partial functions, because the advance of the cursor is whatever the size field
  of a header says.
\<close>

section \<open>State and operations\<close>

record tarfs =
  tarfs_start :: u64
  tarfs_image :: bytes

text \<open>What can be read from offset \<open>c\<close> on.\<close>

definition tar_from :: "bytes \<Rightarrow> int \<Rightarrow> bytes" where
  "tar_from img c = (if c < 0 then [] else drop (nat c) img)"

text \<open>
  \<open>read_oct\<close>: the digits are summed from the last one on, each shifted as a 32-bit \<open>int\<close>
  before it is added to the 64-bit sum.
\<close>

definition oct_term :: "u8 \<Rightarrow> nat \<Rightarrow> int" where
  "oct_term c index = sint (push_bit (index * 3) ((scast c :: 32 word) - 48))"

fun oct_loop :: "int \<Rightarrow> nat \<Rightarrow> bytes \<Rightarrow> int" where
  "oct_loop accu index [] = accu"
| "oct_loop accu index (c # cs) = oct_loop (accu + oct_term c index) (Suc index) cs"

definition read_oct :: "bytes \<Rightarrow> int option" where
  "read_oct str = (if 0 \<in> set str then Some (oct_loop 0 0 (rev (cstr str))) else None)"

text \<open>The header's size field is at offset 124; a file is followed by its padding.\<close>

definition tar_next :: "int \<Rightarrow> int \<Rightarrow> int" where
  "tar_next c file_size = c + push_bit 9 (drop_bit 9 (file_size - 1) + 1) + 512"

definition name_first :: "bytes \<Rightarrow> int \<Rightarrow> u8 option" where
  "name_first img c = (case tar_from img c of [] \<Rightarrow> None | b # _ \<Rightarrow> Some b)"

text \<open>
  The search loop that \<open>tarfs_read\<close>, \<open>tarfs_find_offset\<close> and \<open>tarfs_file_info\<close> share: the
  header's offset and the file size, or \<open>None\<close> at the end of the archive.
\<close>

partial_function (option) tar_search :: "bytes \<Rightarrow> bytes \<Rightarrow> int \<Rightarrow> (int \<times> int) option option" where
  "tar_search img name c =
     (if c < int (length img) then
        do {
          n0 \<leftarrow> name_first img c;
          if n0 = 0 then Some None
          else do {
            file_size \<leftarrow> read_oct (tar_from img (c + 124));
            eq \<leftarrow> streq (tar_from img c) name;
            if eq then Some (Some (c, file_size)) else tar_search img name (tar_next c file_size)
          }
        }
      else Some None)"

text \<open>\<open>tarfs_read\<close> returns its result and the bytes it copied to the buffer.\<close>

definition tarfs_read :: "tarfs \<Rightarrow> bytes \<Rightarrow> int \<Rightarrow> int \<Rightarrow> (int \<times> bytes) option" where
  "tarfs_read fs file_path sz offset =
     do {
       found \<leftarrow> tar_search (tarfs_image fs) (drop 1 file_path) 0;
       case found of
         None \<Rightarrow> Some (- 1, [])
       | Some (c, file_size) \<Rightarrow>
           let size_to_copy = (if file_size - offset > sz then sz else file_size - offset)
           in if size_to_copy \<le> 0 then Some (- 1, [])
              else let src = tar_from (tarfs_image fs) (c + 512 + offset)
                   in if nat size_to_copy \<le> length src
                      then Some (size_to_copy, take (nat size_to_copy) src) else None
     }"

definition tarfs_find_offset :: "tarfs \<Rightarrow> bytes \<Rightarrow> u64 option" where
  "tarfs_find_offset fs file_path =
     do {
       found \<leftarrow> tar_search (tarfs_image fs) (drop 1 file_path) 0;
       Some (case found of None \<Rightarrow> 0 | Some (c, _) \<Rightarrow> tarfs_start fs + of_int (c + 512))
     }"

text \<open>\<open>tar_file_info\<close>; the size stays undefined when the offset is 0.\<close>

definition tarfs_file_info :: "tarfs \<Rightarrow> bytes \<Rightarrow> (u64 \<times> int option) option" where
  "tarfs_file_info fs file_path =
     do {
       found \<leftarrow> tar_search (tarfs_image fs) (drop 1 file_path) 0;
       Some (case found of None \<Rightarrow> (0, None)
             | Some (c, file_size) \<Rightarrow> (tarfs_start fs + of_int (c + 512), Some file_size))
     }"

text \<open>
  The name of an entry below a directory: the directory's path is a prefix of the entry's, and
  no slash follows in the rest but a last one.
\<close>

fun skip_prefix :: "bytes \<Rightarrow> bytes \<Rightarrow> bytes option option" where
  "skip_prefix sub [] = None"
| "skip_prefix sub (d # ds) =
     (if d = 0 then Some (Some sub)
      else case sub of [] \<Rightarrow> None
           | s # ss \<Rightarrow> if d \<noteq> s then Some None else skip_prefix ss ds)"

fun leaf_name :: "bytes \<Rightarrow> bytes option option" where
  "leaf_name [] = None"
| "leaf_name [c] = (if c = 0 then Some (Some []) else None)"
| "leaf_name (c # c' # cs) =
     (if c = 0 then Some (Some [])
      else if c = 47 \<and> c' \<noteq> 0 then Some None
      else map_option (map_option (Cons c)) (leaf_name (c' # cs)))"

definition name_below :: "bytes \<Rightarrow> bytes \<Rightarrow> bytes option option" where
  "name_below sub_name dir_path =
     do {
       rest \<leftarrow> skip_prefix sub_name dir_path;
       case rest of None \<Rightarrow> Some None | Some sub \<Rightarrow> leaf_name sub
     }"

text \<open>\<open>dirent_sys\<close>: \<open>None\<close> is a result of 0, \<open>Some name\<close> a result of 1 with that name.\<close>

partial_function (option) tar_list :: "bytes \<Rightarrow> bytes \<Rightarrow> int \<Rightarrow> int \<Rightarrow> int \<Rightarrow> bytes option option" where
  "tar_list img dir_path next_i counter c =
     (if c < int (length img) then
        do {
          n0 \<leftarrow> name_first img c;
          if n0 = 0 then Some None
          else do {
            hit \<leftarrow> name_below (tar_from img c) dir_path;
            if hit \<noteq> None \<and> counter = next_i then Some hit
            else do {
              file_size \<leftarrow> read_oct (tar_from img (c + 124));
              tar_list img dir_path next_i (if hit \<noteq> None then counter + 1 else counter)
                (tar_next c file_size)
            }
          }
        }
      else Some None)"

partial_function (option) tar_dir :: "bytes \<Rightarrow> bytes \<Rightarrow> int \<Rightarrow> int \<Rightarrow> bytes option option" where
  "tar_dir img dir_path next_i c =
     (if c < int (length img) then
        do {
          n0 \<leftarrow> name_first img c;
          if n0 = 0 then Some None
          else do {
            eq \<leftarrow> streq (tar_from img c) dir_path;
            file_size \<leftarrow> read_oct (tar_from img (c + 124));
            if eq \<or> hd dir_path = 0 then tar_list img dir_path next_i 0 (tar_next c file_size)
            else tar_dir img dir_path next_i (tar_next c file_size)
          }
        }
      else Some None)"

definition next_tarfs_file :: "tarfs \<Rightarrow> bytes \<Rightarrow> int \<Rightarrow> bytes option option" where
  "next_tarfs_file fs dir_path next_i = tar_dir (tarfs_image fs) (drop 1 dir_path) next_i 0"

section \<open>Sizes\<close>

fun oct_value :: "bytes \<Rightarrow> nat" where
  "oct_value [] = 0"
| "oct_value (c # cs) = (unat c - 48) + 8 * oct_value cs"

definition is_digit8 :: "u8 \<Rightarrow> bool" where
  "is_digit8 c \<longleftrightarrow> 48 \<le> c \<and> c < 56"

lemma oct_term_digit:
  assumes "is_digit8 c" "(unat c - 48) * 8 ^ i < 2 ^ 31"
  shows "oct_term c i = int ((unat c - 48) * 8 ^ i)"
proof -
  have c: "48 \<le> unat c" "unat c < 56"
    using assms(1) by (simp_all add: is_digit8_def word_le_nat_alt word_less_nat_alt)
  then have "sint c = int (unat c)" by (intro sint_small) simp
  then have "(scast c :: 32 word) = of_nat (unat c)" unfolding scast_eq by (simp del: of_nat_unat)
  then have d: "(scast c :: 32 word) - 48 = of_nat (unat c - 48)"
    using c by (simp add: of_nat_diff)
  have "(8 :: 32 word) ^ i = 2 ^ (i * 3)"
    by (simp add: mult.commute [of i] power_mult)
  then have e: "push_bit (i * 3) ((scast c :: 32 word) - 48) = of_nat ((unat c - 48) * 8 ^ i)"
    by (simp add: push_bit_eq_mult d)
  show ?thesis
    unfolding oct_term_def e using assms(2) by (intro sint_of_nat_small) simp
qed

lemma oct_loop_value:
  assumes "\<forall>c \<in> set cs. is_digit8 c" "8 ^ i * oct_value cs < 2 ^ 31"
  shows "oct_loop a i cs = a + int (8 ^ i * oct_value cs)"
  using assms
proof (induction cs arbitrary: a i)
  case (Cons c cs)
  have v: "8 ^ i * oct_value (c # cs) = (unat c - 48) * 8 ^ i + 8 ^ Suc i * oct_value cs"
    by (simp add: algebra_simps)
  then have b: "(unat c - 48) * 8 ^ i < 2 ^ 31" "8 ^ Suc i * oct_value cs < 2 ^ 31"
    using Cons.prems(2) by linarith+
  have "oct_term c i = int ((unat c - 48) * 8 ^ i)"
    using Cons.prems(1) b(1) by (intro oct_term_digit) auto
  moreover have "oct_loop (a + oct_term c i) (Suc i) cs = a + oct_term c i + int (8 ^ Suc i * oct_value cs)"
    using Cons.prems(1) by (intro Cons.IH [OF _ b(2)]) simp
  ultimately show ?case unfolding v by simp
qed simp

lemma read_oct_value:
  "is_cstr str s \<Longrightarrow> \<forall>c \<in> set s. is_digit8 c \<Longrightarrow> oct_value (rev s) < 2 ^ 31 \<Longrightarrow>
   read_oct str = Some (int (oct_value (rev s)))"
  using oct_loop_value [of "rev s" 0 0] is_cstr_cstr [of str s] is_cstr_terminated [of str s]
  by (simp add: read_oct_def)

definition round512 :: "nat \<Rightarrow> nat" where
  "round512 n = (n + 511) div 512 * 512"

lemma tar_next_nat: "tar_next (int c) (int n) = int (c + 512 + round512 n)"
proof -
  have "drop_bit 9 (int n - 1) + 1 = (int n + 511) div 512" by (simp add: drop_bit_eq_div)
  then show ?thesis
    by (simp add: tar_next_def round512_def push_bit_eq_mult zdiv_int)
qed

section \<open>Archives\<close>

text \<open>
  \<open>tar_at img off es\<close>: from offset \<open>off\<close> on, the image holds the files \<open>es\<close>, each a name and
  its content, and then a header with an empty name or nothing.
\<close>

type_synonym tar_file = "bytes \<times> bytes"

fun tar_at :: "bytes \<Rightarrow> nat \<Rightarrow> tar_file list \<Rightarrow> bool" where
  "tar_at img off [] \<longleftrightarrow> length img \<le> off \<or> img ! off = 0"
| "tar_at img off ((name, content) # es) \<longleftrightarrow>
     name \<noteq> [] \<and> is_cstr (drop off img) name \<and>
     is_cstr (drop (off + 124) img) (cstr (drop (off + 124) img)) \<and>
     (\<forall>c \<in> set (cstr (drop (off + 124) img)). is_digit8 c) \<and>
     oct_value (rev (cstr (drop (off + 124) img))) = length content \<and> length content < 2 ^ 31 \<and>
     off + 512 + length content \<le> length img \<and> get_at img (off + 512) (length content) = content \<and>
     tar_at img (off + 512 + round512 (length content)) es"

lemma is_cstr_first:
  assumes "is_cstr (drop off img) name" "name \<noteq> []"
  shows "off < length img" "name_first img (int off) \<noteq> Some 0" "\<exists>b. name_first img (int off) = Some b"
proof -
  have "drop off img \<noteq> []" using assms(1) by (auto simp: is_cstr_def)
  then show "off < length img" by simp
  show "name_first img (int off) \<noteq> Some 0" "\<exists>b. name_first img (int off) = Some b"
    using assms by (auto simp: name_first_def tar_from_def is_cstr_def neq_Nil_conv split: list.splits)
qed

lemma tar_from_nat [simp]: "tar_from img (int n) = drop n img"
  "tar_from img (int n + numeral k) = drop (n + numeral k) img"
proof -
  have "\<not> int n + numeral k < 0" by (simp add: not_less)
  then show "tar_from img (int n + numeral k) = drop (n + numeral k) img"
    by (simp add: tar_from_def nat_add_distrib)
qed (simp add: tar_from_def)

lemma tar_at_Cons:
  assumes "tar_at img off ((name, content) # es)"
  shows "\<exists>b. name_first img (int off) = Some b \<and> b \<noteq> 0" "int off < int (length img)"
    "read_oct (drop (off + 124) img) = Some (int (length content))"
    "is_cstr (drop off img) name"
    "tar_next (int off) (int (length content)) = int (off + 512 + round512 (length content))"
    "tar_at img (off + 512 + round512 (length content)) es"
  using assms is_cstr_first [of off img name] read_oct_value [of "drop (off + 124) img"]
  by (auto simp: tar_next_nat)

lemma tar_at_Nil:
  "tar_at img off [] \<Longrightarrow> int off < int (length img) \<Longrightarrow> name_first img (int off) = Some 0"
  by (auto simp: name_first_def split: list.splits dest: Cons_nth_drop_Suc)

text \<open>The first file of that name, with the offset of its header.\<close>

fun tar_lookup :: "nat \<Rightarrow> tar_file list \<Rightarrow> bytes \<Rightarrow> (nat \<times> bytes) option" where
  "tar_lookup off [] p = None"
| "tar_lookup off ((name, content) # es) p =
     (if name = p then Some (off, content)
      else tar_lookup (off + 512 + round512 (length content)) es p)"

lemma tar_search_lookup:
  assumes "tar_at img off es" "is_cstr path p"
  shows "tar_search img path (int off) =
     Some (map_option (\<lambda>(o', c). (int o', int (length c))) (tar_lookup off es p))"
  using assms(1)
proof (induction es arbitrary: off)
  case Nil
  then show ?case using tar_at_Nil [OF Nil] by (subst tar_search.simps) simp
next
  case (Cons e es)
  obtain name content where [simp]: "e = (name, content)" by force
  note t = tar_at_Cons [OF Cons.prems [unfolded \<open>e = (name, content)\<close>]]
  show ?case
    using t(1-5) Cons.IH [OF t(6)] streq_cstr [OF t(4) assms(2)]
    by (subst tar_search.simps) auto
qed

lemma tar_lookup_content:
  assumes "tar_at img off es" "tar_lookup off es p = Some (o', c)"
  shows "o' + 512 + length c \<le> length img" "get_at img (o' + 512) (length c) = c" "length c < 2 ^ 31"
  using assms by (induction es arbitrary: off) (auto split: if_splits)

lemma tar_lookup_map_of: "map_of es p = map_option snd (tar_lookup off es p)"
  by (induction es arbitrary: off) auto

lemma tarfs_read_slice:
  assumes "tar_at (tarfs_image fs) 0 es" "is_cstr path (47 # p)"
  shows "tarfs_read fs path sz (int offset) =
     Some (case map_of es p of
             None \<Rightarrow> (- 1, [])
           | Some content \<Rightarrow>
               let data = take (nat sz) (drop offset content)
               in if data = [] then (- 1, []) else (int (length data), data))"
proof -
  have p: "is_cstr (drop 1 path) p" using assms(2) by (cases path) (auto split: if_splits)
  show ?thesis
  proof (cases "tar_lookup 0 es p")
    case None
    then show ?thesis
      using tar_search_lookup [OF assms(1) p] tar_lookup_map_of [of es p 0] by (simp add: tarfs_read_def)
  next
    case (Some oc)
    then obtain o' c where l: "tar_lookup 0 es p = Some (o', c)" by (cases oc) auto
    note c = tar_lookup_content [OF assms(1) l]
    let ?k = "if int (length c) - int offset > sz then sz else int (length c) - int offset"
    define data where "data = take (nat sz) (drop offset c)"
    have n: "length data = min (nat sz) (length c - offset)" by (simp add: data_def)
    have "drop offset c = take (length c - offset) (drop (o' + 512 + offset) (tarfs_image fs))"
      by (subst (1) c(2) [symmetric]) (simp add: get_at_def drop_take add.commute)
    then have d: "take (length data) (drop (o' + 512 + offset) (tarfs_image fs)) = data"
      unfolding n by (simp add: data_def)
    from n have k: "?k \<le> 0 \<longleftrightarrow> data = []" "data \<noteq> [] \<Longrightarrow> ?k = int (length data)"
      by (auto simp: min_def data_def split: if_splits)
    have "tarfs_read fs path sz (int offset) =
        (if ?k \<le> 0 then Some (- 1, [])
         else let src = tar_from (tarfs_image fs) (int (o' + 512 + offset))
              in if nat ?k \<le> length src then Some (?k, take (nat ?k) src) else None)"
      using tar_search_lookup [OF assms(1) p] l by (simp add: tarfs_read_def add.assoc Let_def)
    moreover have "data \<noteq> [] \<Longrightarrow> length data \<le> length (tarfs_image fs) - (o' + 512 + offset)"
      using n c(1) by (auto simp: min_def)
    ultimately show ?thesis
      using k d tar_lookup_map_of [of es p 0] l by (cases "data = []") (simp_all add: data_def [symmetric] Let_def del: of_nat_add)
  qed
qed

text \<open>
  Reading a file of the archive: for every archive the image holds and every path, the
  read returns, and it returns what the file of that name holds from the offset on, at most
  \<open>sz\<close> bytes of it; it returns -1 when there is no such file or nothing is left to read.
\<close>

theorem tarfs_read_content:
  assumes "tar_at (tarfs_image fs) 0 es" "is_cstr path (47 # p)"
  shows "tarfs_read fs path sz (int offset) =
     Some (case map_of es p of
             None \<Rightarrow> (- 1, [])
           | Some content \<Rightarrow>
               let data = take (nat sz) (drop offset content)
               in if data = [] then (- 1, []) else (int (length data), data))"
  using assms by (rule tarfs_read_slice)

text \<open>
  Path lookup: \<open>tarfs_find_offset\<close> returns 0 exactly when the archive has no file of that
  name, and otherwise the address of the content of the first such file.
\<close>

theorem tarfs_find_offset_lookup:
  assumes "tar_at (tarfs_image fs) 0 es" "is_cstr path (47 # p)"
    and "0 < tarfs_start fs" "unat (tarfs_start fs) + length (tarfs_image fs) < 2 ^ 64"
  shows "\<exists>a. tarfs_find_offset fs path = Some a \<and> (a = 0 \<longleftrightarrow> p \<notin> fst ` set es) \<and>
     (\<forall>content. map_of es p = Some content \<longrightarrow>
        get_at (tarfs_image fs) (unat a - unat (tarfs_start fs)) (length content) = content)"
proof -
  have p: "is_cstr (drop 1 path) p" using assms(2) by (cases path) (auto split: if_splits)
  show ?thesis
  proof (cases "tar_lookup 0 es p")
    case None
    then have mo: "map_of es p = None" using tar_lookup_map_of [of es p 0] by simp
    then have "p \<notin> fst ` set es" by (metis map_of_eq_None_iff)
    with None mo show ?thesis
      using tar_search_lookup [OF assms(1) p] by (simp add: tarfs_find_offset_def)
  next
    case (Some oc)
    then obtain o' c where l: "tar_lookup 0 es p = Some (o', c)" by (cases oc) auto
    note c = tar_lookup_content [OF assms(1) l]
    have mo: "map_of es p = Some c" using tar_lookup_map_of [of es p 0] l by simp
    then have "p \<in> fst ` set es" by (metis map_of_eq_None_iff option.distinct(1))
    moreover have "unat (tarfs_start fs + of_nat (o' + 512)) = unat (tarfs_start fs) + (o' + 512)"
      using c(1) assms(4) by (simp add: unat_word_ariths unat_of_nat)
    moreover have "0 < unat (tarfs_start fs)" using assms(3) by (simp add: word_less_nat_alt)
    ultimately show ?thesis
      using tar_search_lookup [OF assms(1) p] l c(2) mo
      by (auto simp: tarfs_find_offset_def word_unat_eq_iff [of _ 0])
  qed
qed

text \<open>The names below a directory that the files of an archive contribute, in order.\<close>

definition below :: "bytes \<Rightarrow> bytes \<Rightarrow> bytes option" where
  "below d name =
     (if take (length d) name = d \<and> 47 \<notin> set (butlast (drop (length d) name))
      then Some (drop (length d) name) else None)"

lemma leaf_name_cstr:
  "is_cstr b s \<Longrightarrow> leaf_name b = Some (if 47 \<in> set (butlast s) then None else Some s)"
proof (induction b arbitrary: s rule: leaf_name.induct)
  case (3 c c' cs)
  show ?case
  proof (cases "c = 0")
    case False
    with 3(2) obtain t where t: "s = c # t" "is_cstr (c' # cs) t" unfolding is_cstr_Cons [of c] by auto
    show ?thesis
    proof (cases "c = 47 \<and> c' \<noteq> 0")
      case True
      with t show ?thesis by auto
    next
      case ok: False
      then have "47 \<in> set (butlast s) \<longleftrightarrow> 47 \<in> set (butlast t)"
        using t by (cases "t = []") (auto split: if_splits)
      with "3.IH" [OF False ok t(2)] False ok t show ?thesis by simp
    qed
  qed (use 3(2) in simp)
qed (auto split: if_splits)

lemma name_below_cstr:
  "is_cstr b s \<Longrightarrow> is_cstr dir d \<Longrightarrow> name_below b dir = Some (below d s)"
proof (induction dir arbitrary: b s d)
  case (Cons x dir)
  show ?case
  proof (cases "x = 0")
    case True
    with Cons.prems show ?thesis by (simp add: name_below_def leaf_name_cstr below_def)
  next
    case False
    with Cons.prems obtain d' where d: "d = x # d'" "is_cstr dir d'" by auto
    obtain y b' where b: "b = y # b'" using Cons.prems by (cases b) auto
    show ?thesis
    proof (cases "y = x")
      case True
      with b Cons.prems False obtain s' where s: "s = x # s'" "is_cstr b' s'" by auto
      from Cons.IH [OF s(2) d(2)] show ?thesis
        using b d s False True by (simp add: name_below_def below_def)
    next
      case ne: False
      with b Cons.prems have "s = [] \<or> hd s = y" by (auto split: if_splits)
      with ne b d False show ?thesis by (cases s) (auto simp: name_below_def below_def)
    qed
  qed
qed simp

lemma tar_list_names:
  assumes "is_cstr dir d" "tar_at img off es" "n \<le> i"
  shows "tar_list img dir (int i) (int n) (int off) =
     Some (let names = List.map_filter (below d) (map fst es)
           in if i - n < length names then Some (names ! (i - n)) else None)"
  using assms(2,3)
proof (induction es arbitrary: off n)
  case Nil
  then show ?case using tar_at_Nil [OF Nil(1)] by (subst tar_list.simps) (simp add: map_filter_simps)
next
  case (Cons e es)
  obtain name content where [simp]: "e = (name, content)" by force
  note t = tar_at_Cons [OF Cons.prems(1) [unfolded \<open>e = (name, content)\<close>]]
  note below = name_below_cstr [OF t(4) assms(1)]
  show ?case
  proof (cases "below d name")
    case None
    then show ?thesis using t(1-5) Cons.IH [OF t(6) Cons.prems(2)] below
      by (subst tar_list.simps) (auto simp: map_filter_simps)
  next
    case (Some x)
    then show ?thesis
    proof (cases "n = i")
      case True
      with Some t(1-5) below show ?thesis by (subst tar_list.simps) (auto simp: map_filter_simps)
    next
      case False
      with Cons.prems(2) have "Suc n \<le> i" "i - n = Suc (i - Suc n)" by simp_all
      with Some False t(1-5) Cons.IH [OF t(6) \<open>Suc n \<le> i\<close>] below show ?thesis
        by (subst tar_list.simps) (auto simp: map_filter_simps Let_def add.commute)
    qed
  qed
qed

text \<open>
  Listing a directory of the archive: counting from 0, the call returns the names that the
  entries after the directory's own contribute, one by one and in order, and then no more.
  For the root the entry that is passed over as its own is the first of the archive.
\<close>

theorem next_tarfs_file_lists:
  assumes "tar_at (tarfs_image fs) 0 es" "is_cstr path (47 # d)"
  shows "next_tarfs_file fs path (int i) =
     Some (let names = List.map_filter (below d)
                 (map fst (tl (dropWhile (\<lambda>e. d \<noteq> [] \<and> fst e \<noteq> d) es)))
           in if i < length names then Some (names ! i) else None)"
proof -
  have dir: "is_cstr (drop 1 path) d" using assms(2) by (cases path) (auto split: if_splits)
  then have h: "hd (drop 1 path) = 0 \<longleftrightarrow> d = []" by (cases "drop 1 path") (auto split: if_splits)
  have "tar_at img off es \<Longrightarrow> tar_dir img (drop 1 path) (int i) (int off) =
     Some (let names = List.map_filter (below d)
                 (map fst (tl (dropWhile (\<lambda>e. d \<noteq> [] \<and> fst e \<noteq> d) es)))
           in if i < length names then Some (names ! i) else None)" for img off
  proof (induction es arbitrary: off)
    case Nil
    then show ?case using tar_at_Nil [OF Nil] by (subst tar_dir.simps) (simp add: map_filter_simps)
  next
    case (Cons e es)
    obtain name content where [simp]: "e = (name, content)" by force
    note t = tar_at_Cons [OF Cons.prems [unfolded \<open>e = (name, content)\<close>]]
    show ?case
      using t(1-5) Cons.IH [OF t(6)] streq_cstr [OF t(4) dir] tar_list_names [OF dir t(6), of 0 i] h
      by (subst tar_dir.simps) (auto simp: Let_def)
  qed
  from this [of _ 0] assms(1) show ?thesis by (simp add: next_tarfs_file_def)
qed

section \<open>An archive\<close>

definition tar_header :: "bytes \<Rightarrow> bytes \<Rightarrow> bytes" where
  "tar_header name digits =
     name @ replicate (124 - length name) 0 @ digits @ replicate (388 - length digits) 0"

lemma tar_at_header:
  assumes img: "drop off img = tar_header name digits @ content @ rest"
    and name: "name \<noteq> []" "0 \<notin> set name" "length name < 124"
    and digits: "\<forall>c \<in> set digits. is_digit8 c" "oct_value (rev digits) = length content"
      "length digits < 388" and len: "length content < 2 ^ 31"
    and more: "tar_at img (off + 512 + round512 (length content)) es"
  shows "tar_at img off ((name, content) # es)"
proof -
  have z: "0 \<notin> set digits" using digits(1) by (auto simp: is_digit8_def)
  have t: "\<exists>r. replicate n 0 @ r' = 0 # r" if "0 < n" for n and r' :: bytes
    using that by (cases n) auto
  have "drop (off + 124) img = drop 124 (drop off img)" by (simp add: add.commute)
  then have d: "drop (off + 124) img = digits @ replicate (388 - length digits) 0 @ content @ rest"
    using name(3) by (simp add: img tar_header_def)
  then have ds: "is_cstr (drop (off + 124) img) digits"
    using t [of "388 - length digits"] digits(3) z by (simp add: is_cstr_def)
  have ns: "is_cstr (drop off img) name"
    using t [of "124 - length name"] name by (simp add: is_cstr_def img tar_header_def)
  have "drop (off + 512) img = drop 512 (drop off img)" by (simp add: add.commute)
  then have c: "drop (off + 512) img = content @ rest"
    using name(3) digits(3) by (simp add: img tar_header_def)
  then have "length img - (off + 512) \<ge> length content" by (metis length_append length_drop le_add1)
  moreover have "off + 512 \<le> length img"
  proof -
    have "length img - off = 512 + length content + length rest"
      using arg_cong [OF img, of length] name(3) digits(3) by (simp add: tar_header_def)
    then show ?thesis by linarith
  qed
  ultimately have "off + 512 + length content \<le> length img" by linarith
  then show ?thesis
    using name ns ds is_cstr_cstr [OF ds] digits len more c by (simp add: get_at_def)
qed

definition archive_example :: tarfs where
  "archive_example = \<lparr>tarfs_start = 0x100000,
     tarfs_image = tar_header [97, 47] [48] @ tar_header [97, 47, 98] [48, 51] @ [7, 8, 9]\<rparr>"

definition archive_files :: "tar_file list" where
  "archive_files = [([97, 47], []), ([97, 47, 98], [7, 8, 9])]"

lemma archive_example_at: "tar_at (tarfs_image archive_example) 0 archive_files"
proof -
  have r: "round512 (Suc (Suc (Suc 0))) = 512" "round512 0 = 0" by (simp_all add: round512_def)
  have "tar_at (tarfs_image archive_example) 512 [([97, 47, 98], [7, 8, 9])]"
    by (rule tar_at_header [where rest = "[]" and digits = "[48, 51]"])
      (simp_all add: archive_example_def tar_header_def is_digit8_def r)
  then have more: "tar_at (tarfs_image archive_example) (0 + 512 + round512 (length [])) [([97, 47, 98], [7, 8, 9])]"
    by (simp add: r del: tar_at.simps)
  show ?thesis unfolding archive_files_def
    by (rule tar_at_header [where digits = "[48]", OF _ _ _ _ _ _ _ _ more])
      (simp_all add: archive_example_def is_digit8_def)
qed

theorem tarfs_read_content_witness:
  "tarfs_read archive_example [47, 97, 47, 98, 0] 5 (int 1) = Some (2, [8, 9])"
  using tarfs_read_content [OF archive_example_at, of "[47, 97, 47, 98, 0]" "[97, 47, 98]" 5 1]
  by (simp add: archive_files_def)

theorem tarfs_find_offset_lookup_witness:
  "\<exists>a. tarfs_find_offset archive_example [47, 97, 47, 98, 0] = Some a \<and> a \<noteq> 0 \<and>
     get_at (tarfs_image archive_example) (unat a - unat (tarfs_start archive_example)) 3 = [7, 8, 9]"
proof -
  have "unat (tarfs_start archive_example) + length (tarfs_image archive_example) < 2 ^ 64"
    "0 < tarfs_start archive_example"
    by (simp_all add: archive_example_def tar_header_def)
  with tarfs_find_offset_lookup [OF archive_example_at, of "[47, 97, 47, 98, 0]" "[97, 47, 98]"]
  show ?thesis by (auto simp: archive_files_def numeral_3_eq_3)
qed

theorem next_tarfs_file_lists_witness:
  "next_tarfs_file archive_example [47, 97, 47, 0] (int 0) = Some (Some [98]) \<and>
   next_tarfs_file archive_example [47, 97, 47, 0] (int 1) = Some None"
  using next_tarfs_file_lists [OF archive_example_at, of "[47, 97, 47, 0]" "[97, 47]" 0]
    next_tarfs_file_lists [OF archive_example_at, of "[47, 97, 47, 0]" "[97, 47]" 1]
  by (simp add: archive_files_def below_def map_filter_simps)

end
