(* ===== verification/Simple_FS.thy ===== *)
theory Simple_FS
  imports Tarfs
begin

text \<open>
  The disk file system of \<^verbatim>\<open>sys/disk/file_system.c\<close>: a superblock in block 0, a list of up to
  31 files in block 1 (and in blocks linked from it), and one 4096-byte block per file.
\<close>

section \<open>The disk\<close>

text \<open>
  The disk at the level of \<open>read_disk_block\<close> and \<open>write_disk_block\<close>: its 4096-byte blocks, and
  whether its port accepts commands.  Both calls put the process on hold until the driver
  finds the command completed; a command the port does not accept leaves it on hold for ever,
  since the kernel task reports success in \<open>ret[0]\<close> in every case.

  The block number is turned into a sector number whose upper half is dropped, so that the
  port is given the block number modulo \<open>2^29\<close>.
\<close>

record disk =
  blocks :: "u64 \<Rightarrow> bytes"
  accepts :: bool

definition port_block :: "u64 \<Rightarrow> u64" where
  "port_block b = ((b * 8) AND 0xFFFFFFFF) div 8"

definition read_disk_block :: "disk \<Rightarrow> u64 \<Rightarrow> bytes option" where
  "read_disk_block d b = (if accepts d then Some (blocks d (port_block b)) else None)"

definition write_disk_block :: "disk \<Rightarrow> u64 \<Rightarrow> bytes \<Rightarrow> disk option" where
  "write_disk_block d b data =
     (if accepts d \<and> 4096 \<le> length data
      then Some (d\<lparr>blocks := (blocks d)(port_block b := take 4096 data)\<rparr>) else None)"

section \<open>State and operations\<close>

record simple_fs =
  fs_disk :: disk
  disk_size :: u64
  disk_block_free :: u64

record inode =
  base_lba :: u64
  layer :: u8
  inode_size :: u64
  file_list_lba :: u64
  file_list_lba_i :: nat

text \<open>The fields of \<open>simple_fs_file_list\<close> number \<open>i\<close> in a block, and the link after the 31st.\<close>

definition list_name :: "bytes \<Rightarrow> nat \<Rightarrow> bytes" where "list_name b i = drop (128 * i) b"
definition list_attr :: "bytes \<Rightarrow> nat \<Rightarrow> u64" where "list_attr b i = get64 b (128 * i + 112)"
definition list_lba :: "bytes \<Rightarrow> nat \<Rightarrow> u64" where "list_lba b i = get64 b (128 * i + 120)"
definition list_link :: "bytes \<Rightarrow> u64" where "list_link b = get64 b (128 * 31)"

definition in_use :: "u64 \<Rightarrow> bool" where
  "in_use attr \<longleftrightarrow> attr AND 0x8000000000000000 \<noteq> 0"

definition write_superblock :: "disk \<Rightarrow> u64 \<Rightarrow> u64 \<Rightarrow> disk option" where
  "write_superblock d sz free_starts =
     (let b0 = put_at (replicate 4096 0) 0 [115, 105, 109, 112, 108, 101, 95, 102, 115];
          b1 = put64 (put64 b0 16 sz) 24 free_starts
      in write_disk_block d 0 b1)"

fun search_list :: "bytes \<Rightarrow> bytes \<Rightarrow> nat list \<Rightarrow> nat option option" where
  "search_list b path [] = Some None"
| "search_list b path (i # is) =
     (if in_use (list_attr b i) then
        do {
          eq \<leftarrow> streq (list_name b i) path;
          if eq then Some (Some i) else search_list b path is
        }
      else search_list b path is)"

partial_function (option) search_from :: "disk \<Rightarrow> bytes \<Rightarrow> u64 \<Rightarrow> inode option option" where
  "search_from d path lba_c =
     do {
       b \<leftarrow> read_disk_block d lba_c;
       hit \<leftarrow> search_list b path [0..<31];
       case hit of
         Some i \<Rightarrow> Some (Some \<lparr>base_lba = list_lba b i, layer = 0,
                    inode_size = list_attr b i AND 0xFFFFFFFF,
                    file_list_lba = lba_c, file_list_lba_i = i\<rparr>)
       | None \<Rightarrow> if list_link b = 0 then Some None else search_from d path (list_link b)
     }"

definition search_file_in_disk :: "simple_fs \<Rightarrow> bytes \<Rightarrow> inode option option" where
  "search_file_in_disk s path = search_from (fs_disk s) path 1"

text \<open>
  \<open>init_file_system\<close> reads block 0 into a page whose content, when the port refuses the
  command, is what was there before.  An unformatted disk has that same block written back.
\<close>

definition init_file_system :: "simple_fs \<Rightarrow> bytes \<Rightarrow> simple_fs option" where
  "init_file_system s page =
     (let info = (if accepts (fs_disk s) then blocks (fs_disk s) 0 else page)
      in do {
           eq \<leftarrow> streq info [115, 105, 109, 112, 108, 101, 95, 102, 115, 0];
           if \<not> eq then
             Some (if accepts (fs_disk s)
                   then s\<lparr>fs_disk := (fs_disk s)\<lparr>blocks := (blocks (fs_disk s))(0 := info)\<rparr>\<rparr>
                   else s\<lparr>disk_size := 0\<rparr>)
           else Some (s\<lparr>disk_size := get64 info 16, disk_block_free := get64 info 24\<rparr>)
         })"

text \<open>
  The block with entry \<open>i\<close> filled in: the path is copied byte by byte, without a bound, over
  the cleared name field.
\<close>

definition fill_entry :: "bytes \<Rightarrow> nat \<Rightarrow> bytes \<Rightarrow> u64 \<Rightarrow> bytes option" where
  "fill_entry b i path lba =
     (let b1 = put64 b (128 * i + 112) 0x8000000000000000;
          b2 = put_at b1 (128 * i) (replicate 112 0)
      in if 0 \<in> set path \<and> 128 * i + length (cstr path) \<le> length b
         then Some (put64 (put_at b2 (128 * i) (cstr path)) (128 * i + 120) lba) else None)"

text \<open>\<open>create_file_in_disk\<close> only ever looks at block 1 and stops for good when it is full.\<close>

definition create_file_in_disk :: "simple_fs \<Rightarrow> bytes \<Rightarrow> (bool \<times> simple_fs) option" where
  "create_file_in_disk s path =
     do {
       b \<leftarrow> read_disk_block (fs_disk s) 1;
       case find (\<lambda>i. \<not> in_use (list_attr b i)) [0..<31] of
         None \<Rightarrow> None
       | Some i \<Rightarrow>
           do {
             b' \<leftarrow> fill_entry b i path (disk_block_free s);
             d1 \<leftarrow> write_disk_block (fs_disk s) 1 b';
             d2 \<leftarrow> write_superblock d1 (disk_size s) (disk_block_free s + 1);
             Some (True, s\<lparr>fs_disk := d2, disk_block_free := disk_block_free s + 1\<rparr>)
           }
     }"

definition directory_compare :: "bytes \<Rightarrow> bytes \<Rightarrow> bytes option option" where
  "directory_compare file dir_path =
     (case file of [] \<Rightarrow> None | c # _ \<Rightarrow> if c = 0 then Some None else name_below file dir_path)"

fun list_scan :: "bytes \<Rightarrow> bytes \<Rightarrow> int \<Rightarrow> int \<Rightarrow> nat list \<Rightarrow> (int \<times> bytes option) option" where
  "list_scan b dir_path next_i counter [] = Some (counter, None)"
| "list_scan b dir_path next_i counter (i # is) =
     (if in_use (list_attr b i) then
        do {
          hit \<leftarrow> directory_compare (list_name b i) dir_path;
          case hit of
            None \<Rightarrow> list_scan b dir_path next_i counter is
          | Some name \<Rightarrow> if counter = next_i then Some (counter, Some name)
                         else list_scan b dir_path next_i (counter + 1) is
        }
      else list_scan b dir_path next_i counter is)"

partial_function (option) list_from :: "disk \<Rightarrow> bytes \<Rightarrow> int \<Rightarrow> int \<Rightarrow> u64 \<Rightarrow> bytes option option" where
  "list_from d dir_path next_i counter lba_c =
     do {
       b \<leftarrow> read_disk_block d lba_c;
       (counter', hit) \<leftarrow> list_scan b dir_path next_i counter [0..<31];
       case hit of
         Some name \<Rightarrow> Some (Some name)
       | None \<Rightarrow> if list_link b = 0 then Some None
                 else list_from d dir_path next_i counter' (list_link b)
     }"

definition list_next_file :: "tarfs \<Rightarrow> simple_fs \<Rightarrow> bytes \<Rightarrow> int \<Rightarrow> bytes option option" where
  "list_next_file tar s dir_path next_i =
     do {
       file_offset \<leftarrow> tarfs_find_offset tar dir_path;
       if file_offset \<noteq> 0 \<or> (dir_path ! 0 = 47 \<and> dir_path ! 1 = 0)
       then next_tarfs_file tar dir_path next_i
       else list_from (fs_disk s) dir_path next_i 0 1
     }"

section \<open>Slots of a list block\<close>

definition slot :: "bytes \<Rightarrow> nat \<Rightarrow> bytes" where
  "slot b i = get_at b (128 * i) 128"

definition new_slot :: "bytes \<Rightarrow> u64 \<Rightarrow> bytes" where
  "new_slot p lba = p @ replicate (112 - length p) 0 @ le_of 8 0x8000000000000000 @ le_of 8 lba"

lemma put_at_get: "a + n \<le> length xs \<Longrightarrow> put_at xs a (get_at xs a n) = xs"
  by (rule nth_equalityI) (auto simp: nth_put_at nth_get_at)

lemma put_at_nest:
  assumes "a + length ys \<le> length xs" "k + length zs \<le> length ys"
  shows "put_at (put_at xs a ys) (a + k) zs = put_at xs a (put_at ys k zs)"
  using assms by (intro nth_equalityI) (auto simp: nth_put_at)

lemma slot_put:
  assumes "128 * i + 128 \<le> length b" "length sl = 128" "128 * k + 128 \<le> length b"
  shows "slot (put_at b (128 * i) sl) k = (if k = i then sl else slot b k)"
proof (cases "k = i")
  case True
  then show ?thesis using assms get_put_same [of "128 * i" sl b] by (simp add: slot_def)
next
  case False
  then have "128 * k + 128 \<le> 128 * i \<or> 128 * i + 128 \<le> 128 * k" by linarith
  then show ?thesis using assms False by (simp add: slot_def get_put_other)
qed

lemma fill_entry_slot:
  assumes b: "length b = 4096" and i: "i < 31" and p: "is_cstr path p" "length p < 112"
  shows "fill_entry b i path lba = Some (put_at b (128 * i) (new_slot p lba))"
proof -
  define s0 where "s0 = slot b i"
  have l0: "length s0 = 128" and r: "128 * i + 128 \<le> length b" using b i by (auto simp: s0_def slot_def)
  have l: "128 * i + length (slot b i) \<le> length b" using r by (simp add: slot_def)
  have nest: "put_at (put_at b (128 * i) ys) (128 * i + k) zs = put_at b (128 * i) (put_at ys k zs)"
    if "length ys = 128" "k + length zs \<le> 128" for ys zs k
    using that r by (intro put_at_nest) simp_all
  have b1: "put64 b (128 * i + 112) 0x8000000000000000 = put_at b (128 * i) (put64 s0 112 0x8000000000000000)"
    using nest [of s0 112 "le_of 8 0x8000000000000000"] put_at_get [of "128 * i" 128 b] l0 r
    by (simp add: put64_def s0_def slot_def)
  define s1 where "s1 = put_at (put64 s0 112 0x8000000000000000) 0 (replicate 112 0)"
  have s1: "s1 = replicate 112 0 @ le_of 8 0x8000000000000000 @ drop 120 s0"
    using l0 by (simp add: s1_def put64_def put_at_def)
  have b2: "put_at (put64 b (128 * i + 112) 0x8000000000000000) (128 * i) (replicate 112 0) = put_at b (128 * i) s1"
    using nest [of "put64 s0 112 0x8000000000000000" 0 "replicate 112 0"] l0 by (simp add: b1 s1_def)
  define s2 where "s2 = put_at s1 0 p"
  have s2: "s2 = p @ replicate (112 - length p) 0 @ le_of 8 0x8000000000000000 @ drop 120 s0"
    using p(2) by (simp add: s2_def s1 put_at_def drop_replicate)
  have b3: "put_at (put_at b (128 * i) s1) (128 * i) p = put_at b (128 * i) s2"
    using nest [of s1 0 p] l0 p(2) s1 by (simp add: s2_def)
  have "put64 (put_at b (128 * i) s2) (128 * i + 120) lba = put_at b (128 * i) (put_at s2 120 (le_of 8 lba))"
    using nest [of s2 120 "le_of 8 lba"] l0 p(2) s2 by (simp add: put64_def)
  moreover have "put_at s2 120 (le_of 8 lba) = new_slot p lba"
    using l0 p(2) by (simp add: put_at_def s2 new_slot_def)
  ultimately show ?thesis
    using p is_cstr_cstr [OF p(1)] is_cstr_terminated [OF p(1)] r
    by (simp add: fill_entry_def Let_def b2 b3)
qed

lemma length_new_slot [simp]: "length p < 112 \<Longrightarrow> length (new_slot p lba) = 128"
  by (simp add: new_slot_def)

lemma list_fields_slot:
  assumes "length b = 4096" "i < 31"
  shows "list_attr b i = get64 (slot b i) 112" "list_lba b i = get64 (slot b i) 120"
    "list_name b i = slot b i @ drop (128 * i + 128) b"
  using assms
  by (simp_all add: list_attr_def list_lba_def list_name_def slot_def get64_def get_at_def drop_take
      add.commute append_take_drop_id flip: drop_drop)

lemma new_slot_fields:
  assumes "length p < 112" "0 \<notin> set p"
  shows "get64 (new_slot p lba) 112 = 0x8000000000000000" "get64 (new_slot p lba) 120 = lba"
    "cstr (new_slot p lba) = p" "0 \<in> set (take 112 (new_slot p lba))"
proof -
  show "get64 (new_slot p lba) 112 = 0x8000000000000000" "get64 (new_slot p lba) 120 = lba"
    using assms(1) by (simp_all add: new_slot_def get64_def get_at_def)
  obtain n where n: "112 - length p = Suc n" using assms(1) by (metis Suc_diff_Suc)
  then show "cstr (new_slot p lba) = p"
    using assms(2) by (auto simp: new_slot_def cstr_def takeWhile_tail)
  show "0 \<in> set (take 112 (new_slot p lba))"
    using assms(1) n by (simp add: new_slot_def)
qed

section \<open>Well-formed disks\<close>

text \<open>A single list block whose names in use are terminated within their field.\<close>

definition list_ok :: "bytes \<Rightarrow> bool" where
  "list_ok b \<longleftrightarrow> length b = 4096 \<and> list_link b = 0 \<and>
     (\<forall>i < 31. in_use (list_attr b i) \<longrightarrow> 0 \<in> set (take 112 (slot b i)))"

definition fs_ok :: "simple_fs \<Rightarrow> bool" where
  "fs_ok s \<longleftrightarrow> accepts (fs_disk s) \<and> list_ok (blocks (fs_disk s) 1)"

definition dir_find :: "simple_fs \<Rightarrow> bytes \<Rightarrow> nat option" where
  "dir_find s p = find (\<lambda>i. in_use (list_attr (blocks (fs_disk s) 1) i) \<and>
     cstr (slot (blocks (fs_disk s) 1) i) = p) [0..<31]"

definition inode_of :: "simple_fs \<Rightarrow> nat \<Rightarrow> inode" where
  "inode_of s i = \<lparr>base_lba = list_lba (blocks (fs_disk s) 1) i, layer = 0,
     inode_size = list_attr (blocks (fs_disk s) 1) i AND 0xFFFFFFFF, file_list_lba = 1,
     file_list_lba_i = i\<rparr>"

lemma port_block_small [simp]: "port_block 0 = 0" "port_block 1 = 1"
  by (simp_all add: port_block_def)

lemma streq_list_name:
  assumes "list_ok b" "i < 31" "in_use (list_attr b i)" "is_cstr path p"
  shows "streq (list_name b i) path = Some (cstr (slot b i) = p)"
proof -
  have "0 \<in> set (slot b i)" using assms(1-3) by (auto simp: list_ok_def dest: in_set_takeD)
  then have "is_cstr (slot b i) (cstr (slot b i))" by (rule cstr_is_cstr)
  then have "is_cstr (list_name b i) (cstr (slot b i))"
    using assms(1,2) by (simp add: list_fields_slot list_ok_def is_cstr_append)
  from streq_cstr [OF this assms(4)] show ?thesis .
qed

lemma search_list_find:
  "list_ok b \<Longrightarrow> is_cstr path p \<Longrightarrow> \<forall>i \<in> set is. i < 31 \<Longrightarrow>
   search_list b path is = Some (find (\<lambda>i. in_use (list_attr b i) \<and> cstr (slot b i) = p) is)"
  by (induction "is") (auto simp: streq_list_name)

lemma search_file_spec:
  assumes "fs_ok s" "is_cstr path p"
  shows "search_file_in_disk s path = Some (map_option (inode_of s) (dir_find s p))"
proof -
  have "search_list (blocks (fs_disk s) 1) path [0..<31] = Some (dir_find s p)"
    using assms unfolding dir_find_def by (intro search_list_find) (auto simp: fs_ok_def)
  then show ?thesis
    using assms unfolding search_file_in_disk_def
    by (subst search_from.simps)
      (auto simp: read_disk_block_def fs_ok_def list_ok_def inode_of_def split: option.split)
qed

lemma find_cong_others:
  assumes "find P xs = None" "\<And>k. k \<in> set xs \<Longrightarrow> k \<noteq> i \<Longrightarrow> Q k = P k" "i \<in> set xs" "Q i"
  shows "find Q xs = Some i"
  using assms
proof (induction xs)
  case (Cons x xs)
  show ?case
  proof (cases "x = i")
    case False
    with Cons.prems have "\<not> P x" "Q x = P x" by (auto split: if_splits)
    with Cons False show ?thesis by (auto split: if_splits)
  qed (use Cons.prems in simp)
qed simp

text \<open>The effect of a successful creation on the list block and the superblock.\<close>

lemma create_file_effect:
  assumes ok: "fs_ok s" and p: "is_cstr path p" "length p < 112"
    and i: "find (\<lambda>i. \<not> in_use (list_attr (blocks (fs_disk s) 1) i)) [0..<31] = Some i"
  obtains s' where "create_file_in_disk s path = Some (True, s')" "fs_ok s'"
    "disk_block_free s' = disk_block_free s + 1" "disk_size s' = disk_size s"
    "\<And>k. k < 31 \<Longrightarrow> slot (blocks (fs_disk s') 1) k =
       (if k = i then new_slot p (disk_block_free s) else slot (blocks (fs_disk s) 1) k)"
    "blocks (fs_disk s') 0 = put64 (put64 (put_at (replicate 4096 0) 0
        [115, 105, 109, 112, 108, 101, 95, 102, 115]) 16 (disk_size s)) 24 (disk_block_free s + 1)"
    "\<And>a. a \<noteq> 0 \<Longrightarrow> a \<noteq> 1 \<Longrightarrow> blocks (fs_disk s') a = blocks (fs_disk s) a" "i < 31"
proof -
  let ?b = "blocks (fs_disk s) 1"
  let ?b' = "put_at ?b (128 * i) (new_slot p (disk_block_free s))"
  from i have i31: "i < 31" by (auto simp: find_Some_iff)
  have b: "length ?b = 4096" "list_link ?b = 0" using ok by (simp_all add: fs_ok_def list_ok_def)
  have f: "fill_entry ?b i path (disk_block_free s) = Some ?b'"
    using b i31 p by (intro fill_entry_slot)
  have b': "length ?b' = 4096" using b i31 p by simp
  have sl: "slot ?b' k = (if k = i then new_slot p (disk_block_free s) else slot ?b k)" if "k < 31" for k
    using that b i31 p(2) by (intro slot_put) simp_all
  have lk: "list_link ?b' = 0"
    using b i31 p(2) by (simp add: list_link_def get64_put_at_other)
  have ok': "list_ok ?b'"
    using ok b' lk p new_slot_fields [OF p(2)] sl
    by (auto simp: fs_ok_def list_ok_def list_fields_slot is_cstr_def)
  define sb where "sb = put64 (put64 (put_at (replicate 4096 0) 0
        [115, 105, 109, 112, 108, 101, 95, 102, 115]) 16 (disk_size s)) 24 (disk_block_free s + 1)"
  have lsb: "length sb = 4096" by (simp add: sb_def)
  let ?s = "s\<lparr>fs_disk := (fs_disk s)\<lparr>blocks := (blocks (fs_disk s))(1 := ?b', 0 := sb)\<rparr>,
     disk_block_free := disk_block_free s + 1\<rparr>"
  have "create_file_in_disk s path = Some (True, ?s)"
    using ok i f b' lsb
    by (simp add: create_file_in_disk_def read_disk_block_def fs_ok_def write_disk_block_def
        write_superblock_def Let_def flip: sb_def)
  moreover have "fs_ok ?s" using ok ok' by (simp add: fs_ok_def)
  ultimately show thesis using that [of ?s] sl i31 by (simp add: sb_def)
qed

text \<open>
  Creating a file and opening it: with room in the list, creating a path of fewer than 112
  bytes that is not there yet succeeds; afterwards the path is found as an empty file at the
  block that was the first free one, and every other path is found exactly as before.
\<close>

theorem create_file_then_search:
  assumes "fs_ok s" "is_cstr path p" "length p < 112" "dir_find s p = None"
    and "find (\<lambda>i. \<not> in_use (list_attr (blocks (fs_disk s) 1) i)) [0..<31] = Some i"
  shows "\<exists>s'. create_file_in_disk s path = Some (True, s') \<and> fs_ok s' \<and>
     search_file_in_disk s' path = Some (Some \<lparr>base_lba = disk_block_free s, layer = 0,
       inode_size = 0, file_list_lba = 1, file_list_lba_i = i\<rparr>) \<and>
     (\<forall>path' q. is_cstr path' q \<longrightarrow> q \<noteq> p \<longrightarrow>
        search_file_in_disk s' path' = search_file_in_disk s path')"
proof -
  obtain s' where c: "create_file_in_disk s path = Some (True, s')" "fs_ok s'"
    and sl: "\<And>k. k < 31 \<Longrightarrow> slot (blocks (fs_disk s') 1) k =
       (if k = i then new_slot p (disk_block_free s) else slot (blocks (fs_disk s) 1) k)" and i: "i < 31"
    by (rule create_file_effect [OF assms(1,2,3,5)]) blast
  have len: "length (blocks (fs_disk s') 1) = 4096" "length (blocks (fs_disk s) 1) = 4096"
    using c(2) assms(1) by (simp_all add: fs_ok_def list_ok_def)
  note lf = list_fields_slot [OF len(1)] list_fields_slot [OF len(2)]
  have p0: "0 \<notin> set p" using assms(2) by (simp add: is_cstr_def)
  note nf = new_slot_fields [OF assms(3) p0, of "disk_block_free s"]
  have ni: "\<not> in_use (list_attr (blocks (fs_disk s) 1) i)" using assms(5) by (auto simp: find_Some_iff)
  have u: "in_use 0x8000000000000000" by (simp add: in_use_def)
  have fp: "dir_find s' p = Some i"
    unfolding dir_find_def
    by (rule find_cong_others [OF assms(4) [unfolded dir_find_def]]) (use i sl nf u in \<open>auto simp: lf\<close>)
  have same: "dir_find s' q = dir_find s q" if "q \<noteq> p" for q
    unfolding dir_find_def by (rule find_cong) (use i sl nf that ni in \<open>auto simp: lf\<close>)
  have io: "inode_of s' k = inode_of s k" if "k < 31" "k \<noteq> i" for k
    using that sl by (simp add: inode_of_def lf)
  have "search_file_in_disk s' path' = search_file_in_disk s path'" if "is_cstr path' q" "q \<noteq> p" for path' q
  proof -
    have "k < 31 \<and> k \<noteq> i" if "dir_find s q = Some k" for k
      using that ni by (auto simp: dir_find_def find_Some_iff)
    then show ?thesis
      using search_file_spec [OF c(2) that(1)] search_file_spec [OF assms(1) that(1)] same [OF that(2)] io
      by (cases "dir_find s q") auto
  qed
  moreover have "inode_of s' i = \<lparr>base_lba = disk_block_free s, layer = 0,
       inode_size = 0, file_list_lba = 1, file_list_lba_i = i\<rparr>"
    using i sl nf by (simp add: inode_of_def lf)
  ultimately show ?thesis using c fp search_file_spec [OF c(2) assms(2)] by auto
qed

text \<open>An empty formatted disk, on which the statements about creation can be applied.\<close>

definition blank_fs :: simple_fs where
  "blank_fs = \<lparr>fs_disk = \<lparr>blocks = (\<lambda>_. replicate 4096 0), accepts = True\<rparr>, disk_size = 0x800000,
     disk_block_free = 2\<rparr>"

lemma get64_zeros: "i + 8 \<le> n \<Longrightarrow> get64 (replicate n 0) i = 0"
proof -
  have "of_le (replicate k 0) = 0" for k by (induction k) auto
  then show "i + 8 \<le> n \<Longrightarrow> get64 (replicate n 0) i = 0" by (simp add: get64_def get_at_def)
qed

lemma blank_fs_unused: "i < 31 \<Longrightarrow> \<not> in_use (list_attr (blocks (fs_disk blank_fs) 1) i)"
  by (simp add: blank_fs_def list_attr_def get64_zeros in_use_def)

lemma blank_fs_facts:
  "fs_ok blank_fs" "dir_find blank_fs p = None"
  "find (\<lambda>i. \<not> in_use (list_attr (blocks (fs_disk blank_fs) 1) i)) [0..<31] = Some 0"
proof -
  have "list_link (blocks (fs_disk blank_fs) 1) = 0"
    by (simp add: blank_fs_def list_link_def get64_zeros)
  then show "fs_ok blank_fs" using blank_fs_unused
    by (simp add: fs_ok_def list_ok_def) (simp add: blank_fs_def)
  show "dir_find blank_fs p = None"
    using blank_fs_unused by (auto simp: dir_find_def find_None_iff)
  show "find (\<lambda>i. \<not> in_use (list_attr (blocks (fs_disk blank_fs) 1) i)) [0..<31] = Some 0"
    using blank_fs_unused [of 0] by (simp add: upt_conv_Cons)
qed

theorem create_file_then_search_witness:
  "\<exists>s'. create_file_in_disk blank_fs [47, 97, 0] = Some (True, s') \<and> fs_ok s' \<and>
     search_file_in_disk s' [47, 97, 0] = Some (Some \<lparr>base_lba = disk_block_free blank_fs, layer = 0,
       inode_size = 0, file_list_lba = 1, file_list_lba_i = 0\<rparr>) \<and>
     (\<forall>path' q. is_cstr path' q \<longrightarrow> q \<noteq> [47, 97] \<longrightarrow>
        search_file_in_disk s' path' = search_file_in_disk blank_fs path')"
  by (rule create_file_then_search [OF blank_fs_facts(1) _ _ blank_fs_facts(2,3)]) simp_all




text \<open>
  The path is copied into its entry without a bound: a path of 256 bytes or more replaces the block number
  of the next entry by bytes of the path.
\<close>

lemma get64_inside: "a + length ys \<le> length xs \<Longrightarrow> k + 8 \<le> length ys \<Longrightarrow> get64 (put_at xs a ys) (a + k) = of_le (get_at ys k 8)"
proof -
  assume a: "a + length ys \<le> length xs" "k + 8 \<le> length ys"
  then have "get_at (put_at xs a ys) (a + k) 8 = get_at ys k 8"
    by (intro nth_equalityI) (simp_all add: nth_get_at nth_put_at)
  then show ?thesis by (simp add: get64_def)
qed

lemma create_file_long_path:
  assumes ok: "fs_ok s" and p: "is_cstr path p" "256 \<le> length p" "128 * i + length p \<le> 4096"
    and i: "find (\<lambda>i. \<not> in_use (list_attr (blocks (fs_disk s) 1) i)) [0..<31] = Some i"
  shows "\<exists>s'. create_file_in_disk s path = Some (True, s') \<and>
     list_lba (blocks (fs_disk s') 1) (Suc i) = of_le (get_at p 248 8)"
proof -
  let ?b = "blocks (fs_disk s) 1"
  have b: "length ?b = 4096" using ok by (simp add: fs_ok_def list_ok_def)
  define b2 where "b2 = put_at (put64 ?b (128 * i + 112) 0x8000000000000000) (128 * i) (replicate 112 0)"
  have l2: "length b2 = 4096" using b p by (simp add: b2_def)
  define b' where "b' = put64 (put_at b2 (128 * i) p) (128 * i + 120) (disk_block_free s)"
  have f: "fill_entry ?b i path (disk_block_free s) = Some b'"
    using p(3) b is_cstr_cstr [OF p(1)] is_cstr_terminated [OF p(1)] by (simp add: fill_entry_def Let_def b2_def b'_def)
  have l': "length b' = 4096" using l2 p(2,3) by (simp add: b'_def)
  have "get64 b' (128 * i + 248) = get64 (put_at b2 (128 * i) p) (128 * i + 248)"
    using l2 p(2,3) by (simp add: b'_def get64_put64_other)
  also have "\<dots> = of_le (get_at p 248 8)" using l2 p(2,3) by (intro get64_inside) simp_all
  finally have lba: "list_lba b' (Suc i) = of_le (get_at p 248 8)" by (simp add: list_lba_def algebra_simps)
  obtain d2 where "write_superblock ((fs_disk s)\<lparr>blocks := (blocks (fs_disk s))(1 := b')\<rparr>) (disk_size s) (disk_block_free s + 1) = Some d2"
    "blocks d2 1 = b'"
    using ok by (simp add: write_superblock_def write_disk_block_def fs_ok_def Let_def)
  then have "create_file_in_disk s path = Some (True, s\<lparr>fs_disk := d2, disk_block_free := disk_block_free s + 1\<rparr>)"
    using ok i f l' by (simp add: create_file_in_disk_def read_disk_block_def fs_ok_def write_disk_block_def)
  then show ?thesis using lba \<open>blocks d2 1 = b'\<close> by simp
qed


text \<open>
  The allocation state survives a reboot: after creating a file, a kernel that starts from
  the disk alone reads back from the superblock the size and the first free block that the
  running kernel has.
\<close>

theorem create_file_persists:
  assumes "fs_ok s" "is_cstr path p" "length p < 112"
    and "find (\<lambda>i. \<not> in_use (list_attr (blocks (fs_disk s) 1) i)) [0..<31] = Some i"
  shows "\<exists>s'. create_file_in_disk s path = Some (True, s') \<and>
     (\<forall>sz fr page. init_file_system (s'\<lparr>disk_size := sz, disk_block_free := fr\<rparr>) page = Some s')"
proof -
  obtain s' where c: "create_file_in_disk s path = Some (True, s')" "fs_ok s'"
    "disk_block_free s' = disk_block_free s + 1" "disk_size s' = disk_size s"
    and sb: "blocks (fs_disk s') 0 = put64 (put64 (put_at (replicate 4096 0) 0
        [115, 105, 109, 112, 108, 101, 95, 102, 115]) 16 (disk_size s)) 24 (disk_block_free s + 1)"
    by (rule create_file_effect [OF assms]) blast
  let ?b = "blocks (fs_disk s') 0" and ?name = "[115, 105, 109, 112, 108, 101, 95, 102, 115] :: bytes"
  have "get_at ?b 0 16 = ?name @ replicate 7 0"
    by (simp add: sb get_at_put64_other) (simp add: get_at_def put_at_def)
  moreover have "replicate 7 (0 :: u8) = 0 # replicate 6 0" by (simp flip: replicate_Suc)
  ultimately have "?b = ?name @ 0 # replicate 6 0 @ drop 16 ?b"
    using append_take_drop_id [of 16 ?b] by (simp add: get_at_def)
  moreover have "0 \<notin> set ?name" by simp
  ultimately have "is_cstr ?b ?name" unfolding is_cstr_def by blast
  then have "streq ?b (?name @ [0]) = Some True" using streq_cstr [of ?b ?name "?name @ [0]" ?name] by simp
  moreover have "get64 ?b 16 = disk_size s" "get64 ?b 24 = disk_block_free s + 1"
    by (simp_all add: sb get64_put64_other)
  ultimately show ?thesis
    using c by (simp add: init_file_system_def fs_ok_def)
qed

theorem create_file_persists_witness:
  "\<exists>s'. create_file_in_disk blank_fs [47, 97, 0] = Some (True, s') \<and>
     (\<forall>sz fr page. init_file_system (s'\<lparr>disk_size := sz, disk_block_free := fr\<rparr>) page = Some s')"
  by (rule create_file_persists [OF blank_fs_facts(1) _ _ blank_fs_facts(3), where p = "[47, 97]"]) simp_all

end
