(* ===== verification/File_System.thy ===== *)
theory File_System
  imports File_Table Simple_FS
begin

text \<open>
  Open files: \<^verbatim>\<open>file_open_read\<close>, \<^verbatim>\<open>file_open_write\<close>, \<^verbatim>\<open>generate_entry_pair\<close>, \<^verbatim>\<open>file_read\<close>,
  \<^verbatim>\<open>file_write\<close>, \<^verbatim>\<open>file_set_offset\<close> and \<^verbatim>\<open>file_close\<close> of \<^verbatim>\<open>sys/disk/file_system.c\<close>, over a store of
  file table entries and inodes by address, the archive and the disk.
\<close>

section \<open>State and operations\<close>

text \<open>
  \<open>file_supply\<close> lists the addresses that the coming calls of \<open>sf_malloc\<close> and \<open>sf_calloc\<close> for
  entries and inodes return.
\<close>

record filesys =
  files :: "ptr \<rightharpoonup> file_table_entry"
  inodes :: "ptr \<rightharpoonup> inode"
  sfs :: simple_fs
  tar :: tarfs
  file_supply :: "ptr list"

definition next_addr :: "filesys \<Rightarrow> (ptr \<times> filesys) option" where
  "next_addr fs = (case file_supply fs of [] \<Rightarrow> None | p # ps \<Rightarrow> Some (p, fs\<lparr>file_supply := ps\<rparr>))"

definition put_file :: "ptr \<Rightarrow> file_table_entry \<Rightarrow> filesys \<Rightarrow> filesys" where
  "put_file p f fs = fs\<lparr>files := (files fs)(p \<mapsto> f)\<rparr>"

definition put_inode :: "ptr \<Rightarrow> inode \<Rightarrow> filesys \<Rightarrow> filesys" where
  "put_inode p i fs = fs\<lparr>inodes := (inodes fs)(p \<mapsto> i)\<rparr>"

text \<open>The node that \<open>search_file_in_disk\<close> allocates for what it finds; 0 when it finds nothing.\<close>

definition search_alloc :: "filesys \<Rightarrow> bytes \<Rightarrow> (ptr \<times> filesys) option" where
  "search_alloc fs path =
     do {
       found \<leftarrow> search_file_in_disk (sfs fs) path;
       case found of
         None \<Rightarrow> Some (0, fs)
       | Some node \<Rightarrow> do { (p, fs1) \<leftarrow> next_addr fs; Some (p, put_inode p node fs1) }
     }"

definition file_open_read :: "filesys \<Rightarrow> bytes \<Rightarrow> (ptr \<times> filesys) option" where
  "file_open_read fs path =
     do {
       file_offset \<leftarrow> tarfs_find_offset (tar fs) path;
       path_len \<leftarrow> strlen path;
       if file_offset \<noteq> 0 then
         do {
           (p, fs1) \<leftarrow> next_addr fs;
           Some (p, put_file p ((new_entry 3 (take (unat path_len + 1) path))\<lparr>in_from := file_offset\<rparr>) fs1)
         }
       else
         do {
           (file_info, fs1) \<leftarrow> search_alloc fs path;
           if file_info = 0 then Some (0, fs1)
           else do {
             (p, fs2) \<leftarrow> next_addr fs1;
             Some (p, put_file p ((new_entry 5 (take (unat path_len) path))\<lparr>in_from := file_info\<rparr>) fs2)
           }
         }
     }"

definition file_open_write :: "filesys \<Rightarrow> bytes \<Rightarrow> (ptr \<times> filesys) option" where
  "file_open_write fs path =
     do {
       file_offset \<leftarrow> tarfs_find_offset (tar fs) path;
       if file_offset \<noteq> 0 then Some (0, fs)
       else
         do {
           (file_info, fs1) \<leftarrow> search_alloc fs path;
           if file_info = 0 then Some (0, fs1)
           else do {
             node \<leftarrow> inodes fs1 file_info;
             path_len \<leftarrow> strlen path;
             (p, fs2) \<leftarrow> next_addr fs1;
             Some (p, put_file p ((new_entry 6 (take (unat path_len) path))
               \<lparr>out_to := file_info, offset := inode_size node\<rparr>) fs2)
           }
         }
     }"

text \<open>\<open>generate_entry_pair\<close> returns \<open>assign_to[0]\<close>, the read end, and \<open>assign_to[1]\<close>.\<close>

definition generate_entry_pair :: "filesys \<Rightarrow> (ptr \<times> ptr \<times> filesys) option" where
  "generate_entry_pair fs =
     do {
       (file_in, fs1) \<leftarrow> next_addr fs;
       (file_out, fs2) \<leftarrow> next_addr fs1;
       let e_in = (new_entry 1 [101, 110, 116, 114, 121, 95, 112, 97, 105, 114, 95, 105, 110, 0])\<lparr>out_to := file_out\<rparr>;
       let e_out = (new_entry 2 [101, 110, 116, 114, 121, 95, 112, 97, 105, 114, 95, 111, 117, 116, 0])\<lparr>in_from := file_in\<rparr>;
       Some (file_out, file_in, put_file file_in e_in (put_file file_out e_out fs2))
     }"

text \<open>Conversion of a 64-bit signed value to the \<open>int\<close> that is returned.\<close>

definition to_int :: "int \<Rightarrow> int" where
  "to_int i = sint (word_of_int i :: 32 word)"

text \<open>\<open>file_read\<close>: the result, the bytes stored from \<open>read_buffer\<close> on, and the state.\<close>

definition file_read :: "filesys \<Rightarrow> ptr \<Rightarrow> u64 \<Rightarrow> (int \<times> bytes \<times> filesys) option" where
  "file_read fs p sz =
     do {
       file \<leftarrow> files fs p;
       if io_type file = 3 then
         do {
           (readed, bs) \<leftarrow> tarfs_read (tar fs) (path_str file) (sint sz) (sint (offset file));
           Some (to_int readed, bs, put_file p (file\<lparr>offset := offset file + word_of_int readed\<rparr>) fs)
         }
       else if io_type file = 2 then
         do {
           writer \<leftarrow> files fs (in_from file);
           if open_count writer \<le> 0 \<and> buffer_p_c file - 1 = buffer_c_c file then Some (- 1, [], fs)
           else do {
             (bs, file') \<leftarrow> pipe_read file (unat sz);
             Some (int (length bs), bs, put_file p file' fs)
           }
         }
       else if io_type file = 5 then
         do {
           file_info \<leftarrow> inodes fs (in_from file);
           _ \<leftarrow> assert (layer file_info = 0);
           readed \<leftarrow> read_disk_block (fs_disk (sfs fs)) (base_lba file_info);
           to_read \<leftarrow> math_min sz [inode_size file_info - offset file, - 1];
           if to_read = 0 then Some (- 1, [], fs)
           else if unat (offset file) + unat to_read \<le> length readed then
             Some (to_int (uint to_read), get_at readed (unat (offset file)) (unat to_read),
                   put_file p (file\<lparr>offset := offset file + to_read\<rparr>) fs)
           else None
         }
       else Some (- 1, [], fs)
     }"

text \<open>
  \<open>file_write\<close>: the result, the processes whose \<open>on_hold\<close> is cleared, and the state.
\<close>

definition file_write :: "filesys \<Rightarrow> ptr \<Rightarrow> bytes \<Rightarrow> u64 \<Rightarrow> (int \<times> ptr list \<times> filesys) option" where
  "file_write fs p buffer_in sz =
     do {
       file \<leftarrow> files fs p;
       if io_type file = 1 then
         do {
           _ \<leftarrow> assert (out_to file \<noteq> 0);
           out \<leftarrow> files fs (out_to file);
           (all, count, out') \<leftarrow> pipe_write out buffer_in (unat sz) 0;
           if \<not> all then Some (int count, [], put_file (out_to file) out' fs)
           else Some (int count, first_waiters out', put_file (out_to file) (out'\<lparr>first_waiters := []\<rparr>) fs)
         }
       else if io_type file = 6 then
         do {
           file_info \<leftarrow> inodes fs (out_to file);
           _ \<leftarrow> assert (layer file_info = 0);
           readed \<leftarrow> read_disk_block (fs_disk (sfs fs)) (base_lba file_info);
           let off = (if offset file > 4096 then 4096 else offset file);
           let sz' = (if off + sz > 4096 then 4096 - off else sz);
           _ \<leftarrow> (if unat sz' \<le> length buffer_in \<and> unat off + unat sz' \<le> length readed then Some () else None);
           let data = take (unat sz') buffer_in;
           let written = sz';
           d1 \<leftarrow> write_disk_block (fs_disk (sfs fs)) (base_lba file_info) (put_at readed (unat off) data);
           let file_info' = (if inode_size file_info < written + off
                             then file_info\<lparr>inode_size := written + off\<rparr> else file_info);
           readed_l \<leftarrow> read_disk_block d1 (file_list_lba file_info);
           let i = file_list_lba_i file_info;
           let attr = (list_attr readed_l i AND 0xFFFFFFFF00000000) OR (inode_size file_info' AND 0xFFFFFFFF);
           d2 \<leftarrow> write_disk_block d1 (file_list_lba file_info) (put64 readed_l (128 * i + 112) attr);
           let fs1 = put_file p (file\<lparr>offset := off\<rparr>) (put_inode (out_to file) file_info' fs);
           Some (to_int (uint written), [], fs1\<lparr>sfs := (sfs fs)\<lparr>fs_disk := d2\<rparr>\<rparr>)
         }
       else Some (- 1, [], fs)
     }"

definition file_set_offset :: "filesys \<Rightarrow> ptr \<Rightarrow> u64 \<Rightarrow> filesys option" where
  "file_set_offset fs p off = do { file \<leftarrow> files fs p; Some (put_file p (file\<lparr>offset := off\<rparr>) fs) }"

definition file_close :: "filesys \<Rightarrow> ptr \<Rightarrow> (int \<times> filesys) option" where
  "file_close fs p =
     do { file \<leftarrow> files fs p; Some (1, put_file p (file\<lparr>open_count := open_count file - 1\<rparr>) fs) }"

section \<open>Lemmas\<close>

lemma put_file_sel [simp]:
  "files (put_file p f fs) = (files fs)(p \<mapsto> f)" "inodes (put_file p f fs) = inodes fs"
  "sfs (put_file p f fs) = sfs fs" "tar (put_file p f fs) = tar fs"
  "file_supply (put_file p f fs) = file_supply fs"
  by (simp_all add: put_file_def)

lemma put_inode_sel [simp]:
  "files (put_inode p i fs) = files fs" "inodes (put_inode p i fs) = (inodes fs)(p \<mapsto> i)"
  "sfs (put_inode p i fs) = sfs fs" "tar (put_inode p i fs) = tar fs"
  "file_supply (put_inode p i fs) = file_supply fs"
  by (simp_all add: put_inode_def)

section \<open>Pipes\<close>

lemma new_entry_ring: "ring_wf (new_entry ty path)" "ring_contents (new_entry ty path) = []"
  by (simp_all add: ring_defs new_entry_def empty_entry_def ring_contents_def)

lemma ring_waiters [simp]:
  "ring_wf (f\<lparr>first_waiters := ws\<rparr>) = ring_wf f"
  "ring_contents (f\<lparr>first_waiters := ws\<rparr>) = ring_contents f"
  by (simp_all add: ring_defs ring_contents_def)

lemma ring_count_start:
  "ring_wf f \<Longrightarrow> buffer_c_c f = 0 \<Longrightarrow> ring_count f < 2047 \<Longrightarrow> buffer_p_c f \<noteq> 0"
  by (auto simp: ring_defs)

lemma unat_of_nat_small [simp]: "n < 2 ^ 64 \<Longrightarrow> unat (of_nat n :: u64) = n"
  by (simp add: unat_of_nat take_bit_nat_eq_self)

text \<open>
  A pipe from end to end: the two entries of a fresh pair are connected, so that data of
  at most 2046 bytes written to one end returns its length, and reading the other end then
  returns exactly that data.
\<close>

theorem pipe_end_to_end:
  assumes "file_supply fs = a # b # rest" "a \<noteq> b" "b \<noteq> 0" "length data \<le> 2046"
  shows "\<exists>fs1 fs2 fs3. generate_entry_pair fs = Some (b, a, fs1) \<and>
     file_write fs1 a data (of_nat (length data)) = Some (int (length data), [], fs2) \<and>
     file_read fs2 b (of_nat (length data)) = Some (int (length data), data, fs3)"
proof -
  obtain e_in e_out fs1 where g: "generate_entry_pair fs = Some (b, a, fs1)"
    and st: "files fs1 a = Some e_in" "files fs1 b = Some e_out"
    and e: "io_type e_in = 1" "out_to e_in = b" "open_count e_in = 1" "io_type e_out = 2" "in_from e_out = a"
      "first_waiters e_out = []" "buffer_c_c e_out = 0" "ring_wf e_out" "ring_contents e_out = []"
    using assms(1,2)
    by (auto simp: generate_entry_pair_def next_addr_def Let_def new_entry_def empty_entry_def
        ring_defs ring_contents_def)
  have u: "unat (of_nat (length data) :: u64) = length data" using assms(4) by simp
  have "ring_count e_out = 0" using e(9) by (metis length_ring_contents list.size(3))
  with pipe_write_spec [OF e(8), of "length data" data 0] assms(4) e(9) obtain buf p where
    w: "pipe_write e_out data (length data) 0 = Some (True, length data, e_out\<lparr>buffer := buf, buffer_p_c := p\<rparr>)"
    and wf: "ring_wf (e_out\<lparr>buffer := buf, buffer_p_c := p\<rparr>)"
    and c: "ring_contents (e_out\<lparr>buffer := buf, buffer_p_c := p\<rparr>) = data"
    by (auto simp: BUFFER_SIZE_def)
  define f where "f = e_out\<lparr>buffer := buf, buffer_p_c := p, first_waiters := []\<rparr>"
  have f: "ring_wf f" "ring_contents f = data"
    using wf c by (simp_all add: f_def)
  have "ring_count f < 2047" using arg_cong [OF f(2), of length] assms(4) by simp
  then have "buffer_p_c f \<noteq> 0" using ring_count_start [OF f(1)] e(7) by (simp add: f_def)
  from pipe_read_spec [OF f(1) this, of "length data"] f(2) obtain f' where
    r: "pipe_read f (length data) = Some (data, f')" by auto
  let ?fs2 = "put_file b f fs1"
  have "file_write fs1 a data (of_nat (length data)) = Some (int (length data), [], ?fs2)"
    using st e assms(3) w u by (simp add: file_write_def f_def)
  moreover have "file_read ?fs2 b (of_nat (length data)) = Some (int (length data), data, put_file b f' ?fs2)"
    using st e assms(2) r u by (simp add: file_read_def f_def)
  ultimately show ?thesis using g by blast
qed

text \<open>A write of \<open>n\<close> bytes that fit, from a buffer that may be longer.\<close>

lemma file_write_fits:
  assumes "files fs p = Some w" "io_type w = 1" "out_to w \<noteq> 0" "files fs (out_to w) = Some r"
    and "ring_wf r" "n < 2 ^ 64" "n \<le> length data" "n \<le> 2047 - length (ring_contents r)"
  shows "\<exists>r'. file_write fs p data (of_nat n) = Some (int n, first_waiters r, put_file (out_to w) r' fs) \<and>
      first_waiters r' = [] \<and> ring_wf r' \<and> ring_contents r' = ring_contents r @ take n data"
proof -
  from pipe_write_spec [OF assms(5,7), of 0] assms(8) obtain buf q where
    w: "pipe_write r data n 0 = Some (True, n, r\<lparr>buffer := buf, buffer_p_c := q\<rparr>)"
    and c: "ring_wf (r\<lparr>buffer := buf, buffer_p_c := q\<rparr>)"
      "ring_contents (r\<lparr>buffer := buf, buffer_p_c := q\<rparr>) = ring_contents r @ take n data"
    by (auto simp: BUFFER_SIZE_def)
  then show ?thesis
    using assms(1-4,6) by (intro exI [of _ "r\<lparr>buffer := buf, buffer_p_c := q, first_waiters := []\<rparr>"])
      (simp add: file_write_def)
qed

text \<open>
  Waking readers: a pipe write that stores all its data clears the hold of every process
  waiting on the read end and leaves the list of waiters empty.
\<close>

theorem file_write_wakes_readers:
  assumes "files fs p = Some w" "io_type w = 1" "out_to w \<noteq> 0" "files fs (out_to w) = Some r"
    and "ring_wf r" "length data < 2 ^ 64" "length data \<le> 2047 - length (ring_contents r)"
  shows "\<exists>fs' r'. file_write fs p data (of_nat (length data)) =
      Some (int (length data), first_waiters r, fs') \<and> files fs' (out_to w) = Some r' \<and>
      first_waiters r' = [] \<and> ring_contents r' = ring_contents r @ data"
  using file_write_fits [OF assms(1-6), of data] assms(7) by auto

text \<open>
  A pipe write that fills the ring returns the count of what it stored but wakes nobody:
  the processes waiting on the read end stay in its list although there is data for them.
\<close>

theorem file_write_full_wakes_nobody:
  assumes "files fs p = Some w" "io_type w = 1" "out_to w \<noteq> 0" "files fs (out_to w) = Some r"
    and "ring_wf r" "length data < 2 ^ 64" "2047 - length (ring_contents r) < length data"
  shows "\<exists>fs' r'. file_write fs p data (of_nat (length data)) =
      Some (int (2047 - length (ring_contents r)), [], fs') \<and> files fs' (out_to w) = Some r' \<and>
      first_waiters r' = first_waiters r \<and> length (ring_contents r') = 2047"
proof -
  from pipe_write_spec [OF assms(5), of "length data" data 0] assms(7) obtain buf q where
    w: "pipe_write r data (length data) 0 =
      Some (False, 2047 - length (ring_contents r), r\<lparr>buffer := buf, buffer_p_c := q\<rparr>)"
    and c: "ring_contents (r\<lparr>buffer := buf, buffer_p_c := q\<rparr>) =
      ring_contents r @ take (2047 - length (ring_contents r)) data"
    by (auto simp: BUFFER_SIZE_def min_def)
  have "length (ring_contents r) \<le> 2047"
    using ring_count_bound [OF assms(5)] by (simp add: BUFFER_SIZE_def)
  with c assms(7) have "length (ring_contents (r\<lparr>buffer := buf, buffer_p_c := q\<rparr>)) = 2047" by simp
  then show ?thesis using assms(1-4,6) w by (simp add: file_write_def)
qed

section \<open>Files on the disk\<close>

lemma high_mask: "0xFFFFFFFF00000000 = (push_bit 32 (mask 32) :: u64)"
  by (simp add: mask_eq_exp_minus_1 push_bit_eq_mult)

lemma in_use_bit: "in_use attr \<longleftrightarrow> bit attr 63"
proof -
  have "0x8000000000000000 = (push_bit 63 1 :: u64)" by (simp add: push_bit_eq_mult)
  then have "in_use attr \<longleftrightarrow> attr AND push_bit 63 1 \<noteq> 0" unfolding in_use_def by (simp only:)
  also have "\<dots> \<longleftrightarrow> bit attr 63" by (simp add: bit_iff_and_push_bit_not_eq_0)
  finally show ?thesis .
qed

definition new_attr :: "u64 \<Rightarrow> u64 \<Rightarrow> u64" where
  "new_attr attr sz = (attr AND 0xFFFFFFFF00000000) OR (sz AND 0xFFFFFFFF)"

lemma new_attr_fields:
  "in_use (new_attr attr sz) = in_use attr" "new_attr attr sz AND 0xFFFFFFFF = sz AND 0xFFFFFFFF"
  unfolding in_use_bit new_attr_def low_mask high_mask
  by (simp add: bit_simps) (rule bit_word_eqI, auto simp: bit_simps)

lemma cstr_prefix:
  assumes "0 \<in> set (take n xs)" "take n xs = take n ys"
  shows "cstr xs = cstr ys"
proof -
  have "cstr zs = cstr (take n zs)" if "0 \<in> set (take n zs)" for zs
    using that unfolding cstr_def by (metis (mono_tags) append_take_drop_id takeWhile_append1)
  with assms show ?thesis by metis
qed

lemma list_update_attr:
  assumes ok: "list_ok b" and i: "i < 31" and u: "in_use a = in_use (list_attr b i)"
  defines "b' \<equiv> put64 b (128 * i + 112) a"
  shows "list_ok b'" "length b' = 4096"
    "\<And>k. k < 31 \<Longrightarrow> list_attr b' k = (if k = i then a else list_attr b k)"
    "\<And>k. k < 31 \<Longrightarrow> list_lba b' k = list_lba b k"
    "\<And>k. k < 31 \<Longrightarrow> in_use (list_attr b k) \<Longrightarrow> cstr (slot b' k) = cstr (slot b k)"
proof -
  have l: "length b = 4096" using ok by (simp add: list_ok_def)
  then show l': "length b' = 4096" using i by (simp add: b'_def)
  show at: "list_attr b' k = (if k = i then a else list_attr b k)" if "k < 31" for k
  proof (cases "k = i")
    case False
    then have "128 * k + 120 \<le> 128 * i + 112 \<or> 128 * i + 120 \<le> 128 * k + 112" by linarith
    then show ?thesis using False l i that by (simp add: list_attr_def b'_def get64_put64_other)
  qed (use l i in \<open>simp add: list_attr_def b'_def\<close>)
  show "list_lba b' k = list_lba b k" if "k < 31" for k
  proof -
    have "128 * k + 128 \<le> 128 * i + 112 \<or> 128 * i + 120 \<le> 128 * k + 120" by (cases "k < i") linarith+
    then show ?thesis using l i that by (simp add: list_lba_def b'_def get64_put64_other)
  qed
  have t: "take 112 (slot b' k) = take 112 (slot b k)" if "k < 31" for k
  proof -
    have "128 * k + 112 \<le> 128 * i + 112 \<or> 128 * i + 120 \<le> 128 * k"
      by (cases "i < k") linarith+
    then have "get_at b' (128 * k) 112 = get_at b (128 * k) 112"
      unfolding b'_def using l i that by (intro get_at_put64_other) linarith+
    then show ?thesis by (simp add: slot_def get_at_def)
  qed
  have z: "0 \<in> set (take 112 (slot b k))" if "k < 31" "in_use (list_attr b k)" for k
    using ok that by (simp add: list_ok_def)
  then show "cstr (slot b' k) = cstr (slot b k)" if "k < 31" "in_use (list_attr b k)" for k
    using that t [OF that(1)] by (intro cstr_prefix [of 112]) simp_all
  have "list_link b' = list_link b" using l i by (simp add: list_link_def b'_def get64_put64_other)
  then show "list_ok b'"
    using ok l' at t z u i by (auto simp: list_ok_def)
qed

text \<open>
  A handle for writing to a file on the disk: its inode, its block, which is not the list
  block, and its entry in the list block.
\<close>

definition disk_handle :: "filesys \<Rightarrow> ptr \<Rightarrow> file_table_entry \<Rightarrow> inode \<Rightarrow> bool" where
  "disk_handle fs w f n \<longleftrightarrow> files fs w = Some f \<and> io_type f = 6 \<and> inodes fs (out_to f) = Some n \<and>
     layer n = 0 \<and> fs_ok (sfs fs) \<and> length (blocks (fs_disk (sfs fs)) (port_block (base_lba n))) = 4096 \<and>
     port_block (base_lba n) \<noteq> 1 \<and> file_list_lba n = 1 \<and> file_list_lba_i n < 31"

definition grown_inode :: "inode \<Rightarrow> u64 \<Rightarrow> inode" where
  "grown_inode n sz = (if inode_size n < sz then n\<lparr>inode_size := sz\<rparr> else n)"

definition written_fs :: "filesys \<Rightarrow> ptr \<Rightarrow> file_table_entry \<Rightarrow> inode \<Rightarrow> bytes \<Rightarrow> filesys" where
  "written_fs fs w f n data =
     (let n' = grown_inode n (of_nat (length data) + offset f);
          i = file_list_lba_i n; bs = blocks (fs_disk (sfs fs))
      in (put_file w f (put_inode (out_to f) n' fs))
         \<lparr>sfs := (sfs fs)\<lparr>fs_disk := (fs_disk (sfs fs))
            \<lparr>blocks := bs
               (port_block (base_lba n) := put_at (bs (port_block (base_lba n))) (unat (offset f)) data,
                1 := put64 (bs 1) (128 * i + 112) (new_attr (list_attr (bs 1) i) (inode_size n')))\<rparr>\<rparr>\<rparr>)"

lemma to_int_of_nat: "n < 2 ^ 31 \<Longrightarrow> to_int (uint (of_nat n :: u64)) = int n"
proof -
  assume n: "n < 2 ^ 31"
  have "uint (of_nat n :: u64) = int (unat (of_nat n :: u64))" by simp
  also have "\<dots> = int n" using n by (subst unat_of_nat_small) simp_all
  finally show ?thesis
    using sint_of_nat_small [of n, where 'a = 32] n by (simp add: to_int_def)
qed

lemma file_write_disk:
  assumes h: "disk_handle fs w f n" and len: "unat (offset f) + length data \<le> 4096"
  shows "file_write fs w data (of_nat (length data)) = Some (int (length data), [], written_fs fs w f n data)"
proof -
  let ?blk = "blocks (fs_disk (sfs fs)) (port_block (base_lba n))"
  note h' = h [unfolded disk_handle_def fs_ok_def]
  have off: "\<not> 4096 < offset f" using len by (simp add: word_less_nat_alt)
  have u: "unat (of_nat (length data) :: u64) = length data" using len by simp
  have "unat (offset f + of_nat (length data)) = unat (offset f) + length data"
    using len u by (subst unat_add_nowrap) simp_all
  then have sz: "\<not> 4096 < offset f + of_nat (length data)" using len by (simp add: word_less_nat_alt)
  have ti: "to_int (uint (of_nat (length data) :: u64)) = int (length data)"
    using len by (intro to_int_of_nat) simp
  have rd: "read_disk_block (fs_disk (sfs fs)) (base_lba n) = Some ?blk"
    using h' by (simp add: read_disk_block_def)
  let ?d1 = "(fs_disk (sfs fs))\<lparr>blocks := (blocks (fs_disk (sfs fs)))
      (port_block (base_lba n) := put_at ?blk (unat (offset f)) data)\<rparr>"
  have w1: "write_disk_block (fs_disk (sfs fs)) (base_lba n) (put_at ?blk (unat (offset f)) data) = Some ?d1"
    using h' len by (simp add: write_disk_block_def)
  have l: "length (blocks (fs_disk (sfs fs)) 1) = 4096" using h' by (simp add: list_ok_def)
  have rd1: "read_disk_block ?d1 1 = Some (blocks (fs_disk (sfs fs)) 1)"
    using h' by (simp add: read_disk_block_def)
  have w2: "write_disk_block ?d1 1 (put64 (blocks (fs_disk (sfs fs)) 1) (128 * file_list_lba_i n + 112) a) =
      Some (?d1\<lparr>blocks := (blocks ?d1)(1 := put64 (blocks (fs_disk (sfs fs)) 1) (128 * file_list_lba_i n + 112) a)\<rparr>)" for a
    using h' l by (simp add: write_disk_block_def)
  show ?thesis
    using h' len u off sz ti rd w1 rd1 w2
    by (simp add: file_write_def written_fs_def grown_inode_def new_attr_def Let_def)
qed

lemma written_fs_handle:
  assumes h: "disk_handle fs w f n" and len: "unat (offset f) + length data \<le> 4096"
  shows "disk_handle (written_fs fs w f n data) w f (grown_inode n (of_nat (length data) + offset f))"
proof -
  let ?n = "grown_inode n (of_nat (length data) + offset f)"
  let ?b = "blocks (fs_disk (sfs fs)) 1"
  have n: "base_lba ?n = base_lba n" "layer ?n = layer n" "file_list_lba ?n = file_list_lba n"
    "file_list_lba_i ?n = file_list_lba_i n" by (simp_all add: grown_inode_def)
  have "list_ok (put64 ?b (128 * file_list_lba_i n + 112) (new_attr (list_attr ?b (file_list_lba_i n)) (inode_size ?n)))"
    using h by (intro list_update_attr(1)) (simp_all add: disk_handle_def fs_ok_def new_attr_fields)
  then show ?thesis
    using h len n by (simp add: disk_handle_def written_fs_def Let_def fs_ok_def)
qed

text \<open>
  A disk write does not move the handle: of two writes in a row through one handle the
  second lands on the place of the first, so that appending in pieces overwrites.
\<close>

theorem file_write_disk_overwrites:
  assumes "disk_handle fs w f n"
    and "unat (offset f) + length xs \<le> 4096" "unat (offset f) + length ys \<le> 4096"
  shows "\<exists>fs1 fs2. file_write fs w xs (of_nat (length xs)) = Some (int (length xs), [], fs1) \<and>
     file_write fs1 w ys (of_nat (length ys)) = Some (int (length ys), [], fs2) \<and>
     blocks (fs_disk (sfs fs2)) (port_block (base_lba n)) =
       put_at (put_at (blocks (fs_disk (sfs fs)) (port_block (base_lba n))) (unat (offset f)) xs)
         (unat (offset f)) ys"
proof -
  let ?fs1 = "written_fs fs w f n xs" and ?n = "grown_inode n (of_nat (length xs) + offset f)"
  have w2: "file_write ?fs1 w ys (of_nat (length ys)) = Some (int (length ys), [], written_fs ?fs1 w f ?n ys)"
    by (rule file_write_disk [OF written_fs_handle [OF assms(1,2)] assms(3)])
  have "base_lba ?n = base_lba n" by (simp add: grown_inode_def)
  then have "blocks (fs_disk (sfs (written_fs ?fs1 w f ?n ys))) (port_block (base_lba n)) =
       put_at (put_at (blocks (fs_disk (sfs fs)) (port_block (base_lba n))) (unat (offset f)) xs)
         (unat (offset f)) ys"
    using assms(1) by (simp add: written_fs_def Let_def disk_handle_def)
  with file_write_disk [OF assms(1,2)] w2 show ?thesis by blast
qed

text \<open>
  Reading past the end of an archive file moves the handle back: every read that fails
  because nothing is left decreases the offset by one, so the read after it returns the last
  byte of the file once more.
\<close>

theorem file_read_tarfs_eof:
  assumes "tar_at (tarfs_image (tar fs)) 0 es" "files fs r = Some f" "io_type f = 3"
    and "is_cstr (path_str f) (47 # p)" "map_of es p = Some (content @ [c])"
    and "offset f = of_nat (Suc (length content))" "Suc (length content) < 2 ^ 31"
  shows "\<exists>fs1 fs2. file_read fs r 1 = Some (- 1, [], fs1) \<and> file_read fs1 r 1 = Some (1, [c], fs2)"
proof -
  have o1: "sint (of_nat (Suc (length content)) :: u64) = int (Suc (length content))"
    using assms(7) by (intro sint_of_nat_small) simp
  have o0: "sint (of_nat (length content) :: u64) = int (length content)"
    using assms(7) by (intro sint_of_nat_small) simp
  have "tarfs_read (tar fs) (path_str f) 1 (int (Suc (length content))) = Some (- 1, [])"
    "tarfs_read (tar fs) (path_str f) 1 (int (length content)) = Some (1, [c])"
    using tarfs_read_content [OF assms(1,4), of 1 "Suc (length content)"]
      tarfs_read_content [OF assms(1,4), of 1 "length content"] assms(5) by (simp_all del: of_nat_Suc)
  moreover have "to_int (- 1) = - 1" "to_int 1 = 1" by (simp_all add: to_int_def)
  moreover have "(of_nat (Suc (length content)) :: u64) + word_of_int (- 1) = of_nat (length content)" by simp
  ultimately show ?thesis
    using assms(2,3,6) o0 o1 by (simp add: file_read_def del: of_nat_Suc)
qed

lemma written_fs_list:
  assumes h: "disk_handle fs w f n"
  shows "dir_find (sfs (written_fs fs w f n data)) q = dir_find (sfs fs) q"
    "inode_of (sfs (written_fs fs w f n data)) (file_list_lba_i n) =
       (inode_of (sfs fs) (file_list_lba_i n))\<lparr>inode_size :=
          inode_size (grown_inode n (of_nat (length data) + offset f)) AND 0xFFFFFFFF\<rparr>"
proof -
  let ?b = "blocks (fs_disk (sfs fs)) 1" and ?i = "file_list_lba_i n"
  let ?a = "new_attr (list_attr ?b ?i) (inode_size (grown_inode n (of_nat (length data) + offset f)))"
  have ok: "list_ok ?b" and i: "?i < 31" using h by (simp_all add: disk_handle_def fs_ok_def)
  have u: "in_use ?a = in_use (list_attr ?b ?i)" by (rule new_attr_fields)
  note up = list_update_attr [OF ok i u]
  have b': "blocks (fs_disk (sfs (written_fs fs w f n data))) 1 = put64 ?b (128 * ?i + 112) ?a"
    by (simp add: written_fs_def Let_def)
  have attr: "in_use (list_attr (put64 ?b (128 * ?i + 112) ?a) k) = in_use (list_attr ?b k)" if "k < 31" for k
    using up(3) [OF that] u by auto
  show "dir_find (sfs (written_fs fs w f n data)) q = dir_find (sfs fs) q"
    unfolding dir_find_def b' using up(5) attr by (intro find_cong) auto
  show "inode_of (sfs (written_fs fs w f n data)) ?i =
       (inode_of (sfs fs) ?i)\<lparr>inode_size :=
          inode_size (grown_inode n (of_nat (length data) + offset f)) AND 0xFFFFFFFF\<rparr>"
    unfolding inode_of_def b' using up(3,4) [OF i] by (simp add: new_attr_fields)
qed

lemma and_small: "unat (x :: u64) < 2 ^ 32 \<Longrightarrow> x AND 0xFFFFFFFF = x"
proof -
  assume "unat x < 2 ^ 32"
  then have "unat (take_bit 32 x) = unat x" by (simp add: unsigned_take_bit_eq take_bit_nat_eq_self)
  then have "take_bit 32 x = x" by (simp only: word_unat_eq_iff)
  then show ?thesis by (simp add: low_mask take_bit_eq_mask)
qed

lemma math_min_same: "a \<noteq> - 1 \<Longrightarrow> math_min a [a, - 1] = Some a"
  by (simp add: math_min_def)

text \<open>
  C11. What is written to a file is read back: opening an empty file of the disk for writing,
  writing up to 4096 bytes, opening it again for reading and reading as many bytes succeeds at
  every step and returns exactly the bytes written.
\<close>

theorem disk_file_roundtrip:
  assumes ok: "fs_ok (sfs fs)" and tr: "tarfs_find_offset (tar fs) path = Some 0"
    and p: "is_cstr path p" "length p < 2 ^ 32"
    and i: "dir_find (sfs fs) p = Some i" "inode_size (inode_of (sfs fs) i) = 0"
    and blk: "port_block (base_lba (inode_of (sfs fs) i)) \<noteq> 1"
      "length (blocks (fs_disk (sfs fs)) (port_block (base_lba (inode_of (sfs fs) i)))) = 4096"
    and su: "file_supply fs = a # b # c # d # rest" "a \<noteq> 0" "c \<noteq> 0"
    and data: "data \<noteq> []" "length data \<le> 4096"
  shows "\<exists>fs1 fs2 fs3 fs4. file_open_write fs path = Some (b, fs1) \<and>
     file_write fs1 b data (of_nat (length data)) = Some (int (length data), [], fs2) \<and>
     file_open_read fs2 path = Some (d, fs3) \<and>
     file_read fs3 d (of_nat (length data)) = Some (int (length data), data, fs4)"
proof -
  let ?n = "inode_of (sfs fs) i"
  define f where "f = (new_entry 6 (take (length p) path))\<lparr>out_to := a, offset := 0\<rparr>"
  define fs1 where "fs1 = put_file b f (put_inode a ?n (fs\<lparr>file_supply := c # d # rest\<rparr>))"
  have sl: "strlen path = Some (of_nat (length p))" by (rule strlen_cstr [OF p(1)])
  have ul: "unat (of_nat (length p) :: u32) = length p"
    using p(2) by (simp add: unat_of_nat take_bit_nat_eq_self)
  have o: "file_open_write fs path = Some (b, fs1)"
    using search_file_spec [OF ok p(1)] i tr su sl ul
    by (simp add: file_open_write_def search_alloc_def next_addr_def fs1_def f_def put_inode_def put_file_def)
  have i31: "i < 31" using i(1) by (auto simp: dir_find_def find_Some_iff)
  have h: "disk_handle fs1 b f ?n"
    using ok blk i31 by (simp add: disk_handle_def fs1_def f_def new_entry_def inode_of_def)
  have off: "offset f = 0" by (simp add: f_def)
  let ?fs2 = "written_fs fs1 b f ?n data"
  have w: "file_write fs1 b data (of_nat (length data)) = Some (int (length data), [], ?fs2)"
    by (rule file_write_disk [OF h]) (use off data(2) in simp)
  have u: "unat (of_nat (length data) :: u64) = length data" using data(2) by simp
  have nz: "(of_nat (length data) :: u64) \<noteq> 0" using u data(1) by (metis length_0_conv unat_0)
  have m1: "(of_nat (length data) :: u64) \<noteq> - 1"
    using u data(2) by (auto simp: word_unat_eq_iff unsigned_minus_1_eq_mask mask_eq_exp_minus_1)
  have gs: "inode_size (grown_inode ?n (of_nat (length data) + offset f)) AND 0xFFFFFFFF = of_nat (length data)"
    using i(2) nz u data(2) off by (simp add: grown_inode_def and_small word_gt_0)
  let ?m = "?n\<lparr>inode_size := of_nat (length data)\<rparr>"
  have fi: "file_list_lba_i ?n = i" by (simp add: inode_of_def)
  have s1: "sfs fs1 = sfs fs" by (simp add: fs1_def)
  have ok2: "fs_ok (sfs ?fs2)" using written_fs_handle [OF h, of data] off data(2) by (simp add: disk_handle_def)
  have srch: "search_file_in_disk (sfs ?fs2) path = Some (Some ?m)"
    using search_file_spec [OF ok2 p(1)] written_fs_list [OF h, of data] i(1) gs fi s1 by simp
  have fs2: "file_supply ?fs2 = c # d # rest" "tar ?fs2 = tar fs"
    by (simp_all add: written_fs_def fs1_def Let_def)
  define g where "g = (new_entry 5 (take (length p) path))\<lparr>in_from := c\<rparr>"
  let ?fs3 = "put_file d g (put_inode c ?m (?fs2\<lparr>file_supply := rest\<rparr>))"
  have r: "file_open_read ?fs2 path = Some (d, ?fs3)"
    using srch tr su sl ul fs2
    by (simp add: file_open_read_def search_alloc_def next_addr_def g_def put_inode_def put_file_def)
  have ti: "to_int (uint (of_nat (length data) :: u64)) = int (length data)"
    using data(2) by (intro to_int_of_nat) simp
  let ?blk = "put_at (blocks (fs_disk (sfs fs)) (port_block (base_lba ?n))) 0 data"
  have rd: "read_disk_block (fs_disk (sfs ?fs3)) (base_lba ?m) = Some ?blk"
    using ok2 blk(1) off s1 by (simp add: read_disk_block_def fs_ok_def written_fs_def Let_def)
  have "length ?blk = 4096" "get_at ?blk 0 (length data) = data"
    using blk(2) data(2) by (simp_all add: get_put_same)
  then have "file_read ?fs3 d (of_nat (length data)) =
      Some (int (length data), data, put_file d (g\<lparr>offset := of_nat (length data)\<rparr>) ?fs3)"
    using rd u ti nz data(2) math_min_same [OF m1]
    by (simp add: file_read_def g_def new_entry_def empty_entry_def inode_of_def)
  with o w r show ?thesis by blast
qed

section \<open>Examples\<close>

definition example_fs :: filesys where
  "example_fs = \<lparr>files = Map.empty, inodes = Map.empty,
     sfs = snd (the (create_file_in_disk blank_fs [47, 97, 0])),
     tar = archive_example, file_supply = [16, 32, 48, 64]\<rparr>"

lemma example_fs_facts:
  "fs_ok (sfs example_fs)" "dir_find (sfs example_fs) [47, 97] = Some 0"
  "inode_of (sfs example_fs) 0 = \<lparr>base_lba = 2, layer = 0, inode_size = 0, file_list_lba = 1, file_list_lba_i = 0\<rparr>"
  "blocks (fs_disk (sfs example_fs)) 2 = replicate 4096 0" "port_block 2 = 2"
  "tarfs_find_offset (tar example_fs) [47, 97, 0] = Some 0"
proof -
  have cs: "is_cstr [47, 97, 0] [47, 97 :: u8]" and len: "length [47, 97 :: u8] < 112" by simp_all
  obtain s' where s': "create_file_in_disk blank_fs [47, 97, 0] = Some (True, s')" "fs_ok s'"
    "\<And>k. k < 31 \<Longrightarrow> slot (blocks (fs_disk s') 1) k =
       (if k = 0 then new_slot [47, 97] (disk_block_free blank_fs) else slot (blocks (fs_disk blank_fs) 1) k)"
    "\<And>a. a \<noteq> 0 \<Longrightarrow> a \<noteq> 1 \<Longrightarrow> blocks (fs_disk s') a = blocks (fs_disk blank_fs) a"
    by (rule create_file_effect [OF blank_fs_facts(1) cs len blank_fs_facts(3)]) blast
  have e: "sfs example_fs = s'" by (simp add: example_fs_def s'(1))
  show "fs_ok (sfs example_fs)" "blocks (fs_disk (sfs example_fs)) 2 = replicate 4096 0" "port_block 2 = 2"
    using s'(2,4) by (simp_all add: e blank_fs_def port_block_def)
  have l: "length (blocks (fs_disk s') 1) = 4096" using s'(2) by (simp add: fs_ok_def list_ok_def)
  have f: "list_attr (blocks (fs_disk s') 1) 0 = 0x8000000000000000" "list_lba (blocks (fs_disk s') 1) 0 = 2"
    "cstr (slot (blocks (fs_disk s') 1) 0) = [47, 97]"
    using s'(3) [of 0] new_slot_fields [of "[47, 97]"]
    by (simp_all add: list_fields_slot [OF l] blank_fs_def)
  then show "dir_find (sfs example_fs) [47, 97] = Some 0"
    by (simp add: e dir_find_def upt_conv_Cons in_use_def)
  show "inode_of (sfs example_fs) 0 = \<lparr>base_lba = 2, layer = 0, inode_size = 0, file_list_lba = 1, file_list_lba_i = 0\<rparr>"
    by (simp add: e inode_of_def f)
  have "tar_search (tarfs_image archive_example) (drop 1 [47, 97, 0]) (int 0) = Some None"
    by (subst tar_search_lookup [OF archive_example_at, of _ "[97]"]) (simp_all add: archive_files_def)
  then show "tarfs_find_offset (tar example_fs) [47, 97, 0] = Some 0"
    by (simp add: tarfs_find_offset_def example_fs_def)
qed

theorem disk_file_roundtrip_witness:
  "\<exists>fs1 fs2 fs3 fs4. file_open_write example_fs [47, 97, 0] = Some (32, fs1) \<and>
     file_write fs1 32 [5, 6, 7] (of_nat (length [5, 6, 7 :: u8])) = Some (int (length [5, 6, 7 :: u8]), [], fs2) \<and>
     file_open_read fs2 [47, 97, 0] = Some (64, fs3) \<and>
     file_read fs3 64 (of_nat (length [5, 6, 7 :: u8])) = Some (int (length [5, 6, 7 :: u8]), [5, 6, 7], fs4)"
  by (rule disk_file_roundtrip [OF example_fs_facts(1,6) _ _ example_fs_facts(2), where a = 16 and c = 48 and rest = "[]"])
    (simp_all add: example_fs_facts, simp_all add: example_fs_def)

definition pipe_example :: filesys where
  "pipe_example = example_fs\<lparr>files := [16 \<mapsto> (new_entry 1 [])\<lparr>out_to := 32\<rparr>,
     32 \<mapsto> (new_entry 2 [])\<lparr>in_from := 16, first_waiters := [100, 200]\<rparr>]\<rparr>"

theorem pipe_end_to_end_witness:
  "\<exists>fs1 fs2 fs3. generate_entry_pair example_fs = Some (32, 16, fs1) \<and>
     file_write fs1 16 [5, 6, 7] (of_nat (length [5, 6, 7 :: u8])) = Some (int (length [5, 6, 7 :: u8]), [], fs2) \<and>
     file_read fs2 32 (of_nat (length [5, 6, 7 :: u8])) = Some (int (length [5, 6, 7 :: u8]), [5, 6, 7], fs3)"
  by (rule pipe_end_to_end) (simp_all add: example_fs_def)

lemma pipe_example_ends:
  defines "w \<equiv> (new_entry 1 [])\<lparr>out_to := 32\<rparr>"
    and "r \<equiv> (new_entry 2 [])\<lparr>in_from := 16, first_waiters := [100, 200]\<rparr>"
  shows "files pipe_example 16 = Some w" "io_type w = 1" "out_to w \<noteq> 0" "files pipe_example (out_to w) = Some r"
    "ring_wf r" "ring_contents r = []" "out_to w = 32" "first_waiters r = [100, 200]"
  by (simp_all add: w_def r_def pipe_example_def new_entry_def empty_entry_def ring_defs ring_contents_def)

theorem file_write_wakes_readers_witness:
  "\<exists>fs' r'. file_write pipe_example 16 [5, 6] (of_nat (length [5, 6 :: u8])) = Some (int (length [5, 6 :: u8]), [100, 200], fs') \<and>
     files fs' 32 = Some r' \<and> first_waiters r' = [] \<and> ring_contents r' = [5, 6]"
  using file_write_wakes_readers [OF pipe_example_ends(1-5), of "[5, 6]"]
  unfolding pipe_example_ends(6,7,8) by simp

theorem file_write_full_wakes_nobody_witness:
  "\<exists>fs' r'. file_write pipe_example 16 (replicate 3000 1) (of_nat (length (replicate 3000 (1 :: u8)))) = Some (2047, [], fs') \<and>
     files fs' 32 = Some r' \<and> first_waiters r' = [100, 200] \<and> length (ring_contents r') = 2047"
  using file_write_full_wakes_nobody [OF pipe_example_ends(1-5), of "replicate 3000 1"]
  unfolding pipe_example_ends(6,7,8) by simp

definition handle_example :: filesys where
  "handle_example = example_fs\<lparr>files := [32 \<mapsto> (new_entry 6 [])\<lparr>out_to := 16\<rparr>,
     64 \<mapsto> (new_entry 3 [47, 97, 47, 98, 0])\<lparr>offset := 3\<rparr>], inodes := [16 \<mapsto> inode_of (sfs example_fs) 0]\<rparr>"

theorem file_write_disk_overwrites_witness:
  "\<exists>fs1 fs2. file_write handle_example 32 [1, 2, 3] (of_nat (length [1, 2, 3 :: u8])) = Some (int (length [1, 2, 3 :: u8]), [], fs1) \<and>
     file_write fs1 32 [9] (of_nat (length [9 :: u8])) = Some (int (length [9 :: u8]), [], fs2) \<and>
     blocks (fs_disk (sfs fs2)) (port_block 2) = put_at (put_at (blocks (fs_disk (sfs handle_example)) (port_block 2)) 0 [1, 2, 3]) 0 [9]"
proof -
  have h: "disk_handle handle_example 32 ((new_entry 6 [])\<lparr>out_to := 16\<rparr>) (inode_of (sfs example_fs) 0)"
    using example_fs_facts by (simp add: disk_handle_def handle_example_def new_entry_def)
  show ?thesis
    using file_write_disk_overwrites [OF h, of "[1, 2, 3]" "[9]"]
    by (simp add: example_fs_facts(3) new_entry_def empty_entry_def)
qed

theorem file_read_tarfs_eof_witness:
  "\<exists>fs1 fs2. file_read handle_example 64 1 = Some (- 1, [], fs1) \<and> file_read fs1 64 1 = Some (1, [9], fs2)"
  by (rule file_read_tarfs_eof [where es = archive_files and p = "[97, 47, 98]" and content = "[7, 8]"
        and f = "(new_entry 3 [47, 97, 47, 98, 0])\<lparr>offset := 3\<rparr>"])
    (use archive_example_at in \<open>simp_all add: handle_example_def example_fs_def new_entry_def archive_files_def\<close>)

end
