(* ===== verification/Kprintf.thy ===== *)
theory Kprintf
  imports Misc
begin

text \<open>
  Formatted output, \<^verbatim>\<open>sys/kprintf.c\<close>: the number printers, the format interpreter, the bounded
  buffer of \<open>kprintfa\<close> and the text screen.  The printers take a print function; what they call
  it with, in order, is a list of bytes.
\<close>

section \<open>Number printers\<close>

text \<open>\<open>print_num\<close>: digits are collected from the last one on and printed in reverse.\<close>

function dec_digits :: "u32 \<Rightarrow> bytes" where
  "dec_digits n = ucast (48 + n mod 10) # (if n div 10 = 0 then [] else dec_digits (n div 10))"
  by pat_completeness auto
termination
proof (relation "measure unat")
  fix n :: u32 assume "n div 10 \<noteq> 0"
  then have "unat n div 10 \<noteq> 0" by (auto simp: word_unat_eq_iff unat_div)
  then show "(n div 10, n) \<in> measure unat" by (simp add: unat_div)
qed simp

declare dec_digits.simps [simp del]

definition print_num :: "u32 \<Rightarrow> bytes" where
  "print_num input =
     (let is_negative = sint input < 0; n = (if is_negative then NOT input + 1 else input)
      in (if is_negative then [45] else []) @ rev (dec_digits n))"

text \<open>\<open>print_string\<close> prints up to the terminator.\<close>

definition print_string :: "bytes \<Rightarrow> bytes option" where
  "print_string input = (if 0 \<in> set input then Some (cstr input) else None)"

text \<open>
  \<open>print_pointer\<close> and \<open>print_hex\<close>: sixteen digits from the top one on in a zero-filled buffer,
  then leading zeros are skipped; when nothing is left, two zeros are printed.
\<close>

definition hex_char :: "u64 \<Rightarrow> nat \<Rightarrow> u8" where
  "hex_char input shift_index =
     (let v = drop_bit 60 (push_bit (4 * shift_index) input)
      in ucast (if v < 10 then v + 48 else v - 10 + 65))"

definition hex_buffer :: "u64 \<Rightarrow> bytes" where
  "hex_buffer input = map (hex_char input) [0..<16] @ replicate 4 0"

definition print_hex :: "u64 \<Rightarrow> bytes" where
  "print_hex input =
     (let index = length (takeWhile (\<lambda>c. c = 48) (hex_buffer input))
      in [48, 120] @ (if hex_buffer input ! index = 0 then [48, 48]
                      else drop index (take 16 (hex_buffer input))))"

definition print_pointer :: "u64 \<Rightarrow> bytes" where
  "print_pointer input =
     (let index = length (takeWhile (\<lambda>c. c = 48) (hex_buffer input))
      in [48, 120] @ (if hex_buffer input ! index = 0 then [48, 48]
                      else drop index (take 16 (hex_buffer input))))"

section \<open>Formats\<close>

text \<open>
  The arguments as \<open>va_arg\<close> reads them.  The interpreter returns what it prints and whether it
  came to the end of the format; an unknown modifier makes it return at once, and an argument
  that is missing or of another kind is undefined.
\<close>

datatype va = VInt u32 | VLong u64 | VStr bytes

text \<open>The five modifiers: \<open>c\<close> and \<open>d\<close> read an \<open>int\<close>, \<open>x\<close> and \<open>p\<close> a 64-bit value, \<open>s\<close> a string.\<close>

fun convert :: "u8 \<Rightarrow> va list \<Rightarrow> (bytes \<times> va list) option" where
  "convert m (VInt i # ap) =
     (if m = 99 then Some ([ucast i], ap) else if m = 100 then Some (print_num i, ap) else None)"
| "convert m (VLong l # ap) =
     (if m = 120 then Some (print_hex l, ap) else if m = 112 then Some (print_pointer l, ap) else None)"
| "convert m (VStr s # ap) = (if m = 115 then map_option (\<lambda>t. (t, ap)) (print_string s) else None)"
| "convert m [] = None"

definition is_modifier :: "u8 \<Rightarrow> bool" where
  "is_modifier m \<longleftrightarrow> m = 99 \<or> m = 100 \<or> m = 120 \<or> m = 115 \<or> m = 112"

fun format_bytes :: "bytes \<Rightarrow> va list \<Rightarrow> (bytes \<times> bool) option" where
  "format_bytes [] ap = None"
| "format_bytes [c] ap = (if c = 0 then Some ([], True) else None)"
| "format_bytes (c # m # fmt) ap =
     (if c = 0 then Some ([], True)
      else if c = 37 then
        (if is_modifier m then
           do { (t, ap') \<leftarrow> convert m ap; (bs, e) \<leftarrow> format_bytes fmt ap'; Some (t @ bs, e) }
         else Some ([], False))
      else do { (bs, e) \<leftarrow> format_bytes (m # fmt) ap; Some (c # bs, e) })"

text \<open>\<open>kprintfa\<close>: the index and the buffer; only a terminator is stored at the limit.\<close>

definition kprintfa_print :: "nat \<Rightarrow> u8 \<Rightarrow> (nat \<times> bytes) \<Rightarrow> (nat \<times> bytes) option" where
  "kprintfa_print limit c st =
     (case st of (index, dest) \<Rightarrow>
        if int index \<ge> int limit - 1 \<and> c \<noteq> 0 then Some (index, dest)
        else if index < length dest then Some (index + 1, dest[index := c]) else None)"

fun kprintfa_all :: "nat \<Rightarrow> bytes \<Rightarrow> (nat \<times> bytes) \<Rightarrow> (nat \<times> bytes) option" where
  "kprintfa_all limit [] st = Some st"
| "kprintfa_all limit (c # cs) st = do { st' \<leftarrow> kprintfa_print limit c st; kprintfa_all limit cs st' }"

definition kprintfa :: "bytes \<Rightarrow> nat \<Rightarrow> bytes \<Rightarrow> va list \<Rightarrow> bytes option" where
  "kprintfa dest sz format ap =
     do {
       (bs, ended) \<leftarrow> format_bytes format ap;
       (index, dest') \<leftarrow> kprintfa_all sz (if ended then bs @ [0] else bs) (0, dest);
       Some dest'
     }"

section \<open>The screen\<close>

text \<open>
  Character and attribute bytes of 24 lines of 80 columns, and one more line that shows the
  terminal's input.  \<open>None\<close> is an access outside of it.
\<close>

record screen =
  vmem :: bytes
  cursor :: int
  topright_length :: nat
  scr_color :: u8

definition poke :: "int \<Rightarrow> u8 \<Rightarrow> bytes \<Rightarrow> bytes option" where
  "poke i v m = (if 0 \<le> i \<and> nat i < length m then Some (m[nat i := v]) else None)"

definition peek :: "int \<Rightarrow> bytes \<Rightarrow> u8 option" where
  "peek i m = (if 0 \<le> i \<and> nat i < length m then Some (m ! nat i) else None)"

definition copy_up :: "nat list \<Rightarrow> bytes \<Rightarrow> bytes" where
  "copy_up cs m = fold (\<lambda>c m. m[c - 160 := m ! c]) cs m"

definition scroll_lines_up :: "nat \<Rightarrow> bytes \<Rightarrow> bytes" where
  "scroll_lines_up tr m =
     fold (\<lambda>c m. m[c := 0]) [80 * 23 * 2..<80 * 24 * 2]
       (copy_up [80 * 2 * 2..<80 * 24 * 2] (copy_up [80 * 2..<80 * 2 * 2 - tr * 2] m))"

definition print_func :: "u8 \<Rightarrow> screen \<Rightarrow> screen option" where
  "print_func c s =
     do {
       a \<leftarrow> peek (cursor s * 2 + 1) (vmem s);
       m1 \<leftarrow> poke (cursor s * 2 + 1) (a AND 0xBF) (vmem s);
       (m2, cur) \<leftarrow> (if c = 10 then Some (m1, (cursor s div 80 + 1) * 80)
                     else do {
                       m \<leftarrow> poke (cursor s * 2) c m1;
                       m' \<leftarrow> poke (cursor s * 2 + 1) (scr_color s) m;
                       Some (m', cursor s + 1)
                     });
       let (m3, cur') = (if cur \<ge> 24 * 80 then (scroll_lines_up (topright_length s) m2, cur - 80) else (m2, cur));
       b \<leftarrow> peek (cur' * 2 + 1) m3;
       m4 \<leftarrow> poke (cur' * 2 + 1) (b OR 0x40) m3;
       Some (s\<lparr>vmem := m4, cursor := cur'\<rparr>)
     }"

fun print_all :: "bytes \<Rightarrow> screen \<Rightarrow> screen option" where
  "print_all [] s = Some s"
| "print_all (c # cs) s = do { s' \<leftarrow> print_func c s; print_all cs s' }"

definition kprintf :: "bytes \<Rightarrow> va list \<Rightarrow> screen \<Rightarrow> screen option" where
  "kprintf format ap s = do { (bs, _) \<leftarrow> format_bytes format ap; print_all bs s }"

definition clear_screen :: "screen \<Rightarrow> screen option" where
  "clear_screen s =
     do {
       let m = fold (\<lambda>c m. m[c := 0]) [0..<24 * 80 * 2] (vmem s);
       a \<leftarrow> peek 1 m;
       m' \<leftarrow> poke 1 (a OR 0x40) m;
       Some (s\<lparr>vmem := m', cursor := 0\<rparr>)
     }"

text \<open>\<open>print_topright\<close>: the old text is cleared where the new one is shorter.\<close>

fun poke_cells :: "int \<Rightarrow> (u8 \<times> u8) list \<Rightarrow> bytes \<Rightarrow> bytes option" where
  "poke_cells c [] m = Some m"
| "poke_cells c ((ch, co) # cells) m =
     do { m1 \<leftarrow> poke (c * 2) ch m; m2 \<leftarrow> poke (c * 2 + 1) co m1; poke_cells (c + 1) cells m2 }"

definition print_topright :: "bytes \<Rightarrow> u8 \<Rightarrow> screen \<Rightarrow> screen option" where
  "print_topright str col s =
     (if 0 \<notin> set str then None
      else
        let old = topright_length s; new = length (cstr str)
        in do {
             m1 \<leftarrow> (if old > new then poke_cells (80 - int old) (replicate (old - new) (0, 0)) (vmem s)
                    else Some (vmem s));
             m2 \<leftarrow> poke_cells (80 - int new) (map (\<lambda>ch. (ch, col)) (cstr str)) m1;
             Some (s\<lparr>vmem := m2, topright_length := new\<rparr>)
           })"

definition print_terminal_input_line :: "bytes \<Rightarrow> int \<Rightarrow> screen \<Rightarrow> screen option" where
  "print_terminal_input_line src len s =
     (if int (length src) < min 80 len \<or> length (vmem s) < 4000 then None
      else Some (s\<lparr>vmem := fold (\<lambda>i m. m[80 * 24 * 2 + i * 2 := (if int i < len then src ! i else 0)])
             [0..<80] (vmem s)\<rparr>))"


section \<open>What the number printers print\<close>

fun dec_value :: "bytes \<Rightarrow> nat" where
  "dec_value [] = 0"
| "dec_value (c # cs) = (unat c - 48) + 10 * dec_value cs"

lemma dec_digit: "unat (ucast (48 + n mod 10 :: u32) :: u8) = 48 + unat n mod 10"
proof -
  have "unat (48 + n mod 10) = 48 + unat n mod 10"
    by (subst unat_add_nowrap) (simp_all add: unat_mod)
  then show ?thesis by (simp add: unsigned_ucast_eq take_bit_nat_eq_self)
qed

lemma dec_digits_value:
  "dec_value (dec_digits n) = unat n \<and> (\<forall>c \<in> set (dec_digits n). 48 \<le> unat c \<and> unat c < 58) \<and>
   dec_digits n \<noteq> [] \<and> (last (dec_digits n) = 48 \<longrightarrow> n = 0)"
proof (induction n rule: dec_digits.induct)
  case (1 n)
  have z: "n div 10 = 0 \<longleftrightarrow> unat n div 10 = 0" by (simp add: word_unat_eq_iff unat_div)
  have d: "unat (n div 10) = unat n div 10" by (simp add: unat_div)
  show ?case
  proof (cases "n div 10 = 0")
    case True
    then have "unat n < 10" using z by simp
    then have "n \<noteq> 0 \<longrightarrow> (ucast (48 + n mod 10) :: u8) \<noteq> 48"
      using dec_digit [of n] by (auto simp: word_unat_eq_iff)
    moreover have "dec_digits n = [ucast (48 + n mod 10)]" using True by (subst dec_digits.simps) simp
    ultimately show ?thesis using \<open>unat n < 10\<close> dec_digit [of n] by auto
  next
    case False
    have "n \<noteq> 0" using False by auto
    moreover have "dec_digits n = ucast (48 + n mod 10) # dec_digits (n div 10)"
      using False by (subst dec_digits.simps) simp
    ultimately show ?thesis using 1 [OF False] False d dec_digit [of n] by simp
  qed
qed

lemma nibble: "s \<le> 15 \<Longrightarrow> unat (drop_bit 60 (push_bit (4 * s) w) :: u64) = unat w div 16 ^ (15 - s) mod 16"
proof -
  assume s: "s \<le> 15"
  then have "drop_bit 60 (push_bit (4 * s) w) = take_bit 4 (drop_bit (60 - 4 * s) w)"
    by (intro bit_word_eqI) (auto simp: bit_simps)
  moreover have "(2 :: nat) ^ (60 - 4 * s) = 16 ^ (15 - s)"
  proof -
    have "60 - 4 * s = 4 * (15 - s)" by simp
    then show ?thesis by (simp add: power_mult)
  qed
  moreover have "unat (take_bit 4 (drop_bit k w)) = unat w div 2 ^ k mod 16" for k
    unfolding unsigned_take_bit_eq unsigned_drop_bit_eq
    by (simp add: take_bit_nat_def drop_bit_nat_def)
  ultimately show ?thesis by simp
qed


text \<open>
  Decimal printing is exact for every \<open>int\<close>, the smallest one included: a minus sign
  exactly for negative numbers, then digits only, without a leading zero except for zero
  itself, whose value is the magnitude of the number.
\<close>

theorem print_num_value:
  "\<exists>ds. print_num input = (if sint input < 0 then [45] else []) @ ds \<and>
     (\<forall>c \<in> set ds. 48 \<le> unat c \<and> unat c < 58) \<and> ds \<noteq> [] \<and> (hd ds = 48 \<longrightarrow> input = 0) \<and>
     int (dec_value (rev ds)) = \<bar>sint input\<bar>"
proof -
  define n where "n = (if sint input < 0 then NOT input + 1 else input)"
  note d = dec_digits_value [of n]
  have neg: "NOT input + 1 = - input" by (simp add: not_eq_complement)
  have "int (unat n) = \<bar>sint input\<bar>"
  proof (cases "sint input < 0")
    case True
    then have s: "sint input = uint input - 2 ^ 32"
      using sint_u32_cases [of input] uint_ge_0 [of input] by (simp split: if_splits)
    have "uint input \<noteq> 0" using s True by (auto simp: uint_0_iff)
    moreover have "uint input < 2 ^ 32" using uint_bounded [of input] by simp
    ultimately have "uint (- input) = 2 ^ 32 - uint input"
      using uint_ge_0 [of input] by (simp add: uint_word_ariths zmod_zminus1_eq_if)
    then show ?thesis using True s by (simp add: n_def neg)
  next
    case False
    then have "sint input = uint input"
      using sint_u32_cases [of input] uint_bounded [of input] by (simp split: if_splits)
    then show ?thesis using False by (simp add: n_def)
  qed
  moreover have "n = 0 \<longleftrightarrow> input = 0" by (auto simp: n_def neg)
  ultimately show ?thesis
    using d by (intro exI [of _ "rev (dec_digits n)"]) (auto simp: print_num_def n_def Let_def hd_rev)
qed

theorem print_num_value_witness:
  "\<exists>ds. print_num 0x80000000 = (if sint (0x80000000 :: u32) < 0 then [45] else []) @ ds \<and>
     (\<forall>c \<in> set ds. 48 \<le> unat c \<and> unat c < 58) \<and> ds \<noteq> [] \<and> (hd ds = 48 \<longrightarrow> (0x80000000 :: u32) = 0) \<and>
     int (dec_value (rev ds)) = \<bar>sint (0x80000000 :: u32)\<bar>"
  by (rule print_num_value)

definition hex_digit :: "u8 \<Rightarrow> nat" where
  "hex_digit c = (if c < 58 then unat c - 48 else unat c - 55)"

definition hex_value :: "bytes \<Rightarrow> nat" where
  "hex_value cs = foldl (\<lambda>a c. a * 16 + hex_digit c) 0 cs"

lemma hex_char_digit:
  assumes "s \<le> 15"
  shows "hex_digit (hex_char w s) = unat w div 16 ^ (15 - s) mod 16"
    "hex_char w s = 48 \<longleftrightarrow> unat w div 16 ^ (15 - s) mod 16 = 0" "hex_char w s \<noteq> 0"
proof -
  define v :: u64 where "v = drop_bit 60 (push_bit (4 * s) w)"
  have v: "unat v = unat w div 16 ^ (15 - s) mod 16" unfolding v_def by (rule nibble [OF assms])
  have l: "unat v < 16" by (simp add: v)
  have c: "unat (hex_char w s) = (if unat v < 10 then unat v + 48 else unat v + 55)"
  proof (cases "v < 10")
    case True
    then have "unat (v + 48) = unat v + 48" by (subst unat_add_nowrap) (simp_all add: word_less_nat_alt)
    with True l show ?thesis
      by (simp add: hex_char_def v_def [symmetric] Let_def unsigned_ucast_eq take_bit_nat_eq_self word_less_nat_alt)
  next
    case False
    then have "10 \<le> v" by simp
    then have "unat (v - 10 + 65) = unat v + 55"
      using l by (subst unat_add_nowrap) (simp_all add: unat_sub word_le_nat_alt)
    with False l show ?thesis
      by (simp add: hex_char_def v_def [symmetric] Let_def unsigned_ucast_eq take_bit_nat_eq_self word_less_nat_alt)
  qed
  show "hex_digit (hex_char w s) = unat w div 16 ^ (15 - s) mod 16"
    using c l by (simp add: hex_digit_def word_less_nat_alt v)
  show "hex_char w s = 48 \<longleftrightarrow> unat w div 16 ^ (15 - s) mod 16 = 0" "hex_char w s \<noteq> 0"
    using c l v by (auto simp: word_unat_eq_iff split: if_splits)
qed

lemma hex_value_prefix:
  "k \<le> 16 \<Longrightarrow> hex_value (map (hex_char w) [0..<k]) = unat w div 16 ^ (16 - k)"
proof (induction k)
  case 0
  have "unat w < 16 ^ 16" using unsigned_less [of w] by simp
  then show ?case by (simp add: hex_value_def)
next
  case (Suc k)
  have e: "16 - k = Suc (15 - k)" "16 - Suc k = 15 - k" using Suc.prems by simp_all
  have q: "unat w div 16 ^ (16 - k) = unat w div 16 ^ (15 - k) div 16"
    by (simp only: e(1) power_Suc2 div_mult2_eq)
  have "hex_value (map (hex_char w) [0..<Suc k]) =
      hex_value (map (hex_char w) [0..<k]) * 16 + hex_digit (hex_char w k)"
    by (simp add: hex_value_def)
  also have "\<dots> = (unat w div 16 ^ (15 - k) div 16) * 16 + (unat w div 16 ^ (15 - k)) mod 16"
    using Suc hex_char_digit(1) [of k w] q by simp
  finally show ?case by (simp add: e(2))
qed

lemma hex_value_zeros: "hex_value (takeWhile (\<lambda>c. c = 48) cs @ ds) = hex_value ds"
proof -
  have "foldl (\<lambda>a c. a * 16 + hex_digit c) 0 (takeWhile (\<lambda>c. c = 48) cs) = 0"
    by (induction cs) (simp_all add: hex_digit_def)
  then show ?thesis by (simp add: hex_value_def)
qed

text \<open>
  Hexadecimal printing is exact: after \<open>0x\<close> come digits whose value is the number printed,
  without leading zeros, or \<open>00\<close> when it is zero; pointers are printed the same way.
\<close>

theorem print_hex_value:
  "\<exists>ds. print_hex input = [48, 120] @ ds \<and> print_pointer input = print_hex input \<and>
     hex_value ds = unat input \<and> (if input = 0 then ds = [48, 48] else ds \<noteq> [] \<and> hd ds \<noteq> 48)"
proof -
  let ?h = "map (hex_char input) [0..<16]" and ?z = "\<lambda>c :: u8. c = 48"
  have v: "hex_value ?h = unat input" using hex_value_prefix [of 16 input] by simp
  show ?thesis
  proof (cases "dropWhile ?z ?h")
    case Nil
    then have t: "takeWhile ?z ?h = ?h" by (metis append_Nil2 takeWhile_dropWhile_id)
    have "hex_value ?h = hex_value []" using hex_value_zeros [of ?h "[]"] unfolding t append_Nil2 .
    then have "input = 0" using v by (simp add: hex_value_def [of "[]"] unat_eq_0)
    moreover have "takeWhile ?z (hex_buffer input) = ?h"
      using t unfolding hex_buffer_def by (subst takeWhile_append2) (metis set_takeWhileD, simp)
    ultimately show ?thesis
      by (intro exI [of _ "[48, 48]"])
        (simp add: print_hex_def print_pointer_def hex_buffer_def nth_append hex_value_def hex_digit_def)
  next
    case (Cons d ds)
    define zs where "zs = takeWhile ?z ?h"
    have h: "?h = zs @ d # ds" using takeWhile_dropWhile_id [of ?z ?h] by (simp only: Cons zs_def)
    have d: "d \<noteq> 48" using hd_dropWhile [of ?z ?h] Cons by simp
    have d0: "d \<noteq> 0"
    proof -
      have "d \<in> set ?h" by (simp only: h) simp
      then show ?thesis using hex_char_digit(3) by auto
    qed
    have b: "hex_buffer input = zs @ d # ds @ replicate 4 0" by (simp only: hex_buffer_def h) simp
    have tw: "takeWhile ?z (hex_buffer input) = zs"
      unfolding b using d set_takeWhileD [of _ ?z ?h] by (auto simp: takeWhile_tail zs_def)
    have l: "length (zs @ d # ds) = 16" by (simp only: h [symmetric]) simp
    have x: "print_hex input = [48, 120] @ d # ds"
    proof -
      have "16 - length zs = Suc (length ds)" using l by simp
      then show ?thesis using d0 by (simp add: print_hex_def tw Let_def) (simp add: b)
    qed
    moreover have "hex_value (d # ds) = unat input"
      using v hex_value_zeros [of ?h "d # ds"] by (simp only: zs_def [symmetric] h [symmetric])
    moreover have "input \<noteq> 0"
    proof
      assume "input = 0"
      then have "hex_char input s = 48" if "s \<le> 15" for s using hex_char_digit(2) [OF that] by simp
      then have "\<forall>c \<in> set ?h. c = 48" by auto
      then show False unfolding h using d by simp
    qed
    ultimately show ?thesis using d by (intro exI [of _ "d # ds"]) (simp add: print_pointer_def print_hex_def)
  qed
qed

section \<open>The bounded buffer\<close>

text \<open>
  What \<open>kprintfa\<close> stores in general: bytes up to one before the limit, and beyond it only the
  zero bytes.
\<close>

fun clip :: "nat \<Rightarrow> bytes \<Rightarrow> bytes" where
  "clip n [] = []"
| "clip n (c # cs) = (if n = 0 \<and> c \<noteq> 0 then clip 0 cs else c # clip (n - 1) cs)"

lemma length_clip: "length (clip n bs) \<le> n + count_list bs 0"
proof (induction bs arbitrary: n)
  case (Cons c cs)
  show ?case using Cons [of "n - 1"] Cons [of 0] by auto
qed simp

lemma clip_plain: "0 \<notin> set bs \<Longrightarrow> clip n bs = take n bs"
  by (induction bs arbitrary: n) (auto simp: take_Cons')

lemma clip_append: "clip n (xs @ ys) = clip n xs @ clip (n - length (clip n xs)) ys"
  by (induction xs arbitrary: n) auto

lemma put_at_one: "i < length d \<Longrightarrow> put_at (d[i := c]) (i + 1) xs = put_at d i (c # xs)"
  by (simp add: put_at_def upd_conv_take_nth_drop take_Suc_conv_app_nth add.commute)

lemma kprintfa_all_clip:
  assumes "0 < limit" "i + length (clip (limit - 1 - i) bs) \<le> length dest"
  shows "kprintfa_all limit bs (i, dest) =
     Some (i + length (clip (limit - 1 - i) bs), put_at dest i (clip (limit - 1 - i) bs))"
  using assms(2)
proof (induction bs arbitrary: i dest)
  case (Cons c cs)
  show ?case
  proof (cases "limit - 1 - i = 0 \<and> c \<noteq> 0")
    case True
    then have "int limit - 1 \<le> int i" using assms(1) by linarith
    then have p: "kprintfa_print limit c (i, dest) = Some (i, dest)" using True by (simp add: kprintfa_print_def)
    show ?thesis using Cons.IH [of i dest] Cons.prems True p by simp
  next
    case False
    then have "\<not> (int limit - 1 \<le> int i \<and> c \<noteq> 0)" using assms(1) by linarith
    moreover have i: "i < length dest" using Cons.prems False by auto
    ultimately have p: "kprintfa_print limit c (i, dest) = Some (i + 1, dest[i := c])" by (simp add: kprintfa_print_def)
    have "limit - 1 - i - 1 = limit - 1 - (i + 1)" by simp
    then show ?thesis using Cons.IH [of "i + 1" "dest[i := c]"] Cons.prems False p put_at_one [OF i, of c] by auto
  qed
qed (simp add: put_at_def)

text \<open>
  C28. \<open>kprintfa\<close> and its limit.  It stores some bytes \<open>w\<close> at the start of the buffer and leaves every
  other byte alone.  When the output has no zero byte, \<open>w\<close> is the output cut off one byte before the limit,
  and then the terminator; a format that the interpreter leaves at an unknown modifier gets no
  terminator.  Zero bytes in the output, which \<open>%c\<close> can print, are not held back at the limit: each of
  them may take one byte more, so the buffer must have room for them behind the limit.
\<close>

theorem kprintfa_bounded:
  assumes "format_bytes format ap = Some (bs, ended)" "0 < sz" "sz + count_list bs 0 \<le> length dest"
  shows "\<exists>w. kprintfa dest sz format ap = Some (put_at dest 0 w) \<and> length w \<le> sz + count_list bs 0 \<and>
     (0 \<notin> set bs \<longrightarrow> w = take (sz - 1) bs @ (if ended then [0] else []))"
proof -
  let ?bs = "bs @ (if ended then [0] else [])"
  let ?w = "clip (sz - 1) ?bs"
  have c: "count_list ?bs 0 \<le> Suc (count_list bs 0)" by simp
  have l: "length ?w \<le> sz + count_list bs 0" using length_clip [of "sz - 1" ?bs] c assms(2) by linarith
  have "(if ended then bs @ [0] else bs) = ?bs" by simp
  then have "kprintfa dest sz format ap = Some (put_at dest 0 ?w)"
    using kprintfa_all_clip [of sz 0 ?bs dest] l assms by (simp add: kprintfa_def)
  moreover have "?w = take (sz - 1) bs @ (if ended then [0] else [])" if "0 \<notin> set bs"
    using that by (auto simp: clip_append clip_plain)
  ultimately show ?thesis using l by blast
qed

theorem kprintfa_bounded_witness:
  "kprintfa (replicate 6 7) 4 [97, 37, 100, 0] [VInt 1234] = Some (put_at (replicate 6 7) 0 [97, 49, 50, 0])"
proof -
  have "dec_digits 1234 = [52, 51, 50, 49]" by (simp add: dec_digits.simps [of 1234] dec_digits.simps [of 123] dec_digits.simps [of 12] dec_digits.simps [of 1])
  then have "format_bytes [97, 37, 100, 0] [VInt 1234] = Some ([97, 49, 50, 51, 52], True)"
    by (simp add: print_num_def is_modifier_def)
  from kprintfa_bounded [OF this, of 4 "replicate 6 7"] show ?thesis by auto
qed

text \<open>
  A zero byte printed by \<open>%c\<close> after the limit is stored behind it: a buffer of two bytes that is
  given with its size is overrun.
\<close>

lemma kprintfa_zero_overruns: "kprintfa [7, 7] 2 [97, 37, 99, 37, 99, 0] [VInt 0, VInt 0] = None"
  by (simp add: kprintfa_def is_modifier_def kprintfa_print_def)

section \<open>The screen stays within its bounds\<close>

definition screen_ok :: "screen \<Rightarrow> bool" where
  "screen_ok s \<longleftrightarrow> length (vmem s) = 4000 \<and> 0 \<le> cursor s \<and> cursor s < 1920"

lemma length_fold_update [simp]: "length (fold (\<lambda>c m. m[f c := g c m]) cs m) = length m"
  by (induction cs arbitrary: m) auto

lemma fold_update_other:
  "\<forall>c \<in> set cs. f c \<noteq> k \<Longrightarrow> fold (\<lambda>c m. m[f c := g c m]) cs m ! k = m ! k"
  by (induction cs arbitrary: m) auto

lemma copy_up_other: "b \<le> 3840 \<Longrightarrow> 3840 \<le> k \<Longrightarrow> copy_up [a..<b] m ! k = m ! k"
  unfolding copy_up_def by (rule fold_update_other) auto

lemma length_copy_up [simp]: "length (copy_up cs m) = length m"
  by (simp add: copy_up_def)

lemma scroll_input_line:
  "length m = 4000 \<Longrightarrow> length (scroll_lines_up tr m) = 4000 \<and>
   (\<forall>k. 3840 \<le> k \<longrightarrow> k < 4000 \<longrightarrow> scroll_lines_up tr m ! k = m ! k)"
  by (auto simp: scroll_lines_up_def copy_up_other fold_update_other simp del: upt_rec_numeral)

lemma poke_Some: "0 \<le> i \<Longrightarrow> nat i < length m \<Longrightarrow> poke i v m = Some (m[nat i := v])"
  by (simp add: poke_def)

lemma peek_Some: "0 \<le> i \<Longrightarrow> nat i < length m \<Longrightarrow> peek i m = Some (m ! nat i)"
  by (simp add: peek_def)

text \<open>The bytes of the input line.\<close>

definition input_line :: "bytes \<Rightarrow> bytes" where
  "input_line m = drop 3840 m"

lemma input_line_update [simp]: "k < 3840 \<Longrightarrow> input_line (m[k := v]) = input_line m"
  by (simp add: input_line_def)

lemma input_line_scroll [simp]:
  "length m = 4000 \<Longrightarrow> input_line (scroll_lines_up tr m) = input_line m"
  unfolding input_line_def using scroll_input_line [of m tr] by (intro nth_equalityI) auto

lemma print_func_ok:
  assumes "screen_ok s"
  shows "\<exists>s'. print_func c s = Some s' \<and> screen_ok s' \<and> input_line (vmem s') = input_line (vmem s)"
proof -
  let ?a = "nat (cursor s * 2 + 1)"
  have c: "0 \<le> cursor s" "cursor s < 1920" "length (vmem s) = 4000" using assms by (auto simp: screen_ok_def)
  define m1 where "m1 = (vmem s)[?a := vmem s ! ?a AND 0xBF]"
  define m2 where "m2 = (if c = 10 then m1 else m1[nat (cursor s * 2) := c, ?a := scr_color s])"
  define cur where "cur = (if c = 10 then (cursor s div 80 + 1) * 80 else cursor s + 1)"
  define m3 where "m3 = (if cur \<ge> 1920 then scroll_lines_up (topright_length s) m2 else m2)"
  define cur' where "cur' = (if cur \<ge> 1920 then cur - 80 else cur)"
  have l2: "length m2 = 4000" "input_line m2 = input_line (vmem s)" using c by (simp_all add: m2_def m1_def nat_less_iff)
  then have l3: "length m3 = 4000" "input_line m3 = input_line (vmem s)"
    using scroll_input_line by (simp_all add: m3_def)
  have "cursor s div 80 < 24" using c by (simp add: div_less_iff_less_mult)
  then have cu: "0 \<le> cur'" "cur' < 1920" using c by (auto simp: cur'_def cur_def)
  have "print_func c s = Some (s\<lparr>vmem := m3[nat (cur' * 2 + 1) := m3 ! nat (cur' * 2 + 1) OR 0x40], cursor := cur'\<rparr>)"
  proof -
    have s1: "peek (cursor s * 2 + 1) (vmem s) = Some (vmem s ! ?a)"
      "poke (cursor s * 2 + 1) (vmem s ! ?a AND 0xBF) (vmem s) = Some m1"
      using c by (simp_all add: peek_Some poke_Some m1_def nat_less_iff)
    have s2: "(if c = 10 then Some (m1, (cursor s div 80 + 1) * 80)
        else do { m \<leftarrow> poke (cursor s * 2) c m1; m' \<leftarrow> poke (cursor s * 2 + 1) (scr_color s) m;
                  Some (m', cursor s + 1) }) = Some (m2, cur)"
      using c by (simp add: poke_Some m2_def cur_def m1_def nat_less_iff)
    have s3: "peek (cur' * 2 + 1) m3 = Some (m3 ! nat (cur' * 2 + 1))"
      "poke (cur' * 2 + 1) v m3 = Some (m3[nat (cur' * 2 + 1) := v])" for v
      using cu l3 by (simp_all add: peek_Some poke_Some nat_less_iff)
    show ?thesis
      unfolding print_func_def s1(1) Option.bind.simps(2) s1(2) s2 prod.case
      using s3 by (auto simp: m3_def cur'_def Let_def)
  qed
  moreover have "nat (cur' * 2 + 1) < 3840" using cu by (simp add: nat_less_iff)
  ultimately show ?thesis using l3 cu by (simp add: screen_ok_def)
qed

lemma print_all_ok:
  assumes "screen_ok s"
  shows "\<exists>s'. print_all bs s = Some s' \<and> screen_ok s' \<and> input_line (vmem s') = input_line (vmem s)"
  using assms
proof (induction bs arbitrary: s)
  case (Cons c cs)
  from print_func_ok [OF Cons.prems, of c] obtain s1 where
    "print_func c s = Some s1" "screen_ok s1" "input_line (vmem s1) = input_line (vmem s)" by blast
  with Cons.IH [of s1] show ?case by auto
qed simp

text \<open>
  Printing never leaves the text area: from a screen in order, any sequence of characters
  is printed without an access outside of the screen, the cursor ends inside the 24 lines, and
  the line below them, which shows the terminal's input, is not touched.
\<close>

theorem print_all_in_bounds:
  assumes "screen_ok s"
  shows "\<exists>s'. print_all bs s = Some s' \<and> screen_ok s' \<and> input_line (vmem s') = input_line (vmem s)"
  by (rule print_all_ok [OF assms])

theorem print_all_in_bounds_witness:
  "\<exists>s'. print_all [104, 105, 10] \<lparr>vmem = replicate 4000 0, cursor = 1919, topright_length = 0, scr_color = 15\<rparr> = Some s' \<and>
     screen_ok s' \<and> input_line (vmem s') = input_line (replicate 4000 0)"
  using print_all_in_bounds [of "\<lparr>vmem = replicate 4000 0, cursor = 1919, topright_length = 0, scr_color = 15\<rparr>" "[104, 105, 10]"]
  by (simp add: screen_ok_def del: print_all.simps)

lemma copy_up_nth:
  assumes "160 \<le> a" "b \<le> length m" "k < length m"
  shows "copy_up [a..<b] m ! k = (if a - 160 \<le> k \<and> k + 160 < b then m ! (k + 160) else m ! k)"
  using assms
proof (induction b)
  case (Suc b)
  show ?case
  proof (cases "a \<le> b")
    case True
    then have "copy_up [a..<Suc b] m = (copy_up [a..<b] m)[b - 160 := copy_up [a..<b] m ! b]"
      by (simp add: copy_up_def)
    moreover have "length (copy_up [a..<b] m) = length m" by (simp add: copy_up_def)
    moreover have "copy_up [a..<b] m ! b = m ! b"
      using Suc.prems True unfolding copy_up_def by (intro fold_update_other) auto
    ultimately show ?thesis using Suc True by (auto simp: nth_list_update)
  next
    case False
    then have "copy_up [a..<Suc b] m = m" by (simp add: copy_up_def)
    moreover have "\<not> (a - 160 \<le> k \<and> k + 160 < Suc b)" using False Suc.prems(1) by linarith
    ultimately show ?thesis by (simp only: if_False)
  qed
qed (simp add: copy_up_def)

text \<open>
  Scrolling moves every line but the first up by one place and clears the last; of the
  line that moves into the first place, the part under the text in the top right corner is
  left out, so that text stays where it is.
\<close>

theorem scroll_moves_lines:
  assumes "length m = 4000" "tr \<le> 80" "k < 3840"
  shows "scroll_lines_up tr m ! k =
     (if 3680 \<le> k then 0 else if 160 - tr * 2 \<le> k \<and> k < 160 then m ! k else m ! (k + 160))"
proof -
  note upt_rec_numeral [simp del]
  let ?m1 = "copy_up [160..<320 - tr * 2] m" and ?z = "\<lambda>m. fold (\<lambda>c m. m[c := 0]) [3680..<3840] m"
  let ?m2 = "copy_up [320..<3840] ?m1"
  have l: "length ?m1 = 4000" "length ?m2 = 4000" using assms(1) by (simp_all add: copy_up_def del: upt_rec_numeral)
  have z: "fold (\<lambda>c m. m[c := 0]) [a..<b] x ! j = (if a \<le> j \<and> j < b then 0 else x ! j)"
    if "b \<le> length x" "j < length x" for a b j and x :: bytes
    using that by (induction b) (auto simp: nth_list_update)
  have "scroll_lines_up tr m ! k = ?z ?m2 ! k" by (simp add: scroll_lines_up_def del: upt_rec_numeral)
  also have "\<dots> = (if 3680 \<le> k then 0 else ?m2 ! k)" using l assms(3) by (subst z) auto
  finally have s: "scroll_lines_up tr m ! k = (if 3680 \<le> k then 0 else ?m2 ! k)" .
  have m2: "?m2 ! k = (if 160 \<le> k \<and> k < 3680 then ?m1 ! (k + 160) else ?m1 ! k)"
    using l assms(3) by (subst copy_up_nth) auto
  have m1: "160 \<le> k \<Longrightarrow> k < 3680 \<Longrightarrow> ?m1 ! (k + 160) = m ! (k + 160)"
    "?m1 ! k = (if k < 160 - tr * 2 then m ! (k + 160) else m ! k)"
    using assms by (subst copy_up_nth; auto)+
  show ?thesis using s m2 m1 by auto
qed

theorem scroll_moves_lines_witness:
  "scroll_lines_up 3 (replicate 4000 5) ! 200 = replicate 4000 5 ! 360"
  using scroll_moves_lines [of "replicate 4000 5" 3 200] by simp

end
