(* ===== verification/Ahci.thy ===== *)
theory Ahci
  imports Misc
begin

text \<open>
  The SATA ports of \<^verbatim>\<open>sys/ahci.c\<close>: choosing a command slot, building the command, waiting for
  the port and starting the command, and the test for its completion.  A port's registers are
  fields of a record.  What the device answers is not in the code: the coming values of the
  task file register, and of the issue and status registers while a routine polls them, are
  lists of readings, and a routine that would read past the end of its list has no result.
  Writing ones to the interrupt status register clears it and writing a bit to the issue
  register sets it, as the controller defines.
\<close>

section \<open>Ports and commands\<close>

text \<open>The header and table of one slot: \<open>hba_cmd_header_t\<close>, its first region, \<open>fis_reg_h2d_t\<close>.\<close>

record command =
  cfl :: nat
  cmd_w :: bool
  cmd_c :: bool
  prdtl :: nat
  dba :: u64
  dbc :: u32
  prdt_i :: bool
  fis_type :: u8
  fis_c :: bool
  fis_command :: u8
  lba0 :: u8
  lba1 :: u8
  lba2 :: u8
  lba3 :: u8
  lba4 :: u8
  lba5 :: u8
  fis_device :: u8
  fis_count :: u16

record hba_port =
  sact :: u32
  ci :: u32
  is_rwc :: u32
  cmds :: "command list"
  tfd_reads :: "u32 list"
  poll_reads :: "(u32 \<times> u32) list"

record disk_entry =
  exist :: bool
  port_p :: hba_port

definition DISK_NUM :: nat where "DISK_NUM = 8"
definition HBA_PxIS_TFES :: u32 where "HBA_PxIS_TFES = 0x40000000"
definition ATA_DEV_ERR :: u32 where "ATA_DEV_ERR = 0x01"
definition ATA_BUSY_DRQ :: u32 where "ATA_BUSY_DRQ = 0x88"
definition ATA_CMD_READ_DMA_EX :: u8 where "ATA_CMD_READ_DMA_EX = 0x25"
definition ATA_CMD_WRITE_DMA_EX :: u8 where "ATA_CMD_WRITE_DMA_EX = 0x35"

section \<open>Operations\<close>

text \<open>\<open>find_port\<close>: the assertion, and \<open>NULL\<close> (through which every caller reads) for no disk.\<close>

definition find_port :: "disk_entry list \<Rightarrow> u8 \<Rightarrow> hba_port option" where
  "find_port disks disk_i =
     do {
       _ \<leftarrow> assert (unat disk_i < DISK_NUM);
       if unat disk_i < length disks \<and> exist (disks ! unat disk_i)
       then Some (port_p (disks ! unat disk_i)) else None
     }"

text \<open>The search for a slot whose bit is clear; 32 when there is none.\<close>

function slot_from :: "nat \<Rightarrow> u32 \<Rightarrow> nat" where
  "slot_from i slot =
     (if i < 32 then if slot AND 1 = 0 then i else slot_from (i + 1) (drop_bit 1 slot) else i)"
  by pat_completeness auto
termination by (relation "measure (\<lambda>(i, _). 32 - i)") auto

declare slot_from.simps [simp del]

text \<open>The command of a transfer; \<open>memset\<close> has cleared the table, and the reads set \<open>c\<close>.\<close>

definition transfer_command :: "bool \<Rightarrow> u32 \<Rightarrow> u32 \<Rightarrow> u32 \<Rightarrow> u64 \<Rightarrow> command \<Rightarrow> command" where
  "transfer_command w startl starth sector_count buf old =
     \<lparr>cfl = 5, cmd_w = w, cmd_c = (if w then cmd_c old else True), prdtl = 1,
      dba = buf, dbc = take_bit 22 (sector_count * 512 - 1), prdt_i = True, fis_type = 0x27, fis_c = True,
      fis_command = (if w then ATA_CMD_WRITE_DMA_EX else ATA_CMD_READ_DMA_EX),
      lba0 = ucast startl, lba1 = ucast (drop_bit 8 startl), lba2 = ucast (drop_bit 16 startl),
      lba3 = ucast (drop_bit 24 startl), lba4 = ucast starth, lba5 = ucast (drop_bit 8 starth),
      fis_device = 0x40, fis_count = ucast sector_count\<rparr>"

text \<open>
  Waiting for a busy port: the task file register is read by the loop test and again by the
  error test.  \<open>ahci_write\<close> waits without counting.
\<close>

fun wait_ready :: "u64 \<Rightarrow> u32 list \<Rightarrow> (bool \<times> u32 list) option" where
  "wait_ready spin [] = None"
| "wait_ready spin [t] = (if t AND ATA_BUSY_DRQ = 0 then Some (True, []) else None)"
| "wait_ready spin (t # t' # ts) =
     (if t AND ATA_BUSY_DRQ = 0 then Some (True, t' # ts)
      else if t' AND ATA_DEV_ERR \<noteq> 0 then Some (False, drop 1 ts)
      else if spin > 10000000 then Some (False, drop 1 ts)
      else wait_ready (spin + 1) ts)"

fun wait_ready_unbounded :: "u32 list \<Rightarrow> (bool \<times> u32 list) option" where
  "wait_ready_unbounded [] = None"
| "wait_ready_unbounded [t] = (if t AND ATA_BUSY_DRQ = 0 then Some (True, []) else None)"
| "wait_ready_unbounded (t # t' # ts) =
     (if t AND ATA_BUSY_DRQ = 0 then Some (True, t' # ts)
      else if t' AND ATA_DEV_ERR \<noteq> 0 then Some (False, drop 1 ts)
      else wait_ready_unbounded ts)"

text \<open>Up to the start of the command, common to the four transfer routines.\<close>

datatype op_result = NoSlot | Failed | Issued nat

definition issue_command ::
  "(u32 list \<Rightarrow> (bool \<times> u32 list) option) \<Rightarrow> bool \<Rightarrow> u32 \<Rightarrow> u32 \<Rightarrow> u32 \<Rightarrow> u64 \<Rightarrow> hba_port
     \<Rightarrow> (op_result \<times> hba_port) option" where
  "issue_command wait w startl starth sector_count buf port =
     (let port1 = port\<lparr>is_rwc := 0\<rparr>; slot = slot_from 0 (sact port OR ci port)
      in if slot = 32 then Some (NoSlot, port1)
         else if \<not> slot < length (cmds port) then None
         else
           let port2 = port1\<lparr>cmds := (cmds port)[slot :=
                 transfer_command w startl starth sector_count buf (cmds port ! slot)]\<rparr>
           in do {
                (ready, ts) \<leftarrow> wait (tfd_reads port);
                if ready then Some (Issued slot, port2\<lparr>tfd_reads := ts, ci := ci port OR push_bit slot 1\<rparr>)
                else Some (Failed, port2\<lparr>tfd_reads := ts\<rparr>)
              })"

text \<open>Polling for the end of the command, and the last look at the status.\<close>

fun poll_done :: "nat \<Rightarrow> (u32 \<times> u32) list \<Rightarrow> (bool \<times> (u32 \<times> u32) list) option" where
  "poll_done slot [] = None"
| "poll_done slot ((c, s) # ps) =
     (if c AND push_bit slot 1 = 0 then Some (s AND HBA_PxIS_TFES = 0, ps)
      else if s AND HBA_PxIS_TFES \<noteq> 0 then Some (False, ps)
      else poll_done slot ps)"

definition finish_polling :: "op_result \<Rightarrow> hba_port \<Rightarrow> (bool \<times> hba_port) option" where
  "finish_polling r port =
     (case r of
        Issued slot \<Rightarrow>
          do { (ok, ps) \<leftarrow> poll_done slot (poll_reads port); Some (ok, port\<lparr>poll_reads := ps\<rparr>) }
      | _ \<Rightarrow> Some (False, port))"

definition ahci_read :: "hba_port \<Rightarrow> u32 \<Rightarrow> u32 \<Rightarrow> u32 \<Rightarrow> u64 \<Rightarrow> (bool \<times> hba_port) option" where
  "ahci_read port startl starth sector_count buf =
     do {
       (r, p) \<leftarrow> issue_command (wait_ready 0) False startl starth sector_count buf port;
       finish_polling r p
     }"

definition ahci_write :: "hba_port \<Rightarrow> u32 \<Rightarrow> u32 \<Rightarrow> u32 \<Rightarrow> u64 \<Rightarrow> (bool \<times> hba_port) option" where
  "ahci_write port startl starth sector_count buf =
     do {
       (r, p) \<leftarrow> issue_command wait_ready_unbounded True startl starth sector_count buf port;
       finish_polling r p
     }"

text \<open>
  The tasks: one block of eight sectors.  \<open>starth\<close> is assigned the masked, unshifted value,
  which does not fit its 32 bits.
\<close>

definition set_port :: "disk_entry list \<Rightarrow> u8 \<Rightarrow> hba_port \<Rightarrow> disk_entry list" where
  "set_port disks i port = disks[unat i := (disks ! unat i)\<lparr>port_p := port\<rparr>]"

definition task_startl :: "u64 \<Rightarrow> u32" where
  "task_startl lba_4k = ucast (lba_4k * 8 AND 0xFFFFFFFF)"

definition task_starth :: "u64 \<Rightarrow> u32" where
  "task_starth lba_4k = ucast (lba_4k * 8 AND NOT 0xFFFFFFFF)"

definition ahci_read_task :: "disk_entry list \<Rightarrow> u8 \<Rightarrow> u64 \<Rightarrow> u64 \<Rightarrow> (op_result \<times> disk_entry list) option" where
  "ahci_read_task disks disk_i lba_4k buf =
     do {
       port \<leftarrow> find_port disks disk_i;
       (r, port') \<leftarrow> issue_command (wait_ready 0) False (task_startl lba_4k) (task_starth lba_4k) 8 buf port;
       Some (r, set_port disks disk_i port')
     }"

definition ahci_write_task :: "disk_entry list \<Rightarrow> u8 \<Rightarrow> u64 \<Rightarrow> u64 \<Rightarrow> (op_result \<times> disk_entry list) option" where
  "ahci_write_task disks disk_i lba_4k buf =
     do {
       port \<leftarrow> find_port disks disk_i;
       (r, port') \<leftarrow> issue_command (wait_ready 0) True (task_startl lba_4k) (task_starth lba_4k) 8 buf port;
       Some (r, set_port disks disk_i port')
     }"

definition check_ahci_port :: "disk_entry list \<Rightarrow> u8 \<Rightarrow> u32 \<Rightarrow> bool option" where
  "check_ahci_port disks disk_i slot =
     (if unat disk_i < length disks then
        let port = port_p (disks ! unat disk_i)
        in Some (is_rwc port AND HBA_PxIS_TFES = 0 \<and> ci port AND push_bit (unat slot) 1 = 0)
      else None)"

section \<open>Slots\<close>

lemma slot_from_spec:
  "i \<le> 32 \<Longrightarrow> i \<le> slot_from i w \<and> slot_from i w \<le> 32 \<and> (\<forall>j < slot_from i w - i. bit w j) \<and>
     (slot_from i w < 32 \<longrightarrow> \<not> bit w (slot_from i w - i))"
proof (induction i w rule: slot_from.induct)
  case (1 i w)
  show ?case
  proof (cases "i < 32 \<and> w AND 1 \<noteq> 0")
    case False
    then have "slot_from i w = i" by (subst slot_from.simps) auto
    with False 1(2) show ?thesis by (auto simp: bit_0 even_iff_mod_2_eq_zero and_one_eq)
  next
    case True
    let ?s = "slot_from (i + 1) (drop_bit 1 w)"
    have s: "slot_from i w = ?s" using True by (subst slot_from.simps) simp
    have IH: "i + 1 \<le> ?s" "?s \<le> 32" "\<forall>j < ?s - (i + 1). bit (drop_bit 1 w) j"
      "?s < 32 \<longrightarrow> \<not> bit (drop_bit 1 w) (?s - (i + 1))" using 1(1) True by auto
    have b0: "bit w 0" using True by (auto simp: bit_0 and_one_eq odd_iff_mod_2_eq_one)
    have "bit w j" if "j < ?s - i" for j
      using that IH(3) b0 by (cases j) (auto simp: bit_drop_bit_eq)
    moreover have "\<not> bit w (?s - i)" if "?s < 32"
      using that IH(1,4) by (simp add: bit_drop_bit_eq Suc_diff_le [symmetric])
    ultimately show ?thesis using s IH(1,2) by auto
  qed
qed

text \<open>
  Commands do not overwrite each other: a command is put in the lowest slot that is neither
  active nor issued, its bit is added to the issue register, every other slot's command and
  every other bit stay as they were; with all 32 slots busy no command is touched.
\<close>

theorem issue_uses_free_slot:
  assumes "issue_command wait w startl starth sc buf port = Some (r, port')"
  shows "(case r of
      Issued s \<Rightarrow> s < 32 \<and> \<not> bit (sact port OR ci port) s \<and> (\<forall>j < s. bit (sact port OR ci port) j) \<and>
        ci port' = ci port OR push_bit s 1 \<and> length (cmds port') = length (cmds port) \<and>
        cmds port' ! s = transfer_command w startl starth sc buf (cmds port ! s) \<and>
        (\<forall>j. j \<noteq> s \<longrightarrow> cmds port' ! j = cmds port ! j)
    | NoSlot \<Rightarrow> cmds port' = cmds port \<and> ci port' = ci port \<and> (\<forall>j < 32. bit (sact port OR ci port) j)
    | Failed \<Rightarrow> ci port' = ci port)"
proof -
  let ?s = "slot_from 0 (sact port OR ci port)"
  have sp: "?s \<le> 32" "\<forall>j < ?s. bit (sact port OR ci port) j"
    "?s < 32 \<longrightarrow> \<not> bit (sact port OR ci port) ?s" using slot_from_spec [of 0 "sact port OR ci port"] by auto
  show ?thesis
  proof (cases "?s = 32")
    case True
    with assms sp show ?thesis by (auto simp: issue_command_def Let_def)
  next
    case False
    then have "?s < 32" using sp by simp
    with False assms sp show ?thesis
      by (auto simp: issue_command_def Let_def bind_eq_Some_conv' split: if_splits op_result.splits)
  qed
qed

section \<open>Addresses\<close>

text \<open>The sector address a command carries in its six registers.\<close>

definition fis_lba :: "command \<Rightarrow> nat" where
  "fis_lba c = unat (lba0 c) + 2 ^ 8 * unat (lba1 c) + 2 ^ 16 * unat (lba2 c) + 2 ^ 24 * unat (lba3 c) +
     2 ^ 32 * unat (lba4 c) + 2 ^ 40 * unat (lba5 c)"

lemma task_starth_0: "task_starth l = 0"
  unfolding task_starth_def low_mask by (rule bit_word_eqI) (auto simp: bit_simps)

lemma task_startl_nat: "unat (task_startl l) = 8 * unat l mod 2 ^ 32"
proof -
  have "unat (task_startl l) = unat (l * 8) mod 2 ^ 32"
    unfolding task_startl_def low_mask
    by (simp add: unsigned_ucast_eq unsigned_take_bit_eq take_bit_eq_mod [where 'a = nat] flip: take_bit_eq_mask)
  also have "\<dots> = unat l * 8 mod 2 ^ 64 mod 2 ^ 32" by (simp add: unat_word_ariths)
  also have "\<dots> = unat l * 8 mod 2 ^ 32" by (rule mod_mod_cancel) (rule le_imp_power_dvd, simp)
  finally show ?thesis by (simp add: mult.commute)
qed

lemma four_bytes:
  assumes "(n :: nat) < 2 ^ 32"
  shows "n mod 256 + 2 ^ 8 * (n div 2 ^ 8 mod 256) + 2 ^ 16 * (n div 2 ^ 16 mod 256) + 2 ^ 24 * (n div 2 ^ 24 mod 256) = n"
proof -
  obtain a b c :: nat where a: "a = n div 256" and b: "b = a div 256" and c: "c = b div 256" by simp
  have "n = a * 256 + n mod 256" "a = b * 256 + a mod 256" "b = c * 256 + b mod 256"
    unfolding a b c by (simp_all only: div_mult_mod_eq)
  moreover have d: "n div 65536 = b" "n div 16777216 = c" unfolding a b c by (simp_all flip: div_mult2_eq)
  moreover have "c < 256" using assms d(2) by simp
  then have cm: "c mod 256 = c" by simp
  ultimately have "n mod 256 + 256 * (a mod 256) + 65536 * (b mod 256) + 16777216 * (c mod 256) = n" by linarith
  then show ?thesis using a d cm by simp
qed

text \<open>
  The address on the wire: a task for block \<open>l\<close> carries the sector number \<open>8 l\<close> exactly as
  long as it fits 32 bits, that is below block \<open>2 ^ 29\<close>; beyond that the upper half is lost, and
  the command goes to the sector number modulo \<open>2 ^ 32\<close>.
\<close>

theorem task_address:
  "fis_lba (transfer_command w (task_startl l) (task_starth l) n buf old) = 8 * unat l mod 2 ^ 32"
proof -
  have "fis_lba (transfer_command w (task_startl l) (task_starth l) n buf old) = unat (task_startl l)"
    using four_bytes [of "unat (task_startl l)"] unat_byte [of 0 "task_startl l"] unat_u32_bound [of "task_startl l"]
    by (simp add: fis_lba_def transfer_command_def task_starth_0 unat_byte del: unat_u32_bound)
  then show ?thesis by (simp add: task_startl_nat)
qed

section \<open>Waiting\<close>

lemma wait_ready_returns:
  assumes "2 * (n + 1) \<le> length ts" "unat spin + n = 10000001"
  shows "wait_ready spin ts \<noteq> None"
  using assms
proof (induction n arbitrary: spin ts)
  case 0
  then obtain t t' ts' where ts: "ts = t # t' # ts'" by (cases ts; cases "tl ts") auto
  have "spin > 10000000" using 0 by (simp add: word_less_nat_alt)
  with ts show ?case by auto
next
  case (Suc n)
  then obtain t t' ts' where ts: "ts = t # t' # ts'" by (cases ts; cases "tl ts") auto
  have "unat (spin + 1) = Suc (unat spin)" by (rule unat_Suc_less [of _ 10000001])
    (use Suc.prems in \<open>simp add: word_less_nat_alt\<close>)
  with Suc.IH [of ts' "spin + 1"] Suc.prems ts show ?case by auto
qed

text \<open>
  C30. A hung port does not hang the kernel: whatever values the task file register shows, the
  wait of the disk tasks ends after at most 10000002 rounds of two readings each.
\<close>

theorem wait_ready_terminates:
  assumes "20000004 \<le> length readings"
  shows "\<exists>ready rest. wait_ready 0 readings = Some (ready, rest)"
  using wait_ready_returns [of 10000001 readings 0] assms by auto

text \<open>
  The write without a task has no such bound: a port that stays busy without an error keeps it
  waiting for as long as it is read.
\<close>

lemma unbounded_wait: "wait_ready_unbounded (replicate n 0x80) = None"
proof (induction n rule: less_induct)
  case (less n)
  consider "n = 0" | "n = 1" | m where "n = Suc (Suc m)" by (metis One_nat_def not0_implies_Suc)
  then show ?case by cases (auto simp: ATA_BUSY_DRQ_def ATA_DEV_ERR_def less)
qed

text \<open>While the port shows a task file error, no slot is reported as done.\<close>

lemma check_ahci_port_error:
  assumes "unat i < length disks" "bit (is_rwc (port_p (disks ! unat i))) 30"
  shows "check_ahci_port disks i slot = Some False"
proof -
  have "HBA_PxIS_TFES = push_bit 30 1" by (simp add: HBA_PxIS_TFES_def push_bit_eq_mult)
  then have "is_rwc (port_p (disks ! unat i)) AND HBA_PxIS_TFES \<noteq> 0"
    using assms(2) by (simp add: bit_iff_and_push_bit_not_eq_0)
  then show ?thesis using assms(1) by (simp add: check_ahci_port_def Let_def)
qed

section \<open>Instances\<close>

definition idle_command :: command where
  "idle_command = \<lparr>cfl = 0, cmd_w = False, cmd_c = False, prdtl = 8, dba = 0, dbc = 0, prdt_i = False,
     fis_type = 0, fis_c = False, fis_command = 0, lba0 = 0, lba1 = 0, lba2 = 0, lba3 = 0, lba4 = 0,
     lba5 = 0, fis_device = 0, fis_count = 0\<rparr>"

definition port_example :: hba_port where
  "port_example = \<lparr>sact = 1, ci = 2, is_rwc = 0, cmds = replicate 32 idle_command,
     tfd_reads = [0x80, 0x80, 0x50, 0x50], poll_reads = []\<rparr>"

lemma port_example_slot: "slot_from 0 (sact port_example OR ci port_example) = 2"
  by (simp add: port_example_def slot_from.simps)

lemma port_example_issue:
  "\<exists>port'. issue_command (wait_ready 0) False 80 0 8 0x5000 port_example = Some (Issued 2, port')"
  using port_example_slot
  by (simp add: issue_command_def Let_def) (simp add: port_example_def ATA_BUSY_DRQ_def ATA_DEV_ERR_def)

theorem issue_uses_free_slot_witness:
  "\<exists>port'. issue_command (wait_ready 0) False 80 0 8 0x5000 port_example = Some (Issued 2, port') \<and>
     cmds port' ! 2 = transfer_command False 80 0 8 0x5000 (cmds port_example ! 2)"
  using port_example_issue issue_uses_free_slot [of "wait_ready 0" False 80 0 8 "0x5000" port_example "Issued 2"]
  by auto

theorem wait_ready_terminates_witness:
  "\<exists>ready rest. wait_ready 0 (replicate 20000004 0x80) = Some (ready, rest)"
  by (rule wait_ready_terminates) simp

end
