(* ===== verification/Kernel_State.thy ===== *)
theory Kernel_State
  imports Kbrk File_System Kprintf Ahci
begin

text \<open>
  The state that the process, timer, terminal, keyboard, disk driver and interrupt code share:
  \<open>struct Process\<close> and \<open>handler_reg\<close> (\<^verbatim>\<open>include/sys/thread/kthread.h\<close>, \<^verbatim>\<open>include/sys/idt.h\<close>), the
  timer's waiters (\<^verbatim>\<open>include/sys/timer.h\<close>), the pending disk tasks
  (\<^verbatim>\<open>include/sys/disk/disk_driver.h\<close>), and the global variables of those files.  Processes are
  linked by their \<open>next\<close> pointers as in the code, and the list from \<open>first_process\<close> is
  recovered by the predicate \<open>chain\<close>.
\<close>

section \<open>Processes\<close>

record handler_reg =
  rbp :: u64
  r15 :: u64
  r14 :: u64
  r13 :: u64
  r12 :: u64
  r9 :: u64
  r8 :: u64
  rax :: u64
  rcx :: u64
  rdx :: u64
  rbx :: u64
  rsi :: u64
  rdi :: u64
  int_num :: u64
  err_num :: u64
  ret_rip :: u64
  reg_cs :: u64
  eflags :: u64
  ret_rsp :: u64
  reg_ss :: u64

definition zero_reg :: handler_reg where
  "zero_reg = \<lparr>rbp = 0, r15 = 0, r14 = 0, r13 = 0, r12 = 0, r9 = 0, r8 = 0, rax = 0, rcx = 0,
     rdx = 0, rbx = 0, rsi = 0, rdi = 0, int_num = 0, err_num = 0, ret_rip = 0, reg_cs = 0,
     eflags = 0, ret_rsp = 0, reg_ss = 0\<rparr>"

definition FD_SIZE :: nat where "FD_SIZE = 16"

text \<open>
  \<open>struct Process\<close>.  The fields \<open>cr3\<close>, \<open>first_map\<close> and the address \<open>self\<close> of the structure
  come from \<open>addr_space\<close>.  A slot of \<open>open_fd\<close> holds the \<open>file_entry\<close> of the descriptor it
  points to; every descriptor is pointed to by one slot only, so they are not kept by address.
\<close>

record process = addr_space +
  pid :: u32
  parent :: ptr
  p_name :: bytes
  p_next :: ptr
  rsp :: u64
  rip :: u64
  saved_reg :: handler_reg
  rsp_current :: u64
  heap_start :: u64
  heap_break :: u64
  on_hold :: bool
  terminated :: bool
  cleaned :: bool
  ret_value :: u32
  open_fd :: "ptr option list"
  workdir :: bytes
  sig_pending :: u64
  sig_handler :: u64
  sig_saved_reg :: handler_reg
  id_wait_for :: u32
  id_wait_for_p :: ptr

text \<open>A structure as \<open>sf_calloc\<close> returns it.\<close>

definition zero_process :: "ptr \<Rightarrow> process" where
  "zero_process p = \<lparr>self = p, cr3 = 0, first_map = [], pid = 0, parent = 0, p_name = [], p_next = 0,
     rsp = 0, rip = 0, saved_reg = zero_reg, rsp_current = 0, heap_start = 0, heap_break = 0,
     on_hold = False, terminated = False, cleaned = False, ret_value = 0,
     open_fd = replicate FD_SIZE None, workdir = [], sig_pending = 0, sig_handler = 0,
     sig_saved_reg = zero_reg, id_wait_for = 0, id_wait_for_p = 0\<rparr>"

section \<open>Timer waiters and disk tasks\<close>

record waiter =
  w_proc :: ptr
  ticks_to_wake :: u64
  is_alarm :: bool

record disk_task =
  diskID :: u8
  dt_slot :: u32
  LBA :: u64
  is_write :: bool
  issued :: bool
  rw_to :: nat
  dt_proc :: ptr

section \<open>The kernel\<close>

text \<open>
  \<open>proc_supply\<close> are the addresses that the coming calls of \<open>sf_calloc(sizeof(Process), 1)\<close>
  return.  The linked lists from \<open>first_waiter\<close> and from \<open>dummy_task.next\<close> are lists.
  \<open>after_context_switch\<close> is the address of the assembly label \<open>AFTER_CONTEXT_SWITCH\<close>, and
  \<open>task_cr3\<close> the word of the kernel task stack from which the task wrapper restores \<open>cr3\<close>.
\<close>

record kernel =
  procs :: "ptr \<rightharpoonup> process"
  first_process :: ptr
  current_process :: ptr
  previous_process :: ptr
  id_count :: u32
  proc_supply :: "ptr list"
  kmm :: kmem
  kfs :: filesys
  first_waiter :: "waiter list"
  disk_tasks :: "disk_task list"
  disks :: "disk_entry list"
  terminal_buffer :: bytes
  terminal_buffer_end :: int
  terminal_file_in :: "ptr \<times> ptr"
  terminal_file_out :: "ptr \<times> ptr"
  foreground_pid :: u64
  kscreen :: screen
  shift :: bool
  ctrl :: bool
  last_key_pressed :: bytes
  pic_tick_count :: u64
  rand_seed :: u32
  kpt_of :: kpt
  after_context_switch :: u64
  task_cr3 :: u64

definition put_proc :: "ptr \<Rightarrow> process \<Rightarrow> kernel \<Rightarrow> kernel" where
  "put_proc p pr k = k\<lparr>procs := (procs k)(p \<mapsto> pr)\<rparr>"

text \<open>Assigning fields of a process through its pointer.\<close>

definition upd_proc :: "ptr \<Rightarrow> (process \<Rightarrow> process) \<Rightarrow> kernel \<Rightarrow> kernel option" where
  "upd_proc p f k = (case procs k p of None \<Rightarrow> None | Some pr \<Rightarrow> Some (put_proc p (f pr) k))"

lemma put_proc_sel [simp]:
  "procs (put_proc p pr k) = (procs k)(p \<mapsto> pr)" "first_process (put_proc p pr k) = first_process k"
  "current_process (put_proc p pr k) = current_process k"
  "previous_process (put_proc p pr k) = previous_process k" "id_count (put_proc p pr k) = id_count k"
  "proc_supply (put_proc p pr k) = proc_supply k" "kmm (put_proc p pr k) = kmm k"
  "kfs (put_proc p pr k) = kfs k" "first_waiter (put_proc p pr k) = first_waiter k"
  "disk_tasks (put_proc p pr k) = disk_tasks k" "disks (put_proc p pr k) = disks k" "foreground_pid (put_proc p pr k) = foreground_pid k"
  "kscreen (put_proc p pr k) = kscreen k"
  "terminal_buffer (put_proc p pr k) = terminal_buffer k"
  "terminal_buffer_end (put_proc p pr k) = terminal_buffer_end k"
  "terminal_file_in (put_proc p pr k) = terminal_file_in k"
  "terminal_file_out (put_proc p pr k) = terminal_file_out k" "kpt_of (put_proc p pr k) = kpt_of k"
  by (simp_all add: put_proc_def)

lemma upd_proc_Some [simp]: "procs k p = Some pr \<Longrightarrow> upd_proc p f k = Some (put_proc p (f pr) k)"
  by (simp add: upd_proc_def)

lemma upd_proc_eq_Some:
  "upd_proc p f k = Some k' \<longleftrightarrow> (\<exists>pr. procs k p = Some pr \<and> k' = put_proc p (f pr) k)"
  by (auto simp: upd_proc_def split: option.splits)

section \<open>The linked list of processes\<close>

text \<open>\<open>chain m p ps\<close>: following \<open>next\<close> from \<open>p\<close> visits exactly \<open>ps\<close> and ends at \<open>NULL\<close>.\<close>

fun chain :: "(ptr \<rightharpoonup> process) \<Rightarrow> ptr \<Rightarrow> ptr list \<Rightarrow> bool" where
  "chain m p [] \<longleftrightarrow> p = 0"
| "chain m p (q # qs) \<longleftrightarrow> p = q \<and> q \<noteq> 0 \<and> (\<exists>pr. m q = Some pr \<and> chain m (p_next pr) qs)"

text \<open>\<open>seg m p ps e\<close>: following \<open>next\<close> from \<open>p\<close> visits \<open>ps\<close> and leads to \<open>e\<close>.\<close>

fun seg :: "(ptr \<rightharpoonup> process) \<Rightarrow> ptr \<Rightarrow> ptr list \<Rightarrow> ptr \<Rightarrow> bool" where
  "seg m p [] e \<longleftrightarrow> p = e"
| "seg m p (q # qs) e \<longleftrightarrow> p = q \<and> q \<noteq> 0 \<and> (\<exists>pr. m q = Some pr \<and> seg m (p_next pr) qs e)"

lemma chain_append: "chain m p (xs @ ys) \<longleftrightarrow> (\<exists>q. seg m p xs q \<and> chain m q ys)"
  by (induction xs arbitrary: p) auto

lemma chain_seg: "chain m p ps \<longleftrightarrow> seg m p ps 0"
  by (induction ps arbitrary: p) auto

lemma seg_mem: "seg m p ps e \<Longrightarrow> q \<in> set ps \<Longrightarrow> q \<noteq> 0 \<and> (\<exists>pr. m q = Some pr)"
  by (induction ps arbitrary: p) auto

lemma seg_cong:
  "seg m p ps e \<Longrightarrow> (\<And>q pr. m q = Some pr \<Longrightarrow> \<exists>pr'. m' q = Some pr' \<and> p_next pr' = p_next pr)
   \<Longrightarrow> seg m' p ps e"
proof (induction ps arbitrary: p)
  case (Cons q qs)
  then obtain pr where pr: "m q = Some pr" "seg m (p_next pr) qs e" "p = q" "q \<noteq> 0" by auto
  from Cons.prems(2) [OF pr(1)] obtain pr' where "m' q = Some pr'" "p_next pr' = p_next pr" by blast
  with Cons.IH [OF pr(2) Cons.prems(2)] pr show ?case by simp
qed simp

lemma chain_unique: "chain m p ps \<Longrightarrow> chain m p qs \<Longrightarrow> ps = qs"
proof (induction ps arbitrary: p qs)
  case Nil
  then show ?case by (cases qs) auto
next
  case (Cons x xs)
  then show ?case by (cases qs) auto
qed

lemma chain_mem: "chain m p ps \<Longrightarrow> q \<in> set ps \<Longrightarrow> q \<noteq> 0 \<and> (\<exists>pr. m q = Some pr)"
  by (induction ps arbitrary: p) auto

lemma chain_split: "chain m p (xs @ q # ys) \<Longrightarrow> chain m q (q # ys)"
  by (induction xs arbitrary: p) auto

lemma chain_suffix: "chain m p (xs @ ys) \<Longrightarrow> \<exists>q. chain m q ys"
  by (induction xs arbitrary: p) auto

text \<open>A list that ends cannot visit a process twice.\<close>

lemma chain_distinct: "chain m p ps \<Longrightarrow> distinct ps"
proof (induction ps arbitrary: p)
  case Nil
  then show ?case by simp
next
  case (Cons q qs)
  have "q \<notin> set qs"
  proof
    assume "q \<in> set qs"
    then obtain xs ys where qs: "qs = xs @ q # ys" by (metis split_list)
    with Cons.prems obtain pr :: process where "chain m (p_next pr) (xs @ q # ys)" by auto
    then have "chain m q (q # ys)" by (rule chain_split)
    moreover have "chain m q (q # qs)" using Cons.prems by simp
    ultimately have "q # ys = q # qs" by (rule chain_unique)
    with qs show False by simp
  qed
  with Cons show ?case by auto
qed

lemma chain_cong:
  "chain m p ps \<Longrightarrow> (\<And>q pr. q \<in> set ps \<Longrightarrow> m q = Some pr \<Longrightarrow> \<exists>pr'. m' q = Some pr' \<and> p_next pr' = p_next pr)
   \<Longrightarrow> chain m' p ps"
proof (induction ps arbitrary: p)
  case Nil
  then show ?case by simp
next
  case (Cons q qs)
  then obtain pr where pr: "m q = Some pr" "chain m (p_next pr) qs" "p = q" "q \<noteq> 0" by auto
  from Cons.prems(2) [of q pr] pr obtain pr' where "m' q = Some pr'" "p_next pr' = p_next pr" by auto
  moreover have "chain m' (p_next pr) qs" by (rule Cons.IH [OF pr(2)]) (use Cons.prems(2) in simp)
  ultimately show ?case using pr by simp
qed

lemma chain_update [simp]:
  "m p = Some pr \<Longrightarrow> p_next pr' = p_next pr \<Longrightarrow> chain (m(p \<mapsto> pr')) q ps = chain m q ps"
proof (induction ps arbitrary: q)
  case (Cons x xs)
  then show ?case by (cases "x = p") auto
qed simp

lemma chain_update_other: "p \<notin> set ps \<Longrightarrow> chain (m(p := v)) q ps = chain m q ps"
  by (induction ps arbitrary: q) auto

text \<open>Linking a process that is not in the list after its last element.\<close>

lemma chain_snoc:
  assumes "chain m p (ps @ [q])" "r \<noteq> 0" "r \<notin> set (ps @ [q])" "m q = Some pr" "p_next pr' = r"
    "p_next new = 0"
  shows "chain (m(r \<mapsto> new, q \<mapsto> pr')) p (ps @ [q, r])"
  using assms
proof (induction ps arbitrary: p)
  case Nil
  then show ?case by auto
next
  case (Cons x xs)
  then obtain px where px: "m x = Some px" "chain m (p_next px) (xs @ [q])" by auto
  have "distinct (x # xs @ [q])" using Cons.prems(1) chain_distinct by fastforce
  then have "x \<noteq> q" by auto
  moreover have "chain (m(r \<mapsto> new, q \<mapsto> pr')) (p_next px) (xs @ [q, r])"
    by (rule Cons.IH) (use px Cons.prems in auto)
  moreover have "(m(r \<mapsto> new, q \<mapsto> pr')) x = Some px" using \<open>x \<noteq> q\<close> Cons.prems px by auto
  ultimately show ?case using Cons.prems(1) by (simp del: fun_upd_apply)
qed

end
