(* ===== verification/Process.thy ===== *)
theory Process
  imports Kernel_State
begin

text \<open>
  The process list of \<^verbatim>\<open>sys/thread/kthread.c\<close>: searching and signalling, reclaiming a terminated
  process, splitting a shared page on a write fault, the round-robin scheduler, and the
  accessors that the assembly of the context switch calls.
\<close>

section \<open>Operations\<close>

text \<open>
  The loop of \<open>search_process\<close> and of \<open>process_add_signal\<close>: the first process with the given
  id, \<open>NULL\<close> at the end of the list.
\<close>

partial_function (option) search_chain :: "(ptr \<rightharpoonup> process) \<Rightarrow> u32 \<Rightarrow> ptr \<Rightarrow> ptr option" where
  "search_chain m i c =
     (if c = 0 then Some 0
      else do {
        pr \<leftarrow> m c;
        if pid pr = i then Some c else search_chain m i (p_next pr)
      })"

definition search_process :: "kernel \<Rightarrow> u32 \<Rightarrow> ptr option" where
  "search_process k i = search_chain (procs k) i (first_process k)"

definition process_add_signal :: "kernel \<Rightarrow> u32 \<Rightarrow> u64 \<Rightarrow> (int \<times> kernel) option" where
  "process_add_signal k i signal =
     do {
       c \<leftarrow> search_chain (procs k) i (first_process k);
       if c = 0 then Some (0, k)
       else do {
         k' \<leftarrow> upd_proc c (\<lambda>pr. pr\<lparr>sig_pending := signal, on_hold := False\<rparr>) k;
         Some (1, k')
       }
     }"

fun free_maps :: "phy \<Rightarrow> m_map list \<Rightarrow> phy option" where
  "free_maps s [] = Some s"
| "free_maps s (m # ms) =
     do { s' \<leftarrow> free_page_for_program s (phy_page m) (mm_ptr m); free_maps s' ms }"

fun close_files :: "filesys \<Rightarrow> ptr option list \<Rightarrow> filesys option" where
  "close_files f [] = Some f"
| "close_files f (None # fds) = close_files f fds"
| "close_files f (Some p # fds) = do { (_, f') \<leftarrow> file_close f p; close_files f' fds }"

definition wake_parent :: "kernel \<Rightarrow> ptr \<Rightarrow> process \<Rightarrow> kernel option" where
  "wake_parent k p proc =
     (if parent proc = 0 then Some k
      else do {
        par \<leftarrow> procs k (parent proc);
        if id_wait_for par = pid proc \<or> id_wait_for par = - 1
        then upd_proc (parent proc) (\<lambda>q. q\<lparr>on_hold := False, id_wait_for_p := p\<rparr>) k
        else Some k
      })"

definition process_cleanup :: "kernel \<Rightarrow> ptr \<Rightarrow> kernel option" where
  "process_cleanup k p =
     do {
       proc \<leftarrow> procs k p;
       k1 \<leftarrow> wake_parent k p proc;
       ph \<leftarrow> free_maps (kphy (kmm k1)) (first_map proc);
       f \<leftarrow> close_files (kfs k1) (open_fd proc);
       upd_proc p (\<lambda>q. q\<lparr>cleaned := True\<rparr>) (k1\<lparr>kmm := (kmm k1)\<lparr>kphy := ph\<rparr>, kfs := f\<rparr>)
     }"

text \<open>
  Copy on write.  The search starts after the first map, and the map of the old page, at
  index \<open>Suc j\<close>, is unlinked after \<open>add_page_for_process\<close> has appended the new one.
\<close>

fun find_user_map :: "m_map list \<Rightarrow> u64 \<Rightarrow> nat \<Rightarrow> nat option" where
  "find_user_map [] addr j = None"
| "find_user_map (m # ms) addr j =
     (if mm_type m = 2 \<and> drop_bit 12 (vir_addr m) = drop_bit 12 addr then Some j
      else find_user_map ms addr (Suc j))"

definition copy_page :: "u64 \<Rightarrow> u64 \<Rightarrow> kmem \<Rightarrow> kmem" where
  "copy_page dst src k = k\<lparr>kphy := (kphy k)\<lparr>pmem :=
     (\<lambda>a. if a - dst < 4096 then pmem (kphy k) (src + (a - dst)) else pmem (kphy k) a)\<rparr>\<rparr>"

definition check_and_handle_rw_page_fault ::
  "kmem \<Rightarrow> 'z addr_space_scheme \<Rightarrow> u64 \<Rightarrow> (bool \<times> 'z addr_space_scheme \<times> kmem) option" where
  "check_and_handle_rw_page_fault k proc addr =
     (case first_map proc of
        [] \<Rightarrow> None
      | _ # ms \<Rightarrow>
          (case find_user_map ms addr 0 of
             None \<Rightarrow> Some (False, proc, k)
           | Some j \<Rightarrow>
               if rw (ms ! j) then
                 do {
                   (new_page, proc1, k1) \<leftarrow> add_page_for_process k proc addr True 2;
                   let k2 = copy_page new_page (page_base k1 (phy_page (ms ! j))) k1;
                   ph \<leftarrow> free_page_for_program (kphy k2) (phy_page (ms ! j)) (mm_ptr (ms ! j));
                   let maps = first_map proc1;
                   Some (True, proc1\<lparr>first_map := take (Suc j) maps @ drop (Suc (Suc j)) maps\<rparr>,
                         k2\<lparr>kphy := ph\<rparr>)
                 }
               else Some (False, proc, k)))"

text \<open>
  The loop of \<open>process_schedule\<close>.  It reclaims the terminated processes it passes, and has no
  bound of its own: when no process can run and it never meets \<open>current_process\<close>, it does
  not end.
\<close>

definition runnable :: "process \<Rightarrow> bool" where
  "runnable pr \<longleftrightarrow> \<not> (on_hold pr \<or> terminated pr)"

definition wrap_next :: "kernel \<Rightarrow> ptr \<Rightarrow> ptr" where
  "wrap_next k p = (if p = 0 then first_process k else p)"

partial_function (option) schedule_from :: "kernel \<Rightarrow> ptr \<Rightarrow> (ptr \<times> kernel) option" where
  "schedule_from k n =
     (if n = current_process k then Some (n, k)
      else do {
        pr \<leftarrow> procs k n;
        if runnable pr then Some (n, k)
        else do {
          k1 \<leftarrow> (if terminated pr \<and> \<not> cleaned pr then process_cleanup k n else Some k);
          pr1 \<leftarrow> procs k1 n;
          schedule_from k1 (wrap_next k1 (p_next pr1))
        }
      })"

definition process_schedule :: "kernel \<Rightarrow> kernel option" where
  "process_schedule k =
     do {
       start \<leftarrow> (if current_process k = 0 then Some (first_process k)
                 else do {
                   cur \<leftarrow> procs k (current_process k);
                   Some (wrap_next k (p_next cur))
                 });
       (n, k1) \<leftarrow> schedule_from k start;
       if n = 0 then None
       else do {
         pr \<leftarrow> procs k1 n;
         if on_hold pr then None
         else Some (k1\<lparr>previous_process := current_process k1, current_process := n\<rparr>)
       }
     }"

text \<open>Accessors used by the context switch.\<close>

definition save_current_state :: "handler_reg \<Rightarrow> kernel \<Rightarrow> kernel option" where
  "save_current_state reg k =
     (if current_process k \<noteq> 0
      then upd_proc (current_process k) (\<lambda>p. p\<lparr>rsp := ret_rsp reg, rip := ret_rip reg\<rparr>) k else Some k)"

definition save_current_rsp :: "u64 \<Rightarrow> kernel \<Rightarrow> kernel option" where
  "save_current_rsp v k =
     (if current_process k \<noteq> 0 then upd_proc (current_process k) (\<lambda>p. p\<lparr>rsp := v\<rparr>) k else Some k)"

definition save_previous_rsp :: "u64 \<Rightarrow> kernel \<Rightarrow> kernel option" where
  "save_previous_rsp v k =
     (if previous_process k \<noteq> 0 then upd_proc (previous_process k) (\<lambda>p. p\<lparr>rsp := v\<rparr>) k else Some k)"

definition save_previous_rip :: "u64 \<Rightarrow> kernel \<Rightarrow> kernel option" where
  "save_previous_rip v k =
     (if previous_process k \<noteq> 0 then upd_proc (previous_process k) (\<lambda>p. p\<lparr>rip := v\<rparr>) k else Some k)"

definition save_current_cr3 :: "u64 \<Rightarrow> kernel \<Rightarrow> kernel option" where
  "save_current_cr3 v k =
     (if current_process k \<noteq> 0 then upd_proc (current_process k) (\<lambda>p. p\<lparr>cr3 := v\<rparr>) k else Some k)"

definition load_current_rsp :: "kernel \<Rightarrow> u64 option" where
  "load_current_rsp k = map_option rsp (procs k (current_process k))"

definition load_current_cr3 :: "kernel \<Rightarrow> u64 option" where
  "load_current_cr3 k = map_option cr3 (procs k (current_process k))"

definition load_current_rip :: "kernel \<Rightarrow> u64 option" where
  "load_current_rip k = map_option rip (procs k (current_process k))"

section \<open>Searching\<close>

lemma search_chain_find:
  "chain m c ps \<Longrightarrow> search_chain m i c =
     Some (case find (\<lambda>p. pid (the (m p)) = i) ps of None \<Rightarrow> 0 | Some p \<Rightarrow> p)"
proof (induction ps arbitrary: c)
  case Nil
  then show ?case by (subst search_chain.simps) simp
next
  case (Cons q qs)
  then show ?case by (subst search_chain.simps) auto
qed

text \<open>
  \<open>search_process\<close> walks the linked list as \<open>find\<close> walks the list of processes it
  represents: it ends, and returns the first one with that id or \<open>NULL\<close>.
\<close>

theorem search_process_find:
  assumes "chain (procs k) (first_process k) ps"
  shows "search_process k i =
     Some (case find (\<lambda>p. pid (the (procs k p)) = i) ps of None \<Rightarrow> 0 | Some p \<Rightarrow> p)"
  using search_chain_find [OF assms] by (simp add: search_process_def)

text \<open>
  A signal reaches exactly the process it is sent to: for the process with that id (ids
  being distinct) it is stored and the process is woken, nothing else of the kernel changes,
  and without such a process nothing changes and 0 is returned.
\<close>

theorem process_add_signal_delivers:
  assumes "chain (procs k) (first_process k) ps" "distinct (map (\<lambda>p. pid (the (procs k p))) ps)"
  shows "(\<forall>p pr. p \<in> set ps \<and> procs k p = Some pr \<longrightarrow>
      process_add_signal k (pid pr) s = Some (1, put_proc p (pr\<lparr>sig_pending := s, on_hold := False\<rparr>) k)) \<and>
    (i \<notin> (\<lambda>p. pid (the (procs k p))) ` set ps \<longrightarrow> process_add_signal k i s = Some (0, k))"
proof (intro conjI allI impI)
  fix p pr assume p: "p \<in> set ps \<and> procs k p = Some pr"
  have "find (\<lambda>q. pid (the (procs k q)) = pid pr) ps = Some p"
  proof -
    obtain xs ys where ps: "ps = xs @ p # ys" using p by (metis split_list)
    have "\<forall>q \<in> set xs. pid (the (procs k q)) \<noteq> pid pr" using assms(2) p unfolding ps by force
    then have "find (\<lambda>q. pid (the (procs k q)) = pid pr) xs = None" by (simp add: find_None_iff)
    with p show ?thesis unfolding ps by (induction xs) auto
  qed
  moreover have "p \<noteq> 0" using chain_mem [OF assms(1)] p by blast
  ultimately show "process_add_signal k (pid pr) s =
      Some (1, put_proc p (pr\<lparr>sig_pending := s, on_hold := False\<rparr>) k)"
    using p by (simp add: process_add_signal_def search_chain_find [OF assms(1)])
next
  assume "i \<notin> (\<lambda>p. pid (the (procs k p))) ` set ps"
  then have "find (\<lambda>p. pid (the (procs k p)) = i) ps = None" by (auto simp: find_None_iff)
  then show "process_add_signal k i s = Some (0, k)"
    by (simp add: process_add_signal_def search_chain_find [OF assms(1)])
qed

section \<open>Reclaiming terminated processes\<close>

text \<open>Which process is still to be reclaimed, and the nodes of its memory maps.\<close>

definition unclean :: "process \<Rightarrow> bool" where
  "unclean pr \<longleftrightarrow> terminated pr \<and> \<not> cleaned pr"

definition owned :: "kernel \<Rightarrow> ptr \<Rightarrow> ptr list" where
  "owned k p = map mm_ptr (first_map (the (procs k p)))"

text \<open>
  What reclaiming \<open>p\<close> relies on: its maps are distinct users of their pages, its parent
  exists and its descriptors lead to file entries.
\<close>

definition reclaimable :: "kernel \<Rightarrow> ptr \<Rightarrow> bool" where
  "reclaimable k p \<longleftrightarrow> (\<exists>pr. procs k p = Some pr \<and>
     (parent pr = 0 \<or> (\<exists>par. procs k (parent pr) = Some par)) \<and> distinct (map mm_ptr (first_map pr)) \<and>
     (\<forall>m \<in> set (first_map pr). mm_ptr m \<in> page_users (kphy (kmm k)) (phy_page m)) \<and>
     (\<forall>f. Some f \<in> set (open_fd pr) \<longrightarrow> (\<exists>e. files (kfs k) f = Some e)))"

definition drop_users :: "m_map list \<Rightarrow> (nat \<Rightarrow> ptr set) \<Rightarrow> nat \<Rightarrow> ptr set" where
  "drop_users ms u i = u i - {mm_ptr m | m. m \<in> set ms \<and> phy_page m = i}"

lemma free_maps_spec:
  assumes "users_wf s" "distinct (map mm_ptr ms)" "\<forall>m \<in> set ms. mm_ptr m \<in> page_users s (phy_page m)"
  shows "\<exists>s'. free_maps s ms = Some s' \<and> users_wf s' \<and> page_users s' = drop_users ms (page_users s)"
  using assms
proof (induction ms arbitrary: s)
  case Nil
  then show ?case by (auto simp: drop_users_def)
next
  case (Cons m ms)
  from phy_sharing.free_law [OF Cons.prems(1), of "mm_ptr m" "phy_page m"] Cons.prems(3)
  obtain s1 where s1: "free_page_for_program s (phy_page m) (mm_ptr m) = Some s1" "users_wf s1"
    "page_users s1 = (page_users s)(phy_page m := page_users s (phy_page m) - {mm_ptr m})" by auto
  have "\<forall>m' \<in> set ms. mm_ptr m' \<in> page_users s1 (phy_page m')"
    using Cons.prems(2,3) s1(3) by (auto simp: image_iff)
  then obtain s2 where s2: "free_maps s1 ms = Some s2" "users_wf s2"
    "page_users s2 = drop_users ms (page_users s1)" using Cons.IH [OF s1(2)] Cons.prems(2) by auto
  moreover have "drop_users ms (page_users s1) = drop_users (m # ms) (page_users s)"
    unfolding s1(3) by (rule ext) (auto simp: drop_users_def)
  ultimately show ?case using s1 by auto
qed

lemma close_files_spec:
  "\<forall>f. Some f \<in> set fds \<longrightarrow> (\<exists>e. files fs f = Some e) \<Longrightarrow>
   \<exists>fs'. close_files fs fds = Some fs' \<and> dom (files fs') = dom (files fs) \<and>
      (\<forall>f e. files fs f = Some e \<longrightarrow> (\<exists>e'. files fs' f = Some e' \<and>
         open_count e' = open_count e - int (count_list fds (Some f))))"
proof (induction fs fds rule: close_files.induct)
  case (3 fs p fds)
  then obtain e where e: "files fs p = Some e" by auto
  let ?fs = "put_file p (e\<lparr>open_count := open_count e - 1\<rparr>) fs"
  have c: "file_close fs p = Some (1, ?fs)" using e by (simp add: file_close_def)
  have "\<forall>f. Some f \<in> set fds \<longrightarrow> (\<exists>e'. files ?fs f = Some e')" using "3.prems" by auto
  from "3.IH" [OF c refl this] obtain fs' where fs': "close_files ?fs fds = Some fs'"
    "dom (files fs') = dom (files ?fs)"
    "\<And>f e. files ?fs f = Some e \<Longrightarrow>
       \<exists>e'. files fs' f = Some e' \<and> open_count e' = open_count e - int (count_list fds (Some f))" by blast
  have "\<exists>e'. files fs' f = Some e' \<and>
      open_count e' = open_count ef - int (count_list (Some p # fds) (Some f))"
    if "files fs f = Some ef" for f ef
    using fs'(3) [of f] that e by (cases "f = p") auto
  with fs' c e show ?case by auto
qed auto

text \<open>What \<open>process_cleanup\<close> may change in any process.\<close>

definition same_links :: "kernel \<Rightarrow> kernel \<Rightarrow> bool" where
  "same_links k k' \<longleftrightarrow> first_process k' = first_process k \<and> current_process k' = current_process k \<and>
     dom (procs k') = dom (procs k) \<and> dom (files (kfs k')) = dom (files (kfs k)) \<and>
     (\<forall>q pr. procs k q = Some pr \<longrightarrow> (\<exists>pr'. procs k' q = Some pr' \<and> p_next pr' = p_next pr \<and>
        first_map pr' = first_map pr \<and> open_fd pr' = open_fd pr \<and> parent pr' = parent pr \<and>
        pid pr' = pid pr \<and> terminated pr' = terminated pr \<and> (runnable pr \<longrightarrow> runnable pr') \<and>
        (cleaned pr \<longrightarrow> cleaned pr')))"

lemma same_links_refl: "same_links k k"
  by (auto simp: same_links_def)

lemma same_links_proc:
  "same_links k k' \<Longrightarrow> procs k q = Some pr \<Longrightarrow> \<exists>pr'. procs k' q = Some pr' \<and> p_next pr' = p_next pr \<and>
     first_map pr' = first_map pr \<and> open_fd pr' = open_fd pr \<and> parent pr' = parent pr \<and>
     pid pr' = pid pr \<and> terminated pr' = terminated pr \<and> (runnable pr \<longrightarrow> runnable pr') \<and>
     (cleaned pr \<longrightarrow> cleaned pr')"
  unfolding same_links_def by blast

lemma same_links_trans:
  assumes "same_links k k1" "same_links k1 k2"
  shows "same_links k k2"
  unfolding same_links_def
proof (intro conjI allI impI)
  fix q pr assume "procs k q = Some pr"
  from same_links_proc [OF assms(1) this] obtain p1 where p1: "procs k1 q = Some p1"
    and "p_next p1 = p_next pr \<and> first_map p1 = first_map pr \<and> open_fd p1 = open_fd pr \<and>
      parent p1 = parent pr \<and> pid p1 = pid pr \<and> terminated p1 = terminated pr \<and>
      (runnable pr \<longrightarrow> runnable p1) \<and> (cleaned pr \<longrightarrow> cleaned p1)" by blast
  with same_links_proc [OF assms(2) p1]
  show "\<exists>pr'. procs k2 q = Some pr' \<and> p_next pr' = p_next pr \<and> first_map pr' = first_map pr \<and>
      open_fd pr' = open_fd pr \<and> parent pr' = parent pr \<and> pid pr' = pid pr \<and>
      terminated pr' = terminated pr \<and> (runnable pr \<longrightarrow> runnable pr') \<and> (cleaned pr \<longrightarrow> cleaned pr')"
    by (elim exE conjE) (intro exI conjI impI; simp)
qed (use assms in \<open>simp_all add: same_links_def\<close>)

lemma same_links_chain: "same_links k k' \<Longrightarrow> chain (procs k) p ps \<Longrightarrow> chain (procs k') p ps"
  by (erule chain_cong) (blast dest: same_links_proc)

lemma wake_parent_spec:
  assumes "procs k p = Some pr" "parent pr = 0 \<or> (\<exists>par. procs k (parent pr) = Some par)"
  shows "\<exists>k'. wake_parent k p pr = Some k' \<and> same_links k k' \<and> kmm k' = kmm k \<and> kfs k' = kfs k \<and>
     (\<forall>par. parent pr \<noteq> 0 \<longrightarrow> procs k (parent pr) = Some par \<longrightarrow>
        (id_wait_for par = pid pr \<or> id_wait_for par = - 1) \<longrightarrow>
        procs k' (parent pr) = Some (par\<lparr>on_hold := False, id_wait_for_p := p\<rparr>))"
proof (cases "parent pr = 0")
  case True
  then show ?thesis by (auto simp: wake_parent_def same_links_refl)
next
  case False
  with assms(2) obtain par where par: "procs k (parent pr) = Some par" by blast
  show ?thesis
  proof (cases "id_wait_for par = pid pr \<or> id_wait_for par = - 1")
    case True
    let ?k = "put_proc (parent pr) (par\<lparr>on_hold := False, id_wait_for_p := p\<rparr>) k"
    have "wake_parent k p pr = Some ?k" using False par True by (simp add: wake_parent_def)
    moreover have "same_links k ?k" using par by (auto simp: same_links_def runnable_def)
    ultimately show ?thesis using par by auto
  next
    case ne: False
    then have "wake_parent k p pr = Some k" using False par by (simp add: wake_parent_def)
    then show ?thesis using par ne by (auto simp: same_links_refl)
  qed
qed

lemma process_cleanup_spec:
  assumes wf: "users_wf (kphy (kmm k))" and rc: "reclaimable k p" and pr: "procs k p = Some pr"
  shows "\<exists>k'. process_cleanup k p = Some k' \<and> same_links k k' \<and> users_wf (kphy (kmm k')) \<and>
     page_users (kphy (kmm k')) = drop_users (first_map pr) (page_users (kphy (kmm k))) \<and>
     (\<exists>pr'. procs k' p = Some pr' \<and> cleaned pr') \<and>
     (\<forall>par. parent pr \<noteq> 0 \<longrightarrow> procs k (parent pr) = Some par \<longrightarrow>
        (id_wait_for par = pid pr \<or> id_wait_for par = - 1) \<longrightarrow>
        (\<exists>par'. procs k' (parent pr) = Some par' \<and> \<not> on_hold par' \<and> id_wait_for_p par' = p)) \<and>
     (\<forall>f e. files (kfs k) f = Some e \<longrightarrow> (\<exists>e'. files (kfs k') f = Some e' \<and>
         open_count e' = open_count e - int (count_list (open_fd pr) (Some f))))"
proof -
  note rc' = rc [unfolded reclaimable_def pr option.inject ex_simps, simplified]
  obtain k1 where k1: "wake_parent k p pr = Some k1" "same_links k k1" "kmm k1 = kmm k" "kfs k1 = kfs k"
    and w: "\<And>par. parent pr \<noteq> 0 \<Longrightarrow> procs k (parent pr) = Some par \<Longrightarrow>
        (id_wait_for par = pid pr \<or> id_wait_for par = - 1) \<Longrightarrow>
        procs k1 (parent pr) = Some (par\<lparr>on_hold := False, id_wait_for_p := p\<rparr>)"
    using wake_parent_spec [OF pr] rc' by blast
  obtain ph where ph: "free_maps (kphy (kmm k)) (first_map pr) = Some ph" "users_wf ph"
    "page_users ph = drop_users (first_map pr) (page_users (kphy (kmm k)))"
    using free_maps_spec [OF wf] rc' by blast
  obtain f where f: "close_files (kfs k) (open_fd pr) = Some f" "dom (files f) = dom (files (kfs k))"
    and oc: "\<forall>g e. files (kfs k) g = Some e \<longrightarrow> (\<exists>e'. files f g = Some e' \<and>
         open_count e' = open_count e - int (count_list (open_fd pr) (Some g)))"
    using close_files_spec [of "open_fd pr" "kfs k"] rc' by blast
  obtain p1 where p1: "procs k1 p = Some p1" using same_links_proc [OF k1(2) pr] by blast
  let ?k2 = "k1\<lparr>kmm := (kmm k1)\<lparr>kphy := ph\<rparr>, kfs := f\<rparr>"
  let ?k = "put_proc p (p1\<lparr>cleaned := True\<rparr>) ?k2"
  have "process_cleanup k p = Some ?k" using pr k1 ph f p1 by (simp add: process_cleanup_def)
  moreover have "same_links k1 ?k" using p1 f k1 by (auto simp: same_links_def runnable_def)
  then have "same_links k ?k" by (rule same_links_trans [OF k1(2)])
  moreover have "\<exists>par'. procs ?k (parent pr) = Some par' \<and> \<not> on_hold par' \<and> id_wait_for_p par' = p"
    if "parent pr \<noteq> 0" "procs k (parent pr) = Some par"
      "id_wait_for par = pid pr \<or> id_wait_for par = - 1" for par
    using w [OF that] p1 by auto
  ultimately show ?thesis using ph oc by (intro exI [of _ ?k]) simp
qed

text \<open>
  C13. Reclaiming a terminated process always returns, when its maps are users of their pages
  and its parent and its open files exist: every page loses exactly this process's maps, every
  file it held loses as many openings as it had descriptors for it, a parent that waits for it
  (by id or for any child) is woken and told which child ended, and the process is marked.
\<close>

theorem process_cleanup_reclaims:
  assumes "users_wf (kphy (kmm k))" "reclaimable k p" "procs k p = Some pr"
  shows "\<exists>k'. process_cleanup k p = Some k' \<and>
     page_users (kphy (kmm k')) = drop_users (first_map pr) (page_users (kphy (kmm k))) \<and>
     (\<exists>pr'. procs k' p = Some pr' \<and> cleaned pr') \<and>
     (\<forall>par. parent pr \<noteq> 0 \<longrightarrow> procs k (parent pr) = Some par \<longrightarrow>
        (id_wait_for par = pid pr \<or> id_wait_for par = - 1) \<longrightarrow>
        (\<exists>par'. procs k' (parent pr) = Some par' \<and> \<not> on_hold par' \<and> id_wait_for_p par' = p)) \<and>
     (\<forall>f e. files (kfs k) f = Some e \<longrightarrow> (\<exists>e'. files (kfs k') f = Some e' \<and>
         open_count e' = open_count e - int (count_list (open_fd pr) (Some f))))"
  using process_cleanup_spec [OF assms] by blast

section \<open>Scheduling\<close>

definition sched_ready :: "kernel \<Rightarrow> ptr list \<Rightarrow> bool" where
  "sched_ready k ps \<longleftrightarrow> chain (procs k) (first_process k) ps \<and> users_wf (kphy (kmm k)) \<and>
     (\<forall>p \<in> set ps. unclean (the (procs k p)) \<longrightarrow> reclaimable k p) \<and>
     (\<forall>p \<in> set ps. \<forall>q \<in> set ps. unclean (the (procs k p)) \<longrightarrow> unclean (the (procs k q)) \<longrightarrow>
        p \<noteq> q \<longrightarrow> set (owned k p) \<inter> set (owned k q) = {})"

lemma unclean_links:
  "same_links k k' \<Longrightarrow> procs k q = Some pr \<Longrightarrow> unclean (the (procs k' q)) \<Longrightarrow> unclean pr"
  by (frule (1) same_links_proc) (auto simp: unclean_def)

lemma owned_links: "same_links k k' \<Longrightarrow> procs k q = Some pr \<Longrightarrow> owned k' q = owned k q"
  by (frule (1) same_links_proc) (auto simp: owned_def)

lemma reclaimable_links:
  assumes l: "same_links k k'" and rc: "reclaimable k q" and q: "procs k q = Some pr"
    and u: "\<And>m. m \<in> set (first_map pr) \<Longrightarrow> mm_ptr m \<in> page_users (kphy (kmm k)) (phy_page m) \<Longrightarrow>
      mm_ptr m \<in> page_users (kphy (kmm k')) (phy_page m)"
  shows "reclaimable k' q"
proof -
  from same_links_proc [OF l q] obtain pr' where pr': "procs k' q = Some pr'"
    "first_map pr' = first_map pr" "open_fd pr' = open_fd pr" "parent pr' = parent pr" by blast
  have "dom (procs k') = dom (procs k)" "dom (files (kfs k')) = dom (files (kfs k))"
    using l by (simp_all add: same_links_def)
  with rc q pr' u show ?thesis unfolding reclaimable_def by (auto simp: dom_def set_eq_iff)
qed

lemma cleanup_ready:
  assumes r: "sched_ready k ps" and p: "p \<in> set ps" "procs k p = Some pr" and un: "unclean pr"
  shows "\<exists>k'. process_cleanup k p = Some k' \<and> same_links k k' \<and> sched_ready k' ps"
proof -
  have wf: "users_wf (kphy (kmm k))" and rc: "reclaimable k p" using r p un by (auto simp: sched_ready_def)
  from process_cleanup_spec [OF wf rc p(2)] obtain k' where k': "process_cleanup k p = Some k'"
    and l: "same_links k k'" and wf': "users_wf (kphy (kmm k'))"
    and pu: "page_users (kphy (kmm k')) = drop_users (first_map pr) (page_users (kphy (kmm k)))"
    and cl: "\<exists>pr'. procs k' p = Some pr' \<and> cleaned pr'" by blast
  have ch: "chain (procs k) (first_process k) ps" using r by (simp add: sched_ready_def)
  have dj: "set (owned k q) \<inter> set (owned k q') = {}"
    if "q \<in> set ps" "q' \<in> set ps" "unclean (the (procs k q))" "unclean (the (procs k q'))" "q \<noteq> q'" for q q'
    using r that by (simp add: sched_ready_def)
  have mem: "\<exists>pq. procs k q = Some pq" if "q \<in> set ps" for q using chain_mem [OF ch that] by blast
  have was: "unclean (the (procs k q)) \<and> q \<noteq> p" if "q \<in> set ps" "unclean (the (procs k' q))" for q
    using mem [OF that(1)] unclean_links [OF l _ that(2)] that(2) cl by (auto simp: unclean_def)
  have "reclaimable k' q" if "q \<in> set ps" "unclean (the (procs k' q))" for q
  proof -
    from mem [OF that(1)] obtain pq where pq: "procs k q = Some pq" by blast
    have "reclaimable k q" using r that(1) was [OF that] by (simp add: sched_ready_def)
    moreover have "set (owned k p) \<inter> set (owned k q) = {}"
      by (rule dj) (use p un that was [OF that] in auto)
    ultimately show ?thesis
      by (intro reclaimable_links [OF l _ pq])
         (use pq p pu in \<open>auto simp: owned_def drop_users_def disjoint_iff image_iff\<close>)
  qed
  moreover have "set (owned k' q) \<inter> set (owned k' q') = {}"
    if "q \<in> set ps" "q' \<in> set ps" "unclean (the (procs k' q))" "unclean (the (procs k' q'))" "q \<noteq> q'" for q q'
  proof -
    have "owned k' q = owned k q" "owned k' q' = owned k q'"
      using mem [OF that(1)] mem [OF that(2)] owned_links [OF l] by auto
    moreover have "set (owned k q) \<inter> set (owned k q') = {}"
      by (rule dj) (use that was in auto)
    ultimately show ?thesis by simp
  qed
  moreover have "first_process k' = first_process k" using l by (simp add: same_links_def)
  ultimately have "sched_ready k' ps"
    using same_links_chain [OF l ch] wf' by (auto simp: sched_ready_def)
  with k' l show ?thesis by blast
qed

text \<open>The loop over a stretch of the list that does not hold the current process.\<close>

lemma schedule_stretch:
  assumes "sched_ready k ps" "seg (procs k) n zs e" "set zs \<subseteq> set ps" "current_process k \<notin> set zs"
  shows "(\<exists>q k' pr. schedule_from k (wrap_next k n) = Some (q, k') \<and> same_links k k' \<and>
            sched_ready k' ps \<and> q \<in> set zs \<and> procs k' q = Some pr \<and> runnable pr) \<or>
         (\<exists>k'. schedule_from k (wrap_next k n) = schedule_from k' (wrap_next k' e) \<and> same_links k k' \<and>
            sched_ready k' ps \<and> (\<forall>q \<in> set zs. \<not> runnable (the (procs k q))))"
  using assms
proof (induction zs arbitrary: k n)
  case Nil
  then show ?case using same_links_refl by auto
next
  case (Cons z zs)
  then obtain pr where pr: "n = z" "procs k z = Some pr" "seg (procs k) (p_next pr) zs e"
    and zp: "z \<in> set ps" "z \<noteq> current_process k" and wn: "wrap_next k n = z" by (auto simp: wrap_next_def)
  show ?case
  proof (cases "runnable pr")
    case True
    then have "schedule_from k z = Some (z, k)" by (subst schedule_from.simps) (use pr zp in simp)
    with True pr wn Cons.prems same_links_refl show ?thesis by auto
  next
    case False
    obtain k1 where k1: "(if terminated pr \<and> \<not> cleaned pr then process_cleanup k z else Some k) = Some k1"
      and l1: "same_links k k1" and r1: "sched_ready k1 ps"
    proof (cases "unclean pr")
      case True
      then show ?thesis
        using cleanup_ready [OF Cons.prems(1) zp(1) pr(2) True] that by (auto simp: unclean_def)
    next
      case nu: False
      then show ?thesis using that [of k] Cons.prems(1) same_links_refl by (auto simp: unclean_def)
    qed
    from same_links_proc [OF l1 pr(2)] obtain p1 where p1: "procs k1 z = Some p1" "p_next p1 = p_next pr"
      by blast
    have step: "schedule_from k (wrap_next k n) = schedule_from k1 (wrap_next k1 (p_next pr))"
      unfolding wn by (subst schedule_from.simps) (use pr zp False k1 p1 in simp)
    have sg: "seg (procs k1) (p_next pr) zs e" by (rule seg_cong [OF pr(3)]) (use same_links_proc [OF l1] in blast)
    have "current_process k1 \<notin> set zs" "set zs \<subseteq> set ps" using Cons.prems l1 by (auto simp: same_links_def)
    from Cons.IH [OF r1 sg this(2,1)] show ?thesis
    proof (elim disjE exE conjE)
      fix q k' pr'
      assume "schedule_from k1 (wrap_next k1 (p_next pr)) = Some (q, k')" "same_links k1 k'"
        "sched_ready k' ps" "q \<in> set zs" "procs k' q = Some pr'" "runnable pr'"
      with step same_links_trans [OF l1] show ?thesis by auto
    next
      fix k'
      assume a: "schedule_from k1 (wrap_next k1 (p_next pr)) = schedule_from k' (wrap_next k' e)"
        "same_links k1 k'" "sched_ready k' ps" "\<forall>q \<in> set zs. \<not> runnable (the (procs k1 q))"
      have "\<not> runnable (the (procs k q))" if q: "q \<in> set zs" for q
      proof -
        from seg_mem [OF pr(3) q] obtain pq where "procs k q = Some pq" by blast
        with same_links_proc [OF l1 this] a(4) q show ?thesis by auto
      qed
      with a step same_links_trans [OF l1] False pr show ?thesis by auto
    qed
  qed
qed

lemma not_runnable_links:
  "same_links k k' \<Longrightarrow> \<not> runnable (the (procs k' q)) \<Longrightarrow> procs k q = Some pr \<Longrightarrow> \<not> runnable pr"
  by (frule (1) same_links_proc) auto

text \<open>
  A whole round from the process after the current one: it ends at a process that can run, or
  passes every other process and comes back to the current one.
\<close>

lemma schedule_round:
  assumes r: "sched_ready k ps" and ps: "ps = xs @ c # ys" "current_process k = c"
    and cur: "procs k c = Some cur"
  shows "(\<exists>q k' pr. schedule_from k (wrap_next k (p_next cur)) = Some (q, k') \<and> same_links k k' \<and>
            sched_ready k' ps \<and> q \<in> set ps \<and> q \<noteq> 0 \<and> procs k' q = Some pr \<and> runnable pr) \<or>
         (\<exists>k'. schedule_from k (wrap_next k (p_next cur)) = Some (c, k') \<and> same_links k k' \<and>
            sched_ready k' ps \<and> (\<forall>q \<in> set (ys @ xs). \<not> runnable (the (procs k q))))"
proof -
  have ch: "chain (procs k) (first_process k) (xs @ c # ys)" using r ps by (simp add: sched_ready_def)
  then have nz: "\<And>q. q \<in> set ps \<Longrightarrow> q \<noteq> 0 \<and> (\<exists>pr. procs k q = Some pr)" using ps chain_mem by metis
  from ch obtain "seg (procs k) (first_process k) xs c" and ys: "seg (procs k) (p_next cur) ys 0"
    using cur unfolding chain_append by (auto simp: chain_seg)
  have "distinct ps" using ch ps chain_distinct by blast
  then have c: "c \<notin> set ys" "c \<notin> set xs" using ps by auto
  have sub: "set ys \<subseteq> set ps" "set xs \<subseteq> set ps" using ps by auto
  have cy: "current_process k \<notin> set ys" using ps c by simp
  from schedule_stretch [OF r ys sub(1) cy]
  consider (found) q k' pr where "schedule_from k (wrap_next k (p_next cur)) = Some (q, k')" "same_links k k'"
      "sched_ready k' ps" "q \<in> set ys" "procs k' q = Some pr" "runnable pr"
    | (all) k1 where "schedule_from k (wrap_next k (p_next cur)) = schedule_from k1 (wrap_next k1 0)"
      "same_links k k1" "sched_ready k1 ps" "\<forall>q \<in> set ys. \<not> runnable (the (procs k q))" by blast
  then show ?thesis
  proof cases
    case found
    then show ?thesis using ps nz by auto
  next
    case all
    have f: "first_process k1 = first_process k" "current_process k1 = c"
      using all(2) ps by (simp_all add: same_links_def)
    have xs: "seg (procs k1) (first_process k1) xs c"
      unfolding f by (rule seg_cong [OF \<open>seg (procs k) (first_process k) xs c\<close>])
        (use same_links_proc [OF all(2)] in blast)
    have w: "wrap_next k1 (first_process k1) = wrap_next k1 0" by (simp add: wrap_next_def)
    have cx: "current_process k1 \<notin> set xs" using f c by simp
    from schedule_stretch [OF all(3) xs sub(2) cx]
    consider (found) q k' pr where "schedule_from k1 (wrap_next k1 0) = Some (q, k')" "same_links k1 k'"
        "sched_ready k' ps" "q \<in> set xs" "procs k' q = Some pr" "runnable pr"
      | (none) k2 where "schedule_from k1 (wrap_next k1 0) = schedule_from k2 (wrap_next k2 c)"
        "same_links k1 k2" "sched_ready k2 ps" "\<forall>q \<in> set xs. \<not> runnable (the (procs k1 q))"
      unfolding w by blast
    then show ?thesis
    proof cases
      case found
      with all same_links_trans [OF all(2)] ps nz show ?thesis by auto
    next
      case none
      have "current_process k2 = c" using none(2) f by (simp add: same_links_def)
      moreover have "wrap_next k2 c = c" using nz ps by (simp add: wrap_next_def)
      ultimately have "schedule_from k2 (wrap_next k2 c) = Some (c, k2)"
        by (simp add: schedule_from.simps [of k2 c])
      moreover have "\<not> runnable (the (procs k q))" if "q \<in> set xs" for q
        using nz [of q] that none(4) not_runnable_links [OF all(2)] ps by auto
      ultimately show ?thesis using all none same_links_trans [OF all(2)] by auto
    qed
  qed
qed

lemma schedule_finds_runnable:
  assumes r: "sched_ready k ps" and c: "current_process k = 0 \<or> current_process k \<in> set ps"
    and q: "q \<in> set ps" "runnable (the (procs k q))"
  shows "\<exists>k' pr. process_schedule k = Some k' \<and> current_process k' \<in> set ps \<and>
     procs k' (current_process k') = Some pr \<and> runnable pr \<and>
     previous_process k' = current_process k \<and> sched_ready k' ps"
proof -
  have ch: "chain (procs k) (first_process k) ps" using r by (simp add: sched_ready_def)
  have fin: ?thesis if "(if current_process k = 0 then Some (first_process k)
       else do { cur \<leftarrow> procs k (current_process k); Some (wrap_next k (p_next cur)) }) = Some st"
     "schedule_from k st = Some (p, k1)" "same_links k k1" "sched_ready k1 ps" "p \<in> set ps"
     "procs k1 p = Some pr" "runnable pr" for st p k1 pr
  proof -
    have "p \<noteq> 0" using chain_mem [OF ch that(5)] by simp
    moreover have "\<not> on_hold pr" using that by (simp add: runnable_def)
    moreover have "current_process k1 = current_process k" using that by (simp add: same_links_def)
    moreover have "sched_ready (k1\<lparr>previous_process := a, current_process := p\<rparr>) ps" for a
      using that(4) by (simp add: sched_ready_def reclaimable_def owned_def)
    ultimately show ?thesis using that by (simp add: process_schedule_def)
  qed
  show ?thesis
  proof (cases "current_process k = 0")
    case True
    have "current_process k \<notin> set ps" using True chain_mem [OF ch] by blast
    moreover have "wrap_next k (first_process k) = first_process k" by (simp add: wrap_next_def)
    ultimately obtain p k1 pr where "schedule_from k (first_process k) = Some (p, k1)" "same_links k k1"
       "sched_ready k1 ps" "p \<in> set ps" "procs k1 p = Some pr" "runnable pr"
      using schedule_stretch [OF r ch [unfolded chain_seg] subset_refl] q by fastforce
    with fin True show ?thesis by simp
  next
    case False
    with c obtain xs ys where ps: "ps = xs @ current_process k # ys" by (metis split_list)
    obtain cur where cur: "procs k (current_process k) = Some cur" using chain_mem [OF ch] ps by fastforce
    from schedule_round [OF r ps refl cur] show ?thesis
    proof (elim disjE exE conjE)
      fix p k1 pr
      assume "schedule_from k (wrap_next k (p_next cur)) = Some (p, k1)" "same_links k k1"
        "sched_ready k1 ps" "p \<in> set ps" "procs k1 p = Some pr" "runnable pr"
      with fin cur False show ?thesis by simp
    next
      fix k1
      assume a: "schedule_from k (wrap_next k (p_next cur)) = Some (current_process k, k1)"
        "same_links k k1" "sched_ready k1 ps" "\<forall>q \<in> set (ys @ xs). \<not> runnable (the (procs k q))"
      then have "q = current_process k" using q ps by auto
      with q cur have "runnable cur" by simp
      with same_links_proc [OF a(2) cur] obtain pr where "procs k1 (current_process k) = Some pr" "runnable pr"
        by blast
      with fin a cur False ps show ?thesis by simp
    qed
  qed
qed

text \<open>
  C5. The scheduler always finds a process to run: when some process of the list is neither
  held nor terminated, and the terminated ones can be reclaimed, \<open>process_schedule\<close> returns
  (its unbounded loop ends, and neither panic is reached), and the process it makes current is
  in the list and can run.
\<close>

theorem process_schedule_runs:
  assumes "sched_ready k ps" "current_process k = 0 \<or> current_process k \<in> set ps"
    and "q \<in> set ps" "\<not> on_hold (the (procs k q))" "\<not> terminated (the (procs k q))"
  shows "\<exists>k' pr. process_schedule k = Some k' \<and> current_process k' \<in> set ps \<and>
     procs k' (current_process k') = Some pr \<and> \<not> on_hold pr \<and> \<not> terminated pr \<and>
     previous_process k' = current_process k \<and> sched_ready k' ps"
  using schedule_finds_runnable [OF assms(1-3)] assms(4,5) by (auto simp: runnable_def)

subsection \<open>Fairness\<close>

text \<open>The processes in the order in which the scheduler considers them when \<open>c\<close> runs.\<close>

definition rotation :: "ptr list \<Rightarrow> ptr \<Rightarrow> ptr list" where
  "rotation ps c = tl (dropWhile (\<lambda>p. p \<noteq> c) ps) @ takeWhile (\<lambda>p. p \<noteq> c) ps @ [c]"

lemma rotation_split:
  assumes "c \<notin> set xs"
  shows "rotation (xs @ c # ys) c = ys @ xs @ [c]"
proof -
  have "\<forall>x \<in> set xs. x \<noteq> c" using assms by auto
  then have "dropWhile (\<lambda>p. p \<noteq> c) (xs @ c # ys) = c # ys" "takeWhile (\<lambda>p. p \<noteq> c) (xs @ c # ys) = xs"
    by (induction xs) auto
  then show ?thesis by (simp add: rotation_def)
qed

lemma rotation_cases:
  assumes "c \<in> set ps" "distinct ps"
  obtains xs ys where "ps = xs @ c # ys" "rotation ps c = ys @ xs @ [c]" "distinct (ys @ xs @ [c])"
proof -
  obtain xs ys where ps: "ps = xs @ c # ys" using assms by (metis split_list)
  with assms have "c \<notin> set xs" "distinct (ys @ xs @ [c])" by auto
  with ps rotation_split show thesis by (intro that [of xs ys]) auto
qed

lemma set_rotation:
  assumes "c \<in> set ps" "distinct ps"
  shows "set (rotation ps c) = set ps" "distinct (rotation ps c)" "length (rotation ps c) = length ps"
proof -
  from assms obtain xs ys where "ps = xs @ c # ys" "rotation ps c = ys @ xs @ [c]" "distinct (ys @ xs @ [c])"
    by (rule rotation_cases)
  then show "set (rotation ps c) = set ps" "distinct (rotation ps c)" "length (rotation ps c) = length ps"
    by auto
qed

lemma rotation_next:
  assumes c: "c \<in> set ps" "distinct ps" and r: "rotation ps c = us @ q # vs"
  shows "rotation ps q = vs @ us @ [q]"
proof -
  from c obtain xs ys where ps: "ps = xs @ c # ys" "rotation ps c = ys @ xs @ [c]" "distinct (ys @ xs @ [c])"
    by (rule rotation_cases)
  have eq: "ys @ xs @ [c] = us @ q # vs" using ps r by simp
  have split: "a = us \<and> b = vs" if "ys @ xs @ [c] = a @ q # b" for a b
  proof -
    have "q \<notin> set us" "q \<notin> set vs" using ps(3) unfolding eq by auto
    then show ?thesis using that eq by (metis append_Cons_eq_iff)
  qed
  consider "q \<in> set ys" | "q \<in> set xs" | "q = c" using eq by (metis UnE in_set_conv_decomp set_append set_ConsD empty_iff empty_set)
  then show ?thesis
  proof cases
    case 1
    then obtain y1 y2 where y: "ys = y1 @ q # y2" by (metis split_list)
    then have "y1 = us \<and> y2 @ xs @ [c] = vs" by (intro split) simp
    moreover have "rotation ((xs @ c # y1) @ q # y2) q = y2 @ (xs @ c # y1) @ [q]"
      by (rule rotation_split) (use ps(3) y in auto)
    ultimately show ?thesis using ps(1) y by auto
  next
    case 2
    then obtain x1 x2 where x: "xs = x1 @ q # x2" by (metis split_list)
    then have "ys @ x1 = us \<and> x2 @ [c] = vs" by (intro split) simp
    moreover have "rotation (x1 @ q # (x2 @ c # ys)) q = (x2 @ c # ys) @ x1 @ [q]"
      by (rule rotation_split) (use ps(3) x in auto)
    ultimately show ?thesis using ps(1) x by auto
  next
    case 3
    then have "ys @ xs = us \<and> [] = vs" by (intro split) simp
    with ps 3 show ?thesis by auto
  qed
qed

text \<open>No terminated process of the list is left to reclaim.\<close>

definition settled :: "kernel \<Rightarrow> ptr list \<Rightarrow> bool" where
  "settled k ps \<longleftrightarrow> chain (procs k) (first_process k) ps \<and>
     (\<forall>p \<in> set ps. terminated (the (procs k p)) \<longrightarrow> cleaned (the (procs k p)))"

lemma schedule_settled:
  assumes "seg (procs k) n zs e" "current_process k \<notin> set zs"
    "\<forall>p \<in> set zs. terminated (the (procs k p)) \<longrightarrow> cleaned (the (procs k p))"
  shows "schedule_from k (wrap_next k n) =
    (case find (\<lambda>p. runnable (the (procs k p))) zs of
       Some q \<Rightarrow> Some (q, k) | None \<Rightarrow> schedule_from k (wrap_next k e))"
  using assms
proof (induction zs arbitrary: n)
  case (Cons z zs)
  then obtain pr where pr: "n = z" "procs k z = Some pr" "seg (procs k) (p_next pr) zs e"
    and z: "z \<noteq> current_process k" and wn: "wrap_next k n = z" by (auto simp: wrap_next_def)
  have cl: "\<not> (terminated pr \<and> \<not> cleaned pr)" using Cons.prems(3) pr by auto
  have "schedule_from k z = (if runnable pr then Some (z, k) else schedule_from k (wrap_next k (p_next pr)))"
    by (subst schedule_from.simps) (use pr z cl in auto)
  with Cons.IH [OF pr(3)] Cons.prems pr wn show ?case by simp
qed simp

text \<open>
  Round robin: the next process is the first one that can run, in the order of the list after
  the current process, with the current process last.
\<close>

lemma process_schedule_round_robin:
  assumes st: "settled k ps" and c: "current_process k \<in> set ps"
    and q: "q \<in> set ps" "runnable (the (procs k q))"
  shows "\<exists>p. find (\<lambda>p. runnable (the (procs k p))) (rotation ps (current_process k)) = Some p \<and>
     process_schedule k = Some (k\<lparr>previous_process := current_process k, current_process := p\<rparr>)"
proof -
  let ?c = "current_process k"
  let ?run = "\<lambda>p. runnable (the (procs k p))"
  have ch: "chain (procs k) (first_process k) ps" using st by (simp add: settled_def)
  have d: "distinct ps" by (rule chain_distinct [OF ch])
  from c d obtain xs ys where ps: "ps = xs @ ?c # ys" "rotation ps ?c = ys @ xs @ [?c]" "distinct (ys @ xs @ [?c])"
    by (rule rotation_cases)
  have "q \<in> set (rotation ps ?c)" using set_rotation [OF c d] q by simp
  with q obtain p where p: "find ?run (rotation ps ?c) = Some p" by (cases "find ?run (rotation ps ?c)") (auto simp: find_None_iff)
  have fr: "p \<in> set (rotation ps ?c)" "?run p" using p by (auto simp: find_Some_iff)
  obtain cur where cur: "procs k ?c = Some cur" "?c \<noteq> 0" using chain_mem [OF ch c] by blast
  from ch [unfolded ps(1)] cur have sx: "seg (procs k) (first_process k) xs ?c" and sy: "seg (procs k) (p_next cur) ys 0"
    unfolding chain_append by (auto simp: chain_seg)
  have cl: "\<forall>p \<in> set (ys @ xs). terminated (the (procs k p)) \<longrightarrow> cleaned (the (procs k p))"
    using st ps(1) by (auto simp: settled_def)
  have "schedule_from k (wrap_next k (p_next cur)) =
      (case find ?run ys of Some q \<Rightarrow> Some (q, k) | None \<Rightarrow> schedule_from k (wrap_next k 0))"
    by (rule schedule_settled [OF sy]) (use cl ps(3) in auto)
  moreover have "schedule_from k (wrap_next k (first_process k)) =
      (case find ?run xs of Some q \<Rightarrow> Some (q, k) | None \<Rightarrow> schedule_from k (wrap_next k ?c))"
    by (rule schedule_settled [OF sx]) (use cl ps(3) in auto)
  moreover have "schedule_from k (wrap_next k ?c) = Some (?c, k)"
    using cur by (simp add: wrap_next_def schedule_from.simps [of k ?c])
  moreover have "wrap_next k (first_process k) = wrap_next k 0" by (simp add: wrap_next_def)
  moreover have "find ?run (rotation ps ?c) = (case find ?run ys of Some q \<Rightarrow> Some q | None \<Rightarrow>
      (case find ?run xs of Some q \<Rightarrow> Some q | None \<Rightarrow> if ?run ?c then Some ?c else None))"
    unfolding ps(2) by (induction ys) (induction xs, auto)
  ultimately have "schedule_from k (wrap_next k (p_next cur)) = Some (p, k)" using p by (auto split: option.splits if_splits)
  moreover have "p \<in> set ps" "?run p" using fr set_rotation [OF c d] by auto
  then obtain pr where "procs k p = Some pr" "p \<noteq> 0" "runnable pr" using chain_mem [OF ch] by fastforce
  ultimately show ?thesis using p cur by (simp add: process_schedule_def runnable_def)
qed

lemma find_SomeD: "find P xs = Some x \<Longrightarrow> \<exists>us vs. xs = us @ x # vs \<and> P x \<and> (\<forall>u \<in> set us. \<not> P u)"
proof (induction xs)
  case (Cons y ys)
  show ?case
  proof (cases "P y")
    case True
    then show ?thesis using Cons.prems by (intro exI [of _ "[]"] exI [of _ ys]) auto
  next
    case False
    then obtain us vs where "ys = us @ x # vs" "P x" "\<forall>u \<in> set us. \<not> P u" using Cons by auto
    then show ?thesis using False by (intro exI [of _ "y # us"] exI [of _ vs]) auto
  qed
qed simp

lemma takeWhile_less: "q \<in> set xs \<Longrightarrow> length (takeWhile (\<lambda>p. p \<noteq> q) xs) < length xs"
  by (induction xs) auto

definition distance :: "ptr list \<Rightarrow> ptr \<Rightarrow> ptr \<Rightarrow> nat" where
  "distance ps c q = length (takeWhile (\<lambda>p. p \<noteq> q) (rotation ps c))"

lemma distance_decreases:
  assumes "settled k ps" "current_process k \<in> set ps" "q \<in> set ps" "runnable (the (procs k q))"
    "process_schedule k = Some k'"
  shows "current_process k' \<in> set ps \<and>
     (current_process k' = q \<or> distance ps (current_process k') q < distance ps (current_process k) q)"
proof -
  let ?c = "current_process k"
  have d: "distinct ps" using assms(1) chain_distinct by (auto simp: settled_def)
  obtain p where f: "find (\<lambda>p. runnable (the (procs k p))) (rotation ps ?c) = Some p"
    and p: "current_process k' = p" using process_schedule_round_robin [OF assms(1-4)] assms(5) by auto
  obtain us vs where s: "rotation ps ?c = us @ p # vs" "\<forall>u \<in> set us. \<not> runnable (the (procs k u))"
    using find_SomeD [OF f] by blast
  have "rotation ps p = vs @ us @ [p]" by (rule rotation_next [OF assms(2) d s(1)])
  moreover have "p \<in> set ps" using s(1) set_rotation(1) [OF assms(2) d] by auto
  moreover have "q \<in> set (us @ p # vs)" using assms(3) set_rotation(1) [OF assms(2) d] s(1) by simp
  then have "p \<noteq> q \<Longrightarrow> q \<in> set vs" using s(2) assms(4) by auto
  moreover have "\<forall>u \<in> set us. u \<noteq> q" using s(2) assms(4) by auto
  ultimately show ?thesis unfolding p by (auto simp: distance_def s(1) takeWhile_append)
qed

text \<open>
  C6. The scheduler starves nobody.  Let \<open>at i\<close> be the kernel at the \<open>i\<close>-th scheduling; what
  runs in between may hold, wake and signal processes as it likes.  A process \<open>q\<close> that can run
  at each of them becomes the current process after at most as many schedulings as there are
  processes in the list.
\<close>

theorem process_schedule_fair:
  assumes st: "\<forall>i. settled (at i) ps" and mem: "q \<in> set ps"
    and can: "\<forall>i. \<not> on_hold (the (procs (at i) q)) \<and> \<not> terminated (the (procs (at i) q))"
    and cur: "current_process (at 0) \<in> set ps"
    and run: "\<forall>i. \<exists>k'. process_schedule (at i) = Some k' \<and> current_process (at (Suc i)) = current_process k'"
  shows "\<exists>i. 0 < i \<and> i \<le> length ps \<and> current_process (at i) = q"
proof -
  have q: "q \<in> set ps" "\<forall>i. runnable (the (procs (at i) q))" using mem can by (simp_all add: runnable_def)
  have step: "current_process (at (Suc i)) \<in> set ps \<and> (current_process (at (Suc i)) = q \<or>
      distance ps (current_process (at (Suc i))) q < distance ps (current_process (at i)) q)"
    if "current_process (at i) \<in> set ps" for i
    using run distance_decreases [OF spec [OF st] that q(1) spec [OF q(2)]] by metis
  have "\<exists>j. 0 < j \<and> j \<le> Suc n \<and> current_process (at (i + j)) = q"
    if "current_process (at i) \<in> set ps" "distance ps (current_process (at i)) q \<le> n" for i n
    using that
  proof (induction n arbitrary: i)
    case 0
    with step [of i] show ?case by (intro exI [of _ 1]) auto
  next
    case (Suc n)
    show ?case
    proof (cases "current_process (at (Suc i)) = q")
      case True
      then show ?thesis by (intro exI [of _ 1]) auto
    next
      case False
      with step [of i] Suc.prems have "distance ps (current_process (at (Suc i))) q \<le> n"
        "current_process (at (Suc i)) \<in> set ps" by auto
      from Suc.IH [OF this(2,1)] obtain j where "0 < j" "j \<le> Suc n" "current_process (at (Suc i + j)) = q"
        by blast
      then show ?thesis by (intro exI [of _ "Suc j"]) auto
    qed
  qed
  moreover have "distinct ps" using spec [OF st, of 0] chain_distinct by (auto simp: settled_def)
  have "distance ps (current_process (at 0)) q < length ps"
    unfolding distance_def set_rotation(3) [OF cur \<open>distinct ps\<close>, symmetric]
    by (rule takeWhile_less) (use q(1) set_rotation(1) [OF cur \<open>distinct ps\<close>] in auto)
  then have "distance ps (current_process (at 0)) q \<le> length ps - 1" and l: "Suc (length ps - 1) = length ps"
    by auto
  ultimately obtain j where "0 < j" "j \<le> Suc (length ps - 1)" "current_process (at (0 + j)) = q"
    using cur by blast
  then show ?thesis unfolding l by auto
qed

section \<open>Copy on write\<close>

lemma walk_tables_present:
  "walk_word (kread k) (cr3 proc) va LEVELS = Some r \<Longrightarrow>
   walk_tables k proc va = Some (entry_at r va 12, proc, k)"
  by (auto simp: LEVELS_def walk_tables_def ensure_table_def Let_def not_present_and split: if_splits)

lemma find_user_map_index: "find_user_map ms va j = Some i \<Longrightarrow> j \<le> i \<and> i - j < length ms"
  by (induction ms va j rule: find_user_map.induct) (fastforce split: if_splits)+

lemma page_users_kwrite [simp]: "page_users (kphy (kwrite a v k)) = page_users (kphy k)"
  "users_wf (kphy (kwrite a v k)) = users_wf (kphy k)"
  by (simp_all add: kwrite_def page_users_def users_wf_def fun_eq_iff)

lemma copy_page_sel [simp]:
  "kread (copy_page d s k) a = (if a - d < 4096 then kread k (s + (a - d)) else kread k a)"
  "pages (kphy (copy_page d s k)) = pages (kphy k)" "map_supply (copy_page d s k) = map_supply k"
  by (simp_all add: copy_page_def kread_def)

lemma users_by_pages:
  "pages s = pages s' \<Longrightarrow> page_users s = page_users s'" "pages s = pages s' \<Longrightarrow> users_wf s = users_wf s'"
  by (simp_all add: page_users_def users_wf_def fun_eq_iff)

lemma free_page_pmem: "free_page_for_program s i m = Some s' \<Longrightarrow> pmem s' = pmem s"
  by (auto simp: free_page_for_program_def Let_def split: if_splits list.splits)

lemma keeps_used_users:
  "keeps_used k k' \<Longrightarrow> page_users (kphy k) i \<noteq> {} \<Longrightarrow> page_users (kphy k') i = page_users (kphy k) i \<and>
     page_base k' i = page_base k i"
  by (auto simp: keeps_used_def page_users_def page_base_def split: if_splits)

lemma add_new_m_map_users_wf:
  assumes "users_wf (kphy k)" "add_new_m_map_for_process k proc ty sh w va = Some (m, proc', k')"
  shows "users_wf (kphy k')"
proof -
  from assms(2) obtain p ps i ph where "map_supply k = p # ps"
    and g: "get_phy_page_for_program (kphy k) p = Some (i, ph)"
    and k': "k' = kzero (base (pages ph ! i)) (k\<lparr>map_supply := ps, kphy := ph\<rparr>)"
    by (auto simp: add_new_m_map_for_process_def sf_calloc_map_def Let_def bind_eq_Some_conv' split: list.splits)
  from phy_sharing.alloc_law [OF assms(1) g] have "users_wf ph" by blast
  then show ?thesis unfolding k' by (simp add: kzero_def users_wf_def)
qed

lemma used_not_free:
  assumes "frames_ok k" "page_users (kphy k) i \<noteq> {}"
  shows "page_base k i \<notin> kfree k" "frame (page_base k i) = page_base k i"
proof -
  have i: "i < length (pages (kphy k))" "used_by (pages (kphy k) ! i) = 3"
    using assms(2) by (auto simp: page_users_def split: if_splits)
  then show "frame (page_base k i) = page_base k i" using assms(1) by (simp add: frames_ok_def page_base_def)
  have "base (pages (kphy k) ! i) \<noteq> base (pages (kphy k) ! n)"
    if "n < length (pages (kphy k))" "used_by (pages (kphy k) ! n) = 0" for n
  proof -
    have "n \<noteq> i" using that i by auto
    with assms(1) that i show ?thesis by (auto simp: frames_ok_def distinct_conv_nth)
  qed
  then show "page_base k i \<notin> kfree k"
    by (auto simp: kfree_def free_bases_def page_base_def in_set_conv_nth)
qed

text \<open>
  C7. Copy on write.  On a write fault at an address the process may write, whose page it shares:
  the handler returns true; the address then translates to a page that was free, which the
  process may write and whose contents are those of the shared page; the map of the shared page
  is replaced by a map of the new one at the end of the list; the other maps still own the
  shared page; and no memory changes besides the new page and the page table entry.
\<close>

theorem copy_on_write:
  fixes k :: kmem and ms :: "m_map list" and j :: nat and addr r :: u64 and proc :: "'z addr_space_scheme"
  defines "old \<equiv> ms ! j" and "pte \<equiv> entry_at r addr 12"
  assumes can: "can_map 4 k (cr3 proc) addr" and wk: "walk_word (kread k) (cr3 proc) addr LEVELS = Some r"
    and maps: "first_map proc = m0 # ms" "find_user_map ms addr 0 = Some j" "rw old"
    and wf: "users_wf (kphy k)" and own: "mm_ptr old \<in> page_users (kphy k) (phy_page old)"
    and sep: "page_base k (phy_page old) \<noteq> frame r"
  shows "\<exists>dest m k'. check_and_handle_rw_page_fault k proc addr =
      Some (True, proc\<lparr>first_map := m0 # take j ms @ drop (Suc j) ms @ [m]\<rparr>, k') \<and>
      dest \<in> kfree k \<and> translate_cr3 (kread k') (cr3 proc) addr = dest + (addr AND 0xFFF) \<and>
      bit (kread k' pte) 1 \<and> vir_addr m = addr \<and> rw m \<and> mm_type m = 2 \<and>
      (\<forall>i < 4096. kread k' (dest + i) = kread k (page_base k (phy_page old) + i)) \<and>
      page_users (kphy k') (phy_page old) = page_users (kphy k) (phy_page old) - {mm_ptr old} \<and>
      (\<forall>a. \<not> a - dest < 4096 \<longrightarrow> a \<noteq> pte \<longrightarrow> kread k' a = kread k a)"
proof -
  have ok: "frames_ok k" and ne: "map_supply k \<noteq> []" "kfree k \<noteq> {}" using can by (auto simp: can_map_def)
  have j: "j < length ms" using find_user_map_index [OF maps(2)] by simp
  let ?b = "page_base k (phy_page old)"
  have nf: "?b \<notin> kfree k" "frame ?b = ?b" using used_not_free [OF ok] own by auto
  from add_new_m_map_spec [OF ok ne, of proc 2 False True addr]
  obtain m k2 where a: "add_new_m_map_for_process k proc 2 False True addr =
      Some (m, proc\<lparr>first_map := first_map proc @ [m]\<rparr>, k2)"
    and d: "page_base k2 (phy_page m) \<in> kfree k" and ku: "keeps_used k k2"
    and m: "mm_type m = 2" "vir_addr m = addr" "rw m"
    and rd: "\<And>a. kread k2 a = (if a - page_base k2 (phy_page m) < 4096 then 0 else kread k a)" by auto
  define dest where "dest = page_base k2 (phy_page m)"
  note d = d [folded dest_def] and rd = rd [folded dest_def]
  have al: "frame dest = dest" using kfree_frame [OF ok d] .
  have fr: "frame r \<noteq> dest" using last_table_used [OF wk, of "kfree k"] can d by (auto simp: can_map_def)
  have wk2: "walk_word (kread k2) (cr3 proc) addr LEVELS = Some r"
    "walk_frames (kread k2) (cr3 proc) addr LEVELS = walk_frames (kread k) (cr3 proc) addr LEVELS"
    by (rule clear_free_walk [OF can wk d rd])+
  define k3 where "k3 = write_pte pte True dest k2"
  have add: "add_page_for_process k proc addr True 2 = Some (dest, proc\<lparr>first_map := first_map proc @ [m]\<rparr>, k3)"
    using walk_tables_present [OF wk] a by (simp add: add_page_for_process_def Let_def dest_def k3_def pte_def)
  have u2: "page_users (kphy k2) (phy_page old) = page_users (kphy k) (phy_page old)" "page_base k2 (phy_page old) = ?b"
    using keeps_used_users [OF ku] own by auto
  have b3: "page_base k3 (phy_page old) = ?b" using u2 by (simp add: k3_def write_pte_def)
  define k4 where "k4 = copy_page dest ?b k3"
  have p4: "pages (kphy k4) = pages (kphy k2)" by (simp add: k4_def k3_def write_pte_def kwrite_def)
  have "users_wf (kphy k4)" using users_by_pages(2) [OF p4] add_new_m_map_users_wf [OF wf a] by simp
  moreover have u4: "page_users (kphy k4) (phy_page old) = page_users (kphy k) (phy_page old)"
    using users_by_pages(1) [OF p4] u2 by simp
  ultimately obtain ph where ph: "free_page_for_program (kphy k4) (phy_page old) (mm_ptr old) = Some ph"
    "page_users ph = (page_users (kphy k4))(phy_page old := page_users (kphy k4) (phy_page old) - {mm_ptr old})"
    using phy_sharing.free_law own by metis
  let ?k' = "k4\<lparr>kphy := ph\<rparr>"
  have rd': "kread ?k' a = kread k4 a" for a using free_page_pmem [OF ph(1)] by (simp add: kread_def)
  have rd3: "kread k3 a = (if a = pte then kread k3 pte else if a - dest < 4096 then 0 else kread k a)" for a
    by (simp add: k3_def write_pte_def rd)
  have "\<not> pte - dest < 4096" using fr al unfolding pte_def by (simp add: entry_at_page)
  then have pte4: "kread k4 pte = kread k3 pte" by (simp add: k4_def)
  have same: "kread k4 a = kread k a" if "\<not> a - dest < 4096" "a \<noteq> pte" for a
    using that rd3 [of a] by (simp add: k4_def)
  have cp: "kread k4 (dest + i) = kread k (?b + i)" if i: "i < 4096" for i
  proof -
    have ib: "?b + i - ?b < 4096" using i by simp
    have "?b + i \<noteq> pte" using ib nf sep unfolding pte_def by (metis entry_at_page)
    moreover have "\<not> ?b + i - dest < 4096"
      using in_page_iff [OF nf(2) al, of i] i nf(1) d by (auto simp: word_less_nat_alt)
    ultimately show ?thesis using i rd3 [of "?b + i"] by (simp add: k4_def)
  qed
  have "walk_word (kread k4) (cr3 proc) addr LEVELS = Some r"
  proof (rule walk_cong [THEN conjunct1, OF _ wk])
    fix w' sh assume w': "frame w' \<in> set (butlast (walk_frames (kread k) (cr3 proc) addr LEVELS))"
    let ?fs = "walk_frames (kread k) (cr3 proc) addr LEVELS"
    have "?fs = butlast ?fs @ [frame r]"
      using append_butlast_last_id [OF walk_frames_ne, of "kread k" "cr3 proc" addr LEVELS]
      by (simp add: last_walk_frames [OF wk])
    moreover have "distinct ?fs" "set ?fs \<inter> kfree k = {}" using can by (simp_all add: can_map_def)
    ultimately have "frame w' \<noteq> frame r" "frame w' \<notin> kfree k"
      using w' in_set_butlastD [OF w'] by (metis distinct_append disjoint_iff list.set_intros(1))+
    then show "kread k4 (entry_at w' addr sh) = kread k (entry_at w' addr sh)"
      using d al by (intro same) (auto simp: entry_at_page pte_def dest: entry_at_eq_frame)
  qed
  moreover have pr: "present (kread k3 pte)" "frame (kread k3 pte) = dest"
    using al by (simp_all add: k3_def write_pte_def)
  moreover have wr: "bit (kread k3 pte) 1" unfolding k3_def by (simp only: writable_write_pte)
  ultimately have tr: "translate_cr3 (kread k4) (cr3 proc) addr = dest + (addr AND 0xFFF)"
    using translate_levels [of "kread k4" "cr3 proc" addr r] pte4 by (simp add: pte_def)
  have fm: "take (Suc j) (m0 # ms @ [m]) @ drop (Suc (Suc j)) (m0 # ms @ [m]) = m0 # take j ms @ drop (Suc j) ms @ [m]"
    using j by simp
  have "check_and_handle_rw_page_fault k proc addr =
      Some (True, proc\<lparr>first_map := m0 # take j ms @ drop (Suc j) ms @ [m]\<rparr>, ?k')"
    using maps add ph(1) b3 fm by (simp add: check_and_handle_rw_page_fault_def Let_def old_def k4_def)
  moreover have "kread ?k' = kread k4" using rd' by (rule ext)
  ultimately show ?thesis
    using d tr wr pte4 m cp same ph(2) u4
    by (intro exI [of _ dest] exI [of _ m] exI [of _ ?k']) simp
qed

section \<open>Instances\<close>

text \<open>
  Three processes: the first waits for any child, the second runs, the third is a terminated
  child of the first that holds a page and a file.
\<close>

definition example_map :: m_map where
  "example_map = \<lparr>mm_ptr = 8, mm_type = 2, phy_page = 3, vir_addr = 0x4005, mm_proc = 0x30,
     shared = True, rw = True\<rparr>"

definition proc1 :: process where
  "proc1 = (zero_process 0x10)\<lparr>pid := 1, p_next := 0x20, on_hold := True, id_wait_for := - 1\<rparr>"
definition proc2 :: process where
  "proc2 = (zero_process 0x20)\<lparr>pid := 2, p_next := 0x30, parent := 0x10\<rparr>"
definition proc3 :: process where
  "proc3 = (zero_process 0x30)\<lparr>pid := 3, parent := 0x10, on_hold := True, terminated := True,
     first_map := [example_map], open_fd := (replicate FD_SIZE None)[0 := Some 16]\<rparr>"

definition kernel_example :: kernel where
  "kernel_example = \<lparr>procs = [0x10 \<mapsto> proc1, 0x20 \<mapsto> proc2, 0x30 \<mapsto> proc3], first_process = 0x10,
     current_process = 0x20, previous_process = 0, id_count = 4, proc_supply = [0x40],
     kmm = \<lparr>kphy = phy_example, map_supply = [24, 32]\<rparr>, kfs = pipe_example,
     first_waiter = [], disk_tasks = [],
     disks = [\<lparr>exist = True, port_p = port_example\<rparr>], terminal_buffer = replicate 256 0, terminal_buffer_end = 0,
     terminal_file_in = (32, 16), terminal_file_out = (32, 16), foreground_pid = 0,
     kscreen = \<lparr>vmem = replicate 4000 0, cursor = 0, topright_length = 0, scr_color = 7\<rparr>,
     shift = False, ctrl = False, last_key_pressed = [0, 0, 0, 0, 0], pic_tick_count = 0, rand_seed = 23213,
     kpt_of = \<lparr>kernel_page_table_PML4 = 0x300000, kernel_malloc_pd = 0x301000, kernel_base_pd = 0x302000\<rparr>,
     after_context_switch = 0xFFFFFFFF80200000, task_cr3 = 0\<rparr>"

lemmas example_procs = kernel_example_def proc1_def proc2_def proc3_def zero_process_def

lemma kernel_example_sel [simp]:
  "procs kernel_example = [0x10 \<mapsto> proc1, 0x20 \<mapsto> proc2, 0x30 \<mapsto> proc3]"
  "first_process kernel_example = 0x10" "current_process kernel_example = 0x20"
  "kphy (kmm kernel_example) = phy_example" "kfs kernel_example = pipe_example"
  by (simp_all add: kernel_example_def)

lemma proc_sel [simp]:
  "pid proc1 = 1" "pid proc2 = 2" "pid proc3 = 3" "p_next proc1 = 0x20" "p_next proc2 = 0x30"
  "p_next proc3 = 0" "runnable proc2" "\<not> runnable proc1" "\<not> runnable proc3"
  "parent proc3 = 0x10" "first_map proc3 = [example_map]" "id_wait_for proc1 = - 1"
  "open_fd proc3 = Some 16 # replicate 15 None" "terminated proc3" "\<not> cleaned proc3"
  "\<not> terminated proc1" "\<not> terminated proc2"
  by (simp_all add: example_procs runnable_def FD_SIZE_def numeral_eq_Suc)

lemma kernel_example_chain: "chain (procs kernel_example) (first_process kernel_example) [0x10, 0x20, 0x30]"
  by simp

lemma example_reclaimable: "reclaimable kernel_example 0x30"
  by (auto simp: reclaimable_def example_map_def page_users_def phy_example_def pipe_example_def)

lemma phy_example_wf: "users_wf phy_example"
  by (simp add: users_wf_def phy_example_def)

lemma kernel_example_ready: "sched_ready kernel_example [0x10, 0x20, 0x30]"
  using example_reclaimable phy_example_wf kernel_example_chain
  by (auto simp: sched_ready_def unclean_def)

theorem search_process_find_witness:
  "search_process kernel_example 2 = Some 0x20"
  by (subst search_process_find [OF kernel_example_chain]) simp

theorem process_add_signal_delivers_witness:
  "process_add_signal kernel_example 1 9 =
     Some (1, put_proc 0x10 (proc1\<lparr>sig_pending := 9, on_hold := False\<rparr>) kernel_example) \<and>
   process_add_signal kernel_example 7 9 = Some (0, kernel_example)"
proof -
  have "\<forall>p pr. p \<in> set [0x10, 0x20, 0x30] \<and> procs kernel_example p = Some pr \<longrightarrow>
      process_add_signal kernel_example (pid pr) 9 =
        Some (1, put_proc p (pr\<lparr>sig_pending := 9, on_hold := False\<rparr>) kernel_example)"
    and "process_add_signal kernel_example 7 9 = Some (0, kernel_example)"
    using process_add_signal_delivers [OF kernel_example_chain, of 9 7] by simp_all
  from this(1) [rule_format, of "0x10" proc1] this(2) show ?thesis by simp
qed

theorem process_cleanup_reclaims_witness:
  "\<exists>k'. process_cleanup kernel_example 0x30 = Some k' \<and>
     page_users (kphy (kmm k')) = drop_users [example_map] (page_users phy_example) \<and>
     (\<exists>pr'. procs k' 0x30 = Some pr' \<and> cleaned pr') \<and>
     (\<exists>par'. procs k' 0x10 = Some par' \<and> \<not> on_hold par' \<and> id_wait_for_p par' = 0x30)"
  using process_cleanup_reclaims [of kernel_example "0x30" proc3] phy_example_wf example_reclaimable
  by (simp, blast)

theorem process_schedule_runs_witness:
  "\<exists>k' pr. process_schedule kernel_example = Some k' \<and> current_process k' \<in> set [0x10, 0x20, 0x30] \<and>
     procs k' (current_process k') = Some pr \<and> \<not> on_hold pr \<and> \<not> terminated pr \<and>
     previous_process k' = current_process kernel_example \<and> sched_ready k' [0x10, 0x20, 0x30]"
  by (rule process_schedule_runs [OF kernel_example_ready, of "0x20"]) (simp_all add: example_procs)

text \<open>Two processes that can run take turns.\<close>

definition turns :: "nat \<Rightarrow> kernel" where
  "turns i = kernel_example\<lparr>procs := [0x10 \<mapsto> proc1\<lparr>on_hold := False\<rparr>, 0x20 \<mapsto> proc2\<lparr>p_next := 0\<rparr>],
     current_process := if even i then 0x10 else 0x20\<rparr>"

theorem process_schedule_fair_witness:
  "\<exists>i. 0 < i \<and> i \<le> length [0x10, 0x20 :: ptr] \<and> current_process (turns i) = 0x20"
proof (rule process_schedule_fair)
  show "\<forall>i. settled (turns i) [0x10, 0x20]" by (simp add: settled_def turns_def)
  show "0x20 \<in> set [0x10, 0x20 :: ptr]" "current_process (turns 0) \<in> set [0x10, 0x20]" by (simp_all add: turns_def)
  show "\<forall>i. \<not> on_hold (the (procs (turns i) 0x20)) \<and> \<not> terminated (the (procs (turns i) 0x20))"
    by (simp add: turns_def example_procs)
  have sch: "schedule_from (turns i) (if even i then 0x20 else 0x10) = Some (if even i then 0x20 else 0x10, turns i)" for i
    by (subst schedule_from.simps) (simp add: turns_def runnable_def example_procs)
  have p1: "\<exists>pr. procs (turns i) (current_process (turns i)) = Some pr \<and>
      wrap_next (turns i) (p_next pr) = (if even i then 0x20 else 0x10)" for i
    by (simp add: turns_def wrap_next_def)
  have p2: "\<exists>pr. procs (turns i) (if even i then 0x20 else 0x10) = Some pr \<and> \<not> on_hold pr" for i
    by (simp add: turns_def proc1_def proc2_def zero_process_def)
  have c0: "current_process (turns i) \<noteq> 0" for i by (simp add: turns_def)
  have c1: "current_process (turns (Suc i)) = (if even i then 0x20 else 0x10)" for i
    by (simp add: turns_def)
  have "\<exists>k'. process_schedule (turns i) = Some k' \<and> current_process (turns (Suc i)) = current_process k'" for i
  proof -
    let ?n = "if even i then 0x20 else 0x10 :: ptr"
    obtain pr pn where "procs (turns i) (current_process (turns i)) = Some pr" "wrap_next (turns i) (p_next pr) = ?n"
      "procs (turns i) ?n = Some pn" "\<not> on_hold pn" using p1 p2 by metis
    with sch [of i] c0 [of i] have "process_schedule (turns i) =
        Some ((turns i)\<lparr>previous_process := current_process (turns i), current_process := ?n\<rparr>)"
      by (simp add: process_schedule_def)
    with c1 [of i] show ?thesis by simp
  qed
  then show "\<forall>i. \<exists>k'. process_schedule (turns i) = Some k' \<and> current_process (turns (Suc i)) = current_process k'"
    by blast
qed

text \<open>The pages of \<open>mapped_example\<close> with the mapped page shared by two maps.\<close>

definition cow_example :: kmem where
  "cow_example = mapped_example\<lparr>kphy := (kphy mapped_example)\<lparr>pages := pages (kphy mapped_example) @
     [\<lparr>base = 0x5000, used_by = 3, use_record = [\<lparr>ur_type = 1, ur_pt = 8\<rparr>, \<lparr>ur_type = 1, ur_pt = 16\<rparr>]\<rparr>]\<rparr>\<rparr>"

definition cow_map :: m_map where
  "cow_map = \<lparr>mm_ptr = 8, mm_type = 2, phy_page = 4, vir_addr = 0x4005, mm_proc = 50, shared = True, rw = True\<rparr>"

theorem copy_on_write_witness:
  "\<exists>dest m k'. check_and_handle_rw_page_fault cow_example (space_example\<lparr>first_map := [example_map, cow_map]\<rparr>) 0x4010 =
      Some (True, space_example\<lparr>first_map := [example_map, m]\<rparr>, k') \<and>
      (\<forall>i < 4096. kread k' (dest + i) = kread cow_example (page_base cow_example 4 + i)) \<and>
      page_users (kphy k') 4 = page_users (kphy cow_example) 4 - {8}"
proof -
  have f: "kfree cow_example = {0x6000, 0x7000, 0x8000, 0x9000}"
    by (simp add: kfree_def free_bases_filter cow_example_def mapped_example_def)
  have w: "walk_word (kread cow_example) 0x1000 0x4010 LEVELS = Some 0x4007"
    "walk_frames (kread cow_example) 0x1000 0x4010 LEVELS = [0x1000, 0x2000, 0x3000, 0x4000]"
    by (simp_all add: LEVELS_def kread_def present_def frame_def FRAME_MASK_def cow_example_def
        mapped_example_def entry_at_def)
  have "can_map 4 cow_example 0x1000 0x4010"
    unfolding can_map_def f w(2)
    by (simp add: cow_example_def mapped_example_def frames_ok_def frame_def FRAME_MASK_def)
  moreover have "users_wf (kphy cow_example)" "8 \<in> page_users (kphy cow_example) 4"
    by (simp_all add: cow_example_def mapped_example_def users_wf_def page_users_def)
  moreover have "page_base cow_example 4 \<noteq> frame 0x4007"
    by (simp add: cow_example_def mapped_example_def page_base_def frame_def FRAME_MASK_def)
  ultimately show ?thesis
    using copy_on_write [of cow_example "space_example\<lparr>first_map := [example_map, cow_map]\<rparr>" "0x4010" "0x4007"
        example_map "[cow_map]" 0] w(1)
    by (simp add: space_example_def cow_map_def) metis
qed

end
