(* ===== verification/Timer.thy ===== *)
theory Timer
  imports Process
begin

text \<open>
  The waiters of \<^verbatim>\<open>sys/timer.c\<close>: processes to be woken and alarms to be raised after a number of
  timer ticks, kept in the order of their registration.
\<close>

section \<open>Operations\<close>

definition SIGALRM :: u64 where "SIGALRM = 14"

definition new_waiter :: "ptr \<Rightarrow> u64 \<Rightarrow> bool \<Rightarrow> waiter" where
  "new_waiter p ticks alarm = \<lparr>w_proc = p, ticks_to_wake = ticks, is_alarm = alarm\<rparr>"

text \<open>Only a process that is not alone in the list is put on hold here.\<close>

definition register_to_be_waken :: "kernel \<Rightarrow> ptr \<Rightarrow> u64 \<Rightarrow> kernel option" where
  "register_to_be_waken k p ticks =
     (if first_waiter k = [] then Some (k\<lparr>first_waiter := [new_waiter p ticks False]\<rparr>)
      else upd_proc p (\<lambda>pr. pr\<lparr>on_hold := True\<rparr>)
             (k\<lparr>first_waiter := first_waiter k @ [new_waiter p ticks False]\<rparr>))"

definition register_to_trigger_alarm :: "kernel \<Rightarrow> ptr \<Rightarrow> u64 \<Rightarrow> kernel" where
  "register_to_trigger_alarm k p ticks =
     k\<lparr>first_waiter := first_waiter k @ [new_waiter p ticks True]\<rparr>"

definition expire :: "waiter \<Rightarrow> kernel \<Rightarrow> kernel option" where
  "expire w k = upd_proc (w_proc w) (\<lambda>pr. (if is_alarm w then pr\<lparr>sig_pending := SIGALRM\<rparr> else pr)
     \<lparr>on_hold := False\<rparr>) k"

text \<open>
  The loop over \<open>cursor->next\<close>, from the cursor on: an expired node is unlinked, but the process
  that is woken is the cursor's.
\<close>

fun tick_rest :: "kernel \<Rightarrow> waiter \<Rightarrow> waiter list \<Rightarrow> (waiter list \<times> kernel) option" where
  "tick_rest k cur [] = Some ([cur], k)"
| "tick_rest k cur (w # ws) =
     (if ticks_to_wake w = 0 then do { k' \<leftarrow> expire cur k; tick_rest k' cur ws }
      else do {
        (rest, k') \<leftarrow> tick_rest k (w\<lparr>ticks_to_wake := ticks_to_wake w - 1\<rparr>) ws;
        Some (cur # rest, k')
      })"

definition tick_timer_update :: "kernel \<Rightarrow> kernel option" where
  "tick_timer_update k =
     (case first_waiter k of
        [] \<Rightarrow> Some k
      | w # ws \<Rightarrow>
          if ticks_to_wake w = 0 then
            do {
              k1 \<leftarrow> expire w k;
              case ws of
                [] \<Rightarrow> Some (k1\<lparr>first_waiter := []\<rparr>)
              | w2 # ws2 \<Rightarrow> do { (l, k2) \<leftarrow> tick_rest k1 w2 ws2; Some (k2\<lparr>first_waiter := l\<rparr>) }
            }
          else do {
            (l, k2) \<leftarrow> tick_rest k (w\<lparr>ticks_to_wake := ticks_to_wake w - 1\<rparr>) ws;
            Some (k2\<lparr>first_waiter := l\<rparr>)
          })"

section \<open>Ticks\<close>

text \<open>The processes of all waiters exist.\<close>

definition waiters_ok :: "kernel \<Rightarrow> bool" where
  "waiters_ok k \<longleftrightarrow> (\<forall>w \<in> set (first_waiter k). \<exists>pr. procs k (w_proc w) = Some pr)"

lemma expire_spec:
  assumes "procs k (w_proc w) = Some pr"
  shows "\<exists>k'. expire w k = Some k' \<and> dom (procs k') = dom (procs k) \<and> first_waiter k' = first_waiter k \<and>
     (\<exists>pr'. procs k' (w_proc w) = Some pr' \<and> \<not> on_hold pr') \<and>
     (\<forall>q. q \<noteq> w_proc w \<longrightarrow> procs k' q = procs k q)"
  using assms by (auto simp: expire_def)

lemma tick_rest_spec:
  assumes "\<forall>w \<in> set (c # ws). \<exists>pr. procs k (w_proc w) = Some pr"
  shows "\<exists>l k'. tick_rest k c ws = Some (c # l, k') \<and> dom (procs k') = dom (procs k) \<and>
     length l \<le> length ws \<and> w_proc ` set l \<subseteq> w_proc ` set ws \<and>
     (\<forall>q pr. procs k q = Some pr \<longrightarrow> \<not> on_hold pr \<longrightarrow> (\<exists>pr'. procs k' q = Some pr' \<and> \<not> on_hold pr')) \<and>
     (\<forall>q. q \<notin> w_proc ` set (c # ws) \<longrightarrow> procs k' q = procs k q)"
  using assms
proof (induction k c ws rule: tick_rest.induct)
  case (2 k c w ws)
  show ?case
  proof (cases "ticks_to_wake w = 0")
    case True
    obtain prc where prc: "procs k (w_proc c) = Some prc" using "2.prems" by auto
    then obtain k1 where k1: "expire c k = Some k1" "dom (procs k1) = dom (procs k)"
      "\<exists>pr'. procs k1 (w_proc c) = Some pr' \<and> \<not> on_hold pr'" "\<forall>q. q \<noteq> w_proc c \<longrightarrow> procs k1 q = procs k q"
      using expire_spec by blast
    have "\<forall>w \<in> set (c # ws). \<exists>pr. procs k1 (w_proc w) = Some pr"
      using "2.prems" k1(2) by (auto simp: dom_def set_eq_iff)
    from "2.IH"(1) [OF True k1(1) this] obtain l k' where l: "tick_rest k1 c ws = Some (c # l, k')"
      "dom (procs k') = dom (procs k1)" "length l \<le> length ws" "w_proc ` set l \<subseteq> w_proc ` set ws"
      "\<forall>q pr. procs k1 q = Some pr \<longrightarrow> \<not> on_hold pr \<longrightarrow> (\<exists>pr'. procs k' q = Some pr' \<and> \<not> on_hold pr')"
      "\<forall>q. q \<notin> w_proc ` set (c # ws) \<longrightarrow> procs k' q = procs k1 q" by blast
    have "\<exists>pr'. procs k' q = Some pr' \<and> \<not> on_hold pr'" if "procs k q = Some pr" "\<not> on_hold pr" for q pr
      using that k1(3,4) l(5) by (cases "q = w_proc c") auto
    with True k1 l show ?thesis by auto
  next
    case False
    let ?w = "w\<lparr>ticks_to_wake := ticks_to_wake w - 1\<rparr>"
    have "\<forall>w \<in> set (?w # ws). \<exists>pr. procs k (w_proc w) = Some pr" using "2.prems" by auto
    from "2.IH"(2) [OF False this] obtain l k' where "tick_rest k ?w ws = Some (?w # l, k')"
      "dom (procs k') = dom (procs k)" "length l \<le> length ws" "w_proc ` set l \<subseteq> w_proc ` set ws"
      "\<forall>q pr. procs k q = Some pr \<longrightarrow> \<not> on_hold pr \<longrightarrow> (\<exists>pr'. procs k' q = Some pr' \<and> \<not> on_hold pr')"
      "\<forall>q. q \<notin> w_proc ` set (?w # ws) \<longrightarrow> procs k' q = procs k q" by blast
    with False show ?thesis by (intro exI [of _ "?w # l"] exI [of _ k']) auto
  qed
qed auto

text \<open>What one tick does to the head of the list.\<close>

lemma tick_head_counts:
  assumes "first_waiter k = w # ws" "ticks_to_wake w \<noteq> 0" "waiters_ok k"
  shows "\<exists>l k'. tick_timer_update k = Some k' \<and> waiters_ok k' \<and>
     first_waiter k' = w\<lparr>ticks_to_wake := ticks_to_wake w - 1\<rparr> # l"
proof -
  let ?w = "w\<lparr>ticks_to_wake := ticks_to_wake w - 1\<rparr>"
  have "\<forall>v \<in> set (?w # ws). \<exists>pr. procs k (w_proc v) = Some pr" using assms by (auto simp: waiters_ok_def)
  from tick_rest_spec [OF this] obtain l k' where l: "tick_rest k ?w ws = Some (?w # l, k')"
    "dom (procs k') = dom (procs k)" "w_proc ` set l \<subseteq> w_proc ` set ws" by blast
  have "waiters_ok (k'\<lparr>first_waiter := ?w # l\<rparr>)"
    using l assms by (fastforce simp: waiters_ok_def dom_def set_eq_iff)
  with l assms show ?thesis by (simp add: tick_timer_update_def)
qed

lemma tick_head_expires:
  assumes "first_waiter k = w # ws" "ticks_to_wake w = 0" "waiters_ok k"
  shows "\<exists>k' pr. tick_timer_update k = Some k' \<and> waiters_ok k' \<and>
     procs k' (w_proc w) = Some pr \<and> \<not> on_hold pr \<and> length (first_waiter k') \<le> length ws"
proof -
  obtain prw where "procs k (w_proc w) = Some prw" using assms by (auto simp: waiters_ok_def)
  then obtain k1 p1 where k1: "expire w k = Some k1" "dom (procs k1) = dom (procs k)"
    "procs k1 (w_proc w) = Some p1" "\<not> on_hold p1" using expire_spec by blast
  show ?thesis
  proof (cases ws)
    case Nil
    with assms k1 show ?thesis by (auto simp: tick_timer_update_def waiters_ok_def)
  next
    case (Cons w2 ws2)
    have "\<forall>v \<in> set (w2 # ws2). \<exists>pr. procs k1 (w_proc v) = Some pr"
      using assms Cons k1(2) by (auto simp: waiters_ok_def dom_def set_eq_iff)
    from tick_rest_spec [OF this] obtain l k' where l: "tick_rest k1 w2 ws2 = Some (w2 # l, k')"
      "dom (procs k') = dom (procs k1)" "length l \<le> length ws2" "w_proc ` set l \<subseteq> w_proc ` set ws2"
      "\<forall>q pr. procs k1 q = Some pr \<longrightarrow> \<not> on_hold pr \<longrightarrow> (\<exists>pr'. procs k' q = Some pr' \<and> \<not> on_hold pr')"
      by blast
    have "waiters_ok (k'\<lparr>first_waiter := w2 # l\<rparr>)"
      using l k1(2) assms(1,3) Cons by (fastforce simp: waiters_ok_def dom_def set_eq_iff)
    with l k1 assms Cons show ?thesis by (fastforce simp: tick_timer_update_def)
  qed
qed

fun ticks :: "nat \<Rightarrow> kernel \<Rightarrow> kernel option" where
  "ticks 0 k = Some k"
| "ticks (Suc n) k = do { k' \<leftarrow> tick_timer_update k; ticks n k' }"

lemma ticks_head:
  assumes "first_waiter k = w # ws" "waiters_ok k" "ticks_to_wake w = of_nat n" "n < 2 ^ 64"
  shows "\<exists>k' pr. ticks (Suc n) k = Some k' \<and> procs k' (w_proc w) = Some pr \<and> \<not> on_hold pr"
  using assms
proof (induction n arbitrary: k w ws)
  case 0
  then show ?case using tick_head_expires [OF 0(1) _ 0(2)] by auto
next
  case (Suc n)
  have nz: "ticks_to_wake w \<noteq> 0"
    using Suc.prems(3,4) by (metis Suc_neq_Zero unat_0 unat_of_nat_small)
  from tick_head_counts [OF Suc.prems(1) nz Suc.prems(2)] obtain l k1 where k1:
    "tick_timer_update k = Some k1" "waiters_ok k1"
    "first_waiter k1 = w\<lparr>ticks_to_wake := ticks_to_wake w - 1\<rparr> # l" by blast
  have "ticks_to_wake (w\<lparr>ticks_to_wake := ticks_to_wake w - 1\<rparr>) = of_nat n" using Suc.prems(3) by simp
  from Suc.IH [OF k1(3,2) this] Suc.prems(4) obtain k' pr where "ticks (Suc n) k1 = Some k'"
    "procs k' (w_proc w) = Some pr" "\<not> on_hold pr" by auto
  with k1(1) show ?case by auto
qed

text \<open>
  A process that sleeps is woken: when nobody else waits, registering a process for \<open>n\<close>
  ticks succeeds, and after \<open>n + 1\<close> ticks of the timer, whatever other processes have
  registered in the meantime behind it, it is not on hold.
\<close>

theorem sleeper_is_woken:
  assumes "first_waiter k = []" "procs k p = Some pr" "n < 2 ^ 64"
    and "\<forall>w \<in> set later. \<exists>pr. procs k (w_proc w) = Some pr"
  shows "\<exists>k1 k2 pr'. register_to_be_waken k p (of_nat n) = Some k1 \<and>
     ticks (Suc n) (k1\<lparr>first_waiter := first_waiter k1 @ later\<rparr>) = Some k2 \<and>
     procs k2 p = Some pr' \<and> \<not> on_hold pr'"
proof -
  let ?w = "new_waiter p (of_nat n) False"
  let ?k = "k\<lparr>first_waiter := ?w # later\<rparr>"
  have "waiters_ok ?k" using assms by (auto simp: waiters_ok_def new_waiter_def)
  from ticks_head [of ?k ?w later n] this assms(3)
  obtain k2 pr' where "ticks (Suc n) ?k = Some k2" "procs k2 p = Some pr'" "\<not> on_hold pr'"
    by (auto simp: new_waiter_def)
  with assms(1) show ?thesis by (auto simp: register_to_be_waken_def simp del: ticks.simps)
qed

section \<open>One tick\<close>

text \<open>
  \<open>fronts c ws\<close> are the waiters that the loop takes for the expired ones, as process and kind: in
  front of each expired waiter the nearest one that stays in the list, or the first of all.
\<close>

definition kind_of :: "waiter \<Rightarrow> ptr \<times> bool" where
  "kind_of w = (w_proc w, is_alarm w)"

definition fronts :: "waiter \<Rightarrow> waiter list \<Rightarrow> (ptr \<times> bool) set" where
  "fronts c ws = {kind_of a |a. \<exists>xs ys b zs. c # ws = xs @ a # ys @ b # zs \<and> ticks_to_wake b = 0 \<and>
     (\<forall>y \<in> set ys. ticks_to_wake y = 0) \<and> (xs = [] \<or> ticks_to_wake a \<noteq> 0)}"

lemma frontsI:
  "c # ws = xs @ a # ys @ b # zs \<Longrightarrow> ticks_to_wake b = 0 \<Longrightarrow> \<forall>y \<in> set ys. ticks_to_wake y = 0 \<Longrightarrow>
   xs = [] \<or> ticks_to_wake a \<noteq> 0 \<Longrightarrow> kind_of a \<in> fronts c ws"
  unfolding fronts_def by blast

lemma frontsE:
  assumes "p \<in> fronts c ws"
  obtains xs a ys b zs where "p = kind_of a" "c # ws = xs @ a # ys @ b # zs" "ticks_to_wake b = 0"
    "\<forall>y \<in> set ys. ticks_to_wake y = 0" "xs = [] \<or> ticks_to_wake a \<noteq> 0"
  using assms unfolding fronts_def by blast

lemma fronts_Nil [simp]: "fronts c [] = {}"
proof -
  have "c # [] \<noteq> xs @ a # ys @ b # zs" for xs a ys b zs by (cases xs) auto
  then show ?thesis unfolding fronts_def by blast
qed

lemma fronts_expired:
  assumes "ticks_to_wake w = 0"
  shows "fronts c (w # ws) = insert (kind_of c) (fronts c ws)"
proof (intro equalityI subsetI)
  fix p assume "p \<in> fronts c (w # ws)"
  then obtain xs a ys b zs where p: "p = kind_of a" and s: "c # w # ws = xs @ a # ys @ b # zs" "ticks_to_wake b = 0"
    "\<forall>y \<in> set ys. ticks_to_wake y = 0" "xs = [] \<or> ticks_to_wake a \<noteq> 0" by (rule frontsE)
  show "p \<in> insert (kind_of c) (fronts c ws)"
  proof (cases xs)
    case Nil
    then show ?thesis using s(1) p by simp
  next
    case (Cons x xs')
    then obtain xs'' where "xs' = w # xs''" using s assms by (cases xs') auto
    then have "c # ws = (c # xs'') @ a # ys @ b # zs" using s(1) Cons by simp
    then show ?thesis using s(2-4) p Cons frontsI [of c ws "c # xs''" a ys b zs] by simp
  qed
next
  fix p assume "p \<in> insert (kind_of c) (fronts c ws)"
  then show "p \<in> fronts c (w # ws)"
  proof
    assume "p = kind_of c"
    then show ?thesis using frontsI [of c "w # ws" "[]" c "[]" w ws] assms by simp
  next
    assume "p \<in> fronts c ws"
    then obtain xs a ys b zs where p: "p = kind_of a" and s: "c # ws = xs @ a # ys @ b # zs" "ticks_to_wake b = 0"
      "\<forall>y \<in> set ys. ticks_to_wake y = 0" "xs = [] \<or> ticks_to_wake a \<noteq> 0" by (rule frontsE)
    show ?thesis
    proof (cases xs)
      case Nil
      then show ?thesis using s(1) p frontsI [of c "w # ws" "[]" c "[]" w ws] assms by simp
    next
      case (Cons x xs')
      then show ?thesis using s p frontsI [of c "w # ws" "c # w # xs'" a ys b zs] by simp
    qed
  qed
qed

lemma fronts_counting:
  assumes "ticks_to_wake w \<noteq> 0"
  shows "fronts c (w # ws) = fronts w ws"
proof (intro equalityI subsetI)
  fix p assume "p \<in> fronts c (w # ws)"
  then obtain xs a ys b zs where p: "p = kind_of a" and s: "c # w # ws = xs @ a # ys @ b # zs" "ticks_to_wake b = 0"
    "\<forall>y \<in> set ys. ticks_to_wake y = 0" "xs = [] \<or> ticks_to_wake a \<noteq> 0" by (rule frontsE)
  show "p \<in> fronts w ws"
  proof (cases xs)
    case Nil
    then have "w # ws = ys @ b # zs" using s(1) by simp
    then show ?thesis using s(2,3) assms by (cases ys) auto
  next
    case (Cons x xs')
    then show ?thesis using s p frontsI [of w ws xs' a ys b zs] by auto
  qed
next
  fix p assume "p \<in> fronts w ws"
  then obtain xs a ys b zs where p: "p = kind_of a" and s: "w # ws = xs @ a # ys @ b # zs" "ticks_to_wake b = 0"
    "\<forall>y \<in> set ys. ticks_to_wake y = 0" "xs = [] \<or> ticks_to_wake a \<noteq> 0" by (rule frontsE)
  then show "p \<in> fronts c (w # ws)"
    using p frontsI [of c "w # ws" "c # xs" a ys b zs] assms by (cases xs) auto
qed

lemma fronts_cong: "kind_of c = kind_of c' \<Longrightarrow> fronts c ws = fronts c' ws"
proof (induction ws)
  case (Cons w ws)
  then show ?case by (cases "ticks_to_wake w = 0") (simp_all add: fronts_expired fronts_counting)
qed simp

text \<open>What the waiters of a set do to process \<open>q\<close> when they expire.\<close>

definition release_by :: "(ptr \<times> bool) set \<Rightarrow> ptr \<Rightarrow> process \<Rightarrow> process" where
  "release_by ws q pr = pr\<lparr>sig_pending := if (q, True) \<in> ws then SIGALRM else sig_pending pr,
     on_hold := on_hold pr \<and> q \<notin> fst ` ws\<rparr>"

definition release_all :: "(ptr \<times> bool) set \<Rightarrow> kernel \<Rightarrow> kernel" where
  "release_all ws k = k\<lparr>procs := \<lambda>q. map_option (release_by ws q) (procs k q)\<rparr>"

definition count_down :: "waiter list \<Rightarrow> waiter list" where
  "count_down ws = map (\<lambda>w. w\<lparr>ticks_to_wake := ticks_to_wake w - 1\<rparr>) (filter (\<lambda>w. ticks_to_wake w \<noteq> 0) ws)"

lemma release_by_insert: "release_by ws q (release_by {w} q pr) = release_by (insert w ws) q pr"
proof -
  have "q \<in> fst ` ws" if "(q, True) \<in> ws" using that by force
  then show ?thesis unfolding release_by_def by (cases "(q, True) \<in> ws"; cases "(q, True) = w") auto
qed

lemma expire_release:
  assumes "procs k (w_proc w) = Some pr"
  shows "expire w k = Some (release_all {kind_of w} k)"
proof -
  have r: "release_by {kind_of w} q pr' = (if q = w_proc w then
      (if is_alarm w then pr'\<lparr>sig_pending := SIGALRM\<rparr> else pr')\<lparr>on_hold := False\<rparr> else pr')" for q pr'
    by (auto simp: release_by_def kind_of_def)
  have "(procs k)(w_proc w \<mapsto> release_by {kind_of w} (w_proc w) pr) = (\<lambda>q. map_option (release_by {kind_of w} q) (procs k q))"
  proof
    fix q
    show "((procs k)(w_proc w \<mapsto> release_by {kind_of w} (w_proc w) pr)) q = map_option (release_by {kind_of w} q) (procs k q)"
      using assms by (cases "procs k q") (auto simp: r)
  qed
  then show ?thesis using assms by (simp add: expire_def upd_proc_def put_proc_def release_all_def r)
qed

lemma release_all_all: "release_all ws (release_all {w} k) = release_all (insert w ws) k"
  by (simp add: release_all_def option.map_comp comp_def release_by_insert)

lemma release_none [simp]: "release_all {} k = k"
proof -
  have "release_by {} q = (\<lambda>pr. pr)" for q by (rule ext) (simp add: release_by_def)
  then show ?thesis by (simp add: release_all_def option.map_ident)
qed

lemma tick_rest_effect:
  assumes "\<forall>w \<in> set (c # ws). \<exists>pr. procs k (w_proc w) = Some pr"
  shows "tick_rest k c ws = Some (c # count_down ws, release_all (fronts c ws) k)"
  using assms
proof (induction k c ws rule: tick_rest.induct)
  case (2 k c w ws)
  show ?case
  proof (cases "ticks_to_wake w = 0")
    case True
    obtain pr where "procs k (w_proc c) = Some pr" using "2.prems" by auto
    note e = expire_release [OF this]
    have "\<forall>w \<in> set (c # ws). \<exists>pr. procs (release_all {kind_of c} k) (w_proc w) = Some pr"
      using "2.prems" by (auto simp: release_all_def)
    from "2.IH"(1) [OF True e this] show ?thesis
      using True e by (simp add: fronts_expired release_all_all count_down_def)
  next
    case False
    let ?w = "w\<lparr>ticks_to_wake := ticks_to_wake w - 1\<rparr>"
    have "\<forall>w \<in> set (?w # ws). \<exists>pr. procs k (w_proc w) = Some pr" using "2.prems" by auto
    moreover have "fronts ?w ws = fronts w ws" by (rule fronts_cong) (simp add: kind_of_def)
    ultimately show ?thesis using "2.IH"(2) [OF False] False by (simp add: fronts_counting count_down_def)
  qed
qed (simp add: count_down_def)

text \<open>
  C40. What a tick of the timer does, exactly.  The first waiter counts down and is taken off the
  list when its count was zero, and its process is released, with the alarm signal if it asked for
  one; then the waiter behind it becomes the first without being counted.  Of the others those with
  count zero are taken off and the rest count down; but for each one taken off it is the
  process of the nearest waiter in front that stays which is released, not its own.  No
  other process changes.
\<close>

theorem tick_effect:
  assumes "waiters_ok k" "first_waiter k = w # ws"
  shows "tick_timer_update k = Some
     (if ticks_to_wake w \<noteq> 0
      then (release_all (fronts w ws) k)\<lparr>first_waiter := count_down (w # ws)\<rparr>
      else case ws of [] \<Rightarrow> (release_all {(w_proc w, is_alarm w)} k)\<lparr>first_waiter := []\<rparr>
           | v # vs \<Rightarrow> (release_all (insert (w_proc w, is_alarm w) (fronts v vs)) k)\<lparr>first_waiter := v # count_down vs\<rparr>)"
proof -
  obtain pr where pr: "procs k (w_proc w) = Some pr" using assms by (auto simp: waiters_ok_def)
  note e = expire_release [OF pr]
  show ?thesis
  proof (cases "ticks_to_wake w = 0")
    case True
    show ?thesis
    proof (cases ws)
      case Nil
      then show ?thesis using True e assms(2) by (simp add: tick_timer_update_def kind_of_def)
    next
      case (Cons v vs)
      have "\<forall>x \<in> set (v # vs). \<exists>pr. procs (release_all {kind_of w} k) (w_proc x) = Some pr"
        using assms Cons by (auto simp: release_all_def waiters_ok_def)
      from tick_rest_effect [OF this] show ?thesis
        using True e assms(2) Cons by (simp add: tick_timer_update_def release_all_all) (simp add: kind_of_def)
    qed
  next
    case False
    let ?w = "w\<lparr>ticks_to_wake := ticks_to_wake w - 1\<rparr>"
    have "\<forall>x \<in> set (?w # ws). \<exists>pr. procs k (w_proc x) = Some pr" using assms by (auto simp: waiters_ok_def)
    moreover have "fronts ?w ws = fronts w ws" by (rule fronts_cong) (simp add: kind_of_def)
    ultimately show ?thesis using tick_rest_effect [of ?w ws k] False assms(2)
      by (simp add: tick_timer_update_def count_down_def)
  qed
qed

text \<open>
  A waiter behind another one is lost: when it expires before the waiter in front of it,
  the tick removes it from the list and wakes the process of the one in front; its own
  process stays as it is, with nobody left in the list to wake it.
\<close>

theorem tick_wakes_predecessor:
  assumes "first_waiter k = [a, b]" "ticks_to_wake a \<noteq> 0" "ticks_to_wake b = 0"
    and "w_proc a \<noteq> w_proc b" "procs k (w_proc a) = Some pa"
  shows "\<exists>k' pa'. tick_timer_update k = Some k' \<and> first_waiter k' = [a\<lparr>ticks_to_wake := ticks_to_wake a - 1\<rparr>] \<and>
     procs k' (w_proc a) = Some pa' \<and> \<not> on_hold pa' \<and> procs k' (w_proc b) = procs k (w_proc b)"
  using assms by (auto simp: tick_timer_update_def expire_def)

section \<open>Instances\<close>

theorem sleeper_is_woken_witness:
  "\<exists>k1 k2 pr'. register_to_be_waken kernel_example 0x20 (of_nat 2) = Some k1 \<and>
     ticks (Suc 2) (k1\<lparr>first_waiter := first_waiter k1 @ [new_waiter 0x10 1 True]\<rparr>) = Some k2 \<and>
     procs k2 0x20 = Some pr' \<and> \<not> on_hold pr'"
  by (rule sleeper_is_woken) (simp_all add: kernel_example_def new_waiter_def)

theorem tick_effect_witness:
  "\<exists>k'. tick_timer_update (kernel_example\<lparr>first_waiter := [new_waiter 0x10 5 False, new_waiter 0x30 0 False]\<rparr>) = Some k' \<and>
     first_waiter k' = [new_waiter 0x10 4 False]"
  using tick_effect [of "kernel_example\<lparr>first_waiter := [new_waiter 0x10 5 False, new_waiter 0x30 0 False]\<rparr>"
      "new_waiter 0x10 5 False" "[new_waiter 0x30 0 False]"]
  by (simp add: waiters_ok_def new_waiter_def count_down_def)

theorem tick_wakes_predecessor_witness:
  "\<exists>k' pa'. tick_timer_update (kernel_example\<lparr>first_waiter := [new_waiter 0x10 5 False, new_waiter 0x30 0 False]\<rparr>) = Some k' \<and>
     procs k' 0x10 = Some pa' \<and> \<not> on_hold pa' \<and> procs k' 0x30 = Some proc3"
  using tick_wakes_predecessor [of "kernel_example\<lparr>first_waiter := [new_waiter 0x10 5 False, new_waiter 0x30 0 False]\<rparr>"
      "new_waiter 0x10 5 False" "new_waiter 0x30 0 False" proc1]
  by (auto simp: new_waiter_def)

end
