(* ===== verification/Terminal.thy ===== *)
theory Terminal
  imports Process
begin

text \<open>
  Keyboard to process: the scan codes of \<^verbatim>\<open>sys/keyboard.c\<close>, the line discipline of
  \<^verbatim>\<open>sys/ternimal.c\<close>, and the status display of \<^verbatim>\<open>sys/misc.c\<close> that a key press updates.
\<close>

section \<open>Status display\<close>

text \<open>
  \<open>update_topright_display\<close>.  The buffer on the stack is written from its start up to a
  terminator, and read up to the terminator.
\<close>

definition TOPRIGHT_FORMAT :: bytes where
  "TOPRIGHT_FORMAT = [100, 84, 58, 32, 37, 100, 44, 32, 75, 101, 121, 58, 32, 37, 115, 0]"

definition update_topright_display :: "kernel \<Rightarrow> kernel option" where
  "update_topright_display k =
     do {
       line_buffer \<leftarrow> kprintfa (replicate 50 0) 50 TOPRIGHT_FORMAT
         [VInt (ucast (pic_tick_count k div 50)), VStr (last_key_pressed k)];
       (r, seed) \<leftarrow> get_random (rand_seed k) 8;
       s \<leftarrow> print_topright line_buffer (ucast (push_bit 4 r OR 0xF)) (kscreen k);
       Some (k\<lparr>rand_seed := seed, kscreen := s\<rparr>)
     }"

section \<open>Terminal\<close>

definition INPUT_BUFFER_LENGTH :: int where "INPUT_BUFFER_LENGTH = 256"
definition SIGINT :: u64 where "SIGINT = 2"

text \<open>What the buffer holds after \<open>sf_malloc\<close> is not specified.\<close>

definition init_terminal :: "bytes \<Rightarrow> kernel \<Rightarrow> kernel option" where
  "init_terminal fresh k =
     do {
       (in0, in1, f1) \<leftarrow> generate_entry_pair (kfs k);
       (out0, out1, f2) \<leftarrow> generate_entry_pair f1;
       Some (k\<lparr>terminal_buffer := fresh, kfs := f2, terminal_file_in := (in0, in1),
               terminal_file_out := (out0, out1), foreground_pid := 0\<rparr>)
     }"

fun wake_all :: "ptr list \<Rightarrow> kernel \<Rightarrow> kernel option" where
  "wake_all [] k = Some k"
| "wake_all (p # ps) k = do { k' \<leftarrow> upd_proc p (\<lambda>pr. pr\<lparr>on_hold := False\<rparr>) k; wake_all ps k' }"

text \<open>The branches of \<open>terminal_input_ascii\<close> after the character has been stored before \<open>e\<close>.\<close>

definition terminal_newline :: "int \<Rightarrow> kernel \<Rightarrow> kernel option" where
  "terminal_newline e k =
     do {
       b \<leftarrow> poke e 0 (terminal_buffer k);
       (_, woken, f) \<leftarrow> file_write (kfs k) (snd (terminal_file_out k)) b (word_of_int e);
       k' \<leftarrow> wake_all woken (k\<lparr>terminal_buffer := b, kfs := f\<rparr>);
       Some (k'\<lparr>terminal_buffer_end := 0\<rparr>)
     }"

definition terminal_interrupt :: "int \<Rightarrow> kernel \<Rightarrow> kernel option" where
  "terminal_interrupt e k =
     (let k' = k\<lparr>terminal_buffer_end := e - 1\<rparr>
      in if foreground_pid k \<noteq> 0
         then map_option snd (process_add_signal k' (ucast (foreground_pid k)) SIGINT) else Some k')"

definition terminal_input_ascii :: "kernel \<Rightarrow> u8 \<Rightarrow> kernel option" where
  "terminal_input_ascii k ascii =
     (if terminal_buffer_end k = INPUT_BUFFER_LENGTH then Some k
      else do {
        b \<leftarrow> poke (terminal_buffer_end k) ascii (terminal_buffer k);
        let e = terminal_buffer_end k + 1;
        let k1 = k\<lparr>terminal_buffer := b, terminal_buffer_end := e\<rparr>;
        k2 \<leftarrow> (if ascii = 10 then terminal_newline e k1
               else if ascii = 8 then Some (k1\<lparr>terminal_buffer_end := (if e > 1 then e - 2 else e - 1)\<rparr>)
               else if ascii = 24 then terminal_interrupt e k1
               else Some k1);
        s \<leftarrow> print_terminal_input_line (terminal_buffer k2) (terminal_buffer_end k2) (kscreen k2);
        Some (k2\<lparr>kscreen := s\<rparr>)
      })"

text \<open>
  \<open>update_terminal_out\<close> passes what it read to \<open>kprintf\<close> as the format, with no arguments; a
  result of -1 stores the terminator in front of the buffer.
\<close>

definition update_terminal_out :: "kernel \<Rightarrow> kernel option" where
  "update_terminal_out k =
     do {
       (readed, bs, f) \<leftarrow> file_read (kfs k) (fst (terminal_file_in k)) 511;
       let k1 = k\<lparr>kfs := f\<rparr>;
       if readed = 0 then Some k1
       else if readed < 0 then None
       else do { s \<leftarrow> kprintf (bs @ [0]) [] (kscreen k1); Some (k1\<lparr>kscreen := s\<rparr>) }
     }"

section \<open>Keyboard\<close>

definition ascii_map :: bytes where
  "ascii_map =
     [0, 0, 49, 50, 51, 52, 53, 54, 55, 56, 57, 48, 45, 61, 0, 0,
      113, 119, 101, 114, 116, 121, 117, 105, 111, 112, 91, 93, 10, 0, 97, 115,
      100, 102, 103, 104, 106, 107, 108, 59, 39, 96, 0, 92, 122, 120, 99, 118,
      98, 110, 109, 44, 46, 47, 0, 0, 0, 32, 0, 0, 0, 0, 0, 0] @
     replicate 64 0 @ (replicate 14 0 @ [8, 0]) @ replicate 112 0"

definition isAlphabet :: "u8 \<Rightarrow> bool" where
  "isAlphabet code \<longleftrightarrow> 97 \<le> code \<and> code \<le> 122"

definition asc_array :: bytes where
  "asc_array = replicate 39 0 @ [34] @
     [0, 0, 0, 0, 60, 95, 62, 63, 41, 33,
      64, 35, 36, 37, 94, 38, 42, 40, 0, 58,
      0, 43, 0, 0, 0, 0, 0, 0, 0, 0] @ replicate 20 0 @
     [48, 123, 124, 125, 0, 0, 126, 0, 0, 0]"

definition shiftConvert :: "u8 \<Rightarrow> u8 option" where
  "shiftConvert code = (if unat code < length asc_array then Some (asc_array ! unat code) else None)"

definition translate_keyboard_scan_code :: "u8 \<Rightarrow> bool \<Rightarrow> u8 option" where
  "translate_keyboard_scan_code code is_shift =
     (let v = ascii_map ! unat code
      in if is_shift \<and> isAlphabet v then Some (v - 32)
         else if is_shift \<and> \<not> isAlphabet v then shiftConvert v
         else Some v)"

definition press_key :: "u8 \<Rightarrow> kernel \<Rightarrow> kernel option" where
  "press_key ascii k =
     (if \<not> ctrl k then
        do {
          k1 \<leftarrow> update_topright_display (k\<lparr>last_key_pressed := (last_key_pressed k)[0 := ascii, 1 := 0]\<rparr>);
          terminal_input_ascii k1 ascii
        }
      else
        do {
          k1 \<leftarrow> update_topright_display
            (k\<lparr>last_key_pressed := (last_key_pressed k)[0 := 94, 1 := ascii, 2 := 0]\<rparr>);
          if ascii = 99 then terminal_input_ascii k1 24 else Some k1
        })"

definition handle_keyboard_scan_code :: "kernel \<Rightarrow> u8 \<Rightarrow> kernel option" where
  "handle_keyboard_scan_code k code =
     (if code = 0x2A then Some (k\<lparr>shift := True\<rparr>)
      else if code = 0xAA then Some (k\<lparr>shift := False\<rparr>)
      else if code = 0x1D then Some (k\<lparr>ctrl := True\<rparr>)
      else if code = 0x9D then Some (k\<lparr>ctrl := False\<rparr>)
      else do {
        ascii \<leftarrow> translate_keyboard_scan_code code (shift k);
        if ascii \<noteq> 0 then press_key ascii k
        else do { _ \<leftarrow> translate_keyboard_scan_code (code XOR 0x80) (shift k); Some k }
      })"

section \<open>Scan codes\<close>

lemma length_ascii_map: "length ascii_map = 256"
  by (simp add: ascii_map_def)

lemma ascii_map_values: "\<forall>v \<in> set ascii_map. v < 100 \<or> isAlphabet v"
  by (simp add: ascii_map_def isAlphabet_def)

lemma length_asc_array: "length asc_array = 100"
  by (simp add: asc_array_def)

text \<open>
  No scan code makes the keyboard driver read outside of its tables: every byte from the
  controller is translated, with and without shift, although the shift table has only 100 of
  the 256 entries an index could select.
\<close>

theorem translate_in_bounds: "\<exists>ascii. translate_keyboard_scan_code code is_shift = Some ascii"
proof -
  have "ascii_map ! unat code \<in> set ascii_map" using unat_u8_bound by (simp add: length_ascii_map)
  then have "ascii_map ! unat code < 100 \<or> isAlphabet (ascii_map ! unat code)" using ascii_map_values by blast
  then show ?thesis
    by (auto simp: translate_keyboard_scan_code_def shiftConvert_def length_asc_array Let_def word_less_nat_alt)
qed

section \<open>The line discipline\<close>

definition term_ok :: "kernel \<Rightarrow> bool" where
  "term_ok k \<longleftrightarrow> length (terminal_buffer k) = 256 \<and> 0 \<le> terminal_buffer_end k \<and>
     terminal_buffer_end k \<le> 256 \<and> 4000 \<le> length (vmem (kscreen k))"

text \<open>The line being edited, and what a key does to a line.\<close>

definition term_line :: "kernel \<Rightarrow> bytes" where
  "term_line k = take (nat (terminal_buffer_end k)) (terminal_buffer k)"

definition edit :: "u8 \<Rightarrow> bytes \<Rightarrow> bytes" where
  "edit c l = (if c = 8 then butlast l else l @ [c])"

fun type_all :: "bytes \<Rightarrow> kernel \<Rightarrow> kernel option" where
  "type_all [] k = Some k"
| "type_all (c # cs) k = do { k' \<leftarrow> terminal_input_ascii k c; type_all cs k' }"

lemma type_all_append: "type_all (xs @ ys) k = do { k' \<leftarrow> type_all xs k; type_all ys k' }"
  by (induction xs arbitrary: k) (auto split: bind_splits)

lemma length_term_line: "term_ok k \<Longrightarrow> length (term_line k) = nat (terminal_buffer_end k)"
  by (auto simp: term_line_def term_ok_def)

lemma print_input_line_ok:
  assumes "4000 \<le> length (vmem s)" "min 80 len \<le> int (length src)"
  shows "\<exists>v. print_terminal_input_line src len s = Some (s\<lparr>vmem := v\<rparr>) \<and> length v = length (vmem s)"
  using assms by (auto simp: print_terminal_input_line_def)

lemma take_Suc_update: "n < length xs \<Longrightarrow> take (Suc n) (xs[n := c]) = take n xs @ [c]"
  by (simp add: take_Suc_conv_app_nth)

lemma terminal_edits:
  assumes ok: "term_ok k" and room: "terminal_buffer_end k < 256" and c: "c \<noteq> 10" "c \<noteq> 24"
  shows "\<exists>b e v. terminal_input_ascii k c = Some (k\<lparr>terminal_buffer := b, terminal_buffer_end := e,
       kscreen := (kscreen k)\<lparr>vmem := v\<rparr>\<rparr>) \<and>
     term_ok (k\<lparr>terminal_buffer := b, terminal_buffer_end := e, kscreen := (kscreen k)\<lparr>vmem := v\<rparr>\<rparr>) \<and>
     take (nat e) b = edit c (term_line k)"
proof -
  let ?n = "nat (terminal_buffer_end k)"
  let ?b = "(terminal_buffer k)[?n := c]"
  let ?e = "if c = 8 then (if terminal_buffer_end k + 1 > 1 then terminal_buffer_end k - 1 else 0)
            else terminal_buffer_end k + 1"
  have n: "?n < 256" "length (terminal_buffer k) = 256" "0 \<le> terminal_buffer_end k"
    using ok room by (auto simp: term_ok_def)
  have e: "0 \<le> ?e" "?e \<le> 256" using n room by auto
  have "take (nat ?e) ?b = edit c (term_line k)"
  proof (cases "c = 8")
    case True
    then show ?thesis using n by (auto simp: edit_def term_line_def butlast_take nat_diff_distrib)
  next
    case False
    then have "nat ?e = Suc ?n" using n by simp
    then show ?thesis using n False by (simp add: edit_def term_line_def take_Suc_update)
  qed
  moreover obtain v where v: "print_terminal_input_line ?b ?e (kscreen k) = Some ((kscreen k)\<lparr>vmem := v\<rparr>)"
    "length v = length (vmem (kscreen k))"
  proof -
    have "4000 \<le> length (vmem (kscreen k))" using ok by (simp add: term_ok_def)
    moreover have "min 80 ?e \<le> int (length ?b)" using n by simp
    ultimately show thesis using print_input_line_ok [of "kscreen k" ?e ?b] that by blast
  qed
  moreover have "terminal_input_ascii k c =
      Some (k\<lparr>terminal_buffer := ?b, terminal_buffer_end := ?e, kscreen := (kscreen k)\<lparr>vmem := v\<rparr>\<rparr>)"
    using n c v(1) room
    by (auto simp: terminal_input_ascii_def INPUT_BUFFER_LENGTH_def poke_def Let_def)
  moreover have "term_ok (k\<lparr>terminal_buffer := ?b, terminal_buffer_end := ?e, kscreen := (kscreen k)\<lparr>vmem := v\<rparr>\<rparr>)"
    using v(2) ok n e by (auto simp: term_ok_def)
  ultimately show ?thesis by blast
qed

text \<open>A keystroke changes only the terminal's buffer and the screen.\<close>

lemma type_edits:
  assumes "term_ok k" "10 \<notin> set cs" "24 \<notin> set cs" "length (term_line k) + length cs \<le> 256"
  shows "\<exists>b e s. type_all cs k = Some (k\<lparr>terminal_buffer := b, terminal_buffer_end := e, kscreen := s\<rparr>) \<and>
     term_ok (k\<lparr>terminal_buffer := b, terminal_buffer_end := e, kscreen := s\<rparr>) \<and>
     take (nat e) b = fold edit cs (term_line k) \<and>
     length (take (nat e) b) \<le> length (term_line k) + length cs"
  using assms
proof (induction cs arbitrary: k)
  case Nil
  then show ?case
    by (intro exI [of _ "terminal_buffer k"] exI [of _ "terminal_buffer_end k"] exI [of _ "kscreen k"])
       (simp add: term_line_def)
next
  case (Cons c cs)
  have "terminal_buffer_end k < 256" using Cons.prems length_term_line [of k] by (auto simp: term_ok_def)
  from terminal_edits [OF Cons.prems(1) this, of c] Cons.prems(2,3) obtain b e v where
    1: "terminal_input_ascii k c = Some (k\<lparr>terminal_buffer := b, terminal_buffer_end := e,
       kscreen := (kscreen k)\<lparr>vmem := v\<rparr>\<rparr>)"
    "term_ok (k\<lparr>terminal_buffer := b, terminal_buffer_end := e, kscreen := (kscreen k)\<lparr>vmem := v\<rparr>\<rparr>)"
    "take (nat e) b = edit c (term_line k)" by auto
  let ?k = "k\<lparr>terminal_buffer := b, terminal_buffer_end := e, kscreen := (kscreen k)\<lparr>vmem := v\<rparr>\<rparr>"
  have l: "term_line ?k = edit c (term_line k)" using 1(3) by (simp add: term_line_def)
  moreover have "length (edit c (term_line k)) \<le> Suc (length (term_line k))" by (auto simp: edit_def)
  ultimately have room: "length (term_line ?k) + length cs \<le> 256"
    and le: "length (term_line ?k) \<le> Suc (length (term_line k))" using Cons.prems(4) by auto
  have nn: "10 \<notin> set cs" "24 \<notin> set cs" using Cons.prems(2,3) by auto
  from Cons.IH [OF 1(2) nn room] obtain b' e' s' where
    "type_all cs ?k = Some (?k\<lparr>terminal_buffer := b', terminal_buffer_end := e', kscreen := s'\<rparr>)"
    "term_ok (?k\<lparr>terminal_buffer := b', terminal_buffer_end := e', kscreen := s'\<rparr>)"
    "take (nat e') b' = fold edit cs (term_line ?k)"
    "length (take (nat e') b') \<le> length (term_line ?k) + length cs" by blast
  with 1(1) l le show ?case by (intro exI [of _ b'] exI [of _ e'] exI [of _ s']) simp
qed

lemma wake_all_spec:
  assumes "\<forall>p \<in> set ps. \<exists>pr. procs k p = Some pr"
  shows "\<exists>m. wake_all ps k = Some (k\<lparr>procs := m\<rparr>) \<and>
     (\<forall>p \<in> set ps. \<exists>pr. m p = Some pr \<and> \<not> on_hold pr) \<and>
     (\<forall>p pr. procs k p = Some pr \<longrightarrow> (\<exists>pr'. m p = Some pr' \<and> (\<not> on_hold pr \<longrightarrow> \<not> on_hold pr')))"
  using assms
proof (induction ps arbitrary: k)
  case Nil
  then show ?case by (intro exI [of _ "procs k"]) simp
next
  case (Cons p ps)
  then obtain pr where pr: "procs k p = Some pr" by auto
  let ?k = "put_proc p (pr\<lparr>on_hold := False\<rparr>) k"
  have "\<forall>q \<in> set ps. \<exists>pr. procs ?k q = Some pr" using Cons.prems by auto
  from Cons.IH [OF this] obtain m where m: "wake_all ps ?k = Some (?k\<lparr>procs := m\<rparr>)"
    "\<forall>p \<in> set ps. \<exists>pr. m p = Some pr \<and> \<not> on_hold pr"
    "\<forall>q pr. procs ?k q = Some pr \<longrightarrow> (\<exists>pr'. m q = Some pr' \<and> (\<not> on_hold pr \<longrightarrow> \<not> on_hold pr'))" by blast
  have "\<exists>pr'. m p = Some pr' \<and> \<not> on_hold pr'" using m(3) by force
  moreover have "\<exists>pr'. m q = Some pr' \<and> (\<not> on_hold pq \<longrightarrow> \<not> on_hold pr')" if "procs k q = Some pq" for q pq
    using m(3) that calculation by (cases "q = p") auto
  moreover have "?k\<lparr>procs := m\<rparr> = k\<lparr>procs := m\<rparr>" by (simp add: put_proc_def)
  ultimately show ?case using m(1,2) pr by (intro exI [of _ m]) simp
qed

text \<open>
  C26. A typed line reaches its readers.  Starting from any line, typing ordinary characters and
  backspaces and then a newline appends to the terminal's output pipe exactly the edited line
  and the newline, wakes every process that waits to read it, and leaves an empty line; the
  line stays within 254 characters and fits the pipe.
\<close>

theorem typed_line_delivered:
  assumes ok: "term_ok k" and cs: "10 \<notin> set cs" "24 \<notin> set cs" "length (term_line k) + length cs \<le> 254"
    and w: "terminal_file_out k = (r, w)" "files (kfs k) w = Some we" "io_type we = 1" "out_to we = r" "r \<noteq> 0"
    and r: "files (kfs k) r = Some re" "ring_wf re" "255 + length (ring_contents re) \<le> 2047"
    and waiters: "\<forall>p \<in> set (first_waiters re). \<exists>pr. procs k p = Some pr"
  shows "\<exists>k' re'. type_all (cs @ [10]) k = Some k' \<and> term_line k' = [] \<and>
     files (kfs k') r = Some re' \<and> first_waiters re' = [] \<and>
     ring_contents re' = ring_contents re @ fold edit cs (term_line k) @ [10] \<and>
     (\<forall>p \<in> set (first_waiters re). \<exists>pr. procs k' p = Some pr \<and> \<not> on_hold pr)"
proof -
  have "length (term_line k) + length cs \<le> 256" using cs(3) by simp
  from type_edits [OF ok cs(1,2) this] obtain b e s where
    t: "type_all cs k = Some (k\<lparr>terminal_buffer := b, terminal_buffer_end := e, kscreen := s\<rparr>)"
    and ok1: "term_ok (k\<lparr>terminal_buffer := b, terminal_buffer_end := e, kscreen := s\<rparr>)"
    and l: "take (nat e) b = fold edit cs (term_line k)"
    and le: "length (take (nat e) b) \<le> length (term_line k) + length cs" by blast
  have len: "length (take (nat e) b) \<le> 254" using le cs(3) by linarith
  have b: "length b = 256" "0 \<le> e" "nat e \<le> 254" "4000 \<le> length (vmem s)"
    using ok1 len by (auto simp: term_ok_def)
  define b2 where "b2 = b[nat e := 10, Suc (nat e) := 0]"
  have tk: "take (Suc (nat e)) b2 = fold edit cs (term_line k) @ [10]"
    using b l by (simp add: b2_def take_Suc_update)
  have sz: "word_of_int (e + 1) = (of_nat (Suc (nat e)) :: u64)"
    using b(2) by (cases e rule: int_cases) simp_all
  have lb: "Suc (nat e) < 2 ^ 64" "Suc (nat e) \<le> length b2" "Suc (nat e) \<le> 2047 - length (ring_contents re)"
    using b r(3) by (simp_all add: b2_def)
  have "out_to we \<noteq> 0" "files (kfs k) (out_to we) = Some re" using w r by simp_all
  from file_write_fits [OF w(2,3) this r(2) lb, unfolded w(4)] obtain re' where
    fw: "file_write (kfs k) w b2 (of_nat (Suc (nat e))) = Some (int (Suc (nat e)), first_waiters re, put_file r re' (kfs k))"
    and re': "first_waiters re' = []" "ring_contents re' = ring_contents re @ take (Suc (nat e)) b2"
    by blast
  obtain m where m: "wake_all (first_waiters re) (k\<lparr>terminal_buffer := b2, terminal_buffer_end := e + 1,
       kscreen := s, kfs := put_file r re' (kfs k)\<rparr>) =
     Some (k\<lparr>terminal_buffer := b2, terminal_buffer_end := e + 1, kscreen := s, kfs := put_file r re' (kfs k), procs := m\<rparr>)"
    and held: "\<forall>p \<in> set (first_waiters re). \<exists>pr. m p = Some pr \<and> \<not> on_hold pr"
    using wake_all_spec [of "first_waiters re" "k\<lparr>terminal_buffer := b2, terminal_buffer_end := e + 1,
       kscreen := s, kfs := put_file r re' (kfs k)\<rparr>"] waiters by auto
  obtain v where v: "print_terminal_input_line b2 0 s = Some (s\<lparr>vmem := v\<rparr>)"
    using print_input_line_ok [OF b(4), of 0 b2] by auto
  have pk: "poke e 10 b = Some (b[nat e := 10])" "poke (e + 1) 0 (b[nat e := 10]) = Some b2"
    using b by (simp_all add: poke_def b2_def nat_add_distrib)
  have "terminal_input_ascii (k\<lparr>terminal_buffer := b, terminal_buffer_end := e, kscreen := s\<rparr>) 10 =
      Some (k\<lparr>terminal_buffer := b2, terminal_buffer_end := 0, kscreen := s\<lparr>vmem := v\<rparr>,
        kfs := put_file r re' (kfs k), procs := m\<rparr>)"
    using b pk fw [folded sz] w(1) m v
    by (cases k) (simp add: terminal_input_ascii_def INPUT_BUFFER_LENGTH_def terminal_newline_def Let_def)
  with t held re' tk show ?thesis
    by (auto simp: type_all_append term_line_def)
qed

text \<open>
  A full line is the end of the terminal: once 256 characters have been typed without a
  newline, every further key, newline and backspace included, is ignored.
\<close>

theorem full_line_stuck:
  assumes "term_ok k" "term_line k = []" "length cs = 256" "10 \<notin> set cs" "24 \<notin> set cs" "8 \<notin> set cs"
  shows "\<exists>k'. type_all cs k = Some k' \<and> term_line k' = cs \<and> (\<forall>more. type_all more k' = Some k')"
proof -
  have "length (term_line k) + length cs \<le> 256" using assms(2,3) by simp
  from type_edits [OF assms(1,4,5) this, unfolded assms(2)] obtain b e s where
    t: "type_all cs k = Some (k\<lparr>terminal_buffer := b, terminal_buffer_end := e, kscreen := s\<rparr>)"
    and ok: "term_ok (k\<lparr>terminal_buffer := b, terminal_buffer_end := e, kscreen := s\<rparr>)"
    and l: "take (nat e) b = fold edit cs []" by blast
  have f: "fold edit ds xs = xs @ ds" if "8 \<notin> set ds" for ds xs
    using that by (induction ds arbitrary: xs) (auto simp: edit_def)
  let ?k = "k\<lparr>terminal_buffer := b, terminal_buffer_end := e, kscreen := s\<rparr>"
  have "term_line ?k = cs" using l f [OF assms(6)] by (simp add: term_line_def)
  then have "e = 256" using length_term_line [OF ok] assms(3) by simp
  then have "type_all more ?k = Some ?k" for more
    by (induction more) (simp_all add: terminal_input_ascii_def INPUT_BUFFER_LENGTH_def)
  with t \<open>term_line ?k = cs\<close> show ?thesis by blast
qed

section \<open>Output\<close>

lemma pipe_read_out:
  assumes "files fs r = Some re" "io_type re = 2" "files fs (in_from re) = Some we"
    and "ring_wf re" "ring_contents re \<noteq> []" "n < 2 ^ 64"
  shows "\<exists>bs c. file_read fs r (of_nat n) = Some (int (length bs), bs, put_file r (re\<lparr>buffer_c_c := c\<rparr>) fs) \<and>
     take (length (ring_contents re)) bs = take n (ring_contents re) \<and>
     length bs = (if buffer_p_c re = 0 then n else min n (length (ring_contents re))) \<and>
     (n \<le> length (ring_contents re) \<or> buffer_p_c re \<noteq> 0 \<longrightarrow> ring_contents (re\<lparr>buffer_c_c := c\<rparr>) = drop n (ring_contents re))"
proof -
  have "ring_count re \<noteq> 0" using assms(5) by (metis length_0_conv length_ring_contents)
  then have ne: "buffer_p_c re - 1 \<noteq> buffer_c_c re"
    using ring_empty_iff [OF assms(4)] assms(4) by (cases "buffer_p_c re = 0") (auto simp: ring_wf_def)
  from pipe_read_any [OF assms(4), of n, folded length_ring_contents] obtain bs c where
    r: "pipe_read re n = Some (bs, re\<lparr>buffer_c_c := c\<rparr>)"
    "take (length (ring_contents re)) bs = take n (ring_contents re)"
    "length bs = (if buffer_p_c re = 0 then n else min n (length (ring_contents re)))"
    "n \<le> length (ring_contents re) \<or> buffer_p_c re \<noteq> 0 \<longrightarrow> ring_contents (re\<lparr>buffer_c_c := c\<rparr>) = drop n (ring_contents re)"
    by blast
  have "file_read fs r (of_nat n) = Some (int (length bs), bs, put_file r (re\<lparr>buffer_c_c := c\<rparr>) fs)"
    using assms(1-3,6) ne r(1) by (simp add: file_read_def)
  with r(2-4) show ?thesis by blast
qed

text \<open>A format without arguments: text up to a terminator, or up to the first percent sign.\<close>

lemma format_bytes_text:
  assumes "0 \<notin> set xs" "37 \<notin> set xs"
  shows "format_bytes (xs @ 0 # rest) ap = Some (xs, True)"
    "format_bytes (xs @ 37 # m # rest) [] = (if is_modifier m then None else Some (xs, False))"
proof -
  have c: "format_bytes (c # s) ap = do { (bs, e) \<leftarrow> format_bytes s ap; Some (c # bs, e) }"
    if "c \<noteq> 0" "c \<noteq> 37" "s \<noteq> []" for c s ap
    using that by (cases s) auto
  have z: "format_bytes (0 # rest) ap = Some ([], True)" by (cases rest) simp_all
  show "format_bytes (xs @ 0 # rest) ap = Some (xs, True)"
    using assms by (induction xs) (simp_all add: z c del: format_bytes.simps)
  show "format_bytes (xs @ 37 # m # rest) [] = (if is_modifier m then None else Some (xs, False))"
    using assms by (induction xs) (simp_all add: c del: format_bytes.simps(2-), simp)
qed

text \<open>What comes out for the bytes \<open>bs\<close>, given to \<open>kprintf\<close> as its format; \<open>None\<close> for an argument that was not passed.\<close>

definition shown_text :: "bytes \<Rightarrow> bytes option" where
  "shown_text bs =
     (let t = cstr bs; pre = takeWhile (\<lambda>c. c \<noteq> 37) t
      in if pre \<noteq> t \<and> is_modifier ((t @ [0]) ! Suc (length pre)) then None else Some pre)"

lemma format_shown: "map_option fst (format_bytes (bs @ [0]) []) = shown_text bs"
proof -
  define t where "t = cstr bs"
  define pre where "pre = takeWhile (\<lambda>c. c \<noteq> 37) t"
  have z: "0 \<notin> set t" by (auto simp: t_def cstr_def dest: set_takeWhileD)
  obtain rest where b: "bs @ [0] = t @ 0 # rest"
  proof (cases "0 \<in> set bs")
    case True
    then obtain r where "bs = t @ 0 # r" using cstr_is_cstr [OF True] by (auto simp: is_cstr_def t_def)
    then show thesis using that by simp
  next
    case False
    then have "t = bs" unfolding t_def cstr_def by (intro takeWhile_eq_all_conv [THEN iffD2]) auto
    then show thesis using that by simp
  qed
  have p: "0 \<notin> set pre" "37 \<notin> set pre" using z by (auto simp: pre_def dest: set_takeWhileD)
  have st: "shown_text bs = (if pre \<noteq> t \<and> is_modifier ((t @ [0]) ! Suc (length pre)) then None else Some pre)"
    by (simp only: shown_text_def Let_def t_def pre_def)
  show ?thesis
  proof (cases "pre = t")
    case True
    then show ?thesis using format_bytes_text(1) [OF p, of rest "[]"] b st by simp
  next
    case False
    then obtain x r where d: "dropWhile (\<lambda>c. c \<noteq> 37) t = x # r"
      using takeWhile_dropWhile_id [of "\<lambda>c. c \<noteq> 37" t] by (cases "dropWhile (\<lambda>c. c \<noteq> 37) t") (auto simp: pre_def)
    then have "x = 37" by (simp add: dropWhile_eq_Cons_conv)
    then have r: "t = pre @ 37 # r" using takeWhile_dropWhile_id [of "\<lambda>c. c \<noteq> 37" t] d by (simp add: pre_def)
    then obtain m r' where m: "t @ 0 # rest = pre @ 37 # m # r'" "(t @ [0]) ! Suc (length pre) = m"
      by (cases r) (auto simp: nth_append)
    show ?thesis using format_bytes_text(2) [OF p, of m r'] b m False st by simp
  qed
qed

text \<open>
  C27. The output of processes on the screen, exactly.  With bytes waiting in the terminal's input
  pipe the update takes up to 511 of them (and when the producer cursor is at the start of the
  ring 511 in any case, stale bytes behind the waiting ones) and shows \<open>shown_text\<close> of what it
  took: the text up to the first zero byte, and up to the first percent sign if it has one.
  A percent sign with one of the five modifiers behind it makes the update undefined, since an
  argument is read that was not passed.  What it did not take stays in the pipe.
\<close>

theorem terminal_output_shown:
  assumes r: "terminal_file_in k = (r, w)" "files (kfs k) r = Some re" "io_type re = 2"
      "files (kfs k) (in_from re) = Some we" "ring_wf re" "ring_contents re \<noteq> []"
    and s: "screen_ok (kscreen k)"
  shows "\<exists>bs. take (length (ring_contents re)) bs = take 511 (ring_contents re) \<and>
     length bs = (if buffer_p_c re = 0 then 511 else min 511 (length (ring_contents re))) \<and>
     (case shown_text bs of
        None \<Rightarrow> update_terminal_out k = None
      | Some t \<Rightarrow> \<exists>k' re'. update_terminal_out k = Some k' \<and>
          print_all t (kscreen k) = Some (kscreen k') \<and> screen_ok (kscreen k') \<and>
          files (kfs k') r = Some re' \<and>
          (buffer_p_c re \<noteq> 0 \<longrightarrow> ring_contents re' = drop 511 (ring_contents re)))"
proof -
  have "(511 :: nat) < 2 ^ 64" by simp
  from pipe_read_out [OF r(2-6) this, unfolded of_nat_numeral] obtain bs c where
    f: "file_read (kfs k) r 511 = Some (int (length bs), bs, put_file r (re\<lparr>buffer_c_c := c\<rparr>) (kfs k))"
    "take (length (ring_contents re)) bs = take 511 (ring_contents re)"
    "length bs = (if buffer_p_c re = 0 then 511 else min 511 (length (ring_contents re)))"
    "buffer_p_c re \<noteq> 0 \<longrightarrow> ring_contents (re\<lparr>buffer_c_c := c\<rparr>) = drop 511 (ring_contents re)" by blast
  have "ring_count re \<noteq> 0" using r(6) by (metis length_0_conv length_ring_contents)
  then have ne: "bs \<noteq> []" using f(3) by (auto split: if_splits)
  let ?k = "k\<lparr>kfs := put_file r (re\<lparr>buffer_c_c := c\<rparr>) (kfs k)\<rparr>"
  have u: "update_terminal_out k =
      do { s \<leftarrow> Option.bind (shown_text bs) (\<lambda>t. print_all t (kscreen k)); Some (?k\<lparr>kscreen := s\<rparr>) }"
    using r(1) f(1) ne format_shown [of bs, symmetric]
    by (cases "format_bytes (bs @ [0]) []") (auto simp: update_terminal_out_def kprintf_def Let_def)
  have "case shown_text bs of None \<Rightarrow> update_terminal_out k = None
      | Some t \<Rightarrow> \<exists>k' re'. update_terminal_out k = Some k' \<and>
          print_all t (kscreen k) = Some (kscreen k') \<and> screen_ok (kscreen k') \<and> files (kfs k') r = Some re' \<and>
          (buffer_p_c re \<noteq> 0 \<longrightarrow> ring_contents re' = drop 511 (ring_contents re))"
  proof (cases "shown_text bs")
    case None
    then show ?thesis using u by simp
  next
    case (Some t)
    obtain s' where "print_all t (kscreen k) = Some s'" "screen_ok s'" using print_all_ok [OF s] by blast
    then show ?thesis using u Some f(4) by simp
  qed
  with f(2,3) show ?thesis by blast
qed

text \<open>
  Output is taken as a format: when a process writes text that begins with a conversion
  such as \<open>%s\<close>, the update reads an argument that was never passed, which is undefined.
\<close>

theorem terminal_output_is_format:
  assumes "file_read (kfs k) (fst (terminal_file_in k)) 511 = Some (int (length bs), bs, f)"
    and "bs = 37 # m # rest" "is_modifier m"
  shows "update_terminal_out k = None"
  using assms by (simp add: update_terminal_out_def kprintf_def)

section \<open>Instances\<close>

definition term_example :: kernel where
  "term_example = kernel_example\<lparr>kfs := pipe_example\<lparr>files := [16 \<mapsto> (new_entry 1 [])\<lparr>out_to := 32\<rparr>,
     32 \<mapsto> (new_entry 2 [])\<lparr>in_from := 16, first_waiters := [0x10]\<rparr>]\<rparr>\<rparr>"

lemma term_example_ok: "term_ok term_example" "term_line term_example = []"
  by (simp_all add: term_ok_def term_line_def term_example_def kernel_example_def)

lemma example_ring:
  "ring_wf ((new_entry 2 [])\<lparr>in_from := a, first_waiters := ws\<rparr>)"
  "ring_contents ((new_entry 2 [])\<lparr>in_from := a, first_waiters := ws\<rparr>) = []"
  by (simp_all add: ring_defs ring_contents_def new_entry_def empty_entry_def)

lemma term_example_sel:
  "terminal_file_out term_example = (32, 16)" "procs term_example = procs kernel_example"
  "files (kfs term_example) 16 = Some ((new_entry 1 [])\<lparr>out_to := 32\<rparr>)"
  "files (kfs term_example) 32 = Some ((new_entry 2 [])\<lparr>in_from := 16, first_waiters := [0x10]\<rparr>)"
  by (simp_all add: term_example_def kernel_example_def)

theorem typed_line_delivered_witness:
  "\<exists>k' re'. type_all ([104, 111, 8, 105] @ [10]) term_example = Some k' \<and> term_line k' = [] \<and>
     files (kfs k') 32 = Some re' \<and> first_waiters re' = [] \<and>
     ring_contents re' = [] @ fold edit [104, 111, 8, 105] [] @ [10] \<and>
     (\<forall>p \<in> {0x10}. \<exists>pr. procs k' p = Some pr \<and> \<not> on_hold pr)"
  using typed_line_delivered [OF term_example_ok(1) _ _ _ term_example_sel(1,3) _ _ _ term_example_sel(4)
      example_ring(1), of "[104, 111, 8, 105]", unfolded term_example_ok(2) example_ring(2)]
  by (simp add: term_example_sel(2) new_entry_def del: type_all.simps kernel_example_sel)
     (simp add: kernel_example_sel)

theorem full_line_stuck_witness:
  "\<exists>k'. type_all (replicate 256 97) term_example = Some k' \<and> term_line k' = replicate 256 97 \<and>
     (\<forall>more. type_all more k' = Some k')"
  by (rule full_line_stuck [OF term_example_ok]) simp_all

definition out_example :: kernel where
  "out_example = kernel_example\<lparr>kfs := pipe_example\<lparr>files := [16 \<mapsto> (new_entry 1 [])\<lparr>out_to := 32\<rparr>,
     32 \<mapsto> (new_entry 2 [])\<lparr>in_from := 16, buffer := 0 # 104 # 37 # 100 # replicate 2044 0, buffer_p_c := 2\<rparr>]\<rparr>\<rparr>"

theorem terminal_output_shown_witness:
  "\<exists>k' re'. update_terminal_out out_example = Some k' \<and>
     print_all [104] (kscreen out_example) = Some (kscreen k') \<and> screen_ok (kscreen k') \<and>
     files (kfs k') 32 = Some re' \<and> ring_contents re' = []"
proof -
  let ?re = "(new_entry 2 [])\<lparr>in_from := 16, buffer := 0 # 104 # 37 # 100 # replicate 2044 0, buffer_p_c := 2\<rparr>"
  have re: "ring_wf ?re" "ring_contents ?re = [104]" "buffer_p_c ?re \<noteq> 0" "io_type ?re = 2" "in_from ?re = 16"
    by (simp_all add: ring_defs new_entry_def empty_entry_def ring_contents_def)
  have k: "terminal_file_in out_example = (32, 16)" "files (kfs out_example) 32 = Some ?re"
    "files (kfs out_example) 16 = Some ((new_entry 1 [])\<lparr>out_to := 32\<rparr>)" "screen_ok (kscreen out_example)"
    by (simp_all add: out_example_def kernel_example_def screen_ok_def)
  have t: "shown_text [104] = Some [104]" by (simp add: shown_text_def cstr_def)
  from terminal_output_shown [OF k(1,2) re(4), unfolded re(2,5), OF k(3) re(1) _ k(4)] obtain bs where
    b: "take (length [104 :: u8]) bs = take 511 [104]"
      "length bs = (if buffer_p_c ?re = 0 then 511 else min 511 (length [104 :: u8]))"
      "case shown_text bs of None \<Rightarrow> update_terminal_out out_example = None
      | Some t \<Rightarrow> \<exists>k' re'. update_terminal_out out_example = Some k' \<and>
          print_all t (kscreen out_example) = Some (kscreen k') \<and> screen_ok (kscreen k') \<and>
          files (kfs k') 32 = Some re' \<and> (buffer_p_c ?re \<noteq> 0 \<longrightarrow> ring_contents re' = drop 511 [104])"
    by blast
  have "bs = [104]" using b(1,2) re(3) by (cases bs) (auto simp: min_def)
  with b(3) t show ?thesis by simp
qed

theorem terminal_output_is_format_witness:
  "update_terminal_out (out_example\<lparr>kfs := pipe_example\<lparr>files := [16 \<mapsto> (new_entry 1 [])\<lparr>out_to := 32\<rparr>,
     32 \<mapsto> (new_entry 2 [])\<lparr>in_from := 16, buffer := 0 # 37 # 100 # replicate 2045 0, buffer_p_c := 3\<rparr>]\<rparr>\<rparr>) = None"
proof -
  let ?re = "(new_entry 2 [])\<lparr>in_from := 16, buffer := 0 # 37 # 100 # replicate 2045 0, buffer_p_c := 3\<rparr>"
  let ?fs = "pipe_example\<lparr>files := [16 \<mapsto> (new_entry 1 [])\<lparr>out_to := 32\<rparr>, 32 \<mapsto> ?re]\<rparr>"
  have "ring_wf ?re" "ring_contents ?re = [37, 100]"
    by (simp_all add: ring_defs new_entry_def empty_entry_def ring_contents_def numeral_2_eq_2)
  then obtain bs f where b: "file_read ?fs 32 511 = Some (int (length bs), bs, f)" "take 2 bs = [37, 100]" "length bs = 2"
    using pipe_read_out [of ?fs 32 ?re "(new_entry 1 [])\<lparr>out_to := 32\<rparr>" 511] by (auto simp: new_entry_def)
  then have "file_read ?fs 32 511 = Some (2, [37, 100], f)" by simp
  then show ?thesis
    by (intro terminal_output_is_format [where bs = "[37, 100]" and m = 100 and rest = "[]"])
       (simp_all add: out_example_def kernel_example_def is_modifier_def)
qed

end
