(* ===== verification/Disk_Driver.thy ===== *)
theory Disk_Driver
  imports Process
begin

text \<open>
  The asynchronous disk requests of \<^verbatim>\<open>sys/disk/disk_driver.c\<close>: a request is given to the port at
  once or queued, and the timer looks after the queue.
\<close>

section \<open>Operations\<close>

definition set_page_used :: "nat \<Rightarrow> u8 \<Rightarrow> kernel \<Rightarrow> kernel" where
  "set_page_used i u k = k\<lparr>kmm := (kmm k)\<lparr>kphy := (kphy (kmm k))\<lparr>pages := set_used (pages (kphy (kmm k))) i u\<rparr>\<rparr>\<rparr>"

definition new_task :: "u8 \<Rightarrow> op_result \<Rightarrow> u64 \<Rightarrow> bool \<Rightarrow> nat \<Rightarrow> ptr \<Rightarrow> disk_task" where
  "new_task disk_i r lba wr page p =
     (case r of
        Issued s \<Rightarrow> \<lparr>diskID = disk_i, dt_slot = of_nat s, LBA = 0, is_write = wr, issued = True, rw_to = page, dt_proc = p\<rparr>
      | _ \<Rightarrow> \<lparr>diskID = disk_i, dt_slot = 0, LBA = lba, is_write = wr, issued = False, rw_to = page, dt_proc = p\<rparr>)"

text \<open>The page of a read, by its index; no page when the command failed.\<close>

definition read_disk_block_req :: "kernel \<Rightarrow> u8 \<Rightarrow> ptr \<Rightarrow> u64 \<Rightarrow> (nat option \<times> kernel) option" where
  "read_disk_block_req k disk_i p lba =
     do {
       w_to \<leftarrow> find_free_page_entry (pages (kphy (kmm k)));
       let k1 = set_page_used w_to 2 k;
       (r, ds) \<leftarrow> ahci_read_task (disks k1) disk_i lba (page_base (kmm k1) w_to);
       let k2 = k1\<lparr>disks := ds\<rparr>;
       case r of
         Failed \<Rightarrow> Some (None, set_page_used w_to 0 k2)
       | _ \<Rightarrow> Some (Some w_to, k2\<lparr>disk_tasks := disk_tasks k2 @ [new_task disk_i r lba False w_to p]\<rparr>)
     }"

definition write_disk_block_req :: "kernel \<Rightarrow> u8 \<Rightarrow> ptr \<Rightarrow> u64 \<Rightarrow> nat \<Rightarrow> (bool \<times> kernel) option" where
  "write_disk_block_req k disk_i p lba page =
     do {
       (r, ds) \<leftarrow> ahci_write_task (disks k) disk_i lba (page_base (kmm k) page);
       let k1 = k\<lparr>disks := ds\<rparr>;
       case r of
         Failed \<Rightarrow> Some (False, k1)
       | _ \<Rightarrow> Some (True, k1\<lparr>disk_tasks := disk_tasks k1 @ [new_task disk_i r lba True page p]\<rparr>)
     }"

definition check_task :: "kernel \<Rightarrow> disk_task \<Rightarrow> (bool \<times> disk_task \<times> kernel) option" where
  "check_task k t =
     (if \<not> issued t then
        do {
          (r, ds) \<leftarrow> (if is_write t then ahci_write_task (disks k) (diskID t) (LBA t) (page_base (kmm k) (rw_to t))
                      else ahci_read_task (disks k) (diskID t) (LBA t) (page_base (kmm k) (rw_to t)));
          _ \<leftarrow> assert (r \<noteq> Failed);
          Some (False, (case r of Issued s \<Rightarrow> t\<lparr>issued := True, dt_slot := of_nat s\<rparr> | _ \<Rightarrow> t), k\<lparr>disks := ds\<rparr>)
        }
      else
        do {
          done' \<leftarrow> check_ahci_port (disks k) (diskID t) (dt_slot t);
          if done' then
            do {
              pr \<leftarrow> procs k (dt_proc t);
              Some (True, t, if terminated pr then k else put_proc (dt_proc t) (pr\<lparr>on_hold := False\<rparr>) k)
            }
          else Some (False, t, k)
        })"

fun check_tasks :: "kernel \<Rightarrow> disk_task list \<Rightarrow> (disk_task list \<times> kernel) option" where
  "check_tasks k [] = Some ([], k)"
| "check_tasks k (t # ts) =
     do {
       (done', t', k1) \<leftarrow> check_task k t;
       (ts', k2) \<leftarrow> check_tasks k1 ts;
       Some (if done' then ts' else t' # ts', k2)
     }"

definition check_disk_task :: "kernel \<Rightarrow> kernel option" where
  "check_disk_task k =
     do { (ts, k') \<leftarrow> check_tasks k (disk_tasks k); Some (k'\<lparr>disk_tasks := ts\<rparr>) }"

section \<open>Requests\<close>

lemma base_set_used: "base (set_used es i u ! j) = base (es ! j)"
  by (cases "i < length es") (auto simp: set_used_def nth_list_update list_update_beyond not_less)

lemma set_page_used_sel [simp]:
  "procs (set_page_used i u k) = procs k" "disk_tasks (set_page_used i u k) = disk_tasks k"
  "disks (set_page_used i u k) = disks k" "page_base (kmm (set_page_used i u k)) j = page_base (kmm k) j"
  by (simp_all add: set_page_used_def page_base_def base_set_used)

text \<open>
  A read request returns a page that was free and is now taken, so that no later allocation
  gets it, and leaves one task at the end of the queue for exactly that page and process; when
  the command fails no page is taken and the queue is as before.
\<close>

theorem read_request_takes_page:
  assumes "read_disk_block_req k disk_i p lba = Some (r, k')"
  shows "(case r of
      Some w \<Rightarrow> w < length (pages (kphy (kmm k))) \<and> used_by (pages (kphy (kmm k)) ! w) = 0 \<and>
        pages (kphy (kmm k')) = set_used (pages (kphy (kmm k))) w 2 \<and>
        (\<exists>t. disk_tasks k' = disk_tasks k @ [t] \<and> rw_to t = w \<and> dt_proc t = p \<and> diskID t = disk_i \<and>
             \<not> is_write t \<and> (\<not> issued t \<longrightarrow> LBA t = lba))
    | None \<Rightarrow> disk_tasks k' = disk_tasks k \<and> pages (kphy (kmm k')) = pages (kphy (kmm k)))"
proof -
  from assms obtain w op ds where w: "find_free_page_entry (pages (kphy (kmm k))) = Some w"
    and c: "(case op of Failed \<Rightarrow> Some (None, set_page_used w 0 ((set_page_used w 2 k)\<lparr>disks := ds\<rparr>))
       | _ \<Rightarrow> Some (Some w, ((set_page_used w 2 k)\<lparr>disks := ds,
           disk_tasks := disk_tasks ((set_page_used w 2 k)\<lparr>disks := ds\<rparr>) @ [new_task disk_i op lba False w p]\<rparr>))) = Some (r, k')"
    by (auto simp: read_disk_block_req_def Let_def bind_eq_Some_conv')
  have w': "w < length (pages (kphy (kmm k)))" "used_by (pages (kphy (kmm k)) ! w) = 0"
    using w by (simp_all add: find_free_Some_iff)
  have "set_used (set_used (pages (kphy (kmm k))) w 2) w 0 = pages (kphy (kmm k))"
    using w' by (intro nth_equalityI) (auto simp: set_used_def nth_list_update)
  with c w' show ?thesis
    by (cases op) (auto simp: set_page_used_def new_task_def)
qed

section \<open>Completion\<close>

text \<open>What the port says about an issued task, and which tasks it has finished.\<close>

definition finished :: "kernel \<Rightarrow> disk_task \<Rightarrow> bool" where
  "finished k t \<longleftrightarrow> check_ahci_port (disks k) (diskID t) (dt_slot t) = Some True"

lemma check_tasks_issued:
  assumes "\<forall>t \<in> set ts. issued t \<and> unat (diskID t) < length (disks k) \<and> (\<exists>pr. procs k (dt_proc t) = Some pr)"
  shows "\<exists>m. check_tasks k ts = Some (filter (\<lambda>t. \<not> finished k t) ts, k\<lparr>procs := m\<rparr>) \<and> dom m = dom (procs k) \<and>
     (\<forall>p pr. procs k p = Some pr \<longrightarrow> (\<exists>pr'. m p = Some pr' \<and> terminated pr' = terminated pr \<and>
        (\<not> on_hold pr \<longrightarrow> \<not> on_hold pr'))) \<and>
     (\<forall>t \<in> set ts. finished k t \<longrightarrow> (\<exists>pr. m (dt_proc t) = Some pr \<and> (terminated pr \<or> \<not> on_hold pr)))"
  using assms
proof (induction ts arbitrary: k)
  case Nil
  then show ?case by (intro exI [of _ "procs k"]) auto
next
  case (Cons t ts)
  then obtain pr where pr: "procs k (dt_proc t) = Some pr" by auto
  obtain d where d: "check_ahci_port (disks k) (diskID t) (dt_slot t) = Some d"
    using Cons.prems by (auto simp: check_ahci_port_def Let_def)
  define pr1 where "pr1 = (if d \<and> \<not> terminated pr then pr\<lparr>on_hold := False\<rparr> else pr)"
  define k1 where "k1 = k\<lparr>procs := (procs k)(dt_proc t \<mapsto> pr1)\<rparr>"
  have k0: "k\<lparr>procs := (procs k)(dt_proc t \<mapsto> pr)\<rparr> = k" using pr by (simp add: map_upd_triv)
  have c: "check_task k t = Some (d, t, k1)"
    using Cons.prems d pr k0 by (auto simp: check_task_def k1_def pr1_def put_proc_def)
  have f: "finished k1 = finished k" by (simp add: finished_def k1_def fun_eq_iff)
  have "\<forall>t \<in> set ts. issued t \<and> unat (diskID t) < length (disks k1) \<and> (\<exists>pr. procs k1 (dt_proc t) = Some pr)"
    using Cons.prems by (auto simp: k1_def)
  from Cons.IH [OF this] obtain m where m: "check_tasks k1 ts = Some (filter (\<lambda>t. \<not> finished k t) ts, k1\<lparr>procs := m\<rparr>)"
    "dom m = dom (procs k1)"
    "\<forall>p pr. procs k1 p = Some pr \<longrightarrow> (\<exists>pr'. m p = Some pr' \<and> terminated pr' = terminated pr \<and> (\<not> on_hold pr \<longrightarrow> \<not> on_hold pr'))"
    "\<forall>t \<in> set ts. finished k t \<longrightarrow> (\<exists>pr. m (dt_proc t) = Some pr \<and> (terminated pr \<or> \<not> on_hold pr))"
    unfolding f by blast
  have p1: "terminated pr1 = terminated pr" "\<not> on_hold pr \<longrightarrow> \<not> on_hold pr1" "d \<longrightarrow> terminated pr1 \<or> \<not> on_hold pr1"
    by (auto simp: pr1_def)
  have "\<exists>pr'. m q = Some pr' \<and> terminated pr' = terminated pq \<and> (\<not> on_hold pq \<longrightarrow> \<not> on_hold pr')"
    if "procs k q = Some pq" for q pq
  proof (cases "q = dt_proc t")
    case True
    then have "procs k1 q = Some pr1" "pq = pr" using that pr by (simp_all add: k1_def)
    with m(3) p1 show ?thesis by metis
  next
    case False
    then have "procs k1 q = Some pq" using that by (simp add: k1_def)
    with m(3) show ?thesis by blast
  qed
  moreover have "d \<longrightarrow> (\<exists>pr'. m (dt_proc t) = Some pr' \<and> (terminated pr' \<or> \<not> on_hold pr'))"
  proof -
    have "procs k1 (dt_proc t) = Some pr1" by (simp add: k1_def)
    with m(3) p1(3) show ?thesis by metis
  qed
  moreover have "d = finished k t" using d by (simp add: finished_def)
  moreover have "dom m = dom (procs k)" using m(2) pr by (auto simp: k1_def)
  ultimately show ?case using c m(1,4) by (intro exI [of _ m]) (auto simp: k1_def)
qed

text \<open>
  C31. Disk completion wakes its process: with every queued task issued, one look at the queue
  removes exactly the tasks whose command the port has finished, keeps the others in order,
  and wakes the process of every finished task unless it has terminated.
\<close>

theorem check_disk_task_completes:
  assumes "\<forall>t \<in> set (disk_tasks k). issued t \<and> unat (diskID t) < length (disks k) \<and>
      (\<exists>pr. procs k (dt_proc t) = Some pr)"
  shows "\<exists>k'. check_disk_task k = Some k' \<and> disk_tasks k' = filter (\<lambda>t. \<not> finished k t) (disk_tasks k) \<and>
     (\<forall>t \<in> set (disk_tasks k). finished k t \<longrightarrow>
        (\<exists>pr. procs k' (dt_proc t) = Some pr \<and> (terminated pr \<or> \<not> on_hold pr)))"
  using check_tasks_issued [OF assms] by (auto simp: check_disk_task_def)

text \<open>
  A disk error leaves its process asleep: while the port shows a task file error, no task
  of that disk is ever removed and no process is woken.
\<close>

theorem disk_error_sleeps:
  assumes "disk_tasks k = [t]" "issued t" "unat (diskID t) < length (disks k)"
    and "bit (is_rwc (port_p (disks k ! unat (diskID t)))) 30"
  shows "check_disk_task k = Some k"
proof -
  have "check_ahci_port (disks k) (diskID t) (dt_slot t) = Some False"
    using assms(3,4) by (rule check_ahci_port_error)
  with assms(1,2) show ?thesis by (simp add: check_disk_task_def check_task_def)
qed

section \<open>Instances\<close>

theorem read_request_takes_page_witness:
  "\<exists>w k'. read_disk_block_req kernel_example 0 0x20 10 = Some (Some w, k') \<and>
     pages (kphy (kmm k')) = set_used (pages phy_example) w 2 \<and>
     (\<exists>t. disk_tasks k' = [t] \<and> rw_to t = w \<and> dt_proc t = 0x20)"
proof -
  have f: "find_free_page_entry (pages phy_example) = Some 1" by (simp add: phy_example_def find_free_page_entry_def)
  obtain port' where "issue_command (wait_ready 0) False (task_startl 10) (task_starth 10) 8
      (page_base (kmm kernel_example) 1) port_example = Some (Issued 2, port')"
    using port_example_slot
    by (simp add: issue_command_def Let_def) (simp add: port_example_def ATA_BUSY_DRQ_def ATA_DEV_ERR_def)
  then obtain k' where "read_disk_block_req kernel_example 0 0x20 10 = Some (Some 1, k')" using f
    by (simp add: read_disk_block_req_def ahci_read_task_def find_port_def DISK_NUM_def assert_def kernel_example_def Let_def)
  with read_request_takes_page [OF this] show ?thesis by (auto simp: kernel_example_def)
qed

definition task_example :: disk_task where
  "task_example = \<lparr>diskID = 0, dt_slot = 4, LBA = 0, is_write = False, issued = True, rw_to = 1, dt_proc = 0x10\<rparr>"

theorem check_disk_task_completes_witness:
  "\<exists>k'. check_disk_task (kernel_example\<lparr>disk_tasks := [task_example]\<rparr>) = Some k' \<and> disk_tasks k' = [] \<and>
     (\<exists>pr. procs k' 0x10 = Some pr \<and> (terminated pr \<or> \<not> on_hold pr))"
  using check_disk_task_completes [of "kernel_example\<lparr>disk_tasks := [task_example]\<rparr>"]
  by (simp add: finished_def check_ahci_port_def kernel_example_def port_example_def task_example_def Let_def)

theorem disk_error_sleeps_witness:
  "check_disk_task (kernel_example\<lparr>disk_tasks := [task_example],
     disks := [\<lparr>exist = True, port_p = port_example\<lparr>is_rwc := 0x40000000\<rparr>\<rparr>]\<rparr>) =
   Some (kernel_example\<lparr>disk_tasks := [task_example],
     disks := [\<lparr>exist = True, port_p = port_example\<lparr>is_rwc := 0x40000000\<rparr>\<rparr>]\<rparr>)"
  by (rule disk_error_sleeps [where t = task_example]) (simp_all add: task_example_def)

end
