(* ===== verification/Elf.thy ===== *)
theory Elf
  imports File_System
begin

text \<open>
  The executable loader, \<^verbatim>\<open>sys/elf64.c\<close>: the program headers of an ELF file of the archive
  (\<open>read_elf_tarfs\<close>) or of an open file (\<open>read_elf\<close>) as a list of sections.  The linked list
  from \<open>first\<close> is a list, and \<open>NULL\<close> is the empty one.
\<close>

section \<open>Operations\<close>

record program_section =
  file_offset :: u64
  memory_offset :: u64
  sect_size :: u64
  mem_size :: u64
  entry_point :: u64

definition elf64_sig :: bytes where
  "elf64_sig = [0x7f, 0x45, 0x4c, 0x46, 0x02, 0x01, 0x01, 0x00, 0x00, 0x00, 0x00, 0x00, 0x00, 0x00, 0x00, 0x00]"

text \<open>The fields of \<open>Elf64_Ehdr\<close> and \<open>Elf64_Phdr\<close> that are read.\<close>

definition e_entry :: "bytes \<Rightarrow> u64" where "e_entry h = get64 h 24"
definition e_phoff :: "bytes \<Rightarrow> u64" where "e_phoff h = get64 h 32"
definition e_phnum :: "bytes \<Rightarrow> nat" where "e_phnum h = unat (of_le (get_at h 56 2))"

definition section_of :: "u64 \<Rightarrow> bytes \<Rightarrow> program_section" where
  "section_of entry ph = \<lparr>file_offset = get64 ph 8, memory_offset = get64 ph 16, sect_size = get64 ph 32,
     mem_size = get64 ph 40, entry_point = entry\<rparr>"

fun tarfs_sections :: "tarfs \<Rightarrow> bytes \<Rightarrow> u64 \<Rightarrow> u64 \<Rightarrow> nat \<Rightarrow> program_section list option option" where
  "tarfs_sections tf path entry off 0 = Some (Some [])"
| "tarfs_sections tf path entry off (Suc n) =
     do {
       (r, ph) \<leftarrow> tarfs_read tf path 0x38 (sint off);
       if r < 0x38 then Some None
       else do {
         rest \<leftarrow> tarfs_sections tf path entry (off + 0x38) n;
         Some (map_option (Cons (section_of entry ph)) rest)
       }
     }"

definition read_elf_tarfs :: "tarfs \<Rightarrow> bytes \<Rightarrow> program_section list option" where
  "read_elf_tarfs tf path =
     do {
       (r, header) \<leftarrow> tarfs_read tf path 0x40 0;
       if r < 0x40 then Some []
       else do {
         ok \<leftarrow> memeq header elf64_sig 0x10;
         if \<not> ok then Some []
         else do {
           secs \<leftarrow> tarfs_sections tf path (e_entry header) (e_phoff header) (e_phnum header);
           Some (case secs of None \<Rightarrow> [] | Some l \<Rightarrow> l)
         }
       }
     }"

text \<open>The same over an open file; the offset of the file moves.\<close>

fun file_sections :: "filesys \<Rightarrow> ptr \<Rightarrow> u64 \<Rightarrow> u64 \<Rightarrow> nat \<Rightarrow> (program_section list option \<times> filesys) option" where
  "file_sections fs p entry off 0 = Some (Some [], fs)"
| "file_sections fs p entry off (Suc n) =
     do {
       fs1 \<leftarrow> file_set_offset fs p off;
       (r, ph, fs2) \<leftarrow> file_read fs1 p 0x38;
       if r < 0x38 then Some (None, fs2)
       else do {
         (rest, fs3) \<leftarrow> file_sections fs2 p entry (off + 0x38) n;
         Some (map_option (Cons (section_of entry ph)) rest, fs3)
       }
     }"

definition read_elf :: "filesys \<Rightarrow> ptr \<Rightarrow> (program_section list \<times> filesys) option" where
  "read_elf fs p =
     do {
       fs1 \<leftarrow> file_set_offset fs p 0;
       (r, header, fs2) \<leftarrow> file_read fs1 p 0x40;
       if r < 0x40 then Some ([], fs2)
       else do {
         ok \<leftarrow> memeq header elf64_sig 0x10;
         if \<not> ok then Some ([], fs2)
         else do {
           (secs, fs3) \<leftarrow> file_sections fs2 p (e_entry header) (e_phoff header) (e_phnum header);
           Some (case secs of None \<Rightarrow> [] | Some l \<Rightarrow> l, fs3)
         }
       }
     }"

section \<open>Reading back an image\<close>

text \<open>
  What a linker writes: a header of 64 bytes, whatever the fields are that the kernel ignores,
  and a table of program headers of 56 bytes.
\<close>

definition elf_header :: "u64 \<Rightarrow> u64 \<Rightarrow> nat \<Rightarrow> bytes \<Rightarrow> bytes \<Rightarrow> bytes \<Rightarrow> bytes" where
  "elf_header entry phoff n a b c = elf64_sig @ a @ le_of 8 entry @ le_of 8 phoff @ b @ le_of 2 (of_nat n) @ c"

definition elf_phdr :: "program_section \<Rightarrow> u64 \<Rightarrow> u64 \<Rightarrow> u64 \<Rightarrow> bytes" where
  "elf_phdr s flags paddr align = le_of 8 flags @ le_of 8 (file_offset s) @ le_of 8 (memory_offset s) @
     le_of 8 paddr @ le_of 8 (sect_size s) @ le_of 8 (mem_size s) @ le_of 8 align"

definition is_elf :: "bytes \<Rightarrow> u64 \<Rightarrow> program_section list \<Rightarrow> bool" where
  "is_elf content entry secs \<longleftrightarrow>
     (\<exists>phoff a b c. length a = 8 \<and> length b = 16 \<and> length c = 6 \<and> length secs < 2 ^ 16 \<and>
        take 64 content = elf_header entry (of_nat phoff) (length secs) a b c \<and>
        phoff + 56 * length secs \<le> length content \<and>
        (\<forall>i < length secs. entry_point (secs ! i) = entry \<and>
           (\<exists>fl pa al. get_at content (phoff + 56 * i) 56 = elf_phdr (secs ! i) fl pa al)))"

lemma memeq_refl: "length xs = n \<Longrightarrow> n > 0 \<Longrightarrow> memeq (xs @ ys) xs (int n) = Some True"
proof (induction xs arbitrary: n)
  case (Cons x xs)
  show ?case
  proof (cases xs)
    case Nil
    then show ?thesis using Cons.prems by auto
  next
    case (Cons y zs)
    then have "memeq (xs @ ys) xs (int (n - 1)) = Some True" using Cons.IH [of "n - 1"] Cons.prems by auto
    then show ?thesis using Cons.prems Cons by (auto simp: of_nat_diff)
  qed
qed simp

lemma get_at_append:
  "length xs = i \<Longrightarrow> length ys = n \<Longrightarrow> get_at (xs @ ys @ zs) i n = ys"
  by (simp add: get_at_def)

lemma header_fields:
  assumes "length a = 8" "length b = 16" "n < 2 ^ 16"
  shows "e_entry (elf_header entry phoff n a b c) = entry" "e_phoff (elf_header entry phoff n a b c) = phoff"
    "e_phnum (elf_header entry phoff n a b c) = n" "memeq (elf_header entry phoff n a b c) elf64_sig 16 = Some True"
proof -
  let ?h = "elf_header entry phoff n a b c"
  have "get_at ?h 24 8 = le_of 8 entry"
    using get_at_append [of "elf64_sig @ a" 24 "le_of 8 entry" 8] assms by (simp add: elf_header_def elf64_sig_def)
  then show "e_entry ?h = entry" by (simp add: e_entry_def get64_def)
  have "get_at ?h 32 8 = le_of 8 phoff"
    using get_at_append [of "elf64_sig @ a @ le_of 8 entry" 32 "le_of 8 phoff" 8] assms
    by (simp add: elf_header_def elf64_sig_def)
  then show "e_phoff ?h = phoff" by (simp add: e_phoff_def get64_def)
  have "get_at ?h 56 2 = le_of 2 (of_nat n)"
    using get_at_append [of "elf64_sig @ a @ le_of 8 entry @ le_of 8 phoff @ b" 56 "le_of 2 (of_nat n)" 2] assms
    by (simp add: elf_header_def elf64_sig_def)
  then show "e_phnum ?h = n"
    using assms(3) by (simp add: e_phnum_def of_le_of_le take_bit_of_nat unat_of_nat take_bit_nat_eq_self)
  show "memeq ?h elf64_sig 16 = Some True"
    using memeq_refl [of elf64_sig 16] by (simp add: elf_header_def elf64_sig_def)
qed

lemma section_of_phdr: "entry_point s = entry \<Longrightarrow> section_of entry (elf_phdr s fl pa al) = s"
proof -
  assume "entry_point s = entry"
  moreover have "get64 (elf_phdr s fl pa al) 8 = file_offset s" "get64 (elf_phdr s fl pa al) 16 = memory_offset s"
     "get64 (elf_phdr s fl pa al) 32 = sect_size s" "get64 (elf_phdr s fl pa al) 40 = mem_size s"
    by (simp_all add: get64_def get_at_def elf_phdr_def)
  ultimately show ?thesis by (simp add: section_of_def)
qed

lemma sint_offset: "n < 2 ^ 63 \<Longrightarrow> sint (of_nat n :: u64) = int n"
  by (simp add: sint_uint uint_nat unat_of_nat signed_take_bit_int_eq_self)

lemma tarfs_sections_elf:
  assumes tar: "tar_at (tarfs_image tf) 0 es" "is_cstr path (47 # p)" "map_of es p = Some content"
    and len: "off + 56 * length secs \<le> length content" "length content < 2 ^ 62"
    and ph: "\<forall>i < length secs. entry_point (secs ! i) = entry \<and>
           (\<exists>fl pa al. get_at content (off + 56 * i) 56 = elf_phdr (secs ! i) fl pa al)"
  shows "tarfs_sections tf path entry (of_nat off) (length secs) = Some (Some secs)"
  using len(1) ph
proof (induction secs arbitrary: off)
  case (Cons s secs)
  obtain fl pa al where s: "entry_point s = entry" "get_at content off 56 = elf_phdr s fl pa al"
    using Cons.prems(2) by (metis length_Cons mult_0_right nat.simps(3) add_0_right nth_Cons_0 zero_less_Suc)
  have "take (nat 56) (drop off content) = elf_phdr s fl pa al" using s(2) by (simp add: get_at_def)
  moreover have "length (elf_phdr s fl pa al) = 56" by (simp add: elf_phdr_def)
  ultimately have r: "tarfs_read tf path 0x38 (int off) = Some (56, elf_phdr s fl pa al)"
    using tarfs_read_slice [OF tar(1,2), of 56 off] tar(3) by (auto simp: Let_def)
  have "tarfs_sections tf path entry (of_nat (off + 56)) (length secs) = Some (Some secs)"
  proof (rule Cons.IH)
    show "\<forall>i < length secs. entry_point (secs ! i) = entry \<and>
        (\<exists>fl pa al. get_at content (off + 56 + 56 * i) 56 = elf_phdr (secs ! i) fl pa al)"
    proof (intro allI impI)
      fix i assume "i < length secs"
      with Cons.prems(2) [rule_format, of "Suc i"]
      show "entry_point (secs ! i) = entry \<and>
          (\<exists>fl pa al. get_at content (off + 56 + 56 * i) 56 = elf_phdr (secs ! i) fl pa al)"
        by (simp add: add.assoc)
    qed
  qed (use Cons.prems in simp)
  then show ?case using r s(1) Cons.prems(1) len(2) sint_offset [of off] section_of_phdr by (simp add: add.commute)
qed simp

text \<open>
  C20. The loader reads back what a linker writes: for an archive file whose header and program
  headers encode the sections \<open>secs\<close> and the entry point, wherever the table is and whatever the
  other fields hold, \<open>read_elf_tarfs\<close> returns exactly those sections in order, each with the
  entry point.
\<close>

theorem read_elf_tarfs_sections:
  assumes "tar_at (tarfs_image tf) 0 es" "is_cstr path (47 # p)" "map_of es p = Some content"
    and "length content < 2 ^ 62" "is_elf content entry secs"
  shows "read_elf_tarfs tf path = Some secs"
proof -
  obtain phoff a b c where e: "length a = 8" "length b = 16" "length c = 6" "length secs < 2 ^ 16"
      "take 64 content = elf_header entry (of_nat phoff) (length secs) a b c"
      "phoff + 56 * length secs \<le> length content"
      "\<forall>i < length secs. entry_point (secs ! i) = entry \<and>
           (\<exists>fl pa al. get_at content (phoff + 56 * i) 56 = elf_phdr (secs ! i) fl pa al)"
    using assms(5) unfolding is_elf_def by blast
  have "length (take 64 content) = 64" unfolding e(5) using e by (simp add: elf_header_def elf64_sig_def)
  then have "tarfs_read tf path 0x40 0 = Some (64, elf_header entry (of_nat phoff) (length secs) a b c)"
    using tarfs_read_slice [OF assms(1,2), of 64 0] assms(3) e(5) by (auto simp: Let_def)
  then show ?thesis
    using tarfs_sections_elf [OF assms(1-3) e(6) assms(4) e(7)] header_fields [OF e(1,2,4)]
    by (simp add: read_elf_tarfs_def)
qed

section \<open>Open files of the archive\<close>

lemma tarfs_read_bound:
  assumes r: "tarfs_read tf path sz off = Some (r, bs)"
  shows "r = - 1 \<or> 0 < r \<and> r \<le> sz"
proof -
  from r obtain found where f: "tar_search (tarfs_image tf) (drop 1 path) 0 = Some found"
    by (cases "tar_search (tarfs_image tf) (drop 1 path) 0") (auto simp: tarfs_read_def)
  show ?thesis
  proof (cases found)
    case None
    then show ?thesis using r f by (simp add: tarfs_read_def)
  next
    case (Some cs)
    obtain c s where cs: "cs = (c, s)" by fastforce
    define n where "n = (if s - off > sz then sz else s - off)"
    have "tarfs_read tf path sz off = (if n \<le> 0 then Some (- 1, []) else
        let src = tar_from (tarfs_image tf) (c + 512 + off)
        in if nat n \<le> length src then Some (n, take (nat n) src) else None)"
      using f Some cs by (simp add: tarfs_read_def n_def Let_def)
    moreover have "n \<le> sz" by (simp add: n_def)
    ultimately show ?thesis using r by (auto simp: Let_def split: if_splits)
  qed
qed

text \<open>An open file of the archive \<open>tf\<close> with this path.\<close>

definition archive_file :: "tarfs \<Rightarrow> bytes \<Rightarrow> filesys \<Rightarrow> ptr \<Rightarrow> bool" where
  "archive_file tf path fs p \<longleftrightarrow>
     tar fs = tf \<and> (\<exists>e. files fs p = Some e \<and> io_type e = 3 \<and> path_str e = path)"

lemma archive_file_read:
  assumes "archive_file tf path fs p" "0 < sint sz" "sint sz < 2 ^ 31"
  shows "case tarfs_read tf path (sint sz) (sint off) of
      None \<Rightarrow> \<exists>fs1. file_set_offset fs p off = Some fs1 \<and> file_read fs1 p sz = None
    | Some (r, bs) \<Rightarrow> \<exists>fs1 fs2. file_set_offset fs p off = Some fs1 \<and> file_read fs1 p sz = Some (r, bs, fs2) \<and>
        archive_file tf path fs2 p"
proof -
  have "to_int r = r" if "tarfs_read tf path (sint sz) (sint off) = Some (r, bs)" for r bs
    using tarfs_read_bound [OF that] assms(2,3)
    by (auto simp: to_int_def sint_uint uint_word_of_int signed_take_bit_int_eq_self)
  with assms(1) show ?thesis
    by (auto simp: archive_file_def file_set_offset_def file_read_def split: option.splits)
qed

lemma file_sections_tarfs:
  "archive_file tf path fs p \<Longrightarrow>
   map_option fst (file_sections fs p entry off n) = tarfs_sections tf path entry off n"
proof (induction n arbitrary: fs off)
  case (Suc n)
  show ?case
  proof (cases "tarfs_read tf path 56 (sint off)")
    case None
    with archive_file_read [OF Suc.prems, of "0x38" off] show ?thesis by auto
  next
    case (Some rb)
    obtain r bs where rb: "rb = (r, bs)" by fastforce
    with archive_file_read [OF Suc.prems, of "0x38" off] Some obtain fs1 fs2 where
      fs: "file_set_offset fs p off = Some fs1" "file_read fs1 p 0x38 = Some (r, bs, fs2)" "archive_file tf path fs2 p"
      by auto
    have "map_option fst (file_sections fs2 p entry (off + 56) n) = tarfs_sections tf path entry (off + 56) n"
      by (rule Suc.IH [OF fs(3)])
    from this [symmetric] show ?thesis using fs Some rb
      by (cases "file_sections fs2 p entry (off + 56) n") auto
  qed
qed simp

text \<open>
  The two loaders agree: on an open file of the archive \<open>read_elf\<close> returns the sections that
  \<open>read_elf_tarfs\<close> returns for its path, whatever the offset of the file was, and it is
  undefined exactly when the other is.
\<close>

theorem read_elf_same:
  assumes "files fs p = Some e" "io_type e = 3"
  shows "map_option fst (read_elf fs p) = read_elf_tarfs (tar fs) (path_str e)"
proof -
  have a: "archive_file (tar fs) (path_str e) fs p" using assms by (simp add: archive_file_def)
  show ?thesis
  proof (cases "tarfs_read (tar fs) (path_str e) 64 0")
    case None
    with archive_file_read [OF a, of "0x40" 0] show ?thesis by (auto simp: read_elf_def read_elf_tarfs_def)
  next
    case (Some rh)
    obtain r h where rh: "rh = (r, h)" by fastforce
    with archive_file_read [OF a, of "0x40" 0] Some obtain fs1 fs2 where
      fs: "file_set_offset fs p 0 = Some fs1" "file_read fs1 p 0x40 = Some (r, h, fs2)"
      and a2: "archive_file (tar fs) (path_str e) fs2 p" by auto
    have "map_option fst (file_sections fs2 p (e_entry h) (e_phoff h) (e_phnum h)) =
        tarfs_sections (tar fs) (path_str e) (e_entry h) (e_phoff h) (e_phnum h)" by (rule file_sections_tarfs [OF a2])
    from this [symmetric] show ?thesis using fs Some rh
      by (cases "memeq h elf64_sig 16"; cases "file_sections fs2 p (e_entry h) (e_phoff h) (e_phnum h)")
        (auto simp: read_elf_def read_elf_tarfs_def)
  qed
qed

section \<open>An executable\<close>

definition section_example :: program_section where
  "section_example = \<lparr>file_offset = 120, memory_offset = 0x400000, sect_size = 2, mem_size = 8, entry_point = 0x400000\<rparr>"

definition elf_example :: bytes where
  "elf_example = elf_header 0x400000 64 1 (replicate 8 0) (replicate 16 0) (replicate 6 0) @
     elf_phdr section_example 0 0 0 @ [0x90, 0xC3]"

definition elf_archive :: tarfs where
  "elf_archive = \<lparr>tarfs_start = 0x100000, tarfs_image = tar_header [97] [49, 55, 50] @ elf_example\<rparr>"

lemma length_elf_header: "length a = 8 \<Longrightarrow> length b = 16 \<Longrightarrow> length c = 6 \<Longrightarrow> length (elf_header e o' n a b c) = 64"
  by (simp add: elf_header_def elf64_sig_def)

lemma length_elf_phdr: "length (elf_phdr s fl pa al) = 56"
  by (simp add: elf_phdr_def)

lemma elf_example_ok: "is_elf elf_example 0x400000 [section_example]"
  unfolding is_elf_def
proof (rule exI [of _ 64], rule exI [of _ "replicate 8 0"], rule exI [of _ "replicate 16 0"],
    rule exI [of _ "replicate 6 0"], intro conjI)
  show "take 64 elf_example = elf_header 0x400000 (of_nat 64) (length [section_example]) (replicate 8 0)
      (replicate 16 0) (replicate 6 0)" by (simp add: elf_example_def length_elf_header)
  show "64 + 56 * length [section_example] \<le> length elf_example"
    by (simp add: elf_example_def length_elf_header length_elf_phdr)
  have "get_at elf_example 64 56 = elf_phdr section_example 0 0 0"
    by (simp add: elf_example_def get_at_append length_elf_header length_elf_phdr)
  then show "\<forall>i < length [section_example]. entry_point ([section_example] ! i) = 0x400000 \<and>
      (\<exists>fl pa al. get_at elf_example (64 + 56 * i) 56 = elf_phdr ([section_example] ! i) fl pa al)"
    by (auto simp: section_example_def)
qed simp_all

lemma length_elf_example: "length elf_example = 122"
  by (simp add: elf_example_def length_elf_header length_elf_phdr)

lemma elf_archive_at: "tar_at (tarfs_image elf_archive) 0 [([97], elf_example)]"
  by (rule tar_at_header [where rest = "[]" and digits = "[49, 55, 50]"])
    (simp_all add: elf_archive_def is_digit8_def length_elf_example tar_header_def round512_def)

theorem read_elf_tarfs_sections_witness: "read_elf_tarfs elf_archive [47, 97, 0] = Some [section_example]"
  by (rule read_elf_tarfs_sections [OF elf_archive_at, where p = "[97]", OF _ _ _ elf_example_ok])
    (simp_all add: length_elf_example)

theorem read_elf_same_witness:
  "map_option fst (read_elf (pipe_example\<lparr>tar := elf_archive, files := [16 \<mapsto> new_entry 3 [47, 97, 0]]\<rparr>) 16) =
   read_elf_tarfs elf_archive [47, 97, 0]"
  using read_elf_same [of "pipe_example\<lparr>tar := elf_archive, files := [16 \<mapsto> new_entry 3 [47, 97, 0]]\<rparr>" 16]
  by (simp add: new_entry_def)

end
