(* ===== verification/Spawn.thy ===== *)
theory Spawn
  imports Process Elf
begin

text \<open>
  Creating and replacing processes, \<^verbatim>\<open>sys/thread/kthread.c\<close>: \<^verbatim>\<open>spawn_process\<close>, \<^verbatim>\<open>fork_process\<close>
  and \<^verbatim>\<open>replace_process\<close>.
\<close>

section \<open>Address spaces\<close>

definition process_rsp0_start :: u64 where
  "process_rsp0_start = process_direct_mapping_addr - 4096"

definition process_initial_rsp :: u64 where
  "process_initial_rsp = process_rsp0_start"

text \<open>
  The block the three routines begin with: the top table and the table of the upper half, with
  the user entry, the direct mapping at entry 510, and the kernel's two directories.
\<close>

definition alloc_table :: "u8 \<Rightarrow> kmem \<Rightarrow> 'z addr_space_scheme \<Rightarrow> (m_map \<times> kmem) option" where
  "alloc_table type k proc =
     do {
       (p, k1) \<leftarrow> sf_calloc_map k;
       (i, ph) \<leftarrow> get_phy_page_for_program (kphy k1) p;
       Some (\<lparr>mm_ptr = p, mm_type = type, phy_page = i, vir_addr = 0, mm_proc = self proc,
              shared = False, rw = False\<rparr>, k1\<lparr>kphy := ph\<rparr>)
     }"

definition new_tables :: "kpt \<Rightarrow> kmem \<Rightarrow> 'z addr_space_scheme \<Rightarrow> ('z addr_space_scheme \<times> kmem) option" where
  "new_tables t k proc =
     do {
       (pml4_map, k1) \<leftarrow> alloc_table 3 k proc;
       (pdp1_map, k2) \<leftarrow> alloc_table 1 k1 proc;
       let PML4 = page_base k2 (phy_page pml4_map);
       let PDP1 = page_base k2 (phy_page pdp1_map);
       let k3 = kzero PDP1 (kzero PML4 k2);
       let k4 = set_entry (entry_slot PML4 511) 1 None PDP1 k3;
       let k5 = set_entry (entry_slot PML4 510) 0 None 0 k4;
       let k6 = set_entry (entry_slot PDP1 511) 0 (Some 0) (kernel_base_pd t) k5;
       let k7 = set_entry (entry_slot PDP1 510) 0 (Some 0) (kernel_malloc_pd t) k6;
       Some (proc\<lparr>cr3 := PML4, first_map := [pml4_map, pdp1_map]\<rparr>, k7)
     }"

text \<open>A \<open>handler_reg\<close> in memory, as its twenty words.\<close>

definition reg_words :: "handler_reg \<Rightarrow> u64 list" where
  "reg_words r = [rbp r, r15 r, r14 r, r13 r, r12 r, r9 r, r8 r, rax r, rcx r, rdx r, rbx r, rsi r, rdi r,
     int_num r, err_num r, ret_rip r, reg_cs r, eflags r, ret_rsp r, reg_ss r]"

fun store_words :: "u64 \<Rightarrow> u64 list \<Rightarrow> kmem \<Rightarrow> kmem" where
  "store_words a [] k = k"
| "store_words a (w # ws) k = store_words (a + 8) ws (kwrite a w k)"

definition SIZEOF_REG :: u64 where "SIZEOF_REG = 160"

text \<open>The frame with which a process enters user mode, and the one of its first switch.\<close>

definition user_frame :: "u64 \<Rightarrow> u64 \<Rightarrow> handler_reg" where
  "user_frame sp ip = zero_reg\<lparr>reg_cs := 0x1b, reg_ss := 0x23, eflags := 0x200216, ret_rsp := sp, ret_rip := ip\<rparr>"

definition switch_frame :: "u64 \<Rightarrow> handler_reg" where
  "switch_frame after = zero_reg\<lparr>reg_cs := 0x08, reg_ss := 0x10, eflags := 0x200046,
     ret_rsp := process_rsp0_start + 4096 - 16 - SIZEOF_REG, ret_rip := after\<rparr>"

definition store_frames :: "u64 \<Rightarrow> handler_reg \<Rightarrow> handler_reg \<Rightarrow> kmem \<Rightarrow> kmem" where
  "store_frames rsp0 user sw k =
     (let reg = rsp0 + 4096 - 16 - SIZEOF_REG
      in store_words (reg - SIZEOF_REG) (reg_words sw) (store_words reg (reg_words user) k))"

section \<open>The process list\<close>

partial_function (option) last_process :: "(ptr \<rightharpoonup> process) \<Rightarrow> ptr \<Rightarrow> ptr option" where
  "last_process m c = do { pr \<leftarrow> m c; if p_next pr = 0 then Some c else last_process m (p_next pr) }"

definition attach_process :: "ptr \<Rightarrow> kernel \<Rightarrow> kernel option" where
  "attach_process p k =
     (if first_process k = 0 then Some (k\<lparr>first_process := p\<rparr>)
      else do {
        l \<leftarrow> last_process (procs k) (first_process k);
        upd_proc l (\<lambda>pr. pr\<lparr>p_next := p\<rparr>) k
      })"

definition open_more :: "int \<Rightarrow> ptr \<Rightarrow> filesys \<Rightarrow> filesys option" where
  "open_more n p f = (case files f p of None \<Rightarrow> None
     | Some e \<Rightarrow> Some (put_file p (e\<lparr>open_count := open_count e + n\<rparr>) f))"

section \<open>Loading a program\<close>

text \<open>A byte of physical memory, in its 64-bit cell.\<close>

definition kwrite8 :: "u64 \<Rightarrow> u8 \<Rightarrow> kmem \<Rightarrow> kmem" where
  "kwrite8 a b k =
     (let c = a AND NOT 7; s = 8 * unat (a AND 7)
      in kwrite c ((kread k c AND NOT (push_bit s 0xFF)) OR push_bit s (ucast b)) k)"

fun store_bytes :: "u64 \<Rightarrow> bytes \<Rightarrow> kmem \<Rightarrow> kmem" where
  "store_bytes a [] k = k"
| "store_bytes a (b # bs) k = store_bytes (a + 1) bs (kwrite8 a b k)"

text \<open>
  The loop over the file part of a section.  A short read hangs; the result of \<open>tarfs_read\<close> is
  compared as an unsigned number, so that -1 passes.
\<close>

type_synonym load_state = "u64 \<times> u64 \<times> u64 \<times> process \<times> kmem"

partial_function (option) load_file_part ::
  "tarfs \<Rightarrow> bytes \<Rightarrow> u64 \<Rightarrow> u64 \<Rightarrow> u64 \<Rightarrow> u64 \<Rightarrow> u64 \<Rightarrow> process \<Rightarrow> kmem \<Rightarrow> load_state option" where
  "load_file_part tf path prog_disk prog_mem remain mem_remain new_page proc k =
     (if remain = 0 then Some (prog_mem, mem_remain, new_page, proc, k)
      else do {
        to_read \<leftarrow> math_min 4096 [4096 - prog_mem mod 4096, remain, - 1];
        (page, proc1, k1) \<leftarrow> add_page_for_process k proc prog_mem True 2;
        (r, bs) \<leftarrow> tarfs_read tf path (sint to_read) (sint prog_disk);
        if (word_of_int r :: u64) < to_read then None
        else load_file_part tf path (prog_disk + to_read) (prog_mem + to_read) (remain - to_read)
               (mem_remain - to_read) page proc1 (store_bytes (page + prog_mem mod 4096) bs k1)
      })"

text \<open>The zeroed rest: a new page at each page boundary.\<close>

partial_function (option) load_zero_part ::
  "u64 \<Rightarrow> u64 \<Rightarrow> u64 \<Rightarrow> process \<Rightarrow> kmem \<Rightarrow> (process \<times> kmem) option" where
  "load_zero_part prog_mem mem_remain new_page proc k =
     (if mem_remain = 0 then Some (proc, k)
      else do {
        (page, proc1, k1) \<leftarrow> (if prog_mem mod 0x1000 = 0 then add_page_for_process k proc prog_mem True 2
                               else Some (new_page, proc, k));
        load_zero_part (prog_mem + 1) (mem_remain - 1) page proc1 (kwrite8 (page + prog_mem mod 4096) 0 k1)
      })"

definition section_top :: "u64 \<Rightarrow> program_section \<Rightarrow> u64" where
  "section_top height s = (if memory_offset s + mem_size s > height then memory_offset s + mem_size s else height)"

definition heap_begin :: "u64 \<Rightarrow> u64" where
  "heap_begin height = ((height - 1) div 4096 + 4) * 4096"

fun load_sections :: "tarfs \<Rightarrow> bytes \<Rightarrow> program_section list \<Rightarrow> u64 \<Rightarrow> process \<Rightarrow> kmem
    \<Rightarrow> (u64 \<times> process \<times> kmem) option" where
  "load_sections tf path [] height proc k = Some (height, proc, k)"
| "load_sections tf path (s # ss) height proc k =
     do {
       (prog_mem, mem_remain, page, proc1, k1) \<leftarrow>
         load_file_part tf path (file_offset s) (memory_offset s) (sect_size s) (mem_size s) 0 proc k;
       (proc2, k2) \<leftarrow> load_zero_part prog_mem mem_remain page proc1 k1;
       load_sections tf path ss (section_top height s) proc2 k2
     }"

definition NAME_INIT :: bytes where "NAME_INIT = [105, 110, 105, 116, 0]"
definition NAME_FORKED :: bytes where
  "NAME_FORKED = [105, 110, 105, 116, 32, 40, 102, 111, 114, 107, 101, 100, 41, 0]"
definition NAME_EXECUTED :: bytes where
  "NAME_EXECUTED = [101, 120, 101, 99, 117, 116, 101, 100, 32, 112, 114, 111, 99, 101, 115, 115, 0]"
definition DIR_BIN :: bytes where "DIR_BIN = [47, 98, 105, 110, 0]"

definition alloc_process :: "kernel \<Rightarrow> (ptr \<times> kernel) option" where
  "alloc_process k = (case proc_supply k of [] \<Rightarrow> None | p # ps \<Rightarrow> Some (p, k\<lparr>proc_supply := ps\<rparr>))"

definition spawn_process :: "kernel \<Rightarrow> program_section list \<Rightarrow> bytes \<Rightarrow> kernel option" where
  "spawn_process k section elf_file_path =
     do {
       (p, k0) \<leftarrow> alloc_process k;
       (proc1, m1) \<leftarrow> new_tables (kpt_of k) (kmm k) (zero_process p);
       (actual_rsp0, proc2, m2) \<leftarrow> add_page_for_process m1 proc1 process_rsp0_start True 4;
       (_, proc3, m3) \<leftarrow> add_page_for_process m2 proc2 (process_initial_rsp - 16) True 2;
       (height, proc4, m4) \<leftarrow> load_sections (tar (kfs k)) elf_file_path section 0 proc3 m3;
       let stdin_file = fst (terminal_file_out k);
       let stdout_file = snd (terminal_file_in k);
       f1 \<leftarrow> open_more 1 stdin_file (kfs k);
       f2 \<leftarrow> open_more 2 stdout_file f1;
       let new_p = proc4\<lparr>pid := id_count k, p_name := NAME_INIT, p_next := 0,
         rsp := process_rsp0_start + 4096 - 16 - 2 * SIZEOF_REG, rsp_current := process_initial_rsp,
         heap_start := heap_begin height, heap_break := heap_begin height, workdir := DIR_BIN,
         open_fd := (open_fd proc4)[0 := Some stdin_file, 1 := Some stdout_file, 2 := Some stdout_file]\<rparr>;
       entry \<leftarrow> (case section of [] \<Rightarrow> None | s # _ \<Rightarrow> Some (entry_point s));
       let m5 = store_frames actual_rsp0 (user_frame (process_initial_rsp - 16) entry)
                  (switch_frame (after_context_switch k)) m4;
       attach_process p (put_proc p new_p (k0\<lparr>kmm := m5, kfs := f2, id_count := id_count k + 1\<rparr>))
     }"

section \<open>Forking\<close>

text \<open>The user pages of the parent become read-only in both processes.\<close>

fun share_maps :: "u64 \<Rightarrow> m_map list \<Rightarrow> process \<Rightarrow> kmem \<Rightarrow> (process \<times> kmem) option" where
  "share_maps parent_cr3 [] proc k = Some (proc, k)"
| "share_maps parent_cr3 (m # ms) proc k =
     (if mm_type m = 2 then
        do {
          let (found, mem) = set_pte_rw (pmem (kphy k)) parent_cr3 (vir_addr m) False;
          _ \<leftarrow> assert found;
          (_, proc1, k1) \<leftarrow> dup_page_for_process (k\<lparr>kphy := (kphy k)\<lparr>pmem := mem\<rparr>\<rparr>) proc (vir_addr m) (rw m) (phy_page m);
          share_maps parent_cr3 ms proc1 k1
        }
      else share_maps parent_cr3 ms proc k)"

fun dup_fds :: "ptr option list \<Rightarrow> filesys \<Rightarrow> (ptr option list \<times> filesys) option" where
  "dup_fds [] f = Some ([], f)"
| "dup_fds (None # fds) f = do { (l, f') \<leftarrow> dup_fds fds f; Some (None # l, f') }"
| "dup_fds (Some p # fds) f =
     (if p = 0 then do { (l, f') \<leftarrow> dup_fds fds f; Some (None # l, f') }
      else do {
        f1 \<leftarrow> open_more 1 p f;
        (l, f') \<leftarrow> dup_fds fds f1;
        Some (Some p # l, f')
      })"

text \<open>The registers the child resumes with: the parent's, with 0 as the result of the call.\<close>

definition child_frame :: "handler_reg \<Rightarrow> handler_reg" where
  "child_frame s = (user_frame (ret_rsp s) (ret_rip s))\<lparr>rbp := rbp s, r15 := r15 s, r14 := r14 s, r13 := r13 s,
     r12 := r12 s, r9 := r9 s, r8 := r8 s, rax := 0, rcx := rcx s, rdx := rdx s, rbx := rbx s, rsi := rsi s,
     rdi := rdi s\<rparr>"

definition fork_process :: "kernel \<Rightarrow> ptr \<Rightarrow> (ptr \<times> kernel) option" where
  "fork_process k par =
     do {
       parent' \<leftarrow> procs k par;
       (p, k0) \<leftarrow> alloc_process k;
       (proc1, m1) \<leftarrow> new_tables (kpt_of k) (kmm k) (zero_process p);
       (actual_rsp0, proc2, m2) \<leftarrow> add_page_for_process m1 proc1 process_rsp0_start True 4;
       (proc3, m3) \<leftarrow> share_maps (cr3 parent') (first_map parent') proc2 m2;
       len \<leftarrow> strlen (workdir parent');
       (fds, f) \<leftarrow> dup_fds (open_fd parent') (kfs k);
       let new_p = proc3\<lparr>pid := id_count k, parent := par, p_name := NAME_FORKED, p_next := 0,
         rsp := process_rsp0_start + 4096 - 16 - 2 * SIZEOF_REG, rsp_current := rsp_current parent',
         heap_start := heap_start parent', heap_break := heap_break parent', on_hold := False,
         workdir := take (unat len + 1) (workdir parent'), open_fd := fds\<rparr>;
       let m4 = store_frames actual_rsp0 (child_frame (saved_reg parent')) (switch_frame (after_context_switch k)) m3;
       k1 \<leftarrow> attach_process p (put_proc p new_p (k0\<lparr>kmm := m4, kfs := f, id_count := id_count k + 1\<rparr>));
       Some (p, k1)
     }"

section \<open>Replacing\<close>

fun add_stack_pages :: "nat \<Rightarrow> u64 \<Rightarrow> process \<Rightarrow> kmem \<Rightarrow> (process \<times> kmem) option" where
  "add_stack_pages 0 counter proc k = Some (proc, k)"
| "add_stack_pages (Suc n) counter proc k =
     do {
       (_, proc1, k1) \<leftarrow> add_page_for_process k proc (process_initial_rsp - 16 - counter) True 2;
       add_stack_pages n (counter + 4096) proc1 k1
     }"

partial_function (option) reserve_file_part :: "u64 \<Rightarrow> u64 \<Rightarrow> process \<Rightarrow> kmem \<Rightarrow> (process \<times> kmem) option" where
  "reserve_file_part prog_mem remain proc k =
     (if remain = 0 then Some (proc, k)
      else do {
        to_read \<leftarrow> math_min 4096 [4096 - prog_mem mod 4096, remain, - 1];
        (_, proc1, k1) \<leftarrow> add_page_for_process k proc prog_mem True 2;
        reserve_file_part (prog_mem + to_read) (remain - to_read) proc1 k1
      })"

fun reserve_sections :: "program_section list \<Rightarrow> u64 \<Rightarrow> process \<Rightarrow> kmem \<Rightarrow> (u64 \<times> process \<times> kmem) option" where
  "reserve_sections [] height proc k = Some (height, proc, k)"
| "reserve_sections (s # ss) height proc k =
     do {
       (proc1, k1) \<leftarrow> reserve_file_part (memory_offset s) (sect_size s) proc k;
       reserve_sections ss (section_top height s) proc1 k1
     }"

definition replace_process :: "kernel \<Rightarrow> ptr \<Rightarrow> program_section list \<Rightarrow> u64 \<Rightarrow> kernel option" where
  "replace_process k p section initial_stack_size =
     do {
       proc \<leftarrow> procs k p;
       let kept = filter (\<lambda>m. mm_type m = 4) (first_map proc);
       ph \<leftarrow> free_maps (kphy (kmm k)) (filter (\<lambda>m. mm_type m \<noteq> 4) (first_map proc));
       _ \<leftarrow> assert (kept \<noteq> []);
       let rsp0_map = last kept;
       (proc1, m1) \<leftarrow> new_tables (kpt_of k) ((kmm k)\<lparr>kphy := ph\<rparr>) proc;
       let proc2 = proc1\<lparr>first_map := first_map proc1 @ [rsp0_map]\<rparr>;
       (actual_rsp0, proc3, m2) \<leftarrow>
         map_page_for_process m1 proc2 process_rsp0_start True (page_base m1 (phy_page rsp0_map));
       (proc4, m3) \<leftarrow> add_stack_pages (unat ((initial_stack_size + 4095) div 4096)) 0 proc3 m2;
       (height, proc5, m4) \<leftarrow> reserve_sections section 0 proc4 m3;
       entry \<leftarrow> (case section of [] \<Rightarrow> None | s # _ \<Rightarrow> Some (entry_point s));
       let rsp_av = process_initial_rsp - initial_stack_size;
       let new_p = proc5\<lparr>p_name := NAME_EXECUTED, rsp := process_rsp0_start + 4096 - 16 - 2 * SIZEOF_REG,
         rsp_current := rsp_av, heap_start := heap_begin height, heap_break := heap_begin height\<rparr>;
       let m5 = store_words (actual_rsp0 + 4096 - 16 - SIZEOF_REG) (reg_words (user_frame (rsp_av - 8) entry)) m4;
       Some (put_proc p new_p (k\<lparr>kmm := m5, task_cr3 := cr3 new_p\<rparr>))
     }"

end
