(* ===== verification/Kernel_Task.thy ===== *)
theory Kernel_Task
  imports Timer Terminal Disk_Driver Spawn
begin

text \<open>
  The tasks that interrupt handlers run on the kernel's own page tables, \<open>kernel_space_handler\<close>
  of \<^verbatim>\<open>sys/idt.c\<close>, and the delivery of pending signals, \<open>handle_sig_pending\<close>.  The record
  \<open>kernel_space_task_file\<close> (\<^verbatim>\<open>include/sys/idt.h\<close>) with its type and parameters is a datatype, what
  the handler leaves in \<open>ret\<close> its result.  Messages the code prints for debugging are left out
  here and in the system calls.
\<close>

section \<open>Tasks\<close>

text \<open>
  The key of a keyboard task is the byte the controller shows at port \<open>0x60\<close>; the buffer of a
  disk write and of a page copy are the 512 words at the address that is passed.
\<close>

datatype kernel_space_task =
    TASK_TIMER_TICK
  | TASK_FORK_PROCESS
  | TASK_REG_WAIT u64
  | TASK_PROC_PAGE_FAULT_HANDLE u64 u64
  | TASK_PROC_CLEANUP ptr
  | TASK_KEYBOARD_HANDLE u8
  | TASK_KBRK u64
  | TASK_REPLACE_PROCESS ptr "program_section list" u64
  | TASK_RW_DISK_BLOCK u64 ptr u64 "u64 list" bool
  | TASK_CP_PAGE_MALLOC "nat option" "u64 list" bool
  | TASK_PAGE_USED_BY "nat option" u8

datatype task_ret = No_ret | Ret_addr u64 | Ret_page bool "nat option" | Ret_words "u64 list"

definition SIGKILL :: u64 where "SIGKILL = 9"
definition SIGSEGV :: u64 where "SIGSEGV = 11"
definition PIT_FREQUENCY :: u64 where "PIT_FREQUENCY = 50"

definition test_tick_handle :: "kernel \<Rightarrow> kernel option" where
  "test_tick_handle k =
     do {
       k1 \<leftarrow> tick_timer_update k;
       if pic_tick_count k1 mod PIT_FREQUENCY = 0 then update_topright_display k1 else Some k1
     }"

definition timer_tick :: "kernel \<Rightarrow> kernel option" where
  "timer_tick k =
     do {
       k1 \<leftarrow> test_tick_handle (k\<lparr>pic_tick_count := pic_tick_count k + 1\<rparr>);
       check_disk_task k1
     }"

text \<open>
  A page fault: a copy of a shared page, a page of the heap or of the stack, or the end of the
  process unless it handles the signal.
\<close>

definition heap_or_stack_fault :: "kernel \<Rightarrow> process \<Rightarrow> u64 \<Rightarrow> kernel option" where
  "heap_or_stack_fault k proc requested_addr =
     (let p = current_process k
      in if requested_addr < heap_break proc \<and> heap_start proc \<le> requested_addr then
           do {
             (_, proc1, m) \<leftarrow> add_page_for_process (kmm k) proc requested_addr True 2;
             Some (put_proc p proc1 (k\<lparr>kmm := m\<rparr>))
           }
         else if requested_addr \<le> process_initial_rsp \<and> rsp_current proc - 0x4000 \<le> requested_addr then
           do {
             (_, proc1, m) \<leftarrow> add_page_for_process (kmm k) proc requested_addr True 2;
             Some (put_proc p (proc1\<lparr>rsp_current := requested_addr\<rparr>) (k\<lparr>kmm := m\<rparr>))
           }
         else if sig_handler proc \<noteq> 0 then
           Some (put_proc p (proc\<lparr>sig_pending := SIGSEGV, on_hold := False\<rparr>) k)
         else Some (put_proc p (proc\<lparr>on_hold := True, terminated := True\<rparr>) k))"

definition page_fault :: "kernel \<Rightarrow> u64 \<Rightarrow> u64 \<Rightarrow> kernel option" where
  "page_fault k err requested_addr =
     do {
       proc \<leftarrow> procs k (current_process k);
       (handled, proc1, m) \<leftarrow>
         (if err = 7 \<or> err = 5 then check_and_handle_rw_page_fault (kmm k) proc requested_addr
          else Some (False, proc, kmm k));
       if handled then Some (put_proc (current_process k) proc1 (k\<lparr>kmm := m\<rparr>))
       else heap_or_stack_fault k proc requested_addr
     }"

text \<open>
  A disk request of a process.  The page of a write is released as soon as the request is
  issued, and \<open>ret[0]\<close> is 1 in the end whatever happened.
\<close>

definition rw_disk_block :: "kernel \<Rightarrow> u64 \<Rightarrow> ptr \<Rightarrow> u64 \<Rightarrow> u64 list \<Rightarrow> bool \<Rightarrow> (task_ret \<times> kernel) option" where
  "rw_disk_block k disk_i p lba buf wr =
     (if wr then
        do {
          r_from \<leftarrow> find_free_page_entry (pages (kphy (kmm k)));
          let k1 = set_page_used r_from 2 k;
          let k2 = k1\<lparr>kmm := store_words (page_base (kmm k1) r_from) buf (kmm k1)\<rparr>;
          (_, k3) \<leftarrow> write_disk_block_req k2 (ucast disk_i) p lba r_from;
          Some (Ret_page True None, set_page_used r_from 0 k3)
        }
      else
        do {
          (page, k1) \<leftarrow> read_disk_block_req k (ucast disk_i) p lba;
          Some (Ret_page True page, k1)
        })"

definition load_words :: "u64 \<Rightarrow> nat \<Rightarrow> kmem \<Rightarrow> u64 list" where
  "load_words a n m = map (\<lambda>i. kread m (a + 8 * of_nat i)) [0..<n]"

definition cp_page_malloc :: "kernel \<Rightarrow> nat option \<Rightarrow> u64 list \<Rightarrow> bool \<Rightarrow> (task_ret \<times> kernel) option" where
  "cp_page_malloc k page malloc_words page_to_malloc =
     do {
       i \<leftarrow> page;
       let a = page_base (kmm k) i;
       if page_to_malloc then Some (Ret_words (load_words a 512 (kmm k)), k)
       else Some (No_ret, k\<lparr>kmm := store_words a malloc_words (kmm k)\<rparr>)
     }"

text \<open>
  The task of growing the heap is the loop of \<open>kbrk\<close> itself: a size that is not a multiple of the
  page size, for which that loop would go on until memory is exhausted, is never passed.
\<close>

fun kernel_space_handler :: "kernel \<Rightarrow> kernel_space_task \<Rightarrow> (task_ret \<times> kernel) option" where
  "kernel_space_handler k TASK_TIMER_TICK = map_option (Pair No_ret) (timer_tick k)"
| "kernel_space_handler k TASK_FORK_PROCESS =
     do { (p, k') \<leftarrow> fork_process k (current_process k); Some (Ret_addr p, k') }"
| "kernel_space_handler k (TASK_REG_WAIT n) =
     map_option (Pair No_ret) (register_to_be_waken k (current_process k) n)"
| "kernel_space_handler k (TASK_PROC_PAGE_FAULT_HANDLE err addr) = map_option (Pair No_ret) (page_fault k err addr)"
| "kernel_space_handler k (TASK_PROC_CLEANUP p) = map_option (Pair No_ret) (process_cleanup k p)"
| "kernel_space_handler k (TASK_KEYBOARD_HANDLE c) = map_option (Pair No_ret) (handle_keyboard_scan_code k c)"
| "kernel_space_handler k (TASK_KBRK sz) =
     do { (a, m) \<leftarrow> kbrk (kpt_of k) sz (kmm k); Some (Ret_addr a, k\<lparr>kmm := m\<rparr>) }"
| "kernel_space_handler k (TASK_REPLACE_PROCESS p sections stack_size) =
     map_option (Pair No_ret) (replace_process k p sections stack_size)"
| "kernel_space_handler k (TASK_RW_DISK_BLOCK disk_i p lba buf wr) = rw_disk_block k disk_i p lba buf wr"
| "kernel_space_handler k (TASK_CP_PAGE_MALLOC page ws to_malloc) = cp_page_malloc k page ws to_malloc"
| "kernel_space_handler k (TASK_PAGE_USED_BY page used) = do { i \<leftarrow> page; Some (No_ret, set_page_used i used k) }"

section \<open>Signals\<close>

definition handle_sig_pending :: "kernel \<Rightarrow> handler_reg \<Rightarrow> (handler_reg \<times> kernel) option" where
  "handle_sig_pending k reg =
     do {
       proc \<leftarrow> procs k (current_process k);
       if sig_pending proc \<noteq> 0 \<and> int_num (sig_saved_reg proc) = 0 \<and> sig_handler proc \<noteq> 0 then
         if sig_pending proc = SIGKILL then
           Some (reg, put_proc (current_process k) (proc\<lparr>on_hold := True, terminated := True\<rparr>) k)
         else
           Some (reg\<lparr>ret_rip := sig_handler proc, rdi := sig_pending proc\<rparr>,
                 put_proc (current_process k) (proc\<lparr>sig_saved_reg := reg, sig_pending := 0\<rparr>) k)
       else Some (reg, k)
     }"

section \<open>Page faults\<close>

text \<open>The addresses at which a fault is taken for growth of the heap or of the stack.\<close>

definition growth_area :: "process \<Rightarrow> u64 \<Rightarrow> bool" where
  "growth_area pr a \<longleftrightarrow> heap_start pr \<le> a \<and> a < heap_break pr \<or>
     a \<le> process_initial_rsp \<and> rsp_current pr - 0x4000 \<le> a"

text \<open>
  C19. Demand paging: a fault on an address that is not mapped, within the heap or at most four
  pages below the stack, is handled by mapping a page that was free: the address translates to
  it, it reads zero, the process may write it, and the process goes on as it was, with only
  its maps and its stack boundary changed.
\<close>

theorem page_fault_grows:
  assumes pr: "procs k (current_process k) = Some pr" and err: "err \<noteq> 7" "err \<noteq> 5"
    and area: "growth_area pr a" and mem: "can_map 4 (kmm k) (cr3 pr) a"
  shows "\<exists>k' pr' dest ms m b. page_fault k err a = Some k' \<and> procs k' (current_process k) = Some pr' \<and>
     pr' = pr\<lparr>first_map := first_map pr @ ms @ [m], rsp_current := b\<rparr> \<and>
     dest \<in> kfree (kmm k) \<and> kfree (kmm k') \<subseteq> kfree (kmm k) - {dest} \<and>
     translate_cr3 (kread (kmm k')) (cr3 pr) a = dest + (a AND 0xFFF) \<and>
     (\<forall>x. x - dest < 4096 \<longrightarrow> kread (kmm k') x = 0) \<and> vir_addr m = a \<and> rw m \<and>
     (\<forall>q. q \<noteq> current_process k \<longrightarrow> procs k' q = procs k q)"
proof -
  from add_page_fresh [OF mem, of True 2] obtain dest ms m mm where
    add: "add_page_for_process (kmm k) pr a True 2 = Some (dest, pr\<lparr>first_map := first_map pr @ ms @ [m]\<rparr>, mm)"
    and d: "dest \<in> kfree (kmm k)" "kfree mm \<subseteq> kfree (kmm k) - {dest}"
      "translate_cr3 (kread mm) (cr3 pr) a = dest + (a AND 0xFFF)" "\<forall>x. x - dest < 4096 \<longrightarrow> kread mm x = 0"
    and m: "vir_addr m = a" "rw m" by auto
  let ?pr = "\<lambda>b. pr\<lparr>first_map := first_map pr @ ms @ [m], rsp_current := b\<rparr>"
  have "\<exists>b. page_fault k err a = Some (put_proc (current_process k) (?pr b) (k\<lparr>kmm := mm\<rparr>))"
  proof (cases "a < heap_break pr \<and> heap_start pr \<le> a")
    case True
    then show ?thesis using pr err add
      by (intro exI [of _ "rsp_current pr"]) (simp add: page_fault_def heap_or_stack_fault_def Let_def)
  next
    case False
    then show ?thesis using pr err add area
      by (intro exI [of _ a]) (auto simp: page_fault_def heap_or_stack_fault_def Let_def growth_area_def)
  qed
  then obtain b where "page_fault k err a = Some (put_proc (current_process k) (?pr b) (k\<lparr>kmm := mm\<rparr>))" ..
  with d m show ?thesis by simp blast
qed

text \<open>
  A stray access ends the process or is told to it: outside of the heap and the stack nothing
  is mapped; a process with a signal handler gets the segmentation signal, any other is
  terminated; no other process is touched.
\<close>

theorem page_fault_stray:
  assumes "procs k (current_process k) = Some pr" "err \<noteq> 7" "err \<noteq> 5" "\<not> growth_area pr a"
  shows "\<exists>k'. page_fault k err a = Some k' \<and> kmm k' = kmm k \<and> procs k' = (procs k)(current_process k \<mapsto>
     (if sig_handler pr = 0 then pr\<lparr>on_hold := True, terminated := True\<rparr>
      else pr\<lparr>sig_pending := SIGSEGV, on_hold := False\<rparr>))"
  using assms by (auto simp: page_fault_def heap_or_stack_fault_def Let_def growth_area_def)

definition fault_example :: kernel where
  "fault_example = kernel_example\<lparr>kmm := table_example,
     procs := [0x20 \<mapsto> proc2\<lparr>cr3 := cr3 space_example, heap_start := 0x8000000000, heap_break := 0x8000001000,
       rsp_current := process_initial_rsp\<rparr>]\<rparr>"

theorem page_fault_grows_witness:
  "\<exists>k' pr' dest. page_fault fault_example 6 0x8000000123 = Some k' \<and> procs k' 0x20 = Some pr' \<and>
     translate_cr3 (kread (kmm k')) 0x1000 0x8000000123 = dest + (0x8000000123 AND 0xFFF)"
proof -
  let ?pr = "proc2\<lparr>cr3 := cr3 space_example, heap_start := 0x8000000000, heap_break := 0x8000001000,
       rsp_current := process_initial_rsp\<rparr>"
  have "procs fault_example (current_process fault_example) = Some ?pr" by (simp add: fault_example_def)
  moreover have "growth_area ?pr 0x8000000123" by (simp add: growth_area_def)
  moreover have "can_map 4 (kmm fault_example) (cr3 ?pr) 0x8000000123"
    using table_example_can_map by (simp add: fault_example_def)
  moreover have "cr3 ?pr = 0x1000" by (simp add: space_example_def)
  ultimately show ?thesis
    using page_fault_grows [of fault_example ?pr 6 "0x8000000123"]
    by (auto simp: fault_example_def simp del: kernel_example_sel) (auto simp: kernel_example_def)
qed

theorem page_fault_stray_witness:
  "\<exists>k' pr'. page_fault kernel_example 4 0x1000 = Some k' \<and> procs k' 0x20 = Some pr' \<and> terminated pr'"
proof -
  have "\<not> growth_area proc2 0x1000"
    by (simp add: growth_area_def example_procs)
  then show ?thesis using page_fault_stray [of kernel_example proc2 4 "0x1000"] by (auto simp: example_procs)
qed

end
