(* ===== verification/Trap.thy ===== *)
theory Trap
  imports Kernel_Task
begin

text \<open>
  What the system calls of \<open>isr_handler\<close> (\<^verbatim>\<open>sys/idt.c\<close>) share.  A call gets the registers of the
  trap, the kernel, and the user memory it may read, as the bytes that can be read from an
  address on; it yields the registers that are restored, what it stores to user memory, in
  order, and the kernel.  A call that waits ends in \<open>Blocked\<close>, with the point at which it goes
  on when its process is scheduled again; the kernel may have changed in between.
\<close>

type_synonym user_mem = "u64 \<Rightarrow> bytes"
type_synonym user_stores = "(u64 \<times> bytes) list"

datatype resume =
    Resume_read ptr u64 u64
  | Resume_wait ptr u32 u64
  | Resume_pause
  | Resume_read_block "nat option" u64
  | Resume_write_block
  | Resume_test_wait

datatype outcome = Done int | Blocked resume

type_synonym trap_result = "outcome \<times> handler_reg \<times> user_stores \<times> kernel"

abbreviation EIO :: u64 where "EIO \<equiv> 5"
abbreviation ENOEXEC :: u64 where "ENOEXEC \<equiv> 8"
abbreviation EBADF :: u64 where "EBADF \<equiv> 9"
abbreviation ENOMEM :: u64 where "ENOMEM \<equiv> 12"
abbreviation EACCES :: u64 where "EACCES \<equiv> 13"
abbreviation EINVAL :: u64 where "EINVAL \<equiv> 22"
abbreviation EMFILE :: u64 where "EMFILE \<equiv> 24"

text \<open>The label \<open>sys_call_finally\<close>: a pending signal is delivered and the handler returns \<open>ret\<close>.\<close>

definition finish :: "int \<Rightarrow> handler_reg \<Rightarrow> user_stores \<Rightarrow> kernel \<Rightarrow> trap_result option" where
  "finish ret reg st k = do { (reg', k') \<leftarrow> handle_sig_pending k reg; Some (Done ret, reg', st, k') }"

definition sys_return :: "u64 \<Rightarrow> handler_reg \<Rightarrow> user_stores \<Rightarrow> kernel \<Rightarrow> trap_result option" where
  "sys_return v reg st k = finish 0 (reg\<lparr>rax := v\<rparr>) st k"

definition cur_proc :: "kernel \<Rightarrow> process option" where
  "cur_proc k = procs k (current_process k)"

definition upd_cur :: "(process \<Rightarrow> process) \<Rightarrow> kernel \<Rightarrow> kernel option" where
  "upd_cur f k = upd_proc (current_process k) f k"

text \<open>The test of a descriptor in \<open>sys_read\<close>, \<open>sys_write\<close> and \<open>sys_lseek\<close>.\<close>

definition fd_entry :: "process \<Rightarrow> u64 \<Rightarrow> u64 + ptr" where
  "fd_entry pr fd =
     (if of_nat FD_SIZE \<le> fd then Inl (- EMFILE)
      else case open_fd pr ! unat fd of
             None \<Rightarrow> Inl (- EBADF)
           | Some p \<Rightarrow> if p = 0 then Inl (- EBADF) else Inr p)"

definition set_fd :: "nat \<Rightarrow> ptr option \<Rightarrow> process \<Rightarrow> process" where
  "set_fd i v pr = pr\<lparr>open_fd := (open_fd pr)[i := v]\<rparr>"

definition free_fd :: "process \<Rightarrow> nat option" where
  "free_fd pr = find (\<lambda>i. open_fd pr ! i = None) [0..<FD_SIZE]"

text \<open>A C \<open>int\<close> in memory.\<close>

definition int_bytes :: "u32 \<Rightarrow> bytes" where
  "int_bytes w = le_of 4 (ucast w)"

section \<open>Signals\<close>

definition no_signal :: "process \<Rightarrow> bool" where
  "no_signal pr \<longleftrightarrow> sig_pending pr = 0 \<or> int_num (sig_saved_reg pr) \<noteq> 0 \<or> sig_handler pr = 0"

lemma finish_quiet:
  "procs k (current_process k) = Some pr \<Longrightarrow> no_signal pr \<Longrightarrow> finish ret reg st k = Some (Done ret, reg, st, k)"
  by (auto simp: finish_def handle_sig_pending_def no_signal_def)

lemma sys_return_quiet:
  "procs k (current_process k) = Some pr \<Longrightarrow> no_signal pr \<Longrightarrow>
   sys_return v reg st k = Some (Done 0, reg\<lparr>rax := v\<rparr>, st, k)"
  by (simp add: sys_return_def finish_quiet)

lemma upd_cur_Some [simp]:
  "procs k (current_process k) = Some pr \<Longrightarrow> upd_cur f k = Some (put_proc (current_process k) (f pr) k)"
  by (simp add: upd_cur_def)

end
