(* ===== verification/Path.thy ===== *)
theory Path
  imports Misc
begin

text \<open>
  Path computation of \<^verbatim>\<open>sys/disk/file_system.c\<close>: \<open>str_collapse\<close>, \<open>shorten_path\<close> and
  \<open>calculate_path\<close>.  A path is edited in place in its buffer; bytes after the terminator are
  kept, because a later step may read them.
\<close>

section \<open>Operations\<close>

text \<open>
  \<open>str_collapse(path + dest, path + src)\<close> with \<open>dest < src\<close>: the string at \<open>src\<close> is moved down,
  its terminator included.
\<close>

definition str_collapse :: "bytes \<Rightarrow> nat \<Rightarrow> nat \<Rightarrow> bytes option" where
  "str_collapse path dest src =
     (if 0 \<in> set (drop src path) then Some (put_at path dest (cstr (drop src path) @ [0])) else None)"

text \<open>The search for the slash before, from index \<open>k - 1\<close> downwards.\<close>

fun prev_slash :: "bytes \<Rightarrow> nat \<Rightarrow> nat option" where
  "prev_slash path 0 = None"
| "prev_slash path (Suc j) = (if path ! j = 47 then Some j else prev_slash path j)"

text \<open>The part of the loop body for a single dot.\<close>

definition dot_step :: "bytes \<Rightarrow> nat \<Rightarrow> bytes option" where
  "dot_step path i =
     do {
       c \<leftarrow> byte_at path i;
       if c \<noteq> 46 then Some path
       else do {
         c1 \<leftarrow> byte_at path (i + 1);
         if c1 = 47 then str_collapse path i (i + 2)
         else if c1 = 0 then str_collapse (path[i := 0]) i (i + 2)
         else Some path
       }
     }"

text \<open>The part for two dots; it returns the index from which the loop goes on.\<close>

definition dotdot_step :: "bytes \<Rightarrow> nat \<Rightarrow> (bytes \<times> nat) option" where
  "dotdot_step path i =
     do {
       c \<leftarrow> byte_at path i;
       if c \<noteq> 46 then Some (path, i)
       else do {
         c1 \<leftarrow> byte_at path (i + 1);
         if c1 \<noteq> 46 then Some (path, i)
         else do {
           c2 \<leftarrow> byte_at path (i + 2);
           if c2 \<noteq> 47 \<and> c2 \<noteq> 0 then Some (path, i)
           else case prev_slash path (i - 1) of
                  None \<Rightarrow> if c2 \<noteq> 0 then do { p \<leftarrow> str_collapse path i (i + 3); Some (p, i) }
                          else Some (path[i := 0], i)
                | Some j \<Rightarrow> if c2 \<noteq> 0 then do { p \<leftarrow> str_collapse path (j + 1) (i + 3); Some (p, j) }
                            else Some (path[j + 1 := 0], j)
         }
       }
     }"

partial_function (option) shorten_from :: "bytes \<Rightarrow> nat \<Rightarrow> bytes option" where
  "shorten_from path i =
     do {
       c \<leftarrow> byte_at path i;
       if c = 0 then Some path
       else do {
         path1 \<leftarrow> dot_step path i;
         (path2, i') \<leftarrow> dotdot_step path1 i;
         shorten_from path2 (i' + 1)
       }
     }"

declare shorten_from.simps [code]

definition shorten_path :: "bytes \<Rightarrow> bytes option" where
  "shorten_path path = shorten_from path 0"

text \<open>\<open>calculate_path\<close> returns the buffer it allocates.\<close>

definition calculate_path :: "bytes \<Rightarrow> bytes \<Rightarrow> bytes option" where
  "calculate_path base relative_path =
     do {
       len \<leftarrow> strlen relative_path;
       c \<leftarrow> byte_at relative_path 0;
       let rel = take (unat len) relative_path;
       if c = 47 then shorten_path (rel @ [0])
       else do {
         base_len \<leftarrow> strlen base;
         let b = take (unat base_len) base;
         last_c \<leftarrow> (if b = [] then None else Some (last b));
         if last_c \<noteq> 47 then shorten_path (b @ [47] @ rel @ [0])
         else shorten_path (b @ rel @ [0])
       }
     }"

section \<open>Resolving components\<close>

text \<open>A path as its components, each preceded by a slash.\<close>

definition render :: "bytes list \<Rightarrow> bytes" where
  "render cs = concat (map (\<lambda>c. 47 # c) cs)"

text \<open>Names may contain dots, but not at their end, where the code takes them for components.\<close>

definition plain :: "bytes \<Rightarrow> bool" where
  "plain c \<longleftrightarrow> 0 \<notin> set c \<and> 47 \<notin> set c \<and> (c \<noteq> [] \<longrightarrow> last c \<noteq> 46)"

definition dot :: bytes where "dot = [46]"
definition dotdot :: bytes where "dotdot = [46, 46]"

text \<open>
  The reference resolution: names are pushed, \<open>.\<close> stays and \<open>..\<close> pops, at the root it stays there.
  A path that ends in \<open>..\<close> keeps a slash at its end.
\<close>

fun resolve :: "bytes list \<Rightarrow> bytes list \<Rightarrow> bytes" where
  "resolve st [] = render st"
| "resolve st (c # cs) =
     (if c = dot then resolve st cs
      else if c = dotdot then
        (if st \<noteq> [] \<and> cs = [] then render (butlast st) @ [47] else resolve (butlast st) cs)
      else resolve (st @ [c]) cs)"

text \<open>
  The paths that the code resolves: behind a \<open>.\<close>, and behind a \<open>..\<close> at the root, comes a
  component that is not \<open>.\<close> again (nor, at the root, \<open>..\<close>), and that is not the empty end of the path.
\<close>

definition follows :: "bytes list \<Rightarrow> bytes list \<Rightarrow> bool" where
  "follows bad cs \<longleftrightarrow> cs \<noteq> [] \<and> hd cs \<notin> set bad \<and> cs \<noteq> [[]]"

fun handled :: "bytes list \<Rightarrow> bytes list \<Rightarrow> bool" where
  "handled st [] \<longleftrightarrow> True"
| "handled st (c # cs) \<longleftrightarrow>
     (if c = dot then follows [dot] cs \<and> handled st cs
      else if c = dotdot then
        (if st = [] then follows [dot, dotdot] cs else True) \<and> handled (butlast st) cs
      else handled (st @ [c]) cs)"

lemma render_simps [simp]:
  "render [] = []" "render (c # cs) = 47 # c @ render cs" "render (xs @ ys) = render xs @ render ys"
  by (simp_all add: render_def)

text \<open>Text over which the loop passes: every dot in it is followed by another character than a slash.\<close>

definition calm :: "bytes \<Rightarrow> bool" where
  "calm xs \<longleftrightarrow> 0 \<notin> set xs \<and> (\<forall>i < length xs. xs ! i = 46 \<longrightarrow> Suc i < length xs \<and> xs ! Suc i \<noteq> 47)"

lemma calm_Cons: "calm (x # xs) \<Longrightarrow> calm xs"
  by (auto simp: calm_def)

lemma calm_append:
  assumes "calm xs" "calm ys"
  shows "calm (xs @ ys)"
  unfolding calm_def
proof (intro conjI allI impI)
  show "0 \<notin> set (xs @ ys)" using assms by (simp add: calm_def)
  fix i assume i: "i < length (xs @ ys)" "(xs @ ys) ! i = 46"
  have "Suc i < length (xs @ ys) \<and> (xs @ ys) ! Suc i \<noteq> 47"
  proof (cases "i < length xs")
    case True
    then have "xs ! i = 46" using i(2) by (simp add: nth_append)
    then have "Suc i < length xs" "xs ! Suc i \<noteq> 47" using assms(1) True unfolding calm_def by blast+
    then show ?thesis by (simp add: nth_append)
  next
    case False
    then obtain j where j: "i = length xs + j" using less_imp_add_positive le_Suc_ex not_less by blast
    then have "ys ! j = 46" "j < length ys" using i by simp_all
    then have "Suc j < length ys" "ys ! Suc j \<noteq> 47" using assms(2) unfolding calm_def by blast+
    then show ?thesis using j nth_append_length_plus [of xs ys "Suc j"] by simp
  qed
  then show "Suc i < length (xs @ ys)" "(xs @ ys) ! Suc i \<noteq> 47" by blast+
qed

lemma calm_plain: "plain c \<Longrightarrow> calm c"
  unfolding calm_def plain_def
proof (intro conjI allI impI; elim conjE)
  fix i assume p: "0 \<notin> set c" "47 \<notin> set c" "c \<noteq> [] \<longrightarrow> last c \<noteq> 46" and i: "i < length c" "c ! i = 46"
  have "c \<noteq> []" using i(1) by auto
  then have "c ! (length c - 1) \<noteq> 46" using p(3) by (simp add: last_conv_nth)
  then have "i \<noteq> length c - 1" using i(2) by auto
  then show s: "Suc i < length c" using i(1) by linarith
  show "c ! Suc i \<noteq> 47" using p(2) s by (metis nth_mem)
qed

lemma calm_slash [simp]: "calm [47]"
  by (simp add: calm_def)

lemma calm_render: "\<forall>n \<in> set st. plain n \<Longrightarrow> calm (render st)"
proof (induction st)
  case (Cons n st)
  then have "calm ([47] @ n @ render st)" by (intro calm_append) (simp_all add: calm_plain)
  then show ?case by simp
qed (simp add: calm_def)

lemma shorten_pass:
  assumes "calm (x # xs)"
  shows "dot_step (pre @ (x # xs) @ post) (length pre) = Some (pre @ (x # xs) @ post)"
    "dotdot_step (pre @ (x # xs) @ post) (length pre) = Some (pre @ (x # xs) @ post, length pre)"
    "shorten_from (pre @ (x # xs) @ post) (length pre) = shorten_from (pre @ (x # xs) @ post) (Suc (length pre))"
proof -
  let ?b = "pre @ (x # xs) @ post"
  have x0: "x \<noteq> 0" "byte_at ?b (length pre) = Some x" using assms by (auto simp: calm_def)
  have y: "\<exists>y ys. xs = y # ys \<and> y \<noteq> 47 \<and> y \<noteq> 0 \<and> calm (y # ys)" if "x = 46"
  proof -
    have "0 < length xs" "xs ! 0 \<noteq> 47" "0 \<notin> set xs" using assms that by (auto simp: calm_def)
    then show ?thesis using calm_Cons [OF assms] by (cases xs) auto
  qed
  have at1: "byte_at ?b (length pre + 1) = Some (xs ! 0)" if "xs \<noteq> []"
    using that by (cases xs) (simp_all add: byte_at_def nth_append)
  show d: "dot_step ?b (length pre) = Some ?b"
    using x0 y at1 by (auto simp: dot_step_def)
  show dd: "dotdot_step ?b (length pre) = Some (?b, length pre)"
  proof (cases "x = 46 \<and> xs ! 0 = 46")
    case False
    then show ?thesis using x0 y at1 by (auto simp: dotdot_step_def)
  next
    case True
    then obtain ys where xs: "xs = 46 # ys" "calm (46 # ys)" using y by auto
    have "0 < length ys" "ys ! 0 \<noteq> 47" "0 \<notin> set ys" using xs(2) by (auto simp: calm_def)
    then obtain z zs where "ys = z # zs" "z \<noteq> 47" "z \<noteq> 0" by (cases ys) auto
    then have "byte_at ?b (length pre + 2) = Some z" "z \<noteq> 47" "z \<noteq> 0" using xs by (auto simp: byte_at_def nth_append)
    then show ?thesis using x0 at1 xs True by (auto simp: dotdot_step_def)
  qed
  show "shorten_from ?b (length pre) = shorten_from ?b (Suc (length pre))"
    using x0 by (subst shorten_from.simps) (simp add: d [simplified] dd [simplified])
qed

lemma shorten_skip:
  assumes "calm xs"
  shows "shorten_from (pre @ xs @ post) (length pre) = shorten_from (pre @ xs @ post) (length pre + length xs)"
  using assms
proof (induction xs arbitrary: pre)
  case (Cons x xs)
  from Cons.IH [OF calm_Cons [OF Cons.prems], of "pre @ [x]"] shorten_pass(3) [OF Cons.prems, of pre post]
  show ?case by simp
qed simp

lemma prev_slash_name:
  assumes "47 \<notin> set n"
  shows "prev_slash (pre @ 47 # n @ post) (length pre + Suc (length n)) = Some (length pre)"
  using assms
proof (induction n arbitrary: post rule: rev_induct)
  case Nil
  then show ?case by simp
next
  case (snoc x n)
  then show ?case by (simp add: nth_append)
qed

lemma str_collapse_moves:
  assumes "0 \<notin> set s"
  shows "str_collapse (a @ b @ s @ 0 # junk) (length a) (length a + length b) =
     Some (a @ s @ 0 # drop (Suc (length s)) (b @ s @ 0 # junk))"
proof -
  have "cstr (s @ 0 # junk) = s" using assms by (simp add: is_cstr_cstr is_cstrI)
  then show ?thesis by (simp add: str_collapse_def put_at_def)
qed

lemma shorten_dotdot:
  assumes n: "47 \<notin> set n" and i: "i = length pre + Suc (Suc (length n))"
    and c: "c2 = 47 \<or> c2 = 0"
  shows "shorten_from (pre @ 47 # n @ 47 # 46 # 46 # c2 # post) i =
     do { p \<leftarrow> (if c2 \<noteq> 0 then str_collapse (pre @ 47 # n @ 47 # 46 # 46 # c2 # post) (length pre + 1) (i + 3)
                else Some ((pre @ 47 # n @ 47 # 46 # 46 # c2 # post)[length pre + 1 := 0]));
          shorten_from p (length pre + 1) }"
proof -
  let ?b = "pre @ 47 # n @ 47 # 46 # 46 # c2 # post"
  have at: "byte_at ?b i = Some 46" "byte_at ?b (i + 1) = Some 46" "byte_at ?b (i + 2) = Some c2"
    by (simp_all add: i byte_at_def nth_append)
  have ps: "prev_slash ?b (i - 1) = Some (length pre)"
    using prev_slash_name [OF n, of pre "47 # 46 # 46 # c2 # post"] by (simp add: i)
  have "dot_step ?b i = Some ?b" by (simp add: dot_step_def at [simplified])
  moreover have "dotdot_step ?b i = do { p \<leftarrow> (if c2 \<noteq> 0 then str_collapse ?b (length pre + 1) (i + 3)
                else Some (?b[length pre + 1 := 0])); Some (p, length pre) }"
    using c by (auto simp: dotdot_step_def at [simplified] ps [simplified])
  ultimately show ?thesis
    by (subst shorten_from.simps) (simp add: at(1) split: bind_split)
qed

definition component :: "bytes \<Rightarrow> bool" where
  "component n \<longleftrightarrow> plain n \<or> n = dot \<or> n = dotdot"

lemma component_simps [simp]: "component dot" "component dotdot" "plain n \<Longrightarrow> component n" "plain n \<Longrightarrow> n \<noteq> dot \<and> n \<noteq> dotdot"
  by (auto simp: component_def plain_def dot_def dotdot_def)

lemma component_zero: "\<forall>n \<in> set ns. component n \<Longrightarrow> 0 \<notin> set (render ns)"
  by (auto simp: render_def component_def plain_def dot_def dotdot_def)

text \<open>At a name, or at the slash behind an empty one, neither test of the loop applies.\<close>

lemma shorten_name:
  assumes "plain d" "d \<noteq> [] \<or> cs \<noteq> []"
  shows "dot_step (pre @ d @ render cs @ post) (length pre) = Some (pre @ d @ render cs @ post)"
    "shorten_from (pre @ d @ render cs @ post) (length pre) = shorten_from (pre @ d @ render cs @ post) (Suc (length pre))"
    "\<exists>x. byte_at (pre @ d @ render cs @ post) (length pre) = Some x \<and> x \<noteq> 0"
proof -
  obtain x xs post' where x: "d @ render cs @ post = (x # xs) @ post'" "calm (x # xs)"
  proof (cases d)
    case Nil
    then obtain e es where "cs = e # es" using assms(2) by (cases cs) auto
    then show thesis using that [of 47 "[]" "e @ render es @ post"] Nil by simp
  next
    case (Cons y ys)
    then show thesis using that [of y ys "render cs @ post"] calm_plain [OF assms(1)] by simp
  qed
  then have "x \<noteq> 0" by (auto simp: calm_def)
  with x show "dot_step (pre @ d @ render cs @ post) (length pre) = Some (pre @ d @ render cs @ post)"
    "shorten_from (pre @ d @ render cs @ post) (length pre) = shorten_from (pre @ d @ render cs @ post) (Suc (length pre))"
    "\<exists>x. byte_at (pre @ d @ render cs @ post) (length pre) = Some x \<and> x \<noteq> 0"
    using shorten_pass(1,3) [OF x(2), of pre post'] by (simp_all only: x(1)) simp
qed

text \<open>A single dot in front of another component is dropped.\<close>

lemma shorten_dot:
  assumes "component d" "d \<noteq> dot" "d \<noteq> [] \<or> cs \<noteq> []" "0 \<notin> set (d @ render cs)"
  shows "\<exists>junk'. shorten_from (pre @ 46 # 47 # d @ render cs @ 0 # junk) (length pre) =
     shorten_from (pre @ d @ render cs @ 0 # junk') (length pre)"
proof -
  let ?b = "pre @ 46 # 47 # d @ render cs @ 0 # junk"
  obtain junk' where c: "str_collapse ?b (length pre) (length pre + 2) = Some (pre @ d @ render cs @ 0 # junk')"
    using str_collapse_moves [OF assms(4), of pre "[46, 47]" junk] by auto
  let ?b1 = "pre @ d @ render cs @ 0 # junk'"
  have ds: "dot_step ?b (length pre) = Some ?b1"
    using c by (simp add: dot_step_def byte_at_def nth_append)
  have b1: "dot_step ?b1 (length pre) = Some ?b1" "\<exists>x. byte_at ?b1 (length pre) = Some x \<and> x \<noteq> 0"
  proof -
    have "dot_step ?b1 (length pre) = Some ?b1 \<and> (\<exists>x. byte_at ?b1 (length pre) = Some x \<and> x \<noteq> 0)"
    proof (cases "plain d")
      case True
      then show ?thesis using shorten_name(1,3) [OF True assms(3), of pre "0 # junk'"] by blast
    next
      case False
      then have "d = [46, 46]" using assms(1,2) by (simp add: component_def dotdot_def)
      then show ?thesis by (simp add: dot_step_def byte_at_def nth_append)
    qed
    then show "dot_step ?b1 (length pre) = Some ?b1" "\<exists>x. byte_at ?b1 (length pre) = Some x \<and> x \<noteq> 0" by blast+
  qed
  have "shorten_from ?b (length pre) = do { (p, i) \<leftarrow> dotdot_step ?b1 (length pre); shorten_from p (i + 1) }"
    using ds by (subst shorten_from.simps) (simp add: byte_at_def nth_append)
  also have "\<dots> = shorten_from ?b1 (length pre)"
    using b1 by (subst (2) shorten_from.simps) auto
  finally show ?thesis by blast
qed

text \<open>Two dots at the root are dropped.\<close>

lemma shorten_root:
  assumes "plain d" "d \<noteq> [] \<or> cs \<noteq> []" "0 \<notin> set (d @ render cs)"
  shows "\<exists>junk'. shorten_from (47 # 46 # 46 # 47 # d @ render cs @ 0 # junk) 1 =
     shorten_from (47 # d @ render cs @ 0 # junk') 1"
proof -
  let ?b = "47 # 46 # 46 # 47 # d @ render cs @ 0 # junk"
  obtain junk' where c: "str_collapse ?b 1 4 = Some (47 # d @ render cs @ 0 # junk')"
    using str_collapse_moves [OF assms(3), of "[47]" "[46, 46, 47]" junk] by (auto simp: eval_nat_numeral)
  have at: "byte_at ?b 1 = Some 46" "byte_at ?b 2 = Some 46" "byte_at ?b 3 = Some 47"
    by (simp_all add: byte_at_def numeral_2_eq_2 numeral_3_eq_3)
  have "dot_step ?b 1 = Some ?b" by (simp add: dot_step_def at del: One_nat_def)
  moreover have "dotdot_step ?b 1 = Some (47 # d @ render cs @ 0 # junk', 1)"
    using c by (simp add: dotdot_step_def at del: One_nat_def)
  ultimately have "shorten_from ?b 1 = shorten_from (47 # d @ render cs @ 0 # junk') 2"
    by (subst shorten_from.simps) (simp add: at del: One_nat_def)
  then show ?thesis using shorten_name(2) [OF assms(1,2), of "[47]" "0 # junk'"]
    by (intro exI [of _ junk']) (simp add: numeral_2_eq_2)
qed

text \<open>
  From the slash in front of component \<open>c\<close> on, with the directory \<open>st\<close> resolved in front of it: one
  lemma for each kind of component.
\<close>

lemma shorten_last_name:
  assumes "plain c"
  shows "shorten_from (render st @ 47 # c @ 0 # junk) (length (render st) + 1) = Some (render (st @ [c]) @ 0 # junk)"
proof -
  have "shorten_from ((render st @ [47]) @ c @ 0 # junk) (length (render st @ [47])) =
      shorten_from ((render st @ [47]) @ c @ 0 # junk) (length (render st @ [47]) + length c)"
    by (rule shorten_skip [OF calm_plain [OF assms]])
  also have "\<dots> = Some ((render st @ [47]) @ c @ 0 # junk)"
    by (subst shorten_from.simps) (simp add: byte_at_def nth_append)
  finally show ?thesis by simp
qed

lemma shorten_next_name:
  assumes "plain c"
  shows "shorten_from (render st @ 47 # c @ 47 # rest) (length (render st) + 1) =
     shorten_from (render (st @ [c]) @ 47 # rest) (length (render (st @ [c])) + 1)"
proof -
  have "shorten_from ((render st @ [47]) @ c @ 47 # rest) (length (render st @ [47])) =
      shorten_from ((render st @ [47]) @ c @ 47 # rest) (length (render st @ [47]) + length c)"
    by (rule shorten_skip [OF calm_plain [OF assms]])
  also have "\<dots> = shorten_from (render (st @ [c]) @ 47 # rest) (length (render (st @ [c])) + 1)"
    using shorten_skip [of "[47]" "render (st @ [c])" rest] by simp
  finally show ?thesis by simp
qed

lemma shorten_last_up:
  assumes "47 \<notin> set n"
  shows "\<exists>junk'. shorten_from (render st @ 47 # n @ 47 # 46 # 46 # 0 # junk) (length (render st) + Suc (Suc (length n))) =
     Some (render st @ 47 # 0 # junk')"
proof -
  define post where "post = drop 1 (n @ 47 # 46 # 46 # 0 # junk)"
  have b: "(render st @ 47 # n @ 47 # 46 # 46 # 0 # junk)[length (render st) + 1 := 0] = render st @ 47 # 0 # post"
    by (cases n) (simp_all add: post_def list_update_append)
  have "shorten_from (render st @ 47 # 0 # post) (length (render st) + 1) = Some (render st @ 47 # 0 # post)"
    by (subst shorten_from.simps) (simp add: byte_at_def nth_append)
  with shorten_dotdot [OF assms refl, of 0 "render st" junk] b show ?thesis by auto
qed

lemma shorten_next_up:
  assumes "47 \<notin> set n" "0 \<notin> set rest"
  shows "\<exists>junk'. shorten_from (render st @ 47 # n @ 47 # 46 # 46 # 47 # rest @ 0 # junk) (length (render st) + Suc (Suc (length n))) =
     shorten_from (render st @ 47 # rest @ 0 # junk') (length (render st) + 1)"
proof -
  let ?i = "length (render st) + Suc (Suc (length n))"
  have "str_collapse ((render st @ [47]) @ (n @ [47, 46, 46, 47]) @ rest @ 0 # junk)
      (length (render st @ [47])) (length (render st @ [47]) + length (n @ [47, 46, 46, 47])) =
    Some ((render st @ [47]) @ rest @ 0 # drop (Suc (length rest)) ((n @ [47, 46, 46, 47]) @ rest @ 0 # junk))"
    by (rule str_collapse_moves [OF assms(2)])
  then obtain junk' where
    "str_collapse (render st @ 47 # n @ 47 # 46 # 46 # 47 # rest @ 0 # junk)
      (length (render st) + 1) (?i + 3) = Some (render st @ 47 # rest @ 0 # junk')"
    by (auto simp: eval_nat_numeral)
  with shorten_dotdot [OF assms(1) refl, of 47 "render st" "rest @ 0 # junk"] show ?thesis by auto
qed

lemma follows_Cons: "follows bad cs \<Longrightarrow> \<exists>d ds. cs = d # ds \<and> d \<notin> set bad \<and> (d \<noteq> [] \<or> ds \<noteq> [])"
  by (cases cs) (auto simp: follows_def)

lemma shorten_resolve:
  assumes "\<forall>n \<in> set st. plain n" "\<forall>n \<in> set (c # cs). component n" "handled st (c # cs)"
  shows "\<exists>junk'. shorten_from (render st @ 47 # c @ render cs @ 0 # junk) (length (render st) + 1) =
     Some (resolve st (c # cs) @ 0 # junk')"
  using assms
proof (induction cs arbitrary: c st junk)
  case Nil
  from Nil(2) consider "plain c" | "c = dot" | "c = dotdot" by (auto simp: component_def)
  then show ?case
  proof cases
    case 1
    with shorten_last_name [OF 1, of st junk] show ?thesis by auto
  next
    case 3
    then obtain st' n where st: "st = st' @ [n]" using Nil(3) by (cases st rule: rev_cases) (auto simp: follows_def dot_def dotdot_def)
    have "47 \<notin> set n" using Nil(1) st by (simp add: plain_def)
    from shorten_last_up [OF this, of st' junk] 3 st show ?thesis by (auto simp: dotdot_def dot_def)
  qed (use Nil in \<open>simp add: follows_def\<close>)
next
  case (Cons d cs)
  have z: "0 \<notin> set (d @ render cs)" using component_zero [of "d # cs"] Cons.prems(2) by simp
  from Cons.prems(2) consider (name) "plain c" | (dot) "c = dot" | (up) "c = dotdot" by (auto simp: component_def)
  then show ?case
  proof cases
    case name
    then have "handled (st @ [c]) (d # cs)" "resolve st (c # d # cs) = resolve (st @ [c]) (d # cs)" using Cons.prems(3) by auto
    with Cons.IH [of "st @ [c]" d junk] Cons.prems name shorten_next_name [OF name, of st "d @ render cs @ 0 # junk"]
    show ?thesis by auto
  next
    case dot
    then have h: "follows [dot] (d # cs)" "handled st (d # cs)" "resolve st (c # d # cs) = resolve st (d # cs)"
      using Cons.prems(3) by auto
    from follows_Cons [OF h(1)] have "d \<noteq> dot" "d \<noteq> [] \<or> cs \<noteq> []" by auto
    with shorten_dot [of d cs "render st @ [47]" junk] Cons.prems(2) z obtain junk' where
      "shorten_from (render st @ 47 # c @ render (d # cs) @ 0 # junk) (length (render st) + 1) =
       shorten_from (render st @ 47 # d @ render cs @ 0 # junk') (length (render st) + 1)"
      by (auto simp: dot dot_def)
    with Cons.IH [of st d junk'] Cons.prems h show ?thesis by auto
  next
    case up
    have ne: "dotdot \<noteq> dot" by (simp add: dot_def dotdot_def)
    show ?thesis
    proof (cases st rule: rev_cases)
      case Nil
      then have h: "follows [dot, dotdot] (d # cs)" "handled [] (d # cs)" "resolve st (c # d # cs) = resolve [] (d # cs)"
        using Cons.prems(3) up ne by auto
      from follows_Cons [OF h(1)] have d: "plain d" "d \<noteq> [] \<or> cs \<noteq> []" using Cons.prems(2) by (auto simp: component_def)
      from shorten_root [OF d z, of junk] obtain junk' where
        "shorten_from (render st @ 47 # c @ render (d # cs) @ 0 # junk) (length (render st) + 1) =
         shorten_from (render [] @ 47 # d @ render cs @ 0 # junk') (length (render []) + 1)"
        by (auto simp: Nil up dotdot_def)
      with Cons.IH [of "[]" d junk'] Cons.prems h show ?thesis by auto
    next
      case (snoc st' n)
      then have h: "handled st' (d # cs)" "resolve st (c # d # cs) = resolve st' (d # cs)"
        using Cons.prems(3) up ne by auto
      have "47 \<notin> set n" using Cons.prems(1) snoc by (simp add: plain_def)
      from shorten_next_up [OF this z, of st' junk] obtain junk' where
        "shorten_from (render st @ 47 # c @ render (d # cs) @ 0 # junk) (length (render st) + 1) =
         shorten_from (render st' @ 47 # d @ render cs @ 0 # junk') (length (render st') + 1)"
        by (auto simp: snoc up dotdot_def)
      with Cons.IH [of st' d junk'] Cons.prems h snoc show ?thesis by auto
    qed
  qed
qed

section \<open>Computed paths\<close>

lemma take_strlen:
  "is_cstr b s \<Longrightarrow> length s < 2 ^ 32 \<Longrightarrow> strlen b = Some (of_nat (length s)) \<and>
   take (unat (of_nat (length s) :: u32)) b = s"
  by (auto simp: strlen_cstr is_cstr_def unat_of_nat take_bit_nat_eq_self)

text \<open>The buffer that is shortened, from its start: the resolved prefix is passed over.\<close>

lemma shorten_path_resolve:
  assumes "\<forall>n \<in> set st. plain n" "\<forall>n \<in> set (c # cs). component n" "handled st (c # cs)"
  shows "\<exists>junk. shorten_path (render st @ 47 # c @ render cs @ [0]) = Some (resolve st (c # cs) @ 0 # junk)"
proof -
  have "shorten_path ((render st @ [47]) @ c @ render cs @ [0]) =
      shorten_from ((render st @ [47]) @ c @ render cs @ [0]) (length (render st @ [47]))"
    using shorten_skip [OF calm_append [OF calm_render [OF assms(1)] calm_slash], of "[]" "c @ render cs @ [0]"]
    by (simp add: shorten_path_def)
  with shorten_resolve [OF assms, of "[]"] show ?thesis by simp
qed

text \<open>The working directory with components \<open>st\<close> as it is written; the root is a slash.\<close>

definition dir_string :: "bytes list \<Rightarrow> bytes" where
  "dir_string st = (if st = [] then [47] else render st)"

text \<open>
  C29. Relative paths: from a working directory, a relative path of names, \<open>.\<close> and \<open>..\<close> is turned into
  exactly the path that resolving its components one after the other gives.  Names may contain
  dots but not end with one; and the path is one the code handles: a \<open>.\<close>, and a \<open>..\<close> at the
  root, is followed by a component other than \<open>.\<close>, in the case of the root other than \<open>..\<close> too.
\<close>

theorem calculate_path_relative:
  assumes "is_cstr base (dir_string st)" "\<forall>n \<in> set st. plain n \<and> n \<noteq> []" "length (dir_string st) < 2 ^ 32"
    and "is_cstr relative_path (c @ render cs)" "length (c @ render cs) < 2 ^ 32" "c \<noteq> []"
    and "\<forall>n \<in> set (c # cs). component n" "handled st (c # cs)"
  shows "\<exists>junk. calculate_path base relative_path = Some (resolve st (c # cs) @ 0 # junk)"
proof -
  obtain x c' where c: "c = x # c'" using assms(6) by (cases c) auto
  have x: "x \<noteq> 47" using assms(7) c by (auto simp: component_def plain_def dotdot_def dot_def)
  have rp: "byte_at relative_path 0 = Some x" using assms(4) c by (auto simp: is_cstr_def byte_at_def)
  have l: "last (render st) \<noteq> 47" if ne: "st \<noteq> []"
  proof -
    obtain st' n where st: "st = st' @ [n]" using ne by (cases st rule: rev_cases) auto
    with assms(2) have "plain n" "n \<noteq> []" by auto
    then have "last n \<noteq> 47" unfolding plain_def by (metis last_in_set)
    then show ?thesis using st \<open>n \<noteq> []\<close> by simp
  qed
  have ne: "render st \<noteq> []" if "st \<noteq> []" using that by (cases st) auto
  have "calculate_path base relative_path = shorten_path (render st @ 47 # c @ render cs @ [0])"
    using take_strlen [OF assms(1,3)] take_strlen [OF assms(4,5)] rp x l ne
    by (cases "st = []")
      (simp_all add: calculate_path_def dir_string_def Let_def del: take_eq_Nil take_eq_Nil2)
  with shorten_path_resolve [OF _ assms(7,8)] assms(2) show ?thesis by auto
qed

theorem calculate_path_relative_witness:
  "\<exists>junk. calculate_path [47, 98, 105, 110, 0] [46, 46, 47, 46, 47, 97, 46, 99, 0] = Some ([47, 97, 46, 99] @ 0 # junk)"
  using calculate_path_relative [of "[47, 98, 105, 110, 0]" "[[98, 105, 110]]" "[46, 46, 47, 46, 47, 97, 46, 99, 0]" dotdot "[dot, [97, 46, 99]]"]
  by (simp add: dir_string_def component_def plain_def dotdot_def dot_def follows_def)

text \<open>
  Absolute paths are resolved likewise, whatever the working directory is.
\<close>

theorem calculate_path_absolute:
  assumes "is_cstr relative_path (render (c # cs))" "length (render (c # cs)) < 2 ^ 32"
    and "\<forall>n \<in> set (c # cs). component n" "handled [] (c # cs)"
  shows "\<exists>junk. calculate_path base relative_path = Some (resolve [] (c # cs) @ 0 # junk)"
proof -
  have "byte_at relative_path 0 = Some 47" using assms(1) by (auto simp: is_cstr_def byte_at_def)
  then have "calculate_path base relative_path = shorten_path (render [] @ 47 # c @ render cs @ [0])"
    using take_strlen [OF assms(1,2)] by (simp add: calculate_path_def Let_def)
  with shorten_path_resolve [OF _ assms(3,4)] show ?thesis by auto
qed

theorem calculate_path_absolute_witness:
  "\<exists>junk. calculate_path [47, 0] [47, 97, 47, 46, 46, 47, 98, 0] = Some ([47, 98] @ 0 # junk)"
  using calculate_path_absolute [of "[47, 97, 47, 46, 46, 47, 98, 0]" "[97]" "[dotdot, [98]]" "[47, 0]"]
  by (simp add: component_def plain_def dotdot_def dot_def)

text \<open>
  A path that ends in a single dot reads beyond its buffer: the string after the dot is
  moved down, but the dot was the last character of the path.
\<close>

theorem calculate_path_final_dot:
  assumes "is_cstr relative_path (render st @ [47, 46])" "\<forall>n \<in> set st. plain n"
    and "length (render st @ [47, 46]) < 2 ^ 32"
  shows "calculate_path base relative_path = None"
proof -
  let ?b = "(render st @ [47]) @ [46, 0]"
  have "byte_at relative_path 0 = Some 47"
    using assms(1) by (cases st) (auto simp: is_cstr_def byte_at_def)
  then have "calculate_path base relative_path = shorten_from ?b 0"
    using take_strlen [OF assms(1,3)] by (simp add: calculate_path_def shorten_path_def Let_def)
  also have "\<dots> = shorten_from ?b (length (render st @ [47]))"
    using shorten_skip [OF calm_append [OF calm_render [OF assms(2)] calm_slash], of "[]" "[46, 0]"] by simp
  also have "\<dots> = None"
    by (subst shorten_from.simps) (simp add: byte_at_def nth_append dot_step_def str_collapse_def)
  finally show ?thesis .
qed

theorem calculate_path_final_dot_witness: "calculate_path [47, 0] [47, 97, 47, 46, 0] = None"
  by (rule calculate_path_final_dot [where st = "[[97]]"]) (auto simp: plain_def)

text \<open>
  Climbing above the root is not cut off at the root: the character after the dropped
  component is not examined, so \<open>/../../x\<close> becomes \<open>/.x\<close>; likewise the second of two
  single dots survives, and \<open>/././x\<close> becomes \<open>/./x\<close>.  A dot at the end of a name is taken for a
  component, and \<open>/a./x\<close> becomes \<open>/ax\<close>.  The path \<open>/..\<close> is read beyond its end.
\<close>

theorem calculate_path_skips:
  "map_option cstr (calculate_path [47, 0] [47, 46, 46, 47, 46, 46, 47, 120, 0]) = Some [47, 46, 120] \<and>
   map_option cstr (calculate_path [47, 0] [47, 46, 47, 46, 47, 120, 0]) = Some [47, 46, 47, 120] \<and>
   map_option cstr (calculate_path [47, 0] [47, 97, 46, 47, 120, 0]) = Some [47, 97, 120] \<and>
   calculate_path [47, 0] [47, 46, 46, 0] = None"
  by code_simp

end
