(* ===== verification/Syscall_File.thy ===== *)
theory Syscall_File
  imports Trap Path
begin

text \<open>
  The system calls on files of \<open>isr_handler\<close>, \<^verbatim>\<open>sys/idt.c\<close>: \<open>open\<close>, \<open>read\<close>, \<open>write\<close>, \<open>lseek\<close>,
  \<open>close\<close>, \<open>dup\<close>, \<open>pipe\<close>, the directory calls and the raw disk blocks.
\<close>

section \<open>Opening\<close>

definition sys_create :: "filesys \<Rightarrow> bytes \<Rightarrow> (bool \<times> filesys) option" where
  "sys_create fs abs_path =
     do {
       node \<leftarrow> search_file_in_disk (sfs fs) abs_path;
       case node of
         Some _ \<Rightarrow> Some (True, fs)
       | None \<Rightarrow> do { (ok, s) \<leftarrow> create_file_in_disk (sfs fs) abs_path; Some (ok, fs\<lparr>sfs := s\<rparr>) }
     }"

definition sys_open :: "user_mem \<Rightarrow> kernel \<Rightarrow> handler_reg \<Rightarrow> trap_result option" where
  "sys_open um k reg =
     do {
       pr \<leftarrow> cur_proc k;
       let flag = (ucast (rsi reg) :: u32);
       abs_path \<leftarrow> calculate_path (workdir pr) (um (rdi reg));
       (ok, f1) \<leftarrow> (if flag AND 4 \<noteq> 0 then sys_create (kfs k) abs_path else Some (True, kfs k));
       let k1 = k\<lparr>kfs := f1\<rparr>;
       if \<not> ok then sys_return (- EIO) reg [] k1
       else case free_fd pr of
              None \<Rightarrow> sys_return (- EMFILE) reg [] k1
            | Some i \<Rightarrow>
                if flag AND 3 = 0 \<or> flag AND 3 = 1 then
                  do {
                    (opened, f2) \<leftarrow> (if flag AND 3 = 0 then file_open_read f1 abs_path else file_open_write f1 abs_path);
                    let k2 = k1\<lparr>kfs := f2\<rparr>;
                    if opened = 0 then sys_return (- EIO) reg [] k2
                    else do {
                      k3 \<leftarrow> upd_cur (set_fd i (Some opened)) k2;
                      sys_return (of_nat i) reg [] k3
                    }
                  }
                else sys_return (- EINVAL) reg [] k1
     }"

section \<open>Reading and writing\<close>

text \<open>
  One round of the loop of \<open>sys_read\<close>: with nothing to read the process is put in the queue of
  the entry and on hold.
\<close>

definition read_attempt :: "kernel \<Rightarrow> handler_reg \<Rightarrow> ptr \<Rightarrow> u64 \<Rightarrow> u64 \<Rightarrow> trap_result option" where
  "read_attempt k reg p buf count =
     do {
       (written, bs, f1) \<leftarrow> file_read (kfs k) p count;
       if written = 0 then
         do {
           e \<leftarrow> files f1 p;
           let f2 = put_file p (e\<lparr>first_waiters := first_waiters e @ [current_process k]\<rparr>) f1;
           k1 \<leftarrow> upd_cur (\<lambda>q. q\<lparr>on_hold := True\<rparr>) (k\<lparr>kfs := f2\<rparr>);
           Some (Blocked (Resume_read p buf count), reg, [(buf, bs)], k1)
         }
       else if written = - 1 then sys_return 0 reg [(buf, bs)] (k\<lparr>kfs := f1\<rparr>)
       else sys_return (word_of_int written) reg [(buf, bs)] (k\<lparr>kfs := f1\<rparr>)
     }"

definition sys_read :: "kernel \<Rightarrow> handler_reg \<Rightarrow> trap_result option" where
  "sys_read k reg =
     do {
       pr \<leftarrow> cur_proc k;
       case fd_entry pr (rdi reg) of
         Inl e \<Rightarrow> sys_return e reg [] k
       | Inr p \<Rightarrow>
           do {
             fe \<leftarrow> files (kfs k) p;
             if io_type fe \<noteq> 2 \<and> io_type fe \<noteq> 3 \<and> io_type fe \<noteq> 5 then sys_return (- EBADF) reg [] k
             else read_attempt k reg p (rsi reg) (rdx reg)
           }
     }"

text \<open>After the switch: a signal ends the call with 0, else the read is tried again.\<close>

definition resume_read :: "kernel \<Rightarrow> handler_reg \<Rightarrow> ptr \<Rightarrow> u64 \<Rightarrow> u64 \<Rightarrow> trap_result option" where
  "resume_read k reg p buf count =
     do {
       pr \<leftarrow> cur_proc k;
       if sig_pending pr \<noteq> 0 then sys_return 0 reg [] k else read_attempt k reg p buf count
     }"

definition sys_write :: "user_mem \<Rightarrow> kernel \<Rightarrow> handler_reg \<Rightarrow> trap_result option" where
  "sys_write um k reg =
     do {
       pr \<leftarrow> cur_proc k;
       case fd_entry pr (rdi reg) of
         Inl e \<Rightarrow> sys_return e reg [] k
       | Inr p \<Rightarrow>
           do {
             fe \<leftarrow> files (kfs k) p;
             if io_type fe \<noteq> 1 \<and> io_type fe \<noteq> 4 \<and> io_type fe \<noteq> 6 then sys_return (- EBADF) reg [] k
             else do {
               (readed, woken, f) \<leftarrow> file_write (kfs k) p (um (rsi reg)) (rdx reg);
               k1 \<leftarrow> wake_all woken (k\<lparr>kfs := f\<rparr>);
               sys_return (word_of_int readed) reg [] k1
             }
           }
     }"

definition sys_lseek :: "kernel \<Rightarrow> handler_reg \<Rightarrow> trap_result option" where
  "sys_lseek k reg =
     do {
       pr \<leftarrow> cur_proc k;
       case fd_entry pr (rdi reg) of
         Inl e \<Rightarrow> sys_return e reg [] k
       | Inr p \<Rightarrow>
           do {
             fe \<leftarrow> files (kfs k) p;
             sys_return 0 reg [] (k\<lparr>kfs := put_file p (fe\<lparr>offset := rsi reg\<rparr>) (kfs k)\<rparr>)
           }
     }"

section \<open>Descriptors\<close>

text \<open>Closing the file of slot \<open>i\<close>, when it is open.\<close>

definition close_fd :: "nat \<Rightarrow> kernel \<Rightarrow> kernel option" where
  "close_fd i k =
     do {
       pr \<leftarrow> cur_proc k;
       case open_fd pr ! i of
         None \<Rightarrow> Some k
       | Some p \<Rightarrow>
           do {
             (_, f) \<leftarrow> file_close (kfs k) p;
             upd_cur (set_fd i None) (k\<lparr>kfs := f\<rparr>)
           }
     }"

definition sys_close :: "kernel \<Rightarrow> handler_reg \<Rightarrow> trap_result option" where
  "sys_close k reg =
     (if of_nat FD_SIZE \<le> rdi reg then sys_return (- EMFILE) reg [] k
      else do { k1 \<leftarrow> close_fd (unat (rdi reg)) k; sys_return 0 reg [] k1 })"

text \<open>
  \<open>sys_dup\<close> lets the index \<open>FD_SIZE\<close> pass, which is outside of the array; the new slot is closed
  before the old one is looked at.
\<close>

definition sys_dup :: "kernel \<Rightarrow> handler_reg \<Rightarrow> trap_result option" where
  "sys_dup k reg =
     (let oldfd = rdi reg; newfd = rsi reg
      in if of_nat FD_SIZE < oldfd \<or> of_nat FD_SIZE < newfd then sys_return (- 1) reg [] k
         else do {
           _ \<leftarrow> (if unat newfd < FD_SIZE then Some () else None);
           k1 \<leftarrow> close_fd (unat newfd) k;
           _ \<leftarrow> (if unat oldfd < FD_SIZE then Some () else None);
           pr \<leftarrow> cur_proc k1;
           case open_fd pr ! unat oldfd of
             None \<Rightarrow> sys_return (- 1) reg [] k1
           | Some p \<Rightarrow>
               do {
                 f \<leftarrow> open_more 1 p (kfs k1);
                 k2 \<leftarrow> upd_cur (set_fd (unat newfd) (Some p)) (k1\<lparr>kfs := f\<rparr>);
                 sys_return 0 reg [] k2
               }
         })"

definition sys_pipe :: "kernel \<Rightarrow> handler_reg \<Rightarrow> trap_result option" where
  "sys_pipe k reg =
     do {
       pr \<leftarrow> cur_proc k;
       case free_fd pr of
         None \<Rightarrow> sys_return (- EMFILE) reg [] k
       | Some outfd \<Rightarrow>
           case find (\<lambda>i. open_fd pr ! i = None \<and> i \<noteq> outfd) [0..<FD_SIZE] of
             None \<Rightarrow> sys_return (- EMFILE) reg [] k
           | Some infd \<Rightarrow>
               do {
                 (tmp0, tmp1, f) \<leftarrow> generate_entry_pair (kfs k);
                 k1 \<leftarrow> upd_cur (\<lambda>q. set_fd infd (Some tmp1) (set_fd outfd (Some tmp0) q)) (k\<lparr>kfs := f\<rparr>);
                 sys_return 0 reg [(rdi reg, int_bytes (of_nat outfd)), (rdi reg + 4, int_bytes (of_nat infd))] k1
               }
     }"

section \<open>Directories\<close>

text \<open>\<open>sys_unlink\<close> removes nothing: it looks for a first entry below the path.\<close>

definition sys_unlink :: "user_mem \<Rightarrow> kernel \<Rightarrow> handler_reg \<Rightarrow> trap_result option" where
  "sys_unlink um k reg =
     do {
       pr \<leftarrow> cur_proc k;
       abs_path \<leftarrow> calculate_path (workdir pr) (um (rdi reg));
       de \<leftarrow> list_next_file (tar (kfs k)) (sfs (kfs k)) abs_path 0;
       case de of None \<Rightarrow> sys_return (- 1) reg [] k | Some _ \<Rightarrow> sys_return 0 reg [] k
     }"

definition sys_chdir :: "user_mem \<Rightarrow> kernel \<Rightarrow> handler_reg \<Rightarrow> trap_result option" where
  "sys_chdir um k reg =
     do {
       pr \<leftarrow> cur_proc k;
       abs_path \<leftarrow> calculate_path (workdir pr) (um (rdi reg));
       k1 \<leftarrow> upd_cur (\<lambda>q. q\<lparr>workdir := abs_path\<rparr>) k;
       sys_return 0 reg [] k1
     }"

text \<open>The path is copied without its terminator; a size of 0 wraps to no limit at all.\<close>

definition sys_getdir :: "kernel \<Rightarrow> handler_reg \<Rightarrow> trap_result option" where
  "sys_getdir k reg =
     do {
       pr \<leftarrow> cur_proc k;
       _ \<leftarrow> strlen (workdir pr);
       sys_return (rdi reg) reg [(rdi reg, take (unat (rsi reg - 1)) (cstr (workdir pr)))] k
     }"

definition sys_mkdir :: "kernel \<Rightarrow> handler_reg \<Rightarrow> trap_result option" where
  "sys_mkdir k reg = sys_return 0 reg [] k"

definition sys_list_files :: "user_mem \<Rightarrow> kernel \<Rightarrow> handler_reg \<Rightarrow> trap_result option" where
  "sys_list_files um k reg =
     do {
       pr \<leftarrow> cur_proc k;
       let write_to = rsi reg;
       abs_path \<leftarrow> calculate_path (workdir pr) (um (rdi reg));
       de \<leftarrow> list_next_file (tar (kfs k)) (sfs (kfs k)) abs_path (sint (ucast (rdx reg) :: u32));
       case de of
         None \<Rightarrow> sys_return (- 1) reg [] k
       | Some name \<Rightarrow>
           sys_return 0 reg [(write_to + 18, name @ [0]), (write_to, le_of 8 0), (write_to + 8, le_of 8 0),
             (write_to + 16, le_of 2 (of_nat (length name)))] k
     }"

section \<open>Raw disk blocks\<close>

fun word_list :: "bytes \<Rightarrow> nat \<Rightarrow> u64 list option" where
  "word_list b 0 = Some []"
| "word_list b (Suc n) =
     (if length b < 8 then None else map_option (Cons (of_le (take 8 b))) (word_list (drop 8 b) n))"

definition test_kernel_read_block :: "kernel \<Rightarrow> handler_reg \<Rightarrow> trap_result option" where
  "test_kernel_read_block k reg =
     do {
       (r, k1) \<leftarrow> kernel_space_handler k (TASK_RW_DISK_BLOCK (rdi reg) (current_process k) (rsi reg) [] False);
       case r of
         Ret_page ok page \<Rightarrow>
           if \<not> ok then sys_return (- 1) reg [] k1
           else do {
             k2 \<leftarrow> upd_cur (\<lambda>q. q\<lparr>on_hold := True\<rparr>) k1;
             Some (Blocked (Resume_read_block page (rdx reg)), reg, [], k2)
           }
       | _ \<Rightarrow> None
     }"

definition resume_read_block :: "kernel \<Rightarrow> handler_reg \<Rightarrow> nat option \<Rightarrow> u64 \<Rightarrow> trap_result option" where
  "resume_read_block k reg page user_buffer =
     do {
       (r, k1) \<leftarrow> kernel_space_handler k (TASK_CP_PAGE_MALLOC page [] True);
       case r of
         Ret_words ws \<Rightarrow>
           do {
             (_, k2) \<leftarrow> kernel_space_handler k1 (TASK_PAGE_USED_BY page 0);
             sys_return 0 reg [(user_buffer, concat (map (le_of 8) ws))] k2
           }
       | _ \<Rightarrow> None
     }"

definition test_kernel_write_block :: "user_mem \<Rightarrow> kernel \<Rightarrow> handler_reg \<Rightarrow> trap_result option" where
  "test_kernel_write_block um k reg =
     do {
       buf \<leftarrow> word_list (um (rdx reg)) 512;
       (r, k1) \<leftarrow> kernel_space_handler k (TASK_RW_DISK_BLOCK (rdi reg) (current_process k) (rsi reg) buf True);
       case r of
         Ret_page ok _ \<Rightarrow>
           if \<not> ok then sys_return (- 1) reg [] k1
           else do {
             k2 \<leftarrow> upd_cur (\<lambda>q. q\<lparr>on_hold := True\<rparr>) k1;
             Some (Blocked Resume_write_block, reg, [], k2)
           }
       | _ \<Rightarrow> None
     }"

section \<open>A reader and a writer\<close>

lemma wake_all_eq:
  "\<forall>p \<in> set ps. procs k p \<noteq> None \<Longrightarrow> wake_all ps k =
     Some (k\<lparr>procs := \<lambda>p. map_option (\<lambda>pr. if p \<in> set ps then pr\<lparr>on_hold := False\<rparr> else pr) (procs k p)\<rparr>)"
proof (induction ps arbitrary: k)
  case Nil
  have "(\<lambda>p. map_option (\<lambda>pr. pr) (procs k p)) = procs k" by (simp add: option.map_ident)
  then show ?case by simp
next
  case (Cons p ps)
  then obtain pr where pr: "procs k p = Some pr" by auto
  let ?k = "put_proc p (pr\<lparr>on_hold := False\<rparr>) k"
  have "\<forall>q \<in> set ps. procs ?k q \<noteq> None" using Cons.prems by auto
  from Cons.IH [OF this] pr show ?case by (auto simp: put_proc_def fun_eq_iff)
qed

lemma put_file_twice: "put_file p e (put_file p e' f) = put_file p e f"
  by (simp add: put_file_def)

lemma fd_entry_open:
  "procs k c = Some pr \<Longrightarrow> fd < 16 \<Longrightarrow> open_fd pr ! unat fd = Some p \<Longrightarrow> p \<noteq> 0 \<Longrightarrow> fd_entry pr fd = Inr p"
  by (simp add: fd_entry_def FD_SIZE_def not_le [symmetric])

lemma empty_pipe_read:
  assumes "ring_wf re" "ring_contents re = []" "buffer_p_c re \<noteq> 0"
  shows "pipe_read re n = Some ([], re)"
proof -
  have "ring_count re = 0" using assms(2) by (metis length_ring_contents list.size(3))
  then have "buffer_p_c re - 1 = buffer_c_c re" using ring_empty_iff [OF assms(1,3)] by simp
  then show ?thesis by (cases n) simp_all
qed

text \<open>A read from an empty pipe whose writer is open puts the process on hold.\<close>

lemma sys_read_blocks:
  assumes pr: "procs k (current_process k) = Some pr" "rdi reg < 16" "open_fd pr ! unat (rdi reg) = Some p" "p \<noteq> 0"
    and re: "files (kfs k) p = Some re" "io_type re = 2" "files (kfs k) (in_from re) = Some we" "open_count we > 0"
    and ring: "ring_wf re" "ring_contents re = []" "buffer_p_c re \<noteq> 0"
  shows "sys_read k reg = Some (Blocked (Resume_read p (rsi reg) (rdx reg)), reg, [(rsi reg, [])],
     put_proc (current_process k) (pr\<lparr>on_hold := True\<rparr>)
       (k\<lparr>kfs := put_file p (re\<lparr>first_waiters := first_waiters re @ [current_process k]\<rparr>) (kfs k)\<rparr>))"
proof -
  have "file_read (kfs k) p (rdx reg) = Some (0, [], put_file p re (kfs k))"
    using re empty_pipe_read [OF ring, of "unat (rdx reg)"] by (simp add: file_read_def)
  moreover have "fd_entry pr (rdi reg) = Inr p" by (rule fd_entry_open [OF pr])
  ultimately show ?thesis using pr re
    by (simp add: sys_read_def cur_proc_def read_attempt_def put_file_twice)
qed

text \<open>
  A write into an empty ring returns the number of bytes that fitted; it clears the hold of every
  reader that waits when all of them fitted, and nobody's otherwise.
\<close>

lemma sys_write_wakes:
  assumes pq: "procs k (current_process k) = Some pq" "no_signal pq" "rdi reg < 16"
      "open_fd pq ! unat (rdi reg) = Some w" "w \<noteq> 0"
    and we: "files (kfs k) w = Some we" "io_type we = 1" "out_to we = p" "p \<noteq> 0" "files (kfs k) p = Some re"
    and ring: "ring_wf re" "ring_contents re = []" "length data < 2 ^ 64"
    and arg: "rdx reg = of_nat (length data)" "take (length data) (um (rsi reg)) = data"
    and ws: "\<forall>q \<in> set (first_waiters re). procs k q \<noteq> None"
  shows "\<exists>re'. sys_write um k reg = Some (Done 0, reg\<lparr>rax := of_nat (min (length data) 2047)\<rparr>, [],
       k\<lparr>kfs := put_file p re' (kfs k),
         procs := \<lambda>q. map_option (\<lambda>pr. if length data \<le> 2047 \<and> q \<in> set (first_waiters re) then pr\<lparr>on_hold := False\<rparr> else pr) (procs k q)\<rparr>) \<and>
     ring_wf re' \<and> ring_contents re' = take 2047 data \<and> io_type re' = io_type re \<and> in_from re' = in_from re \<and>
     buffer_c_c re' = buffer_c_c re"
proof -
  have l: "length data \<le> length (um (rsi reg))" using arg_cong [OF arg(2), of length] by simp
  have z: "ring_count re = 0" using ring(2) by (metis length_ring_contents list.size(3))
  have t: "take (min (length data) 2047) (um (rsi reg)) = take 2047 data"
    using arg(2) by (metis min.commute take_take)
  obtain b c where
    w: "pipe_write re (um (rsi reg)) (length data) 0 = Some (length data \<le> 2047, min (length data) 2047, re\<lparr>buffer := b, buffer_p_c := c\<rparr>)"
    "ring_wf (re\<lparr>buffer := b, buffer_p_c := c\<rparr>)" "ring_contents (re\<lparr>buffer := b, buffer_p_c := c\<rparr>) = take 2047 data"
    using pipe_write_spec [OF ring(1) l, of 0] by (auto simp: z ring(2) t BUFFER_SIZE_def)
  define fit where "fit \<longleftrightarrow> length data \<le> 2047"
  define re' where "re' = re\<lparr>buffer := b, buffer_p_c := c, first_waiters := if fit then [] else first_waiters re\<rparr>"
  define ws' where "ws' = (if fit then first_waiters re else [])"
  have r: "ring_wf re'" "ring_contents re' = take 2047 data" using w by (simp_all add: re'_def)
  have same: "re\<lparr>buffer := b, buffer_p_c := c, first_waiters := first_waiters re\<rparr> = re\<lparr>buffer := b, buffer_p_c := c\<rparr>" by simp
  have fw: "file_write (kfs k) w (um (rsi reg)) (rdx reg) =
      Some (int (min (length data) 2047), ws', put_file p re' (kfs k))"
    using we w(1) arg(1) ring(3) same by (cases fit) (simp_all add: file_write_def re'_def ws'_def fit_def)
  let ?k = "k\<lparr>kfs := put_file p re' (kfs k)\<rparr>"
  have wa: "wake_all ws' ?k = Some (?k\<lparr>procs :=
      \<lambda>q. map_option (\<lambda>pr. if q \<in> set ws' then pr\<lparr>on_hold := False\<rparr> else pr) (procs k q)\<rparr>)"
    using wake_all_eq [of ws' ?k] ws by (simp add: ws'_def)
  have "no_signal (if x then pq\<lparr>on_hold := False\<rparr> else pq)" for x using pq(2) by (simp add: no_signal_def)
  then have "sys_write um k reg = Some (Done 0, reg\<lparr>rax := word_of_int (int (min (length data) 2047))\<rparr>, [], ?k\<lparr>procs :=
      \<lambda>q. map_option (\<lambda>pr. if q \<in> set ws' then pr\<lparr>on_hold := False\<rparr> else pr) (procs k q)\<rparr>)"
    using pq we fw wa fd_entry_open [OF pq(1,3-5)] by (simp add: sys_write_def cur_proc_def sys_return_quiet del: of_nat_min)
  moreover have "q \<in> set ws' \<longleftrightarrow> length data \<le> 2047 \<and> q \<in> set (first_waiters re)" for q by (simp add: ws'_def fit_def)
  ultimately show ?thesis using r by (intro exI [of _ re']) (simp add: re'_def del: of_nat_min)
qed

text \<open>After a write into an empty ring the producer's cursor is in front of the consumer's by the data.\<close>

lemma ring_cursor_written:
  assumes "ring_wf re" "ring_contents re = data"
  shows "buffer_p_c re = 0 \<longleftrightarrow> buffer_c_c re + 1 + int (length data) = 2048"
proof -
  have "ring_count re = length data" using arg_cong [OF assms(2), of length] by simp
  with assms(1) show ?thesis by (auto simp: ring_defs split: if_splits)
qed

text \<open>
  C14. A reader that waits, and a later write.  A process reads from an empty pipe and is put on hold;
  another process writes data to the other end.  The write returns the number of bytes that fit
  into 2047, and the reader is released exactly when all of them fitted: a longer write leaves it on hold.
  When the released reader runs again its call returns and stores the data, as much as it asked for;
  if the write has brought the producer cursor to the start of the buffer the reader is
  given all the bytes it asked for, the data first and stale bytes behind it.
\<close>

theorem blocked_reader_gets_data:
  assumes rd: "procs k (current_process k) = Some pr" "sig_pending pr = 0" "rdi reg < 16"
      "open_fd pr ! unat (rdi reg) = Some p" "p \<noteq> 0" "rdx reg = of_nat n" "0 < n" "n < 2 ^ 31"
    and pipe: "files (kfs k) p = Some re" "io_type re = 2" "in_from re = w" "files (kfs k) w = Some we"
      "io_type we = 1" "out_to we = p" "open_count we > 0" "w \<noteq> 0"
    and ring: "ring_wf re" "ring_contents re = []" "buffer_p_c re \<noteq> 0"
      "\<forall>q \<in> set (first_waiters re). procs k q \<noteq> None"
    and wr: "procs k q = Some pq" "no_signal pq" "rdi wreg < 16" "open_fd pq ! unat (rdi wreg) = Some w"
      "q \<noteq> current_process k" "rdx wreg = of_nat (length data)" "take (length data) (um (rsi wreg)) = data"
    and data: "data \<noteq> []" "length data < 2 ^ 64"
  shows "\<exists>k1 k2. sys_read k reg = Some (Blocked (Resume_read p (rsi reg) (rdx reg)), reg, [(rsi reg, [])], k1) \<and>
     on_hold (the (procs k1 (current_process k))) \<and>
     sys_write um (k1\<lparr>current_process := q\<rparr>) wreg = Some (Done 0, wreg\<lparr>rax := of_nat (min (length data) 2047)\<rparr>, [], k2) \<and>
     (on_hold (the (procs k2 (current_process k))) \<longleftrightarrow> 2047 < length data) \<and>
     (length data \<le> 2047 \<longrightarrow> (\<exists>bs k3.
        resume_read (k2\<lparr>current_process := current_process k\<rparr>) reg p (rsi reg) (rdx reg) =
          Some (Done 0, reg\<lparr>rax := of_nat (length bs)\<rparr>, [(rsi reg, bs)], k3) \<and>
        take (length data) bs = take n data \<and>
        length bs = (if buffer_c_c re + 1 + int (length data) = 2048 then n else min n (length data))))"
proof -
  let ?r = "current_process k"
  have pw: "p \<noteq> w" using pipe by auto
  define re1 where "re1 = re\<lparr>first_waiters := first_waiters re @ [?r]\<rparr>"
  define k1 where "k1 = put_proc ?r (pr\<lparr>on_hold := True\<rparr>) (k\<lparr>kfs := put_file p re1 (kfs k)\<rparr>)"
  have b: "sys_read k reg = Some (Blocked (Resume_read p (rsi reg) (rdx reg)), reg, [(rsi reg, [])], k1)"
    using sys_read_blocks [OF rd(1,3-5) pipe(1,2) _ pipe(7) ring(1-3)] pipe(3,4) by (simp add: k1_def re1_def)
  let ?k1 = "k1\<lparr>current_process := q\<rparr>"
  have ws: "\<forall>x \<in> set (first_waiters re1). procs ?k1 x \<noteq> None"
    using ring(4) by (auto simp: k1_def re1_def)
  have "procs ?k1 (current_process ?k1) = Some pq" "files (kfs ?k1) w = Some we" "files (kfs ?k1) p = Some re1"
    "ring_wf re1" "ring_contents re1 = []"
    using wr pipe pw ring by (simp_all add: k1_def re1_def)
  from sys_write_wakes [where um = um, OF this(1) wr(2-4) pipe(8) this(2) pipe(5,6) rd(5) this(3-5) data(2) wr(6,7) ws]
  obtain re2 where w: "sys_write um ?k1 wreg = Some (Done 0, wreg\<lparr>rax := of_nat (min (length data) 2047)\<rparr>, [],
       ?k1\<lparr>kfs := put_file p re2 (kfs ?k1),
         procs := \<lambda>q. map_option (\<lambda>pr. if length data \<le> 2047 \<and> q \<in> set (first_waiters re1) then pr\<lparr>on_hold := False\<rparr> else pr) (procs ?k1 q)\<rparr>)"
    and re2: "ring_wf re2" "ring_contents re2 = take 2047 data" "io_type re2 = 2" "in_from re2 = w" "buffer_c_c re2 = buffer_c_c re"
    using pipe by (auto simp: re1_def)
  define k2 where "k2 = ?k1\<lparr>kfs := put_file p re2 (kfs ?k1),
         procs := \<lambda>q. map_option (\<lambda>pr. if length data \<le> 2047 \<and> q \<in> set (first_waiters re1) then pr\<lparr>on_hold := False\<rparr> else pr) (procs ?k1 q)\<rparr>"
  let ?k2 = "k2\<lparr>current_process := ?r\<rparr>"
  have p2: "procs ?k2 ?r = Some (pr\<lparr>on_hold := 2047 < length data\<rparr>)" using rd(1) by (simp add: k2_def k1_def re1_def)
  have "\<exists>bs k3. resume_read ?k2 reg p (rsi reg) (rdx reg) = Some (Done 0, reg\<lparr>rax := of_nat (length bs)\<rparr>, [(rsi reg, bs)], k3) \<and>
      take (length data) bs = take n data \<and>
      length bs = (if buffer_c_c re + 1 + int (length data) = 2048 then n else min n (length data))" if fit: "length data \<le> 2047"
  proof -
    have f2: "files (kfs ?k2) p = Some re2" "files (kfs ?k2) (in_from re2) = Some we"
      using pipe pw re2(4) by (simp_all add: k2_def k1_def)
    have c2: "ring_contents re2 = data" using re2(2) fit by simp
    have "n < 2 ^ 64" "ring_contents re2 \<noteq> []" using rd(8) data(1) c2 by simp_all
    from pipe_read_out [OF f2(1) re2(3) f2(2) re2(1) this(2,1), unfolded c2 ring_cursor_written [OF re2(1) c2] re2(5)]
    obtain bs c where
      r: "file_read (kfs ?k2) p (rdx reg) = Some (int (length bs), bs, put_file p (re2\<lparr>buffer_c_c := c\<rparr>) (kfs ?k2))"
      "take (length data) bs = take n data"
      "length bs = (if buffer_c_c re + 1 + int (length data) = 2048 then n else min n (length data))"
      unfolding rd(6) by blast
    have "length bs \<noteq> 0" using r(3) rd(7) data(1) by auto
    then have ne: "int (length bs) \<noteq> 0" "int (length bs) \<noteq> - 1" by linarith+
    have "no_signal (pr\<lparr>on_hold := 2047 < length data\<rparr>)" using rd(2) by (simp add: no_signal_def)
    then have "\<exists>k3. resume_read ?k2 reg p (rsi reg) (rdx reg) =
        Some (Done 0, reg\<lparr>rax := of_nat (length bs)\<rparr>, [(rsi reg, bs)], k3)"
      using p2 r(1) ne rd(2) by (simp add: resume_read_def cur_proc_def read_attempt_def sys_return_quiet)
    with r(2,3) show ?thesis by blast
  qed
  moreover have "on_hold (the (procs k1 ?r))" by (simp add: k1_def)
  moreover have "on_hold (the (procs k2 ?r)) \<longleftrightarrow> 2047 < length data" using p2 by simp
  ultimately show ?thesis using b w by (auto simp: k2_def simp del: of_nat_min)
qed

text \<open>
  Descriptors that are not open are refused: for every number above 15 and every closed slot,
  reading, writing and seeking return the error and change nothing at all.
\<close>

theorem bad_descriptor_refused:
  assumes "procs k (current_process k) = Some pr" "no_signal pr"
    and "16 \<le> rdi reg \<or> open_fd pr ! unat (rdi reg) = None"
  shows "\<exists>e \<in> {- EMFILE, - EBADF}. sys_read k reg = Some (Done 0, reg\<lparr>rax := e\<rparr>, [], k) \<and>
     sys_write um k reg = Some (Done 0, reg\<lparr>rax := e\<rparr>, [], k) \<and>
     sys_lseek k reg = Some (Done 0, reg\<lparr>rax := e\<rparr>, [], k)"
proof -
  have "fd_entry pr (rdi reg) \<in> {Inl (- EMFILE), Inl (- EBADF)}" using assms(3) by (auto simp: fd_entry_def FD_SIZE_def)
  then show ?thesis using assms(1,2)
    by (auto simp: sys_read_def sys_write_def sys_lseek_def cur_proc_def sys_return_quiet)
qed

text \<open>
  Duplicating a descriptor checks its bound wrongly: the number 16 is one beyond the table, but
  passes the test, and the entry behind the table is used.
\<close>

theorem dup_out_of_bounds:
  assumes "rdi reg < 16" "rsi reg = 16"
  shows "sys_dup k reg = None"
  using assms by (auto simp: sys_dup_def FD_SIZE_def Let_def)

section \<open>New descriptors\<close>

lemma find_upt_Some: "find P [0..<n] = Some i \<Longrightarrow> i < n \<and> P i"
  by (auto simp: find_Some_iff)

text \<open>
  C21. A new pipe: with two free slots the call takes the two lowest ones for the two ends, stores
  their numbers, leaves every other descriptor alone, and the ends are connected: what is
  written to the second arrives in the empty ring of the first.
\<close>

theorem sys_pipe_connects:
  assumes "procs k (current_process k) = Some pr" "no_signal pr" "length (open_fd pr) = 16"
    and "free_fd pr = Some i" "find (\<lambda>j. open_fd pr ! j = None \<and> j \<noteq> i) [0..<16] = Some j"
    and "file_supply (kfs k) = a # b # rest" "a \<noteq> b"
  shows "\<exists>k' pr' ea eb. sys_pipe k reg = Some (Done 0, reg\<lparr>rax := 0\<rparr>,
       [(rdi reg, int_bytes (of_nat i)), (rdi reg + 4, int_bytes (of_nat j))], k') \<and>
     i < j \<and> j < 16 \<and> procs k' (current_process k) = Some pr' \<and> open_fd pr' = (open_fd pr)[i := Some b, j := Some a] \<and>
     files (kfs k') a = Some ea \<and> io_type ea = 1 \<and> out_to ea = b \<and>
     files (kfs k') b = Some eb \<and> io_type eb = 2 \<and> in_from eb = a \<and> ring_contents eb = []"
proof -
  obtain f ea eb where f: "generate_entry_pair (kfs k) = Some (b, a, f)" "files f a = Some ea" "files f b = Some eb"
    "io_type ea = 1" "out_to ea = b" "io_type eb = 2" "in_from eb = a" "ring_contents eb = []"
    using assms(6,7) by (auto simp: generate_entry_pair_def next_addr_def Let_def new_entry_def empty_entry_def
        ring_defs ring_contents_def)
  have i: "i < 16" "open_fd pr ! i = None" and j: "j < 16" "open_fd pr ! j = None" "j \<noteq> i"
    using assms(4,5) find_upt_Some by (auto simp: free_fd_def FD_SIZE_def dest!: find_upt_Some)
  have "\<not> j < i"
  proof
    assume "j < i"
    with assms(4) j(2) show False by (auto simp: free_fd_def FD_SIZE_def find_Some_iff)
  qed
  then have ij: "i < j" using j(3) by simp
  let ?pr = "set_fd j (Some a) (set_fd i (Some b) pr)"
  have "no_signal ?pr" using assms(2) by (simp add: no_signal_def set_fd_def)
  then have "sys_pipe k reg = Some (Done 0, reg\<lparr>rax := 0\<rparr>,
       [(rdi reg, int_bytes (of_nat i)), (rdi reg + 4, int_bytes (of_nat j))],
       put_proc (current_process k) ?pr (k\<lparr>kfs := f\<rparr>))"
    using assms f by (simp add: sys_pipe_def cur_proc_def FD_SIZE_def sys_return_quiet)
  with f ij j(1) show ?thesis by (simp add: set_fd_def)
qed

section \<open>Examples\<close>

definition rw_example :: kernel where
  "rw_example = kernel_example\<lparr>
     procs := [0x10 \<mapsto> proc1\<lparr>open_fd := (replicate 16 None)[1 := Some 16]\<rparr>, 0x20 \<mapsto> proc2\<lparr>open_fd := (replicate 16 None)[0 := Some 32]\<rparr>],
     kfs := pipe_example\<lparr>files := [16 \<mapsto> (new_entry 1 [])\<lparr>out_to := 32\<rparr>, 32 \<mapsto> (new_entry 2 [])\<lparr>in_from := 16\<rparr>]\<rparr>\<rparr>"

lemma rw_example_sel:
  "procs rw_example 0x10 = Some (proc1\<lparr>open_fd := (replicate 16 None)[1 := Some 16]\<rparr>)"
  "procs rw_example (current_process rw_example) = Some (proc2\<lparr>open_fd := (replicate 16 None)[0 := Some 32]\<rparr>)"
  "files (kfs rw_example) 16 = Some ((new_entry 1 [])\<lparr>out_to := 32\<rparr>)"
  "files (kfs rw_example) 32 = Some ((new_entry 2 [])\<lparr>in_from := 16\<rparr>)"
  "current_process rw_example = 0x20" "file_supply (kfs rw_example) = file_supply pipe_example"
  by (simp_all add: rw_example_def kernel_example_def)

lemma rw_example_quiet:
  "no_signal (proc1\<lparr>open_fd := f\<rparr>)" "no_signal (proc2\<lparr>open_fd := f\<rparr>)" "sig_pending proc2 = 0"
  by (simp_all add: no_signal_def example_procs)

theorem blocked_reader_gets_data_witness:
  "\<exists>k1 k2 bs k3. sys_read rw_example (zero_reg\<lparr>rdx := of_nat 2\<rparr>) =
       Some (Blocked (Resume_read 32 0 2), zero_reg\<lparr>rdx := 2\<rparr>, [(0, [])], k1) \<and>
     sys_write (\<lambda>_. [7, 8, 9, 0]) (k1\<lparr>current_process := 0x10\<rparr>) (zero_reg\<lparr>rdi := 1, rdx := 3\<rparr>) =
       Some (Done 0, zero_reg\<lparr>rdi := 1, rdx := 3, rax := 3\<rparr>, [], k2) \<and>
     resume_read (k2\<lparr>current_process := 0x20\<rparr>) (zero_reg\<lparr>rdx := 2\<rparr>) 32 0 2 =
       Some (Done 0, zero_reg\<lparr>rdx := 2, rax := of_nat (length bs)\<rparr>, [(0, bs)], k3) \<and>
     take (Suc (Suc (Suc 0))) bs = [7, 8] \<and> length bs = Suc (Suc 0)"
proof -
  let ?e = "(new_entry 2 [])\<lparr>in_from := 16\<rparr>" and ?w = "(new_entry 1 [])\<lparr>out_to := 32\<rparr>"
  have e: "io_type ?e = 2" "in_from ?e = 16" "io_type ?w = 1" "out_to ?w = 32" "open_count ?w > 0"
    "ring_wf ?e" "ring_contents ?e = []" "buffer_p_c ?e \<noteq> 0" "first_waiters ?e = []" "buffer_c_c ?e = 0"
    by (simp_all add: new_entry_def empty_entry_def ring_defs ring_contents_def)
  have z: "rdi zero_reg = 0" "rsi zero_reg = 0" by (simp_all add: zero_reg_def)
  note ex = blocked_reader_gets_data [OF rw_example_sel(2) _ _ _ _ _ _ _ rw_example_sel(4) e(1,2) rw_example_sel(3)
      e(3-5) _ e(6-8) _ rw_example_sel(1) rw_example_quiet(1),
      of "zero_reg\<lparr>rdx := of_nat 2\<rparr>" 2 "zero_reg\<lparr>rdi := 1, rdx := 3\<rparr>" "[7, 8, 9]" "\<lambda>_. [7, 8, 9, 0]"]
  show ?thesis using ex by (simp add: e z rw_example_quiet rw_example_sel) blast
qed

theorem bad_descriptor_refused_witness:
  "\<exists>e. sys_read rw_example (zero_reg\<lparr>rdi := 5\<rparr>) = Some (Done 0, zero_reg\<lparr>rdi := 5, rax := e\<rparr>, [], rw_example)"
  using bad_descriptor_refused [OF rw_example_sel(2) rw_example_quiet(2), of "zero_reg\<lparr>rdi := 5\<rparr>" "\<lambda>_. []"]
  by (auto simp: nth_Cons')

theorem dup_out_of_bounds_witness: "sys_dup rw_example (zero_reg\<lparr>rsi := 16\<rparr>) = None"
  by (rule dup_out_of_bounds) (simp_all add: zero_reg_def)

theorem sys_pipe_connects_witness:
  "\<exists>k' st. sys_pipe (rw_example\<lparr>kfs := (kfs rw_example)\<lparr>file_supply := [48, 64]\<rparr>\<rparr>) (zero_reg\<lparr>rdi := 0x7000\<rparr>) =
     Some (Done 0, zero_reg\<lparr>rdi := 0x7000, rax := 0\<rparr>, st, k')"
proof -
  let ?k = "rw_example\<lparr>kfs := (kfs rw_example)\<lparr>file_supply := [48, 64]\<rparr>\<rparr>"
  let ?pr = "proc2\<lparr>open_fd := (replicate 16 None)[0 := Some 32]\<rparr>"
  have p: "procs ?k (current_process ?k) = Some ?pr" using rw_example_sel(2) by simp
  have l: "[0..<16] = 0 # 1 # 2 # [3..<16 :: nat]" by (simp add: upt_rec)
  have f: "free_fd ?pr = Some 1" "find (\<lambda>j. open_fd ?pr ! j = None \<and> j \<noteq> 1) [0..<16] = Some 2"
    by (simp_all add: free_fd_def FD_SIZE_def l del: upt_rec_numeral)
  show ?thesis
    using sys_pipe_connects [OF p rw_example_quiet(2) _ f, of 48 64 "[]" "zero_reg\<lparr>rdi := 0x7000\<rparr>"] by auto
qed

end
