(* ===== verification/Syscall_Proc.thy ===== *)
theory Syscall_Proc
  imports Trap
begin

text \<open>
  The system calls on processes of \<open>isr_handler\<close>, \<^verbatim>\<open>sys/idt.c\<close>: signals, \<open>exit\<close>, \<open>brk\<close>, \<open>fork\<close>,
  \<open>wait\<close>, sleeping and alarms, process ids and names, and the test calls.
\<close>

section \<open>Signals and the terminal\<close>

definition TIOCSPGRP :: u64 where "TIOCSPGRP = 100"

definition sys_ioctl :: "kernel \<Rightarrow> handler_reg \<Rightarrow> trap_result option" where
  "sys_ioctl k reg =
     (if rsi reg = TIOCSPGRP then sys_return 0 reg [] (k\<lparr>foreground_pid := rdx reg\<rparr>)
      else sys_return (- 1) reg [] k)"

definition sys_signal :: "kernel \<Rightarrow> handler_reg \<Rightarrow> trap_result option" where
  "sys_signal k reg =
     do {
       p \<leftarrow> search_process k (ucast (rdi reg));
       if p = 0 then sys_return (- EINVAL) reg [] k
       else do {
         k1 \<leftarrow> upd_proc p (\<lambda>q. q\<lparr>sig_pending := rsi reg\<rparr>) k;
         sys_return 0 reg [] k1
       }
     }"

definition sys_set_signal_handler :: "kernel \<Rightarrow> handler_reg \<Rightarrow> trap_result option" where
  "sys_set_signal_handler k reg =
     do { k1 \<leftarrow> upd_cur (\<lambda>q. q\<lparr>sig_handler := rdi reg\<rparr>) k; finish 0 reg [] k1 }"

definition sys_sig_return :: "kernel \<Rightarrow> handler_reg \<Rightarrow> trap_result option" where
  "sys_sig_return k reg =
     do {
       pr \<leftarrow> cur_proc k;
       if int_num (sig_saved_reg pr) = 0 then finish 0 reg [] k
       else do {
         k1 \<leftarrow> upd_cur (\<lambda>q. q\<lparr>sig_saved_reg := (sig_saved_reg q)\<lparr>int_num := 0\<rparr>\<rparr>) k;
         finish 0 (sig_saved_reg pr) [] k1
       }
     }"

definition sys_alarm :: "kernel \<Rightarrow> handler_reg \<Rightarrow> trap_result option" where
  "sys_alarm k reg =
     finish 0 reg [] (register_to_trigger_alarm k (current_process k) (rdi reg * PIT_FREQUENCY))"

section \<open>Memory and ends of processes\<close>

definition sys_exit :: "kernel \<Rightarrow> handler_reg \<Rightarrow> trap_result option" where
  "sys_exit k reg =
     do {
       k1 \<leftarrow> upd_cur (\<lambda>q. q\<lparr>on_hold := True, terminated := True, ret_value := ucast (rdi reg)\<rparr>) k;
       finish 1 reg [] k1
     }"

definition sys_brk :: "kernel \<Rightarrow> handler_reg \<Rightarrow> trap_result option" where
  "sys_brk k reg =
     do {
       pr \<leftarrow> cur_proc k;
       if rdi reg = 0 then sys_return (heap_break pr) reg [] k
       else if rdi reg < heap_start pr then sys_return (- ENOMEM) reg [] k
       else do {
         k1 \<leftarrow> upd_cur (\<lambda>q. q\<lparr>heap_break := rdi reg\<rparr>) k;
         sys_return 0 reg [] k1
       }
     }"

definition sys_fork :: "kernel \<Rightarrow> handler_reg \<Rightarrow> trap_result option" where
  "sys_fork k reg =
     do {
       k1 \<leftarrow> upd_cur (\<lambda>q. q\<lparr>saved_reg := reg\<rparr>) k;
       (r, k2) \<leftarrow> kernel_space_handler k1 TASK_FORK_PROCESS;
       case r of
         Ret_addr p \<Rightarrow>
           do { new_p \<leftarrow> procs k2 p; finish 1 (reg\<lparr>rax := ucast (pid new_p)\<rparr>) [] k2 }
       | _ \<Rightarrow> None
     }"

section \<open>Waiting for a child\<close>

text \<open>
  The search for the target and its predecessor, which is \<open>NULL\<close> here for the dummy node in
  front of the list.
\<close>

partial_function (option) wait_search ::
  "(ptr \<rightharpoonup> process) \<Rightarrow> u32 \<Rightarrow> ptr \<Rightarrow> ptr \<Rightarrow> ptr \<Rightarrow> (ptr \<times> ptr) option option" where
  "wait_search m i me pre c =
     (if c = 0 then Some None
      else do {
        pr \<leftarrow> m c;
        if pid pr = i \<or> (i = - 1 \<and> parent pr = me) then Some (Some (pre, c))
        else wait_search m i me c (p_next pr)
      })"

definition free_proc :: "ptr \<Rightarrow> kernel \<Rightarrow> kernel" where
  "free_proc p k = k\<lparr>procs := (procs k)(p := None)\<rparr>"

text \<open>A target that has ended already; at the head of the list, the list is cut off.\<close>

definition wait_reap :: "ptr \<Rightarrow> ptr \<Rightarrow> process \<Rightarrow> kernel \<Rightarrow> kernel option" where
  "wait_reap pre t target k =
     do {
       k1 \<leftarrow> (if pre = 0 then Some (k\<lparr>first_process := 0\<rparr>)
              else upd_proc pre (\<lambda>q. q\<lparr>p_next := p_next target\<rparr>) k);
       Some (free_proc t k1)
     }"

definition wait_hold :: "u32 \<Rightarrow> process \<Rightarrow> process" where
  "wait_hold i q = q\<lparr>id_wait_for := i, on_hold := True, id_wait_for_p := 0\<rparr>"

definition sys_wait :: "kernel \<Rightarrow> handler_reg \<Rightarrow> trap_result option" where
  "sys_wait k reg =
     do {
       let i = (ucast (rdi reg) :: u32);
       found \<leftarrow> wait_search (procs k) i (current_process k) 0 (first_process k);
       case found of
         None \<Rightarrow> sys_return (- EINVAL) reg [] k
       | Some (pre, t) \<Rightarrow>
           do {
             target \<leftarrow> procs k t;
             if terminated target then
               do {
                 k1 \<leftarrow> wait_reap pre t target k;
                 sys_return 0 reg [(rsi reg, int_bytes (ret_value target))] k1
               }
             else do {
               k1 \<leftarrow> upd_cur (wait_hold i) k;
               Some (Blocked (Resume_wait t i (rsi reg)), reg, [], k1)
             }
           }
     }"

text \<open>
  The removal after waiting walks from a local copy of \<open>first_process\<close>, so that a target at the
  head of the list stays linked there.
\<close>

partial_function (option) wait_unlink :: "ptr \<Rightarrow> ptr \<Rightarrow> kernel \<Rightarrow> kernel option" where
  "wait_unlink t c k =
     do {
       pr \<leftarrow> procs k c;
       if p_next pr = 0 then Some k
       else if p_next pr = t then
         do { target \<leftarrow> procs k t; upd_proc c (\<lambda>q. q\<lparr>p_next := p_next target\<rparr>) k }
       else wait_unlink t (p_next pr) k
     }"

definition resume_wait :: "kernel \<Rightarrow> handler_reg \<Rightarrow> ptr \<Rightarrow> u32 \<Rightarrow> u64 \<Rightarrow> trap_result option" where
  "resume_wait k reg t i status_ret =
     do {
       pr \<leftarrow> cur_proc k;
       if id_wait_for_p pr \<noteq> 0 then
         do {
           _ \<leftarrow> assert (id_wait_for_p pr = t);
           target \<leftarrow> procs k t;
           k1 \<leftarrow> (if first_process k = 0 \<or> first_process k = t then Some k
                  else wait_unlink t (first_process k) k);
           sys_return 0 reg [(status_ret, int_bytes (ret_value target))] (free_proc t k1)
         }
       else do {
         k1 \<leftarrow> upd_cur (wait_hold i) k;
         Some (Blocked (Resume_wait t i status_ret), reg, [], k1)
       }
     }"

section \<open>Sleeping\<close>

definition sys_sleep :: "u64 \<Rightarrow> resume \<Rightarrow> kernel \<Rightarrow> handler_reg \<Rightarrow> trap_result option" where
  "sys_sleep n r k reg =
     do {
       (_, k1) \<leftarrow> kernel_space_handler k (TASK_REG_WAIT n);
       k2 \<leftarrow> upd_cur (\<lambda>q. q\<lparr>on_hold := True\<rparr>) k1;
       Some (Blocked r, reg, [], k2)
     }"

definition sys_pause :: "kernel \<Rightarrow> handler_reg \<Rightarrow> trap_result option" where
  "sys_pause k reg = sys_sleep (rdi reg * PIT_FREQUENCY div 1000000) Resume_pause k reg"

definition test_kernel_wait :: "kernel \<Rightarrow> handler_reg \<Rightarrow> trap_result option" where
  "test_kernel_wait k reg = sys_sleep (rdi reg * PIT_FREQUENCY) Resume_test_wait k reg"

definition test_wait :: "kernel \<Rightarrow> handler_reg \<Rightarrow> trap_result option" where
  "test_wait k reg =
     do {
       (_, k1) \<leftarrow> kernel_space_handler k (TASK_REG_WAIT (rdi reg * PIT_FREQUENCY));
       k2 \<leftarrow> upd_cur (\<lambda>q. q\<lparr>on_hold := True\<rparr>) k1;
       finish 1 reg [] k2
     }"

section \<open>Process ids and names\<close>

definition sys_getpid :: "kernel \<Rightarrow> handler_reg \<Rightarrow> trap_result option" where
  "sys_getpid k reg = do { pr \<leftarrow> cur_proc k; sys_return (ucast (pid pr)) reg [] k }"

definition sys_getppid :: "kernel \<Rightarrow> handler_reg \<Rightarrow> trap_result option" where
  "sys_getppid k reg =
     do {
       pr \<leftarrow> cur_proc k;
       if parent pr = 0 then sys_return 0 reg [] k
       else do { par \<leftarrow> procs k (parent pr); sys_return (ucast (pid par)) reg [] k }
     }"

partial_function (option) list_pids :: "(ptr \<rightharpoonup> process) \<Rightarrow> u64 \<Rightarrow> u64 \<Rightarrow> ptr \<Rightarrow> u32 list option" where
  "list_pids m sz i p =
     (if p = 0 \<or> sz = i then Some []
      else do {
        pr \<leftarrow> m p;
        rest \<leftarrow> list_pids m sz (i + 1) (p_next pr);
        Some (pid pr # rest)
      })"

definition sys_list_pid :: "kernel \<Rightarrow> handler_reg \<Rightarrow> trap_result option" where
  "sys_list_pid k reg =
     do {
       ids \<leftarrow> list_pids (procs k) (rsi reg) 0 (first_process k);
       sys_return (of_nat (length ids)) reg [(rdi reg, concat (map int_bytes ids))] k
     }"

text \<open>The name is read through the search's result even when that is \<open>NULL\<close>.\<close>

definition sys_pid_name :: "kernel \<Rightarrow> handler_reg \<Rightarrow> trap_result option" where
  "sys_pid_name k reg =
     do {
       p \<leftarrow> search_process k (ucast (rsi reg));
       pr \<leftarrow> (if p = 0 then None else procs k p);
       _ \<leftarrow> strlen (p_name pr);
       sys_return 0 reg [(rdi reg, take (unat (rdx reg)) (cstr (p_name pr)) @ [0])] k
     }"

section \<open>Printing\<close>

definition test_print_num :: "kernel \<Rightarrow> handler_reg \<Rightarrow> trap_result option" where
  "test_print_num k reg =
     do { s \<leftarrow> kprintf [37, 120, 0] [VLong (rdi reg)] (kscreen k); finish 0 reg [] (k\<lparr>kscreen := s\<rparr>) }"

fun print_chars :: "nat \<Rightarrow> bytes \<Rightarrow> screen \<Rightarrow> screen option" where
  "print_chars 0 b s = Some s"
| "print_chars (Suc n) [] s = None"
| "print_chars (Suc n) (c # cs) s =
     (if c = 0 then Some s
      else do { s' \<leftarrow> kprintf [37, 99, 0] [VInt (scast c)] s; print_chars n cs s' })"

definition test_print :: "user_mem \<Rightarrow> kernel \<Rightarrow> handler_reg \<Rightarrow> trap_result option" where
  "test_print um k reg =
     (if rdi reg = 0 then finish 0 reg [] k
      else do { s \<leftarrow> print_chars 80 (um (rdi reg)) (kscreen k); finish 0 reg [] (k\<lparr>kscreen := s\<rparr>) })"

section \<open>Signal handlers\<close>

text \<open>
  C16. A signal handler runs once and returns to where the process was.  With a signal pending
  that is not the kill signal, and a handler set, the trap returns to the handler with the
  signal's number as its argument; as long as the handler runs no other signal interrupts it;
  and the return call, whatever the registers are by then, brings back exactly the registers of
  the interrupted trap.
\<close>

theorem signal_handler_roundtrip:
  assumes "procs k (current_process k) = Some pr" "sig_pending pr \<noteq> 0" "sig_pending pr \<noteq> SIGKILL"
    and "sig_handler pr \<noteq> 0" "int_num (sig_saved_reg pr) = 0" "int_num reg \<noteq> 0"
  shows "\<exists>k1 pr1. handle_sig_pending k reg = Some (reg\<lparr>ret_rip := sig_handler pr, rdi := sig_pending pr\<rparr>, k1) \<and>
     procs k1 (current_process k) = Some pr1 \<and> sig_pending pr1 = 0 \<and>
     (\<forall>k2 pr2 r. procs k2 (current_process k2) = Some pr2 \<and> sig_saved_reg pr2 = sig_saved_reg pr1 \<longrightarrow>
        handle_sig_pending k2 r = Some (r, k2) \<and>
        (sig_pending pr2 = 0 \<longrightarrow> (\<exists>k3 pr3. sys_sig_return k2 r = Some (Done 0, reg, [], k3) \<and>
           procs k3 (current_process k2) = Some pr3 \<and> int_num (sig_saved_reg pr3) = 0)))"
  using assms
  by (auto simp: handle_sig_pending_def sys_sig_return_def cur_proc_def finish_def)

section \<open>Waiting for the end of a child\<close>

lemma wait_search_chain:
  assumes "chain m c (xs @ t # ys)" "\<forall>q \<in> set xs. pid (the (m q)) \<noteq> i" "pid (the (m t)) = i" "i \<noteq> - 1"
  shows "wait_search m i me pre c = Some (Some (last (pre # xs), t))"
  using assms
proof (induction xs arbitrary: c pre)
  case Nil
  then show ?case by (subst wait_search.simps) auto
next
  case (Cons x xs)
  then obtain px where "m x = Some px" "c = x" "x \<noteq> 0" "chain m (p_next px) (xs @ t # ys)" by auto
  with Cons show ?case by (subst wait_search.simps) auto
qed

lemma wait_unlink_chain:
  assumes "chain (procs k) c (xs @ pre # t # ys)"
  shows "wait_unlink t c k = upd_proc pre (\<lambda>q. q\<lparr>p_next := p_next (the (procs k t))\<rparr>) k"
  using assms
proof (induction xs arbitrary: c)
  case Nil
  then show ?case by (subst wait_unlink.simps) auto
next
  case (Cons x xs)
  from Cons.prems obtain px where px: "procs k x = Some px" "c = x" "chain (procs k) (p_next px) (xs @ pre # t # ys)"
    by auto
  from chain_distinct [OF px(3)] have "t \<noteq> hd (xs @ [pre])" by (cases xs) auto
  moreover have "p_next px = hd (xs @ [pre])" "p_next px \<noteq> 0" using px(3) by (cases xs; auto)+
  ultimately show ?case using Cons.IH [OF px(3)] px by (subst wait_unlink.simps) simp
qed

lemma chain_remove:
  assumes "chain m c (xs @ pre # t # ys)" "m pre = Some pp" "m t = Some pt"
  shows "chain (m(pre \<mapsto> pp\<lparr>p_next := p_next pt\<rparr>, t := None)) c (xs @ pre # ys)"
  using assms(1)
proof (induction xs arbitrary: c)
  case Nil
  have "distinct (pre # t # ys)" using chain_distinct [OF Nil] by simp
  moreover from this have "chain (m(pre \<mapsto> pp\<lparr>p_next := p_next pt\<rparr>, t := None)) (p_next pt) ys"
    using Nil assms by (auto simp: chain_update_other simp del: fun_upd_apply)
  ultimately show ?case using Nil assms by (auto simp: fun_upd_def)
next
  case (Cons x xs)
  from Cons.prems obtain px where px: "m x = Some px" "c = x" "x \<noteq> 0" "chain m (p_next px) (xs @ pre # t # ys)"
    by auto
  moreover have "x \<noteq> pre" "x \<noteq> t" using chain_distinct [OF Cons.prems] by auto
  ultimately show ?case using Cons.IH [OF px(4)] by (auto simp: fun_upd_def)
qed

text \<open>Reclaiming a process whose parent waits for it changes just these two processes.\<close>

lemma process_cleanup_waited:
  assumes wf: "users_wf (kphy (kmm k))" and rc: "reclaimable k p" and pr: "procs k p = Some pr"
    and par: "parent pr \<noteq> 0" "parent pr \<noteq> p" "procs k (parent pr) = Some par" "id_wait_for par = pid pr"
  shows "\<exists>k'. process_cleanup k p = Some k' \<and> first_process k' = first_process k \<and>
     procs k' = (procs k)(parent pr \<mapsto> par\<lparr>on_hold := False, id_wait_for_p := p\<rparr>, p \<mapsto> pr\<lparr>cleaned := True\<rparr>)"
proof -
  note rc' = rc [unfolded reclaimable_def pr option.inject ex_simps, simplified]
  obtain ph where ph: "free_maps (kphy (kmm k)) (first_map pr) = Some ph" using free_maps_spec [OF wf] rc' by blast
  obtain f where f: "close_files (kfs k) (open_fd pr) = Some f" using close_files_spec [of "open_fd pr" "kfs k"] rc' by blast
  show ?thesis using ph f pr par by (simp add: process_cleanup_def wake_parent_def)
qed

text \<open>
  C15. A parent learns how its child ended.  A process that waits for a running child is put on
  hold; when the child exits and is reclaimed, the waiting call of the parent goes on, stores the
  child's exit status at the address it was given and returns 0; the child is gone and the list
  is the old one without it.  This holds for every child that is not at the head of the list.
\<close>

theorem wait_gets_exit_status:
  assumes r: "current_process k = r" "procs k r = Some par" "no_signal par"
    and ch: "chain (procs k) (first_process k) (xs @ pre # t # ys)"
    and ids: "distinct (map (\<lambda>p. pid (the (procs k p))) (xs @ pre # t # ys))"
    and t: "procs k t = Some c" "parent c = r" "\<not> terminated c" "pid c \<noteq> - 1" "t \<noteq> r" "r \<noteq> 0" "no_signal c"
    and i: "ucast (rdi reg) = pid c"
    and wf: "users_wf (kphy (kmm k))" "reclaimable k t"
  shows "\<exists>k1 k2 k3 k4. sys_wait k reg = Some (Blocked (Resume_wait t (pid c) (rsi reg)), reg, [], k1) \<and>
     on_hold (the (procs k1 r)) \<and>
     sys_exit (k1\<lparr>current_process := t\<rparr>) creg = Some (Done 1, creg, [], k2) \<and>
     process_cleanup k2 t = Some k3 \<and> \<not> on_hold (the (procs k3 r)) \<and>
     resume_wait (k3\<lparr>current_process := r\<rparr>) reg t (pid c) (rsi reg) =
       Some (Done 0, reg\<lparr>rax := 0\<rparr>, [(rsi reg, int_bytes (ucast (rdi creg)))], k4) \<and>
     procs k4 t = None \<and> chain (procs k4) (first_process k4) (xs @ pre # ys)"
proof -
  have "\<forall>q \<in> set (xs @ [pre]). pid (the (procs k q)) \<noteq> pid c" using ids t(1) by force
  then have s: "wait_search (procs k) (pid c) r 0 (first_process k) = Some (Some (last (0 # xs @ [pre]), t))"
    using wait_search_chain [of "procs k" "first_process k" "xs @ [pre]" t ys "pid c" r 0] ch t by simp
  define k1 where "k1 = put_proc r (wait_hold (pid c) par) k"
  have w: "sys_wait k reg = Some (Blocked (Resume_wait t (pid c) (rsi reg)), reg, [], k1)"
    using s r t i by (simp add: sys_wait_def k1_def Let_def)
  define c2 where "c2 = c\<lparr>on_hold := True, terminated := True, ret_value := ucast (rdi creg)\<rparr>"
  define k2 where "k2 = put_proc t c2 (k1\<lparr>current_process := t\<rparr>)"
  have "no_signal c2" using t(7) by (simp add: no_signal_def c2_def)
  then have e: "sys_exit (k1\<lparr>current_process := t\<rparr>) creg = Some (Done 1, creg, [], k2)"
    using t by (simp add: sys_exit_def k1_def k2_def c2_def finish_quiet)
  have p2: "procs k2 = (procs k)(r \<mapsto> wait_hold (pid c) par, t \<mapsto> c2)" "kmm k2 = kmm k" "kfs k2 = kfs k"
    "first_process k2 = first_process k"
    by (simp_all add: k2_def k1_def)
  have "reclaimable k2 t" using wf(2) r t unfolding reclaimable_def p2 by (auto simp: c2_def)
  then obtain k3 where k3: "process_cleanup k2 t = Some k3" "first_process k3 = first_process k"
    "procs k3 = (procs k2)(r \<mapsto> (wait_hold (pid c) par)\<lparr>on_hold := False, id_wait_for_p := t\<rparr>, t \<mapsto> c2\<lparr>cleaned := True\<rparr>)"
    using process_cleanup_waited [of k2 t c2 "wait_hold (pid c) par"] wf(1) t p2
    by (auto simp: c2_def wait_hold_def)
  define k3' where "k3' = k3\<lparr>current_process := r\<rparr>"
  have p3: "procs k3' r = Some ((wait_hold (pid c) par)\<lparr>on_hold := False, id_wait_for_p := t\<rparr>)"
    "procs k3' t = Some (c2\<lparr>cleaned := True\<rparr>)" "first_process k3' = first_process k" "current_process k3' = r"
    using k3 t by (simp_all add: k3'_def)
  have ch3: "chain (procs k3') (first_process k3') (xs @ pre # t # ys)" unfolding p3
    by (rule chain_cong [OF ch]) (use k3 p2 r t in \<open>auto simp: k3'_def wait_hold_def c2_def\<close>)
  obtain pp where pp: "procs k3' pre = Some pp" using chain_mem [OF ch3, of pre] by auto
  have fst: "first_process k3' \<noteq> t" "first_process k3' \<noteq> 0" "pre \<noteq> t"
    using ch3 chain_distinct [OF ch3] by (cases xs; auto)+
  define k4 where "k4 = free_proc t (put_proc pre (pp\<lparr>p_next := p_next c2\<rparr>) k3')"
  have "\<exists>q. procs k4 r = Some q \<and> no_signal q"
    using r(3) t(5) p3 pp by (auto simp: k4_def free_proc_def wait_hold_def no_signal_def)
  then have "resume_wait k3' reg t (pid c) (rsi reg) =
      Some (Done 0, reg\<lparr>rax := 0\<rparr>, [(rsi reg, int_bytes (ucast (rdi creg)))], k4)"
    using p3 fst pp wait_unlink_chain [OF ch3] chain_mem [OF ch3, of t]
    by (auto simp: resume_wait_def cur_proc_def k4_def c2_def sys_return_quiet free_proc_def)
  moreover have "procs k4 t = None" "chain (procs k4) (first_process k4) (xs @ pre # ys)"
    using chain_remove [OF ch3 pp p3(2)] by (simp_all add: k4_def free_proc_def)
  ultimately show ?thesis using w e k3 t(5)
    by (intro exI [of _ k1] exI [of _ k2] exI [of _ k3] exI [of _ k4])
       (simp add: k3'_def k1_def wait_hold_def)
qed

text \<open>
  Waiting for an ended process at the head of the list loses all the others: the call returns
  the status, but the list is empty afterwards, so that no process is found by its id any more.
\<close>

theorem wait_head_cuts_list:
  assumes "chain (procs k) (first_process k) (t # q # ys)" "procs k t = Some c" "terminated c"
    and "ucast (rdi reg) = pid c" "pid c \<noteq> - 1" "current_process k \<noteq> t"
    and "procs k (current_process k) = Some par" "no_signal par"
  shows "\<exists>k'. sys_wait k reg = Some (Done 0, reg\<lparr>rax := 0\<rparr>, [(rsi reg, int_bytes (ret_value c))], k') \<and>
     (\<exists>pq. procs k' q = Some pq) \<and> (\<forall>i. search_process k' i = Some 0)"
proof -
  have "wait_search (procs k) (pid c) (current_process k) 0 (first_process k) = Some (Some (0, t))"
    using wait_search_chain [of "procs k" "first_process k" "[]" t "q # ys" "pid c"] assms by simp
  moreover have "q \<noteq> t" using chain_distinct [OF assms(1)] by auto
  moreover have "\<exists>pq. procs k q = Some pq" using chain_mem [OF assms(1), of q] by simp
  moreover have "search_process (k\<lparr>first_process := 0, procs := m\<rparr>) i = Some 0" for m i
    by (simp add: search_process_def search_chain.simps)
  ultimately show ?thesis using assms(2-)
    by (simp add: sys_wait_def Let_def wait_reap_def free_proc_def sys_return_quiet)
qed

section \<open>Examples\<close>

definition parent_example :: kernel where
  "parent_example = kernel_example\<lparr>current_process := 0x10\<rparr>"

lemma parent_example_ok:
  "procs parent_example 0x10 = Some proc1" "no_signal proc1" "no_signal proc2" "parent proc2 = 0x10"
  "reclaimable parent_example 0x20"
  by (simp_all add: parent_example_def no_signal_def reclaimable_def example_procs)

theorem wait_gets_exit_status_witness:
  "\<exists>k1 k2 k3 k4. sys_wait parent_example (zero_reg\<lparr>rdi := 2, rsi := 0x7000\<rparr>) =
       Some (Blocked (Resume_wait 0x20 2 0x7000), zero_reg\<lparr>rdi := 2, rsi := 0x7000\<rparr>, [], k1) \<and>
     sys_exit (k1\<lparr>current_process := 0x20\<rparr>) (zero_reg\<lparr>rdi := 5\<rparr>) = Some (Done 1, zero_reg\<lparr>rdi := 5\<rparr>, [], k2) \<and>
     process_cleanup k2 0x20 = Some k3 \<and>
     resume_wait (k3\<lparr>current_process := 0x10\<rparr>) (zero_reg\<lparr>rdi := 2, rsi := 0x7000\<rparr>) 0x20 2 0x7000 =
       Some (Done 0, zero_reg\<lparr>rdi := 2, rsi := 0x7000, rax := 0\<rparr>, [(0x7000, [5, 0, 0, 0])], k4) \<and>
     chain (procs k4) (first_process k4) [0x10, 0x30]"
proof -
  have ch: "chain (procs parent_example) (first_process parent_example) ([] @ 0x10 # 0x20 # [0x30])"
    and ids: "distinct (map (\<lambda>p. pid (the (procs parent_example p))) ([] @ 0x10 # 0x20 # [0x30]))"
    and t: "procs parent_example 0x20 = Some proc2" "users_wf (kphy (kmm parent_example))"
    by (simp_all add: parent_example_def phy_example_wf)
  have b: "int_bytes (ucast (5 :: u64)) = [5, 0, 0, 0]" by code_simp
  have c: "current_process parent_example = 0x10" by (simp add: parent_example_def)
  note ex = wait_gets_exit_status [OF c parent_example_ok(1,2) ch ids t(1) parent_example_ok(4) _ _ _ _
      parent_example_ok(3) _ t(2) parent_example_ok(5),
      of "zero_reg\<lparr>rdi := 2, rsi := 0x7000\<rparr>" "zero_reg\<lparr>rdi := 5\<rparr>"]
  have "2 \<noteq> (- 1 :: u32)" by simp
  then show ?thesis using ex b by (simp add: zero_reg_def) blast
qed

theorem signal_handler_roundtrip_witness:
  "\<exists>k1. handle_sig_pending
       (put_proc 0x20 (proc2\<lparr>sig_pending := 14, sig_handler := 0x401000\<rparr>) kernel_example)
       (zero_reg\<lparr>int_num := 0x80, ret_rip := 0x400000\<rparr>) =
     Some (zero_reg\<lparr>int_num := 0x80, ret_rip := 0x401000, rdi := 14\<rparr>, k1)"
  using signal_handler_roundtrip [of "put_proc 0x20 (proc2\<lparr>sig_pending := 14, sig_handler := 0x401000\<rparr>) kernel_example"
      "proc2\<lparr>sig_pending := 14, sig_handler := 0x401000\<rparr>" "zero_reg\<lparr>int_num := 0x80, ret_rip := 0x400000\<rparr>"]
  by (auto simp: SIGKILL_def example_procs zero_reg_def)

theorem wait_head_cuts_list_witness:
  "\<exists>k' r st. sys_wait (put_proc 0x10 (proc1\<lparr>terminated := True\<rparr>) kernel_example) (zero_reg\<lparr>rdi := 1\<rparr>) =
       Some (Done 0, r, st, k') \<and> search_process k' 2 = Some 0"
  using wait_head_cuts_list [of "put_proc 0x10 (proc1\<lparr>terminated := True\<rparr>) kernel_example" "0x10" "0x20" "[0x30]"
      "proc1\<lparr>terminated := True\<rparr>" "zero_reg\<lparr>rdi := 1\<rparr>" proc2] parent_example_ok(3)
  by auto

end
