(* ===== verification/Exec.thy ===== *)
theory Exec
  imports Trap Path
begin

text \<open>
  The system call \<open>exec\<close> of \<open>isr_handler\<close>, \<^verbatim>\<open>sys/idt.c\<close>: finding the executable or the
  interpreter of a script, building the initial stack, replacing the process and filling its
  pages.  Strings are lists of bytes without their terminator; the arrays \<open>argv\<close> and \<open>envp\<close> end
  at a null pointer.
\<close>

section \<open>Arguments\<close>

text \<open>The pointers of an array in user memory, up to the null pointer.\<close>

function ptr_array :: "bytes \<Rightarrow> u64 list option" where
  "ptr_array b =
     (if length b < 8 then None
      else let w = of_le (take 8 b)
           in if w = 0 then Some [] else map_option (Cons w) (ptr_array (drop 8 b)))"
  by pat_completeness auto
termination by (relation "measure length") auto

declare ptr_array.simps [simp del]

fun user_string :: "bytes \<Rightarrow> bytes option" where
  "user_string b = do { _ \<leftarrow> strlen b; Some (cstr b) }"

fun user_strings :: "user_mem \<Rightarrow> u64 list \<Rightarrow> bytes list option" where
  "user_strings um [] = Some []"
| "user_strings um (a # as) = do { s \<leftarrow> user_string (um a); ss \<leftarrow> user_strings um as; Some (s # ss) }"

definition user_args :: "user_mem \<Rightarrow> u64 \<Rightarrow> bytes list option" where
  "user_args um a = do { ps \<leftarrow> ptr_array (um a); user_strings um ps }"

section \<open>The initial stack\<close>

definition put64_in :: "bytes \<Rightarrow> nat \<Rightarrow> u64 \<Rightarrow> bytes option" where
  "put64_in b i w = (if i + 8 \<le> length b then Some (put64 b i w) else None)"

definition put_in :: "bytes \<Rightarrow> nat \<Rightarrow> bytes \<Rightarrow> bytes option" where
  "put_in b i bs = (if i + length bs \<le> length b then Some (put_at b i bs) else None)"

definition size_need :: "bytes list \<Rightarrow> nat" where
  "size_need ss = 4 * 8 + sum_list (map (\<lambda>s. 9 + length s) ss)"

definition pointer_ends :: "bytes list \<Rightarrow> nat" where
  "pointer_ends ss = 3 * 8 + 8 * length ss"

text \<open>The loop over one of the arrays: \<open>stack_cur\<close> and \<open>str_cur\<close> as offsets into the buffer.\<close>

fun push_strings :: "bytes list \<Rightarrow> bytes \<times> nat \<times> nat \<Rightarrow> (bytes \<times> nat \<times> nat) option" where
  "push_strings [] st = Some st"
| "push_strings (s # ss) (b, stack_cur, str_cur) =
     do {
       b1 \<leftarrow> put_in b str_cur (s @ [0]);
       b2 \<leftarrow> put64_in b1 stack_cur (of_nat str_cur);
       push_strings ss (b2, stack_cur + 8, str_cur + length s + 1)
     }"

definition initial_stack :: "bytes list \<Rightarrow> bytes list \<Rightarrow> bytes option" where
  "initial_stack argv envp =
     do {
       b0 \<leftarrow> put64_in (replicate (size_need (argv @ envp)) 0) 0 (of_nat (length argv));
       (b1, c1, s1) \<leftarrow> push_strings argv (b0, 8, pointer_ends (argv @ envp));
       b2 \<leftarrow> put64_in b1 c1 0;
       (b3, c2, s2) \<leftarrow> push_strings envp (b2, c1 + 8, s1);
       b4 \<leftarrow> put64_in b3 c2 0;
       _ \<leftarrow> assert (c2 + 8 = pointer_ends (argv @ envp));
       Some b4
     }"

text \<open>The offsets of one array become addresses, up to its null pointer.\<close>

function relocate :: "u64 \<Rightarrow> bytes \<Rightarrow> nat \<Rightarrow> (bytes \<times> nat) option" where
  "relocate sp b i =
     (if length b < i + 8 then None
      else let w = get64 b i
           in if w = 0 then Some (b, i) else relocate sp (put64 b i (w + sp)) (i + 8))"
  by pat_completeness auto
termination by (relation "measure (\<lambda>(sp, b, i). length b - i)") auto

declare relocate.simps [simp del]

definition relocate_stack :: "u64 \<Rightarrow> bytes \<Rightarrow> bytes option" where
  "relocate_stack sp b =
     do { (b1, i) \<leftarrow> relocate sp b 8; (b2, j) \<leftarrow> relocate sp b1 (i + 8); Some b2 }"

section \<open>Filling the pages\<close>

text \<open>
  The loop over the file part of a section; the \<open>int\<close> that \<open>file_read\<close> returns is compared as
  an unsigned number, so that -1 passes. Only the pages that \<open>replace_process\<close> reserved are there
  (\<open>mapped\<close>): a store elsewhere is a page fault in the middle of the system call, for which
  nothing is defined.
\<close>

definition all_mapped :: "(u64 \<Rightarrow> bool) \<Rightarrow> u64 \<Rightarrow> nat \<Rightarrow> bool" where
  "all_mapped mapped a n = list_all (\<lambda>i. mapped (a + of_nat i)) [0..<n]"

partial_function (option) exec_file_part ::
  "(u64 \<Rightarrow> bool) \<Rightarrow> filesys \<Rightarrow> ptr \<Rightarrow> u64 \<Rightarrow> u64 \<Rightarrow> u64 \<Rightarrow> u64 \<Rightarrow> (u64 \<times> u64 \<times> user_stores \<times> filesys) option" where
  "exec_file_part mapped fs file prog_disk prog_mem remain mem_remain =
     (if remain = 0 then Some (prog_mem, mem_remain, [], fs)
      else do {
        to_read \<leftarrow> math_min 4096 [4096 - prog_mem mod 4096, remain, - 1];
        fs1 \<leftarrow> file_set_offset fs file prog_disk;
        (r, bs, fs2) \<leftarrow> file_read fs1 file to_read;
        if (word_of_int r :: u64) < to_read \<or> \<not> all_mapped mapped prog_mem (length bs) then None
        else do {
          (pm, mr, st, fs3) \<leftarrow> exec_file_part mapped fs2 file (prog_disk + to_read) (prog_mem + to_read)
            (remain - to_read) (mem_remain - to_read);
          Some (pm, mr, (prog_mem, bs) # st, fs3)
        }
      })"

text \<open>The zeroed rest: the assertion fails at a page boundary.\<close>

fun exec_zero_part :: "(u64 \<Rightarrow> bool) \<Rightarrow> nat \<Rightarrow> u64 \<Rightarrow> user_stores option" where
  "exec_zero_part mapped 0 prog_mem = Some []"
| "exec_zero_part mapped (Suc n) prog_mem =
     (if prog_mem mod 0x1000 = 0 \<or> \<not> mapped prog_mem then None
      else map_option (Cons (prog_mem, [0])) (exec_zero_part mapped n (prog_mem + 1)))"

fun exec_sections ::
  "(u64 \<Rightarrow> bool) \<Rightarrow> filesys \<Rightarrow> ptr \<Rightarrow> program_section list \<Rightarrow> (user_stores \<times> filesys) option" where
  "exec_sections mapped fs file [] = Some ([], fs)"
| "exec_sections mapped fs file (s # ss) =
     do {
       (pm, mr, st1, fs1) \<leftarrow> exec_file_part mapped fs file (file_offset s) (memory_offset s) (sect_size s) (mem_size s);
       st2 \<leftarrow> exec_zero_part mapped (unat mr) pm;
       (st3, fs2) \<leftarrow> exec_sections mapped fs1 file ss;
       Some (st1 @ st2 @ st3, fs2)
     }"

section \<open>Scripts\<close>

text \<open>The path after the shebang, moved to the front of the buffer that was read.\<close>

definition shebang :: "bytes \<Rightarrow> bytes option" where
  "shebang b =
     (let r = dropWhile (\<lambda>c. c = 32) (drop 2 b); n = takeWhile (\<lambda>c. c \<noteq> 0 \<and> c \<noteq> 10) r
      in if length n < length r then Some (n @ [0]) else None)"

text \<open>
  The search for what is to be executed: an error, or the path, the open file, its sections and
  the arguments of a script.
\<close>

type_synonym exec_target = "bytes \<times> ptr \<times> program_section list \<times> bytes list option"

definition exec_script :: "filesys \<Rightarrow> bytes \<Rightarrow> ptr \<Rightarrow> ((u64 + exec_target) \<times> filesys) option" where
  "exec_script f abs_path file =
     do {
       f1 \<leftarrow> file_set_offset f file 0;
       (readed, b, f2) \<leftarrow> file_read f1 file 128;
       if readed < 0 then Some (Inl (- ENOEXEC), f2)
       else if length b < 2 then None
       else if b ! 0 = 35 \<and> b ! 1 = 33 then
         do {
           int_path \<leftarrow> shebang b;
           (file', f3) \<leftarrow> file_open_read f2 int_path;
           if file' = 0 then Some (Inl (- EACCES), f3)
           else do {
             (secs, f4) \<leftarrow> read_elf f3 file';
             if secs = [] then Some (Inl (- ENOEXEC), f4)
             else Some (Inr (int_path, file', secs, Some [[], cstr abs_path]), f4)
           }
         }
       else Some (Inl (- ENOEXEC), f2)
     }"

definition exec_find :: "filesys \<Rightarrow> bytes \<Rightarrow> ((u64 + exec_target) \<times> filesys) option" where
  "exec_find f abs_path =
     do {
       (file, f1) \<leftarrow> file_open_read f abs_path;
       if file = 0 then Some (Inl (- EACCES), f1)
       else do {
         (secs, f2) \<leftarrow> read_elf f1 file;
         if secs \<noteq> [] then Some (Inr (abs_path, file, secs, None), f2)
         else exec_script f2 abs_path file
       }
     }"

text \<open>
  The registers are those at the top of the process's kernel stack, which \<open>replace_process\<close>
  overwrites in place with the frame of the new program.
\<close>

definition exec_load ::
  "kernel \<Rightarrow> exec_target \<Rightarrow> bytes list \<Rightarrow> bytes list \<Rightarrow> trap_result option" where
  "exec_load k target argv envp =
     (case target of (path, file, secs, _) \<Rightarrow>
        do {
          stack \<leftarrow> initial_stack argv envp;
          (_, k1) \<leftarrow> kernel_space_handler k
            (TASK_REPLACE_PROCESS (current_process k) secs (of_nat (length stack)));
          let reg = user_frame (process_initial_rsp - of_nat (length stack) - 8) (entry_point (hd secs));
          pr \<leftarrow> cur_proc k1;
          (st, f) \<leftarrow> exec_sections (\<lambda>a. hw_walk (kread (kmm k1)) (cr3 pr) a \<noteq> None) (kfs k1) file secs;
          stack' \<leftarrow> relocate_stack (ret_rsp reg) stack;
          k2 \<leftarrow> upd_cur (\<lambda>q. q\<lparr>p_name := path\<rparr>) (k1\<lparr>kfs := f\<rparr>);
          finish 1 reg (st @ [(ret_rsp reg, stack')]) k2
        })"

definition sys_exec :: "user_mem \<Rightarrow> kernel \<Rightarrow> handler_reg \<Rightarrow> trap_result option" where
  "sys_exec um k reg =
     do {
       pr \<leftarrow> cur_proc k;
       abs_path \<leftarrow> calculate_path (workdir pr) (um (rdi reg));
       (found, f) \<leftarrow> exec_find (kfs k) abs_path;
       case found of
         Inl e \<Rightarrow> sys_return e reg [] (k\<lparr>kfs := f\<rparr>)
       | Inr (path, file, secs, script_argv) \<Rightarrow>
           do {
             argv \<leftarrow> (case script_argv of Some a \<Rightarrow> Some a | None \<Rightarrow> user_args um (rsi reg));
             envp \<leftarrow> user_args um (rdx reg);
             exec_load (k\<lparr>kfs := f\<rparr>) (path, file, secs, script_argv) argv envp
           }
     }"

section \<open>What the program finds on its stack\<close>

text \<open>The offsets of strings stored one after another from \<open>o'\<close> on, and the bytes stored.\<close>

fun offsets :: "nat \<Rightarrow> bytes list \<Rightarrow> nat list" where
  "offsets o' [] = []"
| "offsets o' (s # ss) = o' # offsets (o' + length s + 1) ss"

definition strs :: "bytes list \<Rightarrow> bytes" where
  "strs ss = concat (map (\<lambda>s. s @ [0]) ss)"

definition words :: "u64 list \<Rightarrow> bytes" where
  "words ws = concat (map (le_of 8) ws)"

lemma words_simps [simp]:
  "words [] = []" "words (w # ws) = le_of 8 w @ words ws" "words (xs @ ys) = words xs @ words ys"
  "length (words ws) = 8 * length ws"
proof -
  show "length (words ws) = 8 * length ws" by (induction ws) (simp_all add: words_def)
qed (simp_all add: words_def)

lemma strs_simps [simp]:
  "strs [] = []" "strs (s # ss) = s @ 0 # strs ss" "strs (xs @ ys) = strs xs @ strs ys"
  by (simp_all add: strs_def)

lemma length_offsets [simp]: "length (offsets o' ss) = length ss"
  by (induction ss arbitrary: o') auto

lemma offsets_append: "offsets o' (xs @ ys) = offsets o' xs @ offsets (o' + length (strs xs)) ys"
  by (induction xs arbitrary: o') (auto simp: add.assoc)

lemma offsets_nth: "i < length ss \<Longrightarrow> offsets o' ss ! i = o' + length (strs (take i ss))"
proof (induction ss arbitrary: o' i)
  case (Cons s ss)
  then show ?case by (cases i) auto
qed simp

lemma put_at_mid: "length A = i \<Longrightarrow> length X = length ys \<Longrightarrow> put_at (A @ X @ B) i ys = A @ ys @ B"
  by (simp add: put_at_def)

lemma put_in_mid: "length A = i \<Longrightarrow> length X = length ys \<Longrightarrow> put_in (A @ X @ B) i ys = Some (A @ ys @ B)"
  by (simp add: put_in_def put_at_mid)

lemma put64_in_mid: "length A = i \<Longrightarrow> length X = 8 \<Longrightarrow> put64_in (A @ X @ B) i w = Some (A @ le_of 8 w @ B)"
  by (simp add: put64_in_def put64_def put_at_mid)

lemma push_strings_image:
  assumes "length P = c" "length Z1 = 8 * length ss" "length (P @ Z1 @ Q) = o'" "length Z2 = length (strs ss)"
  shows "push_strings ss (P @ Z1 @ Q @ Z2 @ R, c, o') =
     Some (P @ words (map of_nat (offsets o' ss)) @ Q @ strs ss @ R, c + 8 * length ss, o' + length (strs ss))"
  using assms
proof (induction ss arbitrary: P Z1 Q Z2 c o')
  case (Cons s ss)
  define z1a z1b z2a z2b where z: "z1a = take 8 Z1" "z1b = drop 8 Z1"
    "z2a = take (length s + 1) Z2" "z2b = drop (length s + 1) Z2"
  have Z: "Z1 = z1a @ z1b" "Z2 = z2a @ z2b" "length z1a = 8" "length z2a = length (s @ [0])"
    using Cons.prems by (simp_all add: z)
  have lz: "length z1b = 8 * length ss" "length z2b = length (strs ss)" using Cons.prems by (simp_all add: z)
  have o: "o' = length P + 8 + length z1b + length Q" using Cons.prems lz by simp
  have "put_in (P @ Z1 @ Q @ Z2 @ R) o' (s @ [0]) = Some (P @ Z1 @ Q @ (s @ [0]) @ z2b @ R)"
    using put_in_mid [of "P @ Z1 @ Q" o' z2a "s @ [0]" "z2b @ R"] Cons.prems Z by simp
  moreover have "put64_in (P @ Z1 @ Q @ (s @ [0]) @ z2b @ R) c (of_nat o') =
      Some (P @ le_of 8 (of_nat o') @ z1b @ Q @ (s @ [0]) @ z2b @ R)"
    using put64_in_mid [of P c z1a] Cons.prems Z by simp
  moreover have "push_strings ss ((P @ le_of 8 (of_nat o')) @ z1b @ (Q @ s @ [0]) @ z2b @ R, c + 8, o' + length s + 1) =
      Some ((P @ le_of 8 (of_nat o')) @ words (map of_nat (offsets (o' + length s + 1) ss)) @ (Q @ s @ [0]) @ strs ss @ R,
        c + 8 + 8 * length ss, o' + length s + 1 + length (strs ss))"
    by (rule Cons.IH) (simp_all add: Cons.prems(1) lz o)
  ultimately show ?case by (simp add: add.assoc)
qed simp

lemma size_need_eq: "size_need ss = 32 + 8 * length ss + length (strs ss)"
  by (induction ss) (simp_all add: size_need_def)

lemma initial_stack_image:
  "initial_stack argv envp = Some (le_of 8 (of_nat (length argv)) @
     words (map of_nat (offsets (pointer_ends (argv @ envp)) argv)) @ replicate 8 0 @
     words (map of_nat (offsets (pointer_ends (argv @ envp) + length (strs argv)) envp)) @ replicate 8 0 @
     strs argv @ strs envp @ replicate 8 0)"
proof -
  let ?n = "length argv" and ?e = "length envp" and ?pe = "pointer_ends (argv @ envp)"
  let ?N = "le_of 8 (of_nat ?n)"
  have pe: "?pe = 24 + 8 * ?n + 8 * ?e" by (simp add: pointer_ends_def)
  define z where "z = [] @ replicate 8 0 @ replicate (8 * ?n) 0 @ (replicate 8 0 @ replicate (8 * ?e) 0 @ replicate 8 0) @
      replicate (length (strs argv)) 0 @ replicate (length (strs envp)) 0 @ replicate 8 (0 :: u8)"
  have "replicate (length z) 0 = z" by (rule replicate_length_same) (auto simp: z_def)
  moreover have "length z = size_need (argv @ envp)" by (simp add: z_def size_need_eq)
  ultimately have zero: "replicate (size_need (argv @ envp)) 0 = z" by simp
  have b0: "put64_in (replicate (size_need (argv @ envp)) 0) 0 (of_nat ?n) = Some (?N @
      replicate (8 * ?n) 0 @ (replicate 8 0 @ replicate (8 * ?e) 0 @ replicate 8 0) @
      replicate (length (strs argv)) 0 @ replicate (length (strs envp)) 0 @ replicate 8 0)"
    unfolding zero z_def by (subst put64_in_mid) simp_all
  let ?W1 = "words (map of_nat (offsets ?pe argv))"
  let ?W2 = "words (map of_nat (offsets (?pe + length (strs argv)) envp))"
  have p1: "push_strings argv (?N @ replicate (8 * ?n) 0 @ (replicate 8 0 @ replicate (8 * ?e) 0 @ replicate 8 0) @
      replicate (length (strs argv)) 0 @ replicate (length (strs envp)) 0 @ replicate 8 0, 8, ?pe) =
      Some (?N @ ?W1 @ (replicate 8 0 @ replicate (8 * ?e) 0 @ replicate 8 0) @ strs argv @
        replicate (length (strs envp)) 0 @ replicate 8 0, 8 + 8 * ?n, ?pe + length (strs argv))"
    by (rule push_strings_image) (simp_all add: pe)
  have le0: "le_of 8 0 = replicate 8 0" by code_simp
  have b2: "put64_in (?N @ ?W1 @ (replicate 8 0 @ replicate (8 * ?e) 0 @ replicate 8 0) @ strs argv @
        replicate (length (strs envp)) 0 @ replicate 8 0) (8 + 8 * ?n) 0 =
      Some (?N @ ?W1 @ (replicate 8 0 @ replicate (8 * ?e) 0 @ replicate 8 0) @ strs argv @
        replicate (length (strs envp)) 0 @ replicate 8 0)"
    using put64_in_mid [of "?N @ ?W1" "8 + 8 * ?n" "replicate 8 0" _ 0] by (simp add: le0)
  have p2: "push_strings envp ((?N @ ?W1 @ replicate 8 0) @ replicate (8 * ?e) 0 @ (replicate 8 0 @ strs argv) @
        replicate (length (strs envp)) 0 @ replicate 8 0, 8 + 8 * ?n + 8, ?pe + length (strs argv)) =
      Some ((?N @ ?W1 @ replicate 8 0) @ ?W2 @ (replicate 8 0 @ strs argv) @ strs envp @ replicate 8 0,
        8 + 8 * ?n + 8 + 8 * ?e, ?pe + length (strs argv) + length (strs envp))"
    by (rule push_strings_image) (simp_all add: pe)
  have b4: "put64_in ((?N @ ?W1 @ replicate 8 0) @ ?W2 @ (replicate 8 0 @ strs argv) @ strs envp @ replicate 8 0)
        (8 + 8 * ?n + 8 + 8 * ?e) 0 =
      Some ((?N @ ?W1 @ replicate 8 0) @ ?W2 @ (replicate 8 0 @ strs argv) @ strs envp @ replicate 8 0)"
    using put64_in_mid [of "(?N @ ?W1 @ replicate 8 0) @ ?W2" "8 + 8 * ?n + 8 + 8 * ?e" "replicate 8 0" _ 0] by (simp add: le0)
  show ?thesis using b0 p1 b2 p2 b4 by (simp add: initial_stack_def pe)
qed

lemma relocate_words:
  assumes "length P = i" "\<forall>w \<in> set ws. w \<noteq> 0"
  shows "relocate sp (P @ words ws @ replicate 8 0 @ R) i =
     Some (P @ words (map (\<lambda>w. w + sp) ws) @ replicate 8 0 @ R, i + 8 * length ws)"
  using assms
proof (induction ws arbitrary: P i)
  case Nil
  have "of_le (replicate 8 0) = 0" by code_simp
  then show ?case using Nil by (subst relocate.simps) (simp add: get64_def get_at_def)
next
  case (Cons w ws)
  have "get64 (P @ words (w # ws) @ replicate 8 0 @ R) i = w"
    using get_at_append [of P i "le_of 8 w" 8] Cons.prems(1) by (simp add: get64_def)
  moreover have "put64 (P @ words (w # ws) @ replicate 8 0 @ R) i (w + sp) =
      (P @ le_of 8 (w + sp)) @ words ws @ replicate 8 0 @ R"
    using put_at_mid [of P i "le_of 8 w" "le_of 8 (w + sp)"] Cons.prems(1) by (simp add: put64_def)
  ultimately show ?case
    using Cons.IH [of "P @ le_of 8 (w + sp)" "i + 8"] Cons.prems by (subst relocate.simps) (simp add: Let_def)
qed

lemma get64_words:
  assumes "length P = c" "i < length ws" "j = c + 8 * i"
  shows "get64 (P @ words ws @ R) j = ws ! i"
proof -
  have ws: "ws = take i ws @ ws ! i # drop (Suc i) ws" using assms(2) by (simp add: id_take_nth_drop)
  have "words ws = words (take i ws) @ le_of 8 (ws ! i) @ words (drop (Suc i) ws)"
    by (subst ws) (simp only: words_simps append_assoc)
  then show ?thesis
    using get_at_append [of "P @ words (take i ws)" j "le_of 8 (ws ! i)" 8 "words (drop (Suc i) ws) @ R"] assms
    by (simp add: get64_def)
qed

lemma string_at_offset:
  assumes "length P = o'" "i < length ss" "0 \<notin> set (ss ! i)"
  shows "is_cstr (drop (offsets o' ss ! i) (P @ strs ss @ R)) (ss ! i)"
proof -
  have ss: "ss = take i ss @ ss ! i # drop (Suc i) ss" using assms(2) by (simp add: id_take_nth_drop)
  have "strs ss = strs (take i ss) @ ss ! i @ 0 # strs (drop (Suc i) ss)"
    by (subst ss) (simp only: strs_simps append_assoc)
  then show ?thesis using assms by (auto simp: offsets_nth)
qed

text \<open>What a program reads from memory \<open>b\<close> at address \<open>sp\<close>: a table of strings from index \<open>i\<close> on.\<close>

definition string_table :: "bytes \<Rightarrow> u64 \<Rightarrow> nat \<Rightarrow> bytes list \<Rightarrow> bool" where
  "string_table b sp i ss \<longleftrightarrow> get64 b (8 * (i + length ss)) = 0 \<and>
     (\<forall>j < length ss. \<exists>o' < length b. get64 b (8 * (i + j)) = of_nat o' + sp \<and> is_cstr (drop o' b) (ss ! j))"

lemma offsets_bounds: "x \<in> set (offsets o' ss) \<Longrightarrow> o' \<le> x \<and> x < o' + length (strs ss)"
  by (induction ss arbitrary: o') fastforce+

text \<open>
  C17. A program finds its arguments: for any argument and environment strings the building of the
  stack returns (its assertion never fails and no store leaves the buffer), and once the stack is
  copied to the address \<open>sp\<close> and relocated, the word at \<open>sp\<close> is the number of arguments, it is
  followed by a table of pointers to exactly the argument strings, closed by a null pointer, and
  by such a table of the environment.
\<close>

theorem exec_stack_layout:
  assumes "\<forall>s \<in> set (argv @ envp). 0 \<notin> set s" "size_need (argv @ envp) < 2 ^ 63"
  shows "\<exists>b b'. initial_stack argv envp = Some b \<and> length b = size_need (argv @ envp) \<and>
     relocate_stack sp b = Some b' \<and> length b' = length b \<and> get64 b' 0 = of_nat (length argv) \<and>
     string_table b' sp 1 argv \<and> string_table b' sp (length argv + 2) envp"
proof -
  let ?n = "length argv" and ?e = "length envp" and ?pe = "pointer_ends (argv @ envp)"
  let ?N = "le_of 8 (of_nat ?n)" and ?z = "replicate 8 (0 :: u8)"
  define o1 o2 where o: "o1 = offsets ?pe argv" "o2 = offsets (?pe + length (strs argv)) envp"
  define v1 v2 :: "u64 list" where v: "v1 = map (\<lambda>x. of_nat x + sp) o1" "v2 = map (\<lambda>x. of_nat x + sp) o2"
  have pe: "?pe = 24 + 8 * ?n + 8 * ?e" by (simp add: pointer_ends_def)
  have off: "offsets ?pe (argv @ envp) = o1 @ o2" by (simp add: o offsets_append)
  have bnd: "24 \<le> x \<and> x < size_need (argv @ envp)" if "x \<in> set (o1 @ o2)" for x
    using offsets_bounds [of x ?pe "argv @ envp", unfolded off, OF that] by (simp add: pe size_need_eq)
  have nz: "(of_nat x :: u64) \<noteq> 0" if "x \<in> set (o1 @ o2)" for x
  proof -
    have "unat (of_nat x :: u64) = x" using bnd [OF that] assms(2) by (simp add: unat_of_nat take_bit_nat_eq_self)
    with bnd [OF that] show ?thesis by auto
  qed
  define b where "b = ?N @ words (map of_nat o1) @ ?z @ words (map of_nat o2) @ ?z @ strs argv @ strs envp @ ?z"
  define b' where "b' = ?N @ words v1 @ ?z @ words v2 @ ?z @ strs argv @ strs envp @ ?z"
  have len: "length o1 = ?n" "length o2 = ?e" "length v1 = ?n" "length v2 = ?e" by (simp_all add: o v)
  have lb: "length b = size_need (argv @ envp)" "length b' = length b" by (simp_all add: b_def b'_def size_need_eq len)
  have i: "initial_stack argv envp = Some b" unfolding initial_stack_image b_def o by simp
  have "relocate sp b 8 = Some (?N @ words v1 @ ?z @ words (map of_nat o2) @ ?z @ strs argv @ strs envp @ ?z, 8 + 8 * ?n)"
    unfolding b_def v by (subst relocate_words) (use nz len in \<open>auto simp: comp_def\<close>)
  moreover have "relocate sp ((?N @ words v1 @ ?z) @ words (map of_nat o2) @ ?z @ strs argv @ strs envp @ ?z) (8 + 8 * ?n + 8) =
      Some (b', 8 + 8 * ?n + 8 + 8 * ?e)"
    by (subst relocate_words) (use nz len in \<open>auto simp: comp_def b'_def v\<close>)
  ultimately have r: "relocate_stack sp b = Some b'" by (simp add: relocate_stack_def)
  have g0: "get64 b' 0 = of_nat ?n" using get_at_append [of "[]" 0 ?N 8] by (simp add: b'_def get64_def)
  have z: "words [0] = ?z" by code_simp
  have t1: "get64 b' (8 * (1 + j)) = (v1 @ [0]) ! j" if "j \<le> ?n" for j
    unfolding b'_def using get64_words [of ?N 8 j "v1 @ [0]" "8 * (1 + j)"] that len z by simp
  have t2: "get64 b' (8 * (?n + 2 + j)) = (v2 @ [0]) ! j" if "j \<le> ?e" for j
    unfolding b'_def using get64_words [of "?N @ words v1 @ ?z" "8 * (?n + 2)" j "v2 @ [0]" "8 * (?n + 2 + j)"] that len z by simp
  define P where "P = ?N @ words v1 @ ?z @ words v2 @ ?z"
  have P: "length P = ?pe" "b' = P @ strs (argv @ envp) @ ?z" by (simp_all add: P_def b'_def len pe)
  have s: "is_cstr (drop ((o1 @ o2) ! j) b') ((argv @ envp) ! j)" if "j < ?n + ?e" for j
    using string_at_offset [OF P(1), of j "argv @ envp" ?z] that assms(1) nth_mem [of j "argv @ envp"] by (simp add: off P(2))
  have "string_table b' sp 1 argv" unfolding string_table_def
  proof (intro conjI allI impI)
    fix j assume j: "j < ?n"
    with t1 [of j] s [of j] bnd [of "o1 ! j"] show "\<exists>o' < length b'. get64 b' (8 * (1 + j)) = of_nat o' + sp \<and>
        is_cstr (drop o' b') (argv ! j)" by (intro exI [of _ "o1 ! j"]) (simp add: nth_append len lb v)
  qed (use t1 [of ?n] len in \<open>simp add: nth_append\<close>)
  moreover have "string_table b' sp (?n + 2) envp" unfolding string_table_def
  proof (intro conjI allI impI)
    fix j assume j: "j < ?e"
    with t2 [of j] s [of "?n + j"] bnd [of "o2 ! j"]
    show "\<exists>o' < length b'. get64 b' (8 * (?n + 2 + j)) = of_nat o' + sp \<and>
        is_cstr (drop o' b') (envp ! j)" by (intro exI [of _ "o2 ! j"]) (simp add: nth_append len lb v)
  qed (use t2 [of ?e] len in \<open>simp add: nth_append\<close>)
  ultimately show ?thesis using i lb r g0 by blast
qed

section \<open>What the program finds in its pages\<close>

text \<open>Stores that follow one another from address \<open>a\<close> on, and the bytes they write.\<close>

fun stores_from :: "u64 \<Rightarrow> user_stores \<Rightarrow> bool" where
  "stores_from a [] \<longleftrightarrow> True"
| "stores_from a ((x, bs) # st) \<longleftrightarrow> x = a \<and> stores_from (a + of_nat (length bs)) st"

definition stored :: "user_stores \<Rightarrow> bytes" where
  "stored st = concat (map snd st)"

lemma stored_simps [simp]: "stored [] = []" "stored ((x, bs) # st) = bs @ stored st" "stored (s @ t) = stored s @ stored t"
  by (simp_all add: stored_def)

lemma stores_from_append:
  "stores_from a (s @ t) \<longleftrightarrow> stores_from a s \<and> stores_from (a + of_nat (length (stored s))) t"
  by (induction s arbitrary: a) (auto simp: add.assoc)

lemma unat_max: "unat (- 1 :: u64) = 0xFFFFFFFFFFFFFFFF"
  by (simp add: unsigned_minus_1_eq_mask mask_eq_exp_minus_1)

text \<open>The number of bytes of one round of the loop: up to the end of the page and of the section.\<close>

lemma round_size:
  assumes "remain \<noteq> 0" "remain \<noteq> - 1"
  shows "\<exists>t. math_min 4096 [4096 - a mod 4096, remain, - 1] = Some t \<and> t \<noteq> 0 \<and> unat t \<le> 4096 \<and> unat t \<le> unat remain"
proof -
  have "unat (a mod 4096) < 4096" by (simp add: unat_mod)
  then have d: "unat (4096 - a mod 4096) = 4096 - unat (a mod 4096)"
    by (subst unat_sub) (simp_all add: word_le_nat_alt)
  with \<open>unat (a mod 4096) < 4096\<close> have p: "0 < unat (4096 - a mod 4096)" "unat (4096 - a mod 4096) \<le> 4096" by linarith+
  from p(2) unat_max have n: "4096 - a mod 4096 \<noteq> - 1" by auto
  have r: "0 < unat remain" using assms(1) by (simp add: unat_gt_0)
  show ?thesis using assms p n r
    by (auto simp: math_min_def word_less_nat_alt not_less unat_eq_zero simp del: unat_gt_0)
qed

lemma get_at_split:
  assumes "m \<le> n"
  shows "get_at c o' m @ get_at c (o' + m) (n - m) = get_at c o' n"
proof -
  have "take n (drop o' c) = take m (drop o' c) @ take (n - m) (drop m (drop o' c))"
    using take_add [of m "n - m" "drop o' c"] assms by simp
  then show ?thesis by (simp add: get_at_def add.commute)
qed

lemma all_mapped_iff: "all_mapped mapped a n \<longleftrightarrow> (\<forall>i < n. mapped (a + of_nat i))"
  by (auto simp: all_mapped_def list_all_iff)

lemma all_mapped_add: "all_mapped mapped a (m + n) \<longleftrightarrow> all_mapped mapped a m \<and> all_mapped mapped (a + of_nat m) n"
  by (induction n) (auto simp: all_mapped_def add.assoc)

lemma exec_file_part_tarfs:
  assumes tar: "tar_at (tarfs_image tf) 0 es" "is_cstr path (47 # p)" "map_of es p = Some content"
    and c: "length content < 2 ^ 62"
  shows "archive_file tf path fs file \<Longrightarrow> unat off + unat remain \<le> length content \<Longrightarrow>
     if \<not> all_mapped mapped mem (unat remain) then exec_file_part mapped fs file off mem remain mr = None
     else \<exists>st fs'. exec_file_part mapped fs file off mem remain mr = Some (mem + remain, mr - remain, st, fs') \<and>
       archive_file tf path fs' file \<and> stores_from mem st \<and> stored st = get_at content (unat off) (unat remain)"
proof (induction "unat remain" arbitrary: fs off mem remain mr rule: less_induct)
  case less
  show ?case
  proof (cases "remain = 0")
    case True
    then show ?thesis using less.prems
      by (subst exec_file_part.simps) (simp add: get_at_def all_mapped_def)
  next
    case False
    have "unat remain < 2 ^ 62" using less.prems(2) c by linarith
    with unat_max have "remain \<noteq> - 1" by auto
    from round_size [OF False this, of mem] obtain t where
      t: "math_min 4096 [4096 - mem mod 4096, remain, - 1] = Some t" "t \<noteq> 0" "unat t \<le> 4096" "unat t \<le> unat remain" by blast
    have tp: "0 < unat t" using t(2) by (simp add: unat_gt_0)
    have si: "sint t = int (unat t)" "sint off = int (unat off)"
      using t less.prems(2) c by (simp_all add: sint_small)
    define data where "data = get_at content (unat off) (unat t)"
    have ld: "length data = unat t" using less.prems(2) t(4) by (simp add: data_def)
    have "take (nat (sint t)) (drop (unat off) content) = data" by (simp add: data_def get_at_def si)
    then have "tarfs_read tf path (sint t) (sint off) = Some (int (unat t), data)"
      using tarfs_read_slice [OF tar(1,2), of "sint t" "unat off"] tar(3) ld tp by (auto simp: Let_def si)
    moreover have "0 < sint t" using si(1) tp by (metis of_nat_0_less_iff)
    moreover have "sint t \<le> 4096" using si(1) t(3) by (metis of_nat_le_iff of_nat_numeral)
    then have "sint t < 2 ^ 31" by simp
    ultimately obtain fs1 fs2 where
      fs: "file_set_offset fs file off = Some fs1" "file_read fs1 file t = Some (int (unat t), data, fs2)"
        "archive_file tf path fs2 file" using archive_file_read [OF less.prems(1), of t off] by auto
    have u: "unat (remain - t) = unat remain - unat t" "unat (off + t) = unat off + unat t"
      using t(4) less.prems(2) c by (simp_all add: unat_sub word_le_nat_alt unat_word_ariths)
    have "unat (remain - t) < unat remain" using u(1) tp t(4) by linarith
    moreover have "unat (off + t) + unat (remain - t) \<le> length content" using u t(4) less.prems(2) by simp
    ultimately have IH: "if \<not> all_mapped mapped (mem + t) (unat (remain - t))
      then exec_file_part mapped fs2 file (off + t) (mem + t) (remain - t) (mr - t) = None
      else \<exists>st fs'. exec_file_part mapped fs2 file (off + t) (mem + t) (remain - t) (mr - t) =
          Some (mem + t + (remain - t), mr - t - (remain - t), st, fs') \<and> archive_file tf path fs' file \<and>
        stores_from (mem + t) st \<and> stored st = get_at content (unat (off + t)) (unat (remain - t))"
      using less.hyps [OF _ fs(3)] by blast
    have sp: "all_mapped mapped mem (unat remain) \<longleftrightarrow>
        all_mapped mapped mem (unat t) \<and> all_mapped mapped (mem + t) (unat (remain - t))"
      using all_mapped_add [of mapped mem "unat t" "unat remain - unat t"] t(4) u(1) by simp
    show ?thesis
    proof (cases "all_mapped mapped mem (unat remain)")
      case True
      with sp IH obtain st fs' where
        ih: "exec_file_part mapped fs2 file (off + t) (mem + t) (remain - t) (mr - t) =
            Some (mem + t + (remain - t), mr - t - (remain - t), st, fs')" "archive_file tf path fs' file"
          "stores_from (mem + t) st" "stored st = get_at content (unat (off + t)) (unat (remain - t))"
        by auto
      have "data @ stored st = get_at content (unat off) (unat remain)"
        using get_at_split [OF t(4)] by (simp add: ih(4) u data_def)
      moreover have "exec_file_part mapped fs file off mem remain mr = Some (mem + remain, mr - remain, (mem, data) # st, fs')"
        using False t(1) fs ih(1) True sp ld by (subst exec_file_part.simps) simp
      ultimately have "\<exists>st fs'. exec_file_part mapped fs file off mem remain mr = Some (mem + remain, mr - remain, st, fs') \<and>
          archive_file tf path fs' file \<and> stores_from mem st \<and> stored st = get_at content (unat off) (unat remain)"
        using ih ld by (intro exI [of _ "(mem, data) # st"] exI [of _ fs']) simp
      then show ?thesis using True by simp
    next
      case nm: False
      then have "exec_file_part mapped fs file off mem remain mr = None"
        using False t(1) fs IH sp ld by (subst exec_file_part.simps) (auto split: if_splits)
      then show ?thesis using nm by simp
    qed
  qed
qed

text \<open>
  The zeroed part works only up to the end of a page: a byte at a page boundary makes the
  assertion fail, which hangs the kernel.
\<close>

lemma exec_zero_part_eq:
  "exec_zero_part mapped n a = (if (\<exists>i < n. (a + of_nat i) mod 0x1000 = 0) \<or> \<not> all_mapped mapped a n then None
     else Some (map (\<lambda>i. (a + of_nat i, [0])) [0..<n]))"
proof (induction n arbitrary: a)
  case (Suc n)
  have z: "a + of_nat 0 = a" by simp
  have ex: "(\<exists>i. i < Suc n \<and> (a + of_nat i) mod 0x1000 = 0) \<longleftrightarrow>
      a mod 0x1000 = 0 \<or> (\<exists>i. i < n \<and> (a + 1 + of_nat i) mod 0x1000 = 0)"
    unfolding Ex_less_Suc2 by (simp only: z of_nat_Suc add.assoc)
  have am: "all_mapped mapped a (Suc n) \<longleftrightarrow> mapped a \<and> all_mapped mapped (a + 1) n"
    using all_mapped_add [of mapped a 1 n] by (simp add: all_mapped_def)
  have up: "[0..<Suc n] = 0 # map Suc [0..<n]" by (simp add: upt_conv_Cons map_Suc_upt del: upt_Suc)
  show ?case unfolding ex am up using Suc.IH [of "a + 1"] by (auto simp: comp_def add.assoc)
qed (simp add: all_mapped_def)

lemma zero_stores:
  "stores_from a (map (\<lambda>i. (a + of_nat i, [0])) [0..<n])" "stored (map (\<lambda>i. (a + of_nat i, [0])) [0..<n]) = replicate n 0"
proof -
  have up: "[0..<Suc n] = 0 # map Suc [0..<n]" for n by (simp add: upt_conv_Cons map_Suc_upt del: upt_Suc)
  show "stores_from a (map (\<lambda>i. (a + of_nat i, [0])) [0..<n])"
    by (induction n arbitrary: a) (simp_all add: up comp_def flip: add.assoc del: upt_Suc)
  show "stored (map (\<lambda>i. (a + of_nat i, [0])) [0..<n]) = replicate n 0"
    by (induction n) (simp_all add: replicate_append_same)
qed

text \<open>A section that lies within the file, and one whose zeroed part reaches a page boundary.\<close>

definition in_file :: "bytes \<Rightarrow> program_section \<Rightarrow> bool" where
  "in_file content s \<longleftrightarrow> unat (file_offset s) + unat (sect_size s) \<le> length content \<and> sect_size s \<le> mem_size s"

definition crosses :: "program_section \<Rightarrow> bool" where
  "crosses s \<longleftrightarrow>
     (\<exists>i < unat (mem_size s) - unat (sect_size s). (memory_offset s + sect_size s + of_nat i) mod 0x1000 = 0)"

definition section_image :: "bytes \<Rightarrow> program_section \<Rightarrow> bytes" where
  "section_image content s = get_at content (unat (file_offset s)) (unat (sect_size s)) @
     replicate (unat (mem_size s) - unat (sect_size s)) 0"

text \<open>One section: nothing is returned when a byte is not mapped or the zeroed part crosses a boundary.\<close>

lemma exec_one_section:
  fixes mapped :: "u64 \<Rightarrow> bool"
  assumes tar: "tar_at (tarfs_image tf) 0 es" "is_cstr path (47 # p)" "map_of es p = Some content"
      "length content < 2 ^ 62"
    and fl: "archive_file tf path fs file" and s: "in_file content s"
  defines "r \<equiv> do { (pm, mr, st1, fs1) \<leftarrow> exec_file_part mapped fs file (file_offset s) (memory_offset s) (sect_size s) (mem_size s);
       st2 \<leftarrow> exec_zero_part mapped (unat mr) pm; Some (st1 @ st2, fs1) }"
  shows "if crosses s \<or> \<not> all_mapped mapped (memory_offset s) (unat (mem_size s)) then r = None
     else \<exists>st fs'. r = Some (st, fs') \<and> archive_file tf path fs' file \<and>
       stores_from (memory_offset s) st \<and> stored st = section_image content s"
proof -
  define n where "n = unat (mem_size s) - unat (sect_size s)"
  let ?a = "memory_offset s + sect_size s" and ?z = "map (\<lambda>i. (memory_offset s + sect_size s + of_nat i, [0 :: u8])) [0..<n]"
  have le: "unat (file_offset s) + unat (sect_size s) \<le> length content" "unat (sect_size s) \<le> unat (mem_size s)"
    using s by (simp_all add: in_file_def word_le_nat_alt)
  have n: "unat (mem_size s - sect_size s) = n" using le by (simp add: n_def unat_sub word_le_nat_alt)
  have sp: "all_mapped mapped (memory_offset s) (unat (mem_size s)) \<longleftrightarrow>
      all_mapped mapped (memory_offset s) (unat (sect_size s)) \<and> all_mapped mapped ?a n"
    using all_mapped_add [of mapped "memory_offset s" "unat (sect_size s)" n] le(2) by (simp add: n_def)
  have cr: "crosses s \<longleftrightarrow> (\<exists>i < n. (?a + of_nat i) mod 0x1000 = 0)" by (simp add: crosses_def n_def)
  note fp = exec_file_part_tarfs [OF tar fl le(1), of mapped "memory_offset s" "mem_size s"]
  show ?thesis
  proof (cases "all_mapped mapped (memory_offset s) (unat (sect_size s))")
    case False
    then have "r = None" using fp by (simp add: r_def)
    then show ?thesis using False sp by simp
  next
    case True
    with fp obtain st1 fs1 where
      f: "exec_file_part mapped fs file (file_offset s) (memory_offset s) (sect_size s) (mem_size s) =
          Some (?a, mem_size s - sect_size s, st1, fs1)" "archive_file tf path fs1 file"
        "stores_from (memory_offset s) st1" "stored st1 = get_at content (unat (file_offset s)) (unat (sect_size s))" by auto
    have "r = (if crosses s \<or> \<not> all_mapped mapped ?a n then None else Some (st1 @ ?z, fs1))"
      unfolding r_def cr using f(1) n exec_zero_part_eq [of mapped n ?a] by simp
    moreover have "stored (st1 @ ?z) = section_image content s" by (simp add: f(4) zero_stores section_image_def n_def)
    moreover have "stores_from (memory_offset s) (st1 @ ?z)"
      using f(3,4) le(1) zero_stores(1) [of ?a n] by (simp add: stores_from_append)
    ultimately show ?thesis using True sp f(2) by auto
  qed
qed

text \<open>
  C18. A program is loaded as its file says, or not at all: from a file of the archive that holds
  every section, when every byte of the sections is mapped and no zeroed part reaches a page boundary,
  the loading returns, and the stores of each section follow one another from the section's address
  on and write exactly its bytes of the file and then zeros up to its size in memory; when a byte
  is not mapped (a page fault inside the kernel) or a zeroed part reaches a page boundary (the failing
  assertion, which hangs the kernel), it does not return.
\<close>

theorem exec_loads_sections:
  assumes tar: "tar_at (tarfs_image tf) 0 es" "is_cstr path (47 # p)" "map_of es p = Some content"
      "length content < 2 ^ 62"
    and fl: "archive_file tf path fs file" and secs: "\<forall>s \<in> set ss. in_file content s"
  shows "if \<exists>s \<in> set ss. crosses s \<or> \<not> all_mapped mapped (memory_offset s) (unat (mem_size s))
     then exec_sections mapped fs file ss = None
     else \<exists>sts fs'. exec_sections mapped fs file ss = Some (concat sts, fs') \<and> archive_file tf path fs' file \<and>
       list_all2 (\<lambda>s st. stores_from (memory_offset s) st \<and> stored st = section_image content s) ss sts"
  using fl secs
proof (induction ss arbitrary: fs)
  case Nil
  then show ?case by (auto intro: exI [of _ "[]"])
next
  case (Cons s ss)
  let ?bad = "\<lambda>s. crosses s \<or> \<not> all_mapped mapped (memory_offset s) (unat (mem_size s))"
  let ?r = "do { (pm, mr, st1, fs1) \<leftarrow> exec_file_part mapped fs file (file_offset s) (memory_offset s) (sect_size s) (mem_size s);
       st2 \<leftarrow> exec_zero_part mapped (unat mr) pm; Some (st1 @ st2, fs1) }"
  have st: "exec_sections mapped fs file (s # ss) =
      do { (st, fs1) \<leftarrow> ?r; (st3, fs2) \<leftarrow> exec_sections mapped fs1 file ss; Some (st @ st3, fs2) }"
    by (cases "exec_file_part mapped fs file (file_offset s) (memory_offset s) (sect_size s) (mem_size s)")
      (auto simp: comp_def)
  have one: "if ?bad s then ?r = None else \<exists>st fs'. ?r = Some (st, fs') \<and> archive_file tf path fs' file \<and>
       stores_from (memory_offset s) st \<and> stored st = section_image content s"
    using exec_one_section [OF tar Cons.prems(1), of s mapped] Cons.prems(2) by simp
  show ?case
  proof (cases "?bad s")
    case True
    then show ?thesis using one st by simp
  next
    case False
    with one obtain st1 fs1 where f: "?r = Some (st1, fs1)" "archive_file tf path fs1 file"
      "stores_from (memory_offset s) st1" "stored st1 = section_image content s" by auto
    have e: "exec_sections mapped fs file (s # ss) =
        do { (st3, fs2) \<leftarrow> exec_sections mapped fs1 file ss; Some (st1 @ st3, fs2) }"
      unfolding st f(1) by simp
    note ih = Cons.IH [OF f(2)]
    show ?thesis
    proof (cases "\<exists>s \<in> set ss. ?bad s")
      case True
      then have "exec_sections mapped fs1 file ss = None" using ih Cons.prems(2) by simp
      with True show ?thesis unfolding e by auto
    next
      case nb: False
      with ih Cons.prems(2) obtain sts fs' where r: "exec_sections mapped fs1 file ss = Some (concat sts, fs')"
        "archive_file tf path fs' file"
        "list_all2 (\<lambda>s st. stores_from (memory_offset s) st \<and> stored st = section_image content s) ss sts" by auto
      then show ?thesis using nb False f unfolding e
        by (auto intro!: exI [of _ "st1 # sts"])
    qed
  qed
qed

section \<open>Examples\<close>

theorem exec_stack_layout_witness:
  "\<exists>b b'. initial_stack [[97], [98, 99]] [[100]] = Some b \<and> relocate_stack 0x7000 b = Some b' \<and>
     get64 b' 0 = 2 \<and> string_table b' 0x7000 1 [[97], [98, 99]] \<and> string_table b' 0x7000 4 [[100]]"
proof -
  have four: "(4 :: nat) = Suc (Suc (Suc (Suc 0)))" by simp
  from exec_stack_layout [of "[[97], [98, 99]]" "[[100]]" "0x7000"] obtain b b' where
    "initial_stack [[97], [98, 99]] [[100]] = Some b" "relocate_stack 0x7000 b = Some b'" "get64 b' 0 = 2"
    "string_table b' 0x7000 1 [[97], [98, 99]]" "string_table b' 0x7000 (Suc (Suc (Suc (Suc 0)))) [[100]]"
    by (auto simp: size_need_def)
  then show ?thesis unfolding four by blast
qed

theorem exec_loads_sections_witness:
  "(\<exists>st fs'. exec_sections (\<lambda>a. a div 0x1000 = 0x400) (pipe_example\<lparr>tar := elf_archive, files := [16 \<mapsto> new_entry 3 [47, 97, 0]]\<rparr>) 16
      [section_example\<lparr>memory_offset := 0x400010\<rparr>] = Some (st, fs') \<and>
     stored st = [0x90, 0xC3, 0, 0, 0, 0, 0, 0]) \<and>
   exec_sections (\<lambda>a. a div 0x1000 = 0x400) (pipe_example\<lparr>tar := elf_archive, files := [16 \<mapsto> new_entry 3 [47, 97, 0]]\<rparr>) 16
      [section_example\<lparr>memory_offset := 0x400FFC\<rparr>] = None"
proof -
  let ?fs = "pipe_example\<lparr>tar := elf_archive, files := [16 \<mapsto> new_entry 3 [47, 97, 0]]\<rparr>"
  let ?s = "section_example\<lparr>memory_offset := 0x400010\<rparr>" and ?c = "section_example\<lparr>memory_offset := 0x400FFC\<rparr>"
  let ?m = "\<lambda>a :: u64. a div 0x1000 = 0x400"
  have a: "archive_file elf_archive [47, 97, 0] ?fs 16" by (simp add: archive_file_def new_entry_def)
  have u: "(0x400010 + of_nat i :: u64) div 0x1000 = 0x400 \<and> (0x400010 + of_nat i :: u64) mod 0x1000 \<noteq> 0" if "i < 8" for i
  proof -
    have "list_all (\<lambda>i. (0x400010 + of_nat i :: u64) div 0x1000 = 0x400 \<and> (0x400010 + of_nat i :: u64) mod 0x1000 \<noteq> 0)
      [0, 1, 2, 3, 4, 5, 6, 7]" by code_simp
    moreover have "i \<in> set [0, 1, 2, 3, 4, 5, 6, 7]" using that by auto
    ultimately show ?thesis unfolding list_all_iff by (rule bspec)
  qed
  have l: "in_file elf_example ?s" "in_file elf_example ?c" by (simp_all add: in_file_def section_example_def length_elf_example)
  have am: "all_mapped ?m (memory_offset ?s) (unat (mem_size ?s))"
    using u by (simp add: all_mapped_iff section_example_def)
  have "(memory_offset ?s + sect_size ?s + of_nat i) mod 0x1000 \<noteq> 0" if "i < 6" for i
    using u [of "2 + i"] that by (simp add: section_example_def add.assoc)
  then have nc: "\<not> crosses ?s" unfolding crosses_def by (auto simp: section_example_def)
  have cr: "crosses ?c" unfolding crosses_def by (intro exI [of _ 2]) (simp add: section_example_def)
  have "get_at elf_example 120 2 = [0x90, 0xC3]"
    using get_at_append [of "elf_header 0x400000 64 1 (replicate 8 0) (replicate 16 0) (replicate 6 0) @ elf_phdr section_example 0 0 0"
        120 "[0x90, 0xC3]" 2 "[]"] by (simp add: elf_example_def length_elf_header length_elf_phdr)
  moreover have six: "replicate 6 (0 :: u8) = [0, 0, 0, 0, 0, 0]" by code_simp
  ultimately have im: "section_image elf_example ?s = [0x90, 0xC3, 0, 0, 0, 0, 0, 0]"
    by (simp add: section_image_def section_example_def six)
  note th = exec_loads_sections [OF elf_archive_at, of "[47, 97, 0]" "[97]" elf_example ?fs 16 _ ?m]
  from th [of "[?s]"] a l(1) am nc obtain sts fs' where "exec_sections ?m ?fs 16 [?s] = Some (concat sts, fs')"
    "list_all2 (\<lambda>s st. stores_from (memory_offset s) st \<and> stored st = section_image elf_example s) [?s] sts"
    by (auto simp: length_elf_example)
  moreover have "exec_sections ?m ?fs 16 [?c] = None" using th [of "[?c]"] a l(2) cr by (simp add: length_elf_example)
  ultimately show ?thesis using im by (auto simp: list_all2_Cons1)
qed

end
