(* ===== verification/Idt.thy ===== *)
theory Idt
  imports Kernel_Prelude
begin

text \<open>
  The interrupt descriptor table of \<^verbatim>\<open>sys/idt.c\<close>: \<open>idt_set_entry\<close> and \<open>init_idt\<close>.  The addresses
  of the assembly stubs \<open>isr0\<close> to \<open>isr33\<close>, \<open>isr128\<close> and \<open>isr129\<close> are an argument.
\<close>

section \<open>Operations\<close>

record idt_entry_struct =
  offset_1 :: u16
  selector :: u16
  ist :: u8
  type_attr :: u8
  offset_2 :: u16
  offset_3 :: u32
  idt_zero :: u32

definition zero_idt_entry :: idt_entry_struct where
  "zero_idt_entry = \<lparr>offset_1 = 0, selector = 0, ist = 0, type_attr = 0, offset_2 = 0, offset_3 = 0, idt_zero = 0\<rparr>"

definition idt_set_entry ::
  "nat \<Rightarrow> u64 \<Rightarrow> u16 \<Rightarrow> u8 \<Rightarrow> idt_entry_struct list \<Rightarrow> idt_entry_struct list" where
  "idt_set_entry num handler sel attr idt_table =
     idt_table[num := \<lparr>offset_1 = ucast (handler AND 0xFFFF), selector = sel AND 0xFFFF, ist = 0, type_attr = attr,
       offset_2 = ucast (drop_bit 16 handler AND 0xFFFF), offset_3 = ucast (drop_bit 32 handler AND 0xFFFFFFFF),
       idt_zero = 0\<rparr>]"

definition init_idt :: "(nat \<Rightarrow> u64) \<Rightarrow> idt_entry_struct list" where
  "init_idt isr =
     idt_set_entry 129 (isr 129) 0x08 0x8E (idt_set_entry 128 (isr 128) 0x08 0xEE
       (fold (\<lambda>n. idt_set_entry n (isr n) 0x08 0x8E) [0..<34] (replicate 256 zero_idt_entry)))"

section \<open>What the processor reads from a gate\<close>

definition gate_address :: "idt_entry_struct \<Rightarrow> u64" where
  "gate_address g = ucast (offset_1 g) OR push_bit 16 (ucast (offset_2 g)) OR push_bit 32 (ucast (offset_3 g))"

definition gate_present :: "idt_entry_struct \<Rightarrow> bool" where
  "gate_present g \<longleftrightarrow> bit (type_attr g) 7"

definition gate_dpl :: "idt_entry_struct \<Rightarrow> u8" where
  "gate_dpl g = drop_bit 5 (type_attr g) AND 3"

lemma split_address:
  "(ucast (ucast (w AND 0xFFFF) :: u16) :: u64) OR
   push_bit 16 (ucast (ucast (drop_bit 16 w AND 0xFFFF) :: u16)) OR
   push_bit 32 (ucast (ucast (drop_bit 32 w AND 0xFFFFFFFF) :: u32)) = w"
proof -
  have m: "(0xFFFF :: u64) = mask 16" "(0xFFFFFFFF :: u64) = mask 32" by (simp_all add: mask_eq_exp_minus_1)
  show ?thesis unfolding m
  proof (rule bit_word_eqI)
    fix n assume "n < LENGTH(64)"
    consider "n < 16" | k where "n = 16 + k" "k < 16" | k where "n = 32 + k"
    proof (cases "n < 32")
      case True
      then show thesis using that(1) that(2) [of "n - 16"] by linarith
    next
      case False
      then show thesis using that(3) [of "n - 32"] by linarith
    qed
    then show "bit ((ucast (ucast (w AND mask 16) :: u16) :: u64) OR
       push_bit 16 (ucast (ucast (drop_bit 16 w AND mask 16) :: u16)) OR
       push_bit 32 (ucast (ucast (drop_bit 32 w AND mask 32) :: u32))) n = bit w n"
      using \<open>n < LENGTH(64)\<close> by cases (auto simp: bit_simps)
  qed
qed

lemma fold_gates:
  "length t = 256 \<Longrightarrow> n \<le> 256 \<Longrightarrow> i < 256 \<Longrightarrow>
   fold (\<lambda>n. idt_set_entry n (isr n) sel attr) [0..<n] t ! i =
     (if i < n then idt_set_entry i (isr i) sel attr t ! i else t ! i) \<and>
   length (fold (\<lambda>n. idt_set_entry n (isr n) sel attr) [0..<n] t) = 256"
proof (induction n)
  case (Suc n)
  then show ?case by (auto simp: idt_set_entry_def nth_list_update less_Suc_eq)
qed simp

text \<open>
  The table sends every vector to its stub and opens one door: each of the 36 vectors that
  are set has a present gate in the kernel's code segment whose three offset fields put together
  are the address of the stub; every other gate is absent; and only the system call vector 128
  may be raised from user mode.
\<close>

theorem init_idt_gates:
  "\<forall>i < 256. gate_present (init_idt isr ! i) = (i < 34 \<or> i = 128 \<or> i = 129) \<and>
     (gate_present (init_idt isr ! i) \<longrightarrow>
        gate_address (init_idt isr ! i) = isr i \<and> selector (init_idt isr ! i) = 8 \<and>
        (gate_dpl (init_idt isr ! i) = 3 \<longleftrightarrow> i = 128))"
proof (intro allI impI)
  fix i :: nat assume i: "i < 256"
  let ?t = "fold (\<lambda>n. idt_set_entry n (isr n) 0x08 0x8E) [0..<34] (replicate 256 zero_idt_entry)"
  have t: "?t ! i = (if i < 34 then idt_set_entry i (isr i) 0x08 0x8E (replicate 256 zero_idt_entry) ! i
      else zero_idt_entry)" "length ?t = 256"
    using fold_gates [of "replicate 256 zero_idt_entry" 34 i isr 8 "0x8E"] i by auto
  have g: "init_idt isr ! i =
      (if i = 129 then idt_set_entry i (isr i) 0x08 0x8E ?t ! i
       else if i = 128 then idt_set_entry i (isr i) 0x08 0xEE ?t ! i else ?t ! i)"
    using i t(2) by (auto simp: init_idt_def idt_set_entry_def nth_list_update)
  show "gate_present (init_idt isr ! i) = (i < 34 \<or> i = 128 \<or> i = 129) \<and>
     (gate_present (init_idt isr ! i) \<longrightarrow>
        gate_address (init_idt isr ! i) = isr i \<and> selector (init_idt isr ! i) = 8 \<and>
        (gate_dpl (init_idt isr ! i) = 3 \<longleftrightarrow> i = 128))"
    using i t
    by (auto simp: g idt_set_entry_def nth_list_update gate_present_def gate_address_def gate_dpl_def
        zero_idt_entry_def split_address bit_simps)
qed

theorem init_idt_gates_witness:
  "gate_address (init_idt (\<lambda>n. 0x200000 + 16 * of_nat n) ! 14) = 0x2000E0 \<and>
   gate_dpl (init_idt (\<lambda>n. 0x200000 + 16 * of_nat n) ! 14) \<noteq> 3"
  using init_idt_gates [of "\<lambda>n. 0x200000 + 16 * of_nat n"] by (auto dest: spec [of _ 14])

end
