(* ===== verification/Interrupt.thy ===== *)
theory Interrupt
  imports Syscall_File Syscall_Proc Exec Idt
begin

text \<open>
  \<open>isr_handler\<close> of \<^verbatim>\<open>sys/idt.c\<close>: the dispatch of interrupts and system calls, and where a call
  that waited goes on.  Acknowledging the interrupt controller is port output and left out.
\<close>

section \<open>Dispatch\<close>

text \<open>What the hardware shows: the byte at the keyboard's port, \<open>cr2\<close>, and user memory.\<close>

record trap_input =
  kbd_port :: u8
  cr2 :: u64
  umem :: user_mem

text \<open>The system calls by their number in \<open>rax\<close>; an unknown number does nothing.\<close>

definition sys_call :: "user_mem \<Rightarrow> kernel \<Rightarrow> handler_reg \<Rightarrow> trap_result option" where
  "sys_call um k reg =
     (let n = rax reg in
      if n = 12 then sys_ioctl k reg
      else if n = 100 then sys_signal k reg
      else if n = 101 then sys_set_signal_handler k reg
      else if n = 102 then sys_open um k reg
      else if n = 103 then sys_read k reg
      else if n = 104 then sys_write um k reg
      else if n = 105 then sys_exit k reg
      else if n = 106 then sys_brk k reg
      else if n = 107 then sys_unlink um k reg
      else if n = 108 then sys_chdir um k reg
      else if n = 109 then sys_getdir k reg
      else if n = 110 then sys_fork k reg
      else if n = 111 then sys_exec um k reg
      else if n = 112 then sys_wait k reg
      else if n = 113 then sys_pause k reg
      else if n = 114 then sys_getpid k reg
      else if n = 115 then sys_getppid k reg
      else if n = 116 then sys_lseek k reg
      else if n = 117 then sys_mkdir k reg
      else if n = 118 then sys_pipe k reg
      else if n = 119 then sys_list_files um k reg
      else if n = 120 then sys_close k reg
      else if n = 121 then sys_sig_return k reg
      else if n = 122 then sys_dup k reg
      else if n = 123 then sys_alarm k reg
      else if n = 124 then sys_list_pid k reg
      else if n = 125 then sys_pid_name k reg
      else if n = 248 then finish 1 reg [] k
      else if n = 249 then test_kernel_read_block k reg
      else if n = 250 then test_kernel_write_block um k reg
      else if n = 251 then test_kernel_wait k reg
      else if n = 252 then test_print_num k reg
      else if n = 253 then test_print um k reg
      else if n = 254 then test_wait k reg
      else finish 0 reg [] k)"

text \<open>A fault of the process: it ends.\<close>

definition kill_current :: "kernel \<Rightarrow> handler_reg \<Rightarrow> trap_result option" where
  "kill_current k reg =
     do { k1 \<leftarrow> upd_cur (\<lambda>q. q\<lparr>on_hold := True, terminated := True\<rparr>) k; Some (Done 1, reg, [], k1) }"

definition isr_handler :: "trap_input \<Rightarrow> kernel \<Rightarrow> handler_reg \<Rightarrow> trap_result option" where
  "isr_handler hw k reg =
     (if int_num reg = 32 then
        do {
          (_, k1) \<leftarrow> kernel_space_handler k TASK_TIMER_TICK;
          k2 \<leftarrow> update_terminal_out k1;
          finish 1 reg [] k2
        }
      else if int_num reg = 33 then
        do { (_, k1) \<leftarrow> kernel_space_handler k (TASK_KEYBOARD_HANDLE (kbd_port hw)); Some (Done 0, reg, [], k1) }
      else if int_num reg = 0x80 then
        (if current_process k = 0 then Some (Done 1, reg, [], k) else sys_call (umem hw) k reg)
      else if int_num reg = 13 then kill_current k reg
      else if int_num reg = 14 then
        do {
          _ \<leftarrow> assert (current_process k \<noteq> 0);
          (_, k1) \<leftarrow> kernel_space_handler k (TASK_PROC_PAGE_FAULT_HANDLE (err_num reg) (cr2 hw));
          finish 1 reg [] k1
        }
      else if int_num reg = 0 then kill_current k reg
      else None)"

text \<open>What follows \<open>trigger_ctx_switch\<close> when the process runs again.\<close>

fun resume_call :: "kernel \<Rightarrow> handler_reg \<Rightarrow> resume \<Rightarrow> trap_result option" where
  "resume_call k reg (Resume_read p buf count) = resume_read k reg p buf count"
| "resume_call k reg (Resume_wait t i status_ret) = resume_wait k reg t i status_ret"
| "resume_call k reg Resume_pause = sys_return 0 reg [] k"
| "resume_call k reg (Resume_read_block page buf) = resume_read_block k reg page buf"
| "resume_call k reg Resume_write_block = sys_return 0 reg [] k"
| "resume_call k reg Resume_test_wait = finish 0 reg [] k"

end
