(* ===== verification/Kernel_Run.thy ===== *)
theory Kernel_Run
  imports Interrupt
begin

text \<open>
  The kernel as a state machine.  A step is a trap of the current process or of a device
  (\<open>isr_handler\<close>), the continuation of a call that waited (\<open>resume_call\<close>), the choice of the next
  process (\<open>process_schedule\<close>), or the creation of a process by \<^verbatim>\<open>sys/main.c\<close>
  (\<open>spawn_process\<close>).  An invariant of the process table is kept by every step, whatever the
  registers, the user memory and the devices show.
\<close>

section \<open>The invariant\<close>

text \<open>
  What holds of the process at address \<open>p\<close> while \<open>c\<close> is the current one: its descriptor table has
  its fixed size, its heap does not end before it starts, its memory maps are its own, and when
  its resources have been released it has ended and is not running.
\<close>

definition proc_ok :: "ptr \<Rightarrow> ptr \<Rightarrow> process \<Rightarrow> bool" where
  "proc_ok c p pr \<longleftrightarrow> self pr = p \<and> length (open_fd pr) = FD_SIZE \<and> heap_start pr \<le> heap_break pr \<and>
     (\<forall>m \<in> set (first_map pr). mm_proc m = p) \<and> (cleaned pr \<longrightarrow> terminated pr \<and> p \<noteq> c)"

definition kinv :: "ptr \<Rightarrow> kernel \<Rightarrow> bool" where
  "kinv c k \<longleftrightarrow> current_process k = c \<and> (\<forall>p pr. procs k p = Some pr \<longrightarrow> proc_ok c p pr)"

named_theorems kinv_ops \<open>operations that keep the invariant\<close>

text \<open>
  \<open>yields P x\<close>: when the computation \<open>x\<close> has a result, it satisfies \<open>P\<close>; with one rule for each
  construct of the operations.
\<close>

definition yields :: "('a \<Rightarrow> bool) \<Rightarrow> 'a option \<Rightarrow> bool" where
  "yields P x \<longleftrightarrow> (\<forall>y. x = Some y \<longrightarrow> P y)"

lemma yields_rules:
  "P y \<Longrightarrow> yields P (Some y)" "yields P None"
  "(\<And>z. m = Some z \<Longrightarrow> yields P (f z)) \<Longrightarrow> yields P (Option.bind m f)"
  "(b \<Longrightarrow> yields P x) \<Longrightarrow> (\<not> b \<Longrightarrow> yields P x') \<Longrightarrow> yields P (if b then x else x')"
  "(\<And>u v. q = (u, v) \<Longrightarrow> yields P (g u v)) \<Longrightarrow> yields P (case q of (u, v) \<Rightarrow> g u v)"
  "(w = None \<Longrightarrow> yields P x) \<Longrightarrow> (\<And>z. w = Some z \<Longrightarrow> yields P (h z)) \<Longrightarrow>
     yields P (case w of None \<Rightarrow> x | Some z \<Rightarrow> h z)"
  "(\<And>e. r = Inl e \<Longrightarrow> yields P (le e)) \<Longrightarrow> (\<And>z. r = Inr z \<Longrightarrow> yields P (ri z)) \<Longrightarrow>
     yields P (case r of Inl e \<Rightarrow> le e | Inr z \<Rightarrow> ri z)"
  by (auto simp: yields_def bind_eq_Some_conv' split: prod.splits option.splits sum.splits)

lemma yields_task_ret:
  "(t = No_ret \<Longrightarrow> yields P x1) \<Longrightarrow> (\<And>a. t = Ret_addr a \<Longrightarrow> yields P (x2 a)) \<Longrightarrow>
   (\<And>b i. t = Ret_page b i \<Longrightarrow> yields P (x3 b i)) \<Longrightarrow> (\<And>ws. t = Ret_words ws \<Longrightarrow> yields P (x4 ws)) \<Longrightarrow>
   yields P (case t of No_ret \<Rightarrow> x1 | Ret_addr a \<Rightarrow> x2 a | Ret_page b i \<Rightarrow> x3 b i | Ret_words ws \<Rightarrow> x4 ws)"
  by (cases t) auto

lemma yields_op_result:
  "(t = NoSlot \<Longrightarrow> yields P x1) \<Longrightarrow> (t = Failed \<Longrightarrow> yields P x2) \<Longrightarrow> (\<And>s. t = Issued s \<Longrightarrow> yields P (x3 s)) \<Longrightarrow>
   yields P (case t of NoSlot \<Rightarrow> x1 | Failed \<Rightarrow> x2 | Issued s \<Rightarrow> x3 s)"
  by (cases t) auto

lemma kept_by:
  "x = Some k' \<Longrightarrow> yields (kinv c) x \<Longrightarrow> kinv c k'"
  "x2 = Some (r, k') \<Longrightarrow> yields (\<lambda>(r, k). kinv c k) x2 \<Longrightarrow> kinv c k'"
  "x3 = Some (r, t, k') \<Longrightarrow> yields (\<lambda>(r, t, k). kinv c k) x3 \<Longrightarrow> kinv c k'"
  "x4 = Some (r, t, u, k') \<Longrightarrow> yields (\<lambda>(r, t, u, k). kinv c k) x4 \<Longrightarrow> kinv c k'"
  by (auto simp: yields_def)

lemmas kept_rules = yields_rules yields_task_ret yields_op_result

lemma kinv_procs: "kinv c k \<Longrightarrow> procs k p = Some pr \<Longrightarrow> proc_ok c p pr"
  by (simp add: kinv_def)

lemma kinv_current: "kinv c k \<Longrightarrow> current_process k = c"
  by (simp add: kinv_def)

text \<open>Only the processes and the current one matter.\<close>

lemma kinv_fields [simp]:
  "kinv c (k\<lparr>kmm := m\<rparr>) = kinv c k" "kinv c (k\<lparr>kfs := f\<rparr>) = kinv c k" "kinv c (k\<lparr>first_process := a\<rparr>) = kinv c k"
  "kinv c (k\<lparr>previous_process := a\<rparr>) = kinv c k" "kinv c (k\<lparr>id_count := n\<rparr>) = kinv c k"
  "kinv c (k\<lparr>proc_supply := s\<rparr>) = kinv c k" "kinv c (k\<lparr>first_waiter := ws\<rparr>) = kinv c k"
  "kinv c (k\<lparr>disk_tasks := ts\<rparr>) = kinv c k" "kinv c (k\<lparr>disks := ds\<rparr>) = kinv c k"
  "kinv c (k\<lparr>terminal_buffer := b\<rparr>) = kinv c k" "kinv c (k\<lparr>terminal_buffer_end := e\<rparr>) = kinv c k"
  "kinv c (k\<lparr>foreground_pid := n64\<rparr>) = kinv c k" "kinv c (k\<lparr>kscreen := sc\<rparr>) = kinv c k"
  "kinv c (k\<lparr>shift := bb\<rparr>) = kinv c k" "kinv c (k\<lparr>ctrl := bb\<rparr>) = kinv c k"
  "kinv c (k\<lparr>last_key_pressed := b\<rparr>) = kinv c k" "kinv c (k\<lparr>pic_tick_count := n64\<rparr>) = kinv c k"
  "kinv c (k\<lparr>rand_seed := n\<rparr>) = kinv c k" "kinv c (k\<lparr>task_cr3 := n64\<rparr>) = kinv c k"
  "kinv c (set_page_used i u k) = kinv c k"
  by (simp_all add: kinv_def set_page_used_def)

lemma kinv_put:
  "kinv c k \<Longrightarrow> (procs k p = Some pr \<Longrightarrow> proc_ok c p pr \<Longrightarrow> proc_ok c p pr') \<Longrightarrow> procs k p = Some pr \<Longrightarrow>
   kinv c (put_proc p pr' k)"
  by (simp add: kinv_def)

lemma kinv_new: "kinv c k \<Longrightarrow> proc_ok c p pr \<Longrightarrow> kinv c (put_proc p pr k)"
  by (simp add: kinv_def)

lemma kinv_upd [kinv_ops]:
  "upd_proc p f k = Some k' \<Longrightarrow> kinv c k \<Longrightarrow> (\<And>pr. proc_ok c p pr \<Longrightarrow> proc_ok c p (f pr)) \<Longrightarrow> kinv c k'"
  by (auto simp: upd_proc_eq_Some intro: kinv_put)

lemma kinv_upd_cur [kinv_ops]:
  "upd_cur f k = Some k' \<Longrightarrow> kinv c k \<Longrightarrow> (\<And>pr. proc_ok c c pr \<Longrightarrow> proc_ok c c (f pr)) \<Longrightarrow> kinv c k'"
  unfolding upd_cur_def by (metis kinv_upd kinv_current)

lemma kinv_upd_cur_fs [kinv_ops]:
  "upd_cur f (k\<lparr>kfs := fs\<rparr>) = Some k' \<Longrightarrow> kinv c k \<Longrightarrow> (\<And>pr. proc_ok c c pr \<Longrightarrow> proc_ok c c (f pr)) \<Longrightarrow> kinv c k'"
  by (erule kinv_upd_cur) simp_all

lemma kinv_free [simp]: "kinv c k \<Longrightarrow> kinv c (free_proc p k)"
  by (simp add: kinv_def free_proc_def)

text \<open>Changes of a process that do not concern the invariant.\<close>

lemma proc_ok_fields [simp]:
  "proc_ok c p (pr\<lparr>p_name := b\<rparr>) = proc_ok c p pr" "proc_ok c p (pr\<lparr>p_next := q\<rparr>) = proc_ok c p pr"
  "proc_ok c p (pr\<lparr>rsp := n\<rparr>) = proc_ok c p pr" "proc_ok c p (pr\<lparr>rip := n\<rparr>) = proc_ok c p pr"
  "proc_ok c p (pr\<lparr>saved_reg := r\<rparr>) = proc_ok c p pr" "proc_ok c p (pr\<lparr>rsp_current := n\<rparr>) = proc_ok c p pr"
  "proc_ok c p (pr\<lparr>on_hold := h\<rparr>) = proc_ok c p pr" "proc_ok c p (pr\<lparr>ret_value := v\<rparr>) = proc_ok c p pr"
  "proc_ok c p (pr\<lparr>workdir := b\<rparr>) = proc_ok c p pr" "proc_ok c p (pr\<lparr>sig_pending := n\<rparr>) = proc_ok c p pr"
  "proc_ok c p (pr\<lparr>sig_handler := n\<rparr>) = proc_ok c p pr" "proc_ok c p (pr\<lparr>sig_saved_reg := r\<rparr>) = proc_ok c p pr"
  "proc_ok c p (pr\<lparr>id_wait_for := i\<rparr>) = proc_ok c p pr" "proc_ok c p (pr\<lparr>id_wait_for_p := q\<rparr>) = proc_ok c p pr"
  "proc_ok c p (pr\<lparr>pid := i\<rparr>) = proc_ok c p pr" "proc_ok c p (pr\<lparr>parent := q\<rparr>) = proc_ok c p pr"
  "proc_ok c p (pr\<lparr>cr3 := n\<rparr>) = proc_ok c p pr"
  by (simp_all add: proc_ok_def)

lemma proc_ok_terminated [simp]: "proc_ok c p pr \<Longrightarrow> proc_ok c p (pr\<lparr>terminated := True\<rparr>)"
  by (simp add: proc_ok_def)

lemma proc_ok_set_fd [simp]: "proc_ok c p (set_fd i v pr) = proc_ok c p pr"
  by (simp add: proc_ok_def set_fd_def)

lemma proc_ok_wait_hold [simp]: "proc_ok c p (wait_hold i pr) = proc_ok c p pr"
  by (simp add: wait_hold_def)

section \<open>Address spaces\<close>

text \<open>The routines that map pages only append maps of the process.\<close>

definition maps_own :: "'z addr_space_scheme \<Rightarrow> 'z addr_space_scheme \<Rightarrow> bool" where
  "maps_own pr pr' \<longleftrightarrow> (\<exists>ms. pr' = pr\<lparr>first_map := first_map pr @ ms\<rparr> \<and> (\<forall>m \<in> set ms. mm_proc m = self pr))"

lemma maps_own_refl [simp]: "maps_own pr pr"
  by (auto simp: maps_own_def intro: exI [of _ "[]"])

lemma maps_own_trans: "maps_own p1 p2 \<Longrightarrow> maps_own p2 p3 \<Longrightarrow> maps_own p1 p3"
  by (fastforce simp: maps_own_def)

lemma maps_own_ok: "maps_own pr pr' \<Longrightarrow> proc_ok c p pr \<Longrightarrow> proc_ok c p pr'"
  by (auto simp: maps_own_def proc_ok_def)

lemma maps_own_new:
  "add_new_m_map_for_process k pr t s w a = Some (m, pr', k') \<Longrightarrow> maps_own pr pr'"
  "dup_new_m_map_for_process k pr t s w a i = Some (m, pr', k') \<Longrightarrow> maps_own pr pr'"
  by (auto simp: add_new_m_map_for_process_def dup_new_m_map_for_process_def maps_own_def bind_eq_Some_conv' Let_def)

lemma maps_own_table: "ensure_table b e k pr = Some (pr', k') \<Longrightarrow> maps_own pr pr'"
  by (auto simp: ensure_table_def bind_eq_Some_conv' Let_def split: if_splits dest: maps_own_new)

lemma maps_own_walk: "walk_tables k pr a = Some (e, pr', k') \<Longrightarrow> maps_own pr pr'"
  by (auto simp: walk_tables_def bind_eq_Some_conv' Let_def dest!: maps_own_table intro: maps_own_trans)

lemma maps_own_page:
  "add_page_for_process k pr a w t = Some (d, pr', k') \<Longrightarrow> maps_own pr pr'"
  "map_page_for_process k pr a w d' = Some (d, pr', k') \<Longrightarrow> maps_own pr pr'"
  "dup_page_for_process k pr a w i = Some (d, pr', k') \<Longrightarrow> maps_own pr pr'"
  by (auto simp: add_page_for_process_def map_page_for_process_def dup_page_for_process_def bind_eq_Some_conv' Let_def
      split: if_splits dest!: maps_own_walk maps_own_new intro: maps_own_trans)

lemma page_ok [kinv_ops]:
  "add_page_for_process k pr a w t = Some (d, pr', k') \<Longrightarrow> proc_ok c p pr \<Longrightarrow> proc_ok c p pr'"
  "map_page_for_process k pr a w d' = Some (d, pr', k') \<Longrightarrow> proc_ok c p pr \<Longrightarrow> proc_ok c p pr'"
  "dup_page_for_process k pr a w i = Some (d, pr', k') \<Longrightarrow> proc_ok c p pr \<Longrightarrow> proc_ok c p pr'"
  by (blast dest: maps_own_page maps_own_ok)+

lemma new_tables_ok [kinv_ops]:
  "new_tables t k pr = Some (pr', k') \<Longrightarrow> proc_ok c p pr \<Longrightarrow> proc_ok c p pr'"
  by (auto simp: new_tables_def alloc_table_def bind_eq_Some_conv' Let_def proc_ok_def)

lemma rw_fault_ok [kinv_ops]:
  assumes "check_and_handle_rw_page_fault k pr a = Some (b, pr', k')" "proc_ok c p pr"
  shows "proc_ok c p pr'"
  using assms
  by (auto simp: check_and_handle_rw_page_fault_def bind_eq_Some_conv' Let_def split: list.splits option.splits if_splits
      dest!: page_ok [of _ _ _ _ _ _ _ _ c p])
    (auto simp: proc_ok_def dest: in_set_takeD in_set_dropD)

section \<open>Creating and replacing processes\<close>

lemma load_file_part_ok [kinv_ops]:
  assumes "load_file_part tf path d a r mr pg pr k = Some (a', mr', pg', pr', k')" "proc_ok c p pr"
  shows "proc_ok c p pr'"
proof -
  have "proc_ok c p pr \<longrightarrow> proc_ok c p (fst (snd (snd (snd (a', mr', pg', pr', k')))))"
    by (rule load_file_part.raw_induct [OF _ assms(1)])
      (auto simp: bind_eq_Some_conv' split: if_splits dest: page_ok)
  with assms(2) show ?thesis by simp
qed

lemma load_zero_part_ok [kinv_ops]:
  assumes "load_zero_part a r pg pr k = Some (pr', k')" "proc_ok c p pr"
  shows "proc_ok c p pr'"
proof -
  have "proc_ok c p pr \<longrightarrow> proc_ok c p (fst (pr', k'))"
    by (rule load_zero_part.raw_induct [OF _ assms(1)])
      (auto simp: bind_eq_Some_conv' split: if_splits dest: page_ok)
  with assms(2) show ?thesis by simp
qed

lemma load_sections_ok [kinv_ops]:
  "load_sections tf path ss h pr k = Some (h', pr', k') \<Longrightarrow> proc_ok c p pr \<Longrightarrow> proc_ok c p pr'"
  by (induction ss arbitrary: h pr k)
    (auto simp: bind_eq_Some_conv' dest: load_file_part_ok load_zero_part_ok)

lemma share_maps_ok [kinv_ops]:
  "share_maps r ms pr k = Some (pr', k') \<Longrightarrow> proc_ok c p pr \<Longrightarrow> proc_ok c p pr'"
  by (induction ms arbitrary: pr k)
    (auto simp: bind_eq_Some_conv' Let_def split: if_splits prod.splits dest: page_ok)

lemma add_stack_pages_ok [kinv_ops]:
  "add_stack_pages n a pr k = Some (pr', k') \<Longrightarrow> proc_ok c p pr \<Longrightarrow> proc_ok c p pr'"
  by (induction n arbitrary: a pr k) (auto simp: bind_eq_Some_conv' dest: page_ok)

lemma reserve_file_part_ok [kinv_ops]:
  assumes "reserve_file_part a r pr k = Some (pr', k')" "proc_ok c p pr"
  shows "proc_ok c p pr'"
proof -
  have "proc_ok c p pr \<longrightarrow> proc_ok c p (fst (pr', k'))"
    by (rule reserve_file_part.raw_induct [OF _ assms(1)])
      (auto simp: bind_eq_Some_conv' split: if_splits dest: page_ok)
  with assms(2) show ?thesis by simp
qed

lemma reserve_sections_ok [kinv_ops]:
  "reserve_sections ss h pr k = Some (h', pr', k') \<Longrightarrow> proc_ok c p pr \<Longrightarrow> proc_ok c p pr'"
  by (induction ss arbitrary: h pr k) (auto simp: bind_eq_Some_conv' dest: reserve_file_part_ok)

lemma dup_fds_length: "dup_fds fds f = Some (l, f') \<Longrightarrow> length l = length fds"
  by (induction fds f arbitrary: l f' rule: dup_fds.induct) (auto simp: bind_eq_Some_conv' split: if_splits)

lemma zero_process_ok: "proc_ok c p (zero_process p)"
  by (simp add: proc_ok_def zero_process_def)

text \<open>A heap that begins at its end, descriptors of the right number.\<close>

lemma proc_ok_heap [simp]: "proc_ok c p pr \<Longrightarrow> b \<le> e \<Longrightarrow> proc_ok c p (pr\<lparr>heap_start := b, heap_break := e\<rparr>)"
  by (simp add: proc_ok_def)

lemma proc_ok_fds [simp]: "proc_ok c p pr \<Longrightarrow> length l = FD_SIZE \<Longrightarrow> proc_ok c p (pr\<lparr>open_fd := l\<rparr>)"
  by (simp add: proc_ok_def)

lemma attach_process_kinv [kinv_ops]: "attach_process p k = Some k' \<Longrightarrow> kinv c k \<Longrightarrow> kinv c k'"
  by (auto simp: attach_process_def bind_eq_Some_conv' split: if_splits dest: kinv_upd)

lemma spawn_process_kinv [kinv_ops]:
  assumes "spawn_process k ss path = Some k'" "kinv c k"
  shows "kinv c k'"
proof -
  from assms(1) obtain p ps pr1 m1 d2 pr2 m2 d3 pr3 m3 h pr m4 a b m5 f where
    t: "new_tables (kpt_of k) (kmm k) (zero_process p) = Some (pr1, m1)"
      "add_page_for_process m1 pr1 process_rsp0_start True 4 = Some (d2, pr2, m2)"
      "add_page_for_process m2 pr2 (process_initial_rsp - 16) True 2 = Some (d3, pr3, m3)"
      "load_sections (tar (kfs k)) path ss 0 pr3 m3 = Some (h, pr, m4)"
    and at: "attach_process p (put_proc p (pr\<lparr>pid := id_count k, p_name := NAME_INIT, p_next := 0,
         rsp := process_rsp0_start + 4096 - 16 - 2 * SIZEOF_REG, rsp_current := process_initial_rsp,
         heap_start := heap_begin h, heap_break := heap_begin h, workdir := DIR_BIN,
         open_fd := (open_fd pr)[0 := a, 1 := b, 2 := b]\<rparr>)
         (k\<lparr>proc_supply := ps, kmm := m5, kfs := f, id_count := id_count k + 1\<rparr>)) = Some k'"
    by (auto simp: spawn_process_def alloc_process_def bind_eq_Some_conv' Let_def split: list.splits
        simp del: load_sections.simps)
  have pr: "proc_ok c p pr"
    using load_sections_ok [OF t(4) page_ok(1) [OF t(3) page_ok(1) [OF t(2) new_tables_ok [OF t(1) zero_process_ok]]]] .
  show ?thesis
    by (rule attach_process_kinv [OF at], rule kinv_new)
      (use assms(2) pr in \<open>auto simp: proc_ok_def\<close>)
qed

lemma fork_process_kinv [kinv_ops]:
  assumes "fork_process k par = Some (p, k')" "kinv c k"
  shows "kinv c k'"
proof -
  from assms(1) obtain par' ps pr1 m1 d2 pr2 m2 pr m3 fds f m4 wd where par: "procs k par = Some par'"
    and t: "new_tables (kpt_of k) (kmm k) (zero_process p) = Some (pr1, m1)"
      "add_page_for_process m1 pr1 process_rsp0_start True 4 = Some (d2, pr2, m2)"
      "share_maps (cr3 par') (first_map par') pr2 m2 = Some (pr, m3)"
    and fds: "dup_fds (open_fd par') (kfs k) = Some (fds, f)"
    and at: "attach_process p (put_proc p (pr\<lparr>pid := id_count k, parent := par, p_name := NAME_FORKED, p_next := 0,
         rsp := process_rsp0_start + 4096 - 16 - 2 * SIZEOF_REG, rsp_current := rsp_current par',
         heap_start := heap_start par', heap_break := heap_break par', on_hold := False,
         workdir := wd, open_fd := fds\<rparr>)
         (k\<lparr>proc_supply := ps, kmm := m4, kfs := f, id_count := id_count k + 1\<rparr>)) = Some k'"
    by (auto simp: fork_process_def alloc_process_def bind_eq_Some_conv' Let_def split: list.splits)
  have "proc_ok c p pr" using share_maps_ok [OF t(3) page_ok(1) [OF t(2) new_tables_ok [OF t(1) zero_process_ok]]] .
  moreover have "proc_ok c par par'" using assms(2) par by (rule kinv_procs)
  ultimately show ?thesis using assms(2) dup_fds_length [OF fds]
    by (intro attach_process_kinv [OF at] kinv_new) (simp_all add: proc_ok_def)
qed

lemma replace_process_kinv [kinv_ops]:
  assumes "replace_process k p ss n = Some k'" "kinv c k"
  shows "kinv c k'"
proof -
  from assms(1) obtain pr ph pr1 m1 d3 pr3 m2 pr4 m3 h pr5 m4 k1 a where pr: "procs k p = Some pr"
    and r: "filter (\<lambda>m. mm_type m = 4) (first_map pr) \<noteq> []"
    and t: "new_tables (kpt_of k) ((kmm k)\<lparr>kphy := ph\<rparr>) pr = Some (pr1, m1)"
      "map_page_for_process m1 (pr1\<lparr>first_map := first_map pr1 @ [last (filter (\<lambda>m. mm_type m = 4) (first_map pr))]\<rparr>)
         process_rsp0_start True a = Some (d3, pr3, m2)"
      "add_stack_pages (unat ((n + 4095) div 4096)) 0 pr3 m2 = Some (pr4, m3)"
      "reserve_sections ss 0 pr4 m3 = Some (h, pr5, m4)"
    and k': "k' = put_proc p (pr5\<lparr>p_name := NAME_EXECUTED, rsp := process_rsp0_start + 4096 - 16 - 2 * SIZEOF_REG,
         rsp_current := process_initial_rsp - n, heap_start := heap_begin h, heap_break := heap_begin h\<rparr>) k1"
    and k1: "kinv c k1 = kinv c k"
    by (auto simp: replace_process_def bind_eq_Some_conv' Let_def simp del: reserve_sections.simps filter_empty_conv)
  have ok: "proc_ok c p pr" using assms(2) pr by (rule kinv_procs)
  then have "proc_ok c p pr1" by (rule new_tables_ok [OF t(1)])
  moreover have "mm_proc (last (filter (\<lambda>m. mm_type m = 4) (first_map pr))) = p"
    using last_in_set [OF r] ok by (simp add: proc_ok_def)
  ultimately have "proc_ok c p (pr1\<lparr>first_map := first_map pr1 @ [last (filter (\<lambda>m. mm_type m = 4) (first_map pr))]\<rparr>)"
    by (simp add: proc_ok_def)
  then have "proc_ok c p pr5"
    by (rule reserve_sections_ok [OF t(4) add_stack_pages_ok [OF t(3) page_ok(2) [OF t(2)]]])
  with assms(2) k1 show ?thesis unfolding k' by (intro kinv_new) (simp_all add: proc_ok_def)
qed

section \<open>Devices and tasks\<close>

lemma wake_all_kinv [kinv_ops]: "wake_all ps k = Some k' \<Longrightarrow> kinv c k \<Longrightarrow> kinv c k'"
  by (induction ps arbitrary: k) (auto simp: bind_eq_Some_conv' dest: kinv_upd)

lemma expire_kinv [kinv_ops]: "expire w k = Some k' \<Longrightarrow> kinv c k \<Longrightarrow> kinv c k'"
  by (auto simp: expire_def dest!: kinv_upd)

lemma tick_rest_kinv [kinv_ops]: "tick_rest k w ws = Some (l, k') \<Longrightarrow> kinv c k \<Longrightarrow> kinv c k'"
  by (induction ws arbitrary: k w l k') (auto simp: bind_eq_Some_conv' split: if_splits dest: expire_kinv)

lemma tick_kinv [kinv_ops]: "tick_timer_update k = Some k' \<Longrightarrow> kinv c k \<Longrightarrow> kinv c k'"
  by (cases "first_waiter k"; cases "tl (first_waiter k)")
    (auto simp: tick_timer_update_def bind_eq_Some_conv' split: if_splits dest: expire_kinv tick_rest_kinv)

lemma register_kinv [kinv_ops]:
  "register_to_be_waken k p n = Some k' \<Longrightarrow> kinv c k \<Longrightarrow> kinv c k'"
  by (auto simp: register_to_be_waken_def split: if_splits dest!: kinv_upd)

lemma alarm_kinv [simp]: "kinv c (register_to_trigger_alarm k p n) = kinv c k"
  by (simp add: register_to_trigger_alarm_def)

lemma topright_kinv [kinv_ops]: "update_topright_display k = Some k' \<Longrightarrow> kinv c k \<Longrightarrow> kinv c k'"
  by (auto simp: update_topright_display_def bind_eq_Some_conv')

lemma add_signal_kinv [kinv_ops]: "process_add_signal k i sg = Some (r, k') \<Longrightarrow> kinv c k \<Longrightarrow> kinv c k'"
  by (auto simp: process_add_signal_def bind_eq_Some_conv' split: if_splits dest!: kinv_upd)

lemma terminal_newline_kinv [kinv_ops]: "terminal_newline e k = Some k' \<Longrightarrow> kinv c k \<Longrightarrow> kinv c k'"
  by (auto simp: terminal_newline_def bind_eq_Some_conv' dest!: wake_all_kinv)

lemma terminal_interrupt_kinv [kinv_ops]: "terminal_interrupt e k = Some k' \<Longrightarrow> kinv c k \<Longrightarrow> kinv c k'"
  by (auto simp: terminal_interrupt_def Let_def split: if_splits dest!: add_signal_kinv)

lemma terminal_input_kinv [kinv_ops]: "terminal_input_ascii k a = Some k' \<Longrightarrow> kinv c k \<Longrightarrow> kinv c k'"
  by (auto simp: terminal_input_ascii_def bind_eq_Some_conv' Let_def split: if_splits
      dest!: terminal_newline_kinv terminal_interrupt_kinv)

lemma keyboard_kinv [kinv_ops]: "handle_keyboard_scan_code k a = Some k' \<Longrightarrow> kinv c k \<Longrightarrow> kinv c k'"
  by (auto simp: handle_keyboard_scan_code_def press_key_def bind_eq_Some_conv' split: if_splits
      dest!: topright_kinv terminal_input_kinv)

lemma terminal_out_kinv [kinv_ops]: "update_terminal_out k = Some k' \<Longrightarrow> kinv c k \<Longrightarrow> kinv c k'"
  unfolding update_terminal_out_def Let_def by (erule kept_by(1), intro kept_rules) simp_all

lemma check_task_kinv [kinv_ops]: "check_task k t = Some (d, t', k') \<Longrightarrow> kinv c k \<Longrightarrow> kinv c k'"
  unfolding check_task_def by (erule kept_by(3), intro kept_rules) (auto intro!: kinv_new dest: kinv_procs)

lemma check_tasks_kinv [kinv_ops]: "check_tasks k ts = Some (ts', k') \<Longrightarrow> kinv c k \<Longrightarrow> kinv c k'"
  by (induction ts arbitrary: k ts' k') (auto simp: bind_eq_Some_conv' dest: check_task_kinv)

lemma check_disk_task_kinv [kinv_ops]: "check_disk_task k = Some k' \<Longrightarrow> kinv c k \<Longrightarrow> kinv c k'"
  by (auto simp: check_disk_task_def bind_eq_Some_conv' dest: check_tasks_kinv)

lemma disk_request_kinv [kinv_ops]:
  "read_disk_block_req k d p n = Some (rd, k') \<Longrightarrow> kinv c k \<Longrightarrow> kinv c k'"
  "write_disk_block_req k d p n i = Some (b, k') \<Longrightarrow> kinv c k \<Longrightarrow> kinv c k'"
  unfolding read_disk_block_req_def write_disk_block_req_def Let_def
  by (erule kept_by(2), intro kept_rules, simp_all)+

lemma timer_kinv [kinv_ops]: "timer_tick k = Some k' \<Longrightarrow> kinv c k \<Longrightarrow> kinv c k'"
  by (auto simp: timer_tick_def test_tick_handle_def bind_eq_Some_conv' split: if_splits
      dest!: tick_kinv topright_kinv check_disk_task_kinv)

lemma growth_fault_kinv [kinv_ops]:
  assumes "heap_or_stack_fault k pr a = Some k'" "kinv c k" "procs k c = Some pr"
  shows "kinv c k'"
proof -
  have "proc_ok c c pr" using assms(2,3) by (rule kinv_procs)
  with assms show ?thesis unfolding heap_or_stack_fault_def Let_def
    by (elim kept_by(1), intro kept_rules) (auto simp: kinv_current intro!: kinv_new dest: page_ok)
qed

lemma page_fault_kinv [kinv_ops]: "page_fault k e a = Some k' \<Longrightarrow> kinv c k \<Longrightarrow> kinv c k'"
  unfolding page_fault_def
  by (erule kept_by(1), intro kept_rules)
    (auto simp: kinv_current yields_def split: if_splits intro!: kinv_new intro: growth_fault_kinv dest: rw_fault_ok kinv_procs)

lemma task_kinv [kinv_ops]:
  assumes "kernel_space_handler k t = Some (r, k')" "kinv c k" "\<And>p. t \<noteq> TASK_PROC_CLEANUP p"
  shows "kinv c k'"
proof (cases t)
  case (TASK_RW_DISK_BLOCK d p n buf wr)
  with assms show ?thesis
    by (auto simp: rw_disk_block_def bind_eq_Some_conv' Let_def split: if_splits dest!: disk_request_kinv [where c = c])
next
  case (TASK_CP_PAGE_MALLOC i ws b)
  with assms show ?thesis by (auto simp: cp_page_malloc_def bind_eq_Some_conv' Let_def split: if_splits)
qed (use assms in \<open>auto simp: bind_eq_Some_conv' dest: kinv_ops\<close>)

section \<open>System calls\<close>

lemma signal_kinv [kinv_ops]: "handle_sig_pending k reg = Some (r, k') \<Longrightarrow> kinv c k \<Longrightarrow> kinv c k'"
  unfolding handle_sig_pending_def
  by (erule kept_by(2), intro kept_rules) (auto simp: kinv_current intro!: kinv_new dest: kinv_procs)

lemma finish_yields:
  "kinv c k \<Longrightarrow> yields (\<lambda>(r, t, u, k). kinv c k) (finish v reg st k)"
  "kinv c k \<Longrightarrow> yields (\<lambda>(r, t, u, k). kinv c k) (sys_return w reg st k)"
  unfolding sys_return_def finish_def by (intro kept_rules; auto dest: signal_kinv)+

lemmas call_rules = kept_rules finish_yields

lemma read_attempt_kinv [kinv_ops]: "read_attempt k reg p b n = Some (o', r, st, k') \<Longrightarrow> kinv c k \<Longrightarrow> kinv c k'"
  unfolding read_attempt_def Let_def by (erule kept_by(4), intro call_rules; auto dest: kinv_ops)

lemma close_fd_kinv [kinv_ops]: "close_fd i k = Some k' \<Longrightarrow> kinv c k \<Longrightarrow> kinv c k'"
  unfolding close_fd_def by (erule kept_by(1), intro kept_rules; auto simp: yields_def dest: kinv_ops)

lemma file_calls_kinv [kinv_ops]:
  "sys_open um k reg = Some (o', r, st, k') \<Longrightarrow> kinv c k \<Longrightarrow> kinv c k'"
  "sys_read k reg = Some (o', r, st, k') \<Longrightarrow> kinv c k \<Longrightarrow> kinv c k'"
  "resume_read k reg p b n = Some (o', r, st, k') \<Longrightarrow> kinv c k \<Longrightarrow> kinv c k'"
  "sys_write um k reg = Some (o', r, st, k') \<Longrightarrow> kinv c k \<Longrightarrow> kinv c k'"
  "sys_lseek k reg = Some (o', r, st, k') \<Longrightarrow> kinv c k \<Longrightarrow> kinv c k'"
  "sys_close k reg = Some (o', r, st, k') \<Longrightarrow> kinv c k \<Longrightarrow> kinv c k'"
  "sys_dup k reg = Some (o', r, st, k') \<Longrightarrow> kinv c k \<Longrightarrow> kinv c k'"
  "sys_pipe k reg = Some (o', r, st, k') \<Longrightarrow> kinv c k \<Longrightarrow> kinv c k'"
  unfolding sys_open_def sys_read_def resume_read_def sys_write_def sys_lseek_def sys_close_def sys_dup_def
    sys_pipe_def Let_def
  by (erule kept_by(4), intro call_rules; auto simp: yields_def dest: kinv_ops)+

lemma directory_calls_kinv [kinv_ops]:
  "sys_unlink um k reg = Some (o', r, st, k') \<Longrightarrow> kinv c k \<Longrightarrow> kinv c k'"
  "sys_chdir um k reg = Some (o', r, st, k') \<Longrightarrow> kinv c k \<Longrightarrow> kinv c k'"
  "sys_getdir k reg = Some (o', r, st, k') \<Longrightarrow> kinv c k \<Longrightarrow> kinv c k'"
  "sys_mkdir k reg = Some (o', r, st, k') \<Longrightarrow> kinv c k \<Longrightarrow> kinv c k'"
  "sys_list_files um k reg = Some (o', r, st, k') \<Longrightarrow> kinv c k \<Longrightarrow> kinv c k'"
  unfolding sys_unlink_def sys_chdir_def sys_getdir_def sys_mkdir_def sys_list_files_def Let_def
  by (erule kept_by(4), intro call_rules; auto simp: yields_def dest: kinv_ops)+

lemma block_calls_kinv [kinv_ops]:
  "test_kernel_read_block k reg = Some (o', r, st, k') \<Longrightarrow> kinv c k \<Longrightarrow> kinv c k'"
  "resume_read_block k reg pg b = Some (o', r, st, k') \<Longrightarrow> kinv c k \<Longrightarrow> kinv c k'"
  "test_kernel_write_block um k reg = Some (o', r, st, k') \<Longrightarrow> kinv c k \<Longrightarrow> kinv c k'"
  unfolding test_kernel_read_block_def resume_read_block_def test_kernel_write_block_def
  by (erule kept_by(4), intro call_rules; auto simp del: kernel_space_handler.simps dest: kinv_ops)+

lemma process_calls_kinv [kinv_ops]:
  "sys_ioctl k reg = Some (o', r, st, k') \<Longrightarrow> kinv c k \<Longrightarrow> kinv c k'"
  "sys_signal k reg = Some (o', r, st, k') \<Longrightarrow> kinv c k \<Longrightarrow> kinv c k'"
  "sys_set_signal_handler k reg = Some (o', r, st, k') \<Longrightarrow> kinv c k \<Longrightarrow> kinv c k'"
  "sys_sig_return k reg = Some (o', r, st, k') \<Longrightarrow> kinv c k \<Longrightarrow> kinv c k'"
  "sys_alarm k reg = Some (o', r, st, k') \<Longrightarrow> kinv c k \<Longrightarrow> kinv c k'"
  "sys_exit k reg = Some (o', r, st, k') \<Longrightarrow> kinv c k \<Longrightarrow> kinv c k'"
  "sys_getpid k reg = Some (o', r, st, k') \<Longrightarrow> kinv c k \<Longrightarrow> kinv c k'"
  "sys_getppid k reg = Some (o', r, st, k') \<Longrightarrow> kinv c k \<Longrightarrow> kinv c k'"
  "sys_list_pid k reg = Some (o', r, st, k') \<Longrightarrow> kinv c k \<Longrightarrow> kinv c k'"
  "sys_pid_name k reg = Some (o', r, st, k') \<Longrightarrow> kinv c k \<Longrightarrow> kinv c k'"
  "test_print_num k reg = Some (o', r, st, k') \<Longrightarrow> kinv c k \<Longrightarrow> kinv c k'"
  "test_print um k reg = Some (o', r, st, k') \<Longrightarrow> kinv c k \<Longrightarrow> kinv c k'"
  unfolding sys_ioctl_def sys_signal_def sys_set_signal_handler_def sys_sig_return_def sys_alarm_def sys_exit_def
    sys_getpid_def sys_getppid_def sys_list_pid_def sys_pid_name_def test_print_num_def test_print_def
  by (erule kept_by(4), intro call_rules; auto dest: kinv_ops)+

lemma sys_brk_kinv [kinv_ops]:
  assumes "sys_brk k reg = Some (o', r, st, k')" "kinv c k"
  shows "kinv c k'"
proof -
  have "kinv c (put_proc c (pr\<lparr>heap_break := a\<rparr>) k)" if "procs k c = Some pr" "heap_start pr \<le> a" for pr a
    using kinv_procs [OF assms(2) that(1)] that(2) by (intro kinv_new [OF assms(2)]) (simp add: proc_ok_def)
  with assms show ?thesis
    unfolding sys_brk_def cur_proc_def by (elim kept_by(4), intro call_rules; auto simp: kinv_current)
qed

lemma sleep_calls_kinv [kinv_ops]:
  "sys_sleep n rs k reg = Some (o', r, st, k') \<Longrightarrow> kinv c k \<Longrightarrow> kinv c k'"
  "sys_pause k reg = Some (o', r, st, k') \<Longrightarrow> kinv c k \<Longrightarrow> kinv c k'"
  "test_kernel_wait k reg = Some (o', r, st, k') \<Longrightarrow> kinv c k \<Longrightarrow> kinv c k'"
  "test_wait k reg = Some (o', r, st, k') \<Longrightarrow> kinv c k \<Longrightarrow> kinv c k'"
  unfolding sys_pause_def test_kernel_wait_def test_wait_def sys_sleep_def
  by (erule kept_by(4), intro call_rules; auto simp del: kernel_space_handler.simps dest: kinv_ops)+

lemma sys_fork_kinv [kinv_ops]: "sys_fork k reg = Some (o', r, st, k') \<Longrightarrow> kinv c k \<Longrightarrow> kinv c k'"
  unfolding sys_fork_def
  by (erule kept_by(4), intro call_rules; auto simp del: kernel_space_handler.simps dest: kinv_ops)

lemma wait_unlink_kinv [kinv_ops]:
  assumes "wait_unlink t q k = Some k'" "kinv c k"
  shows "kinv c k'"
proof -
  have "kinv c k \<longrightarrow> kinv c k'"
    by (rule wait_unlink.raw_induct [OF _ assms(1)])
      (auto simp: bind_eq_Some_conv' split: if_splits dest: kinv_upd)
  with assms(2) show ?thesis by simp
qed

lemma wait_reap_kinv [kinv_ops]: "wait_reap pre t tg k = Some k' \<Longrightarrow> kinv c k \<Longrightarrow> kinv c k'"
  unfolding wait_reap_def by (erule kept_by(1), intro kept_rules; auto split: if_splits dest: kinv_upd)

lemma wait_calls_kinv [kinv_ops]:
  "sys_wait k reg = Some (o', r, st, k') \<Longrightarrow> kinv c k \<Longrightarrow> kinv c k'"
  "resume_wait k reg t i a = Some (o', r, st, k') \<Longrightarrow> kinv c k \<Longrightarrow> kinv c k'"
  unfolding sys_wait_def resume_wait_def Let_def
  by (erule kept_by(4), intro call_rules; auto split: if_splits dest: kinv_ops)+

lemma exec_load_kinv [kinv_ops]: "exec_load k tgt av ev = Some (o', r, st, k') \<Longrightarrow> kinv c k \<Longrightarrow> kinv c k'"
  unfolding exec_load_def Let_def
  by (erule kept_by(4), intro call_rules; auto simp del: kernel_space_handler.simps dest: kinv_ops)

lemma sys_exec_kinv [kinv_ops]: "sys_exec um k reg = Some (o', r, st, k') \<Longrightarrow> kinv c k \<Longrightarrow> kinv c k'"
  unfolding sys_exec_def by (erule kept_by(4), intro call_rules; auto simp: yields_def dest: kinv_ops)

lemma sys_call_kinv [kinv_ops]: "sys_call um k reg = Some (o', r, st, k') \<Longrightarrow> kinv c k \<Longrightarrow> kinv c k'"
  unfolding sys_call_def Let_def by (erule kept_by(4), intro call_rules; auto simp: yields_def dest: kinv_ops)

lemma isr_handler_kinv: "isr_handler hw k reg = Some (o', r, st, k') \<Longrightarrow> kinv c k \<Longrightarrow> kinv c k'"
  unfolding isr_handler_def kill_current_def
  by (erule kept_by(4), intro call_rules; auto simp: yields_def simp del: kernel_space_handler.simps dest: kinv_ops)

lemma resume_call_kinv: "resume_call k reg rs = Some (o', r, st, k') \<Longrightarrow> kinv c k \<Longrightarrow> kinv c k'"
  by (cases rs) (auto simp: sys_return_def finish_def bind_eq_Some_conv' dest: kinv_ops)

section \<open>Scheduling\<close>

lemma wake_parent_keeps:
  "wake_parent k p proc = Some k' \<Longrightarrow> procs k p = Some pr \<Longrightarrow> \<exists>pr'. procs k' p = Some pr' \<and> terminated pr' = terminated pr"
  by (auto simp: wake_parent_def bind_eq_Some_conv' upd_proc_eq_Some split: if_splits)

lemma process_cleanup_kinv:
  assumes "process_cleanup k p = Some k'" "kinv c k" "procs k p = Some pr" "terminated pr" "p \<noteq> c"
  shows "kinv c k'"
proof -
  from assms(1,3) obtain k1 ph f where k1: "wake_parent k p pr = Some k1"
    and u: "upd_proc p (\<lambda>q. q\<lparr>cleaned := True\<rparr>) (k1\<lparr>kmm := (kmm k1)\<lparr>kphy := ph\<rparr>, kfs := f\<rparr>) = Some k'"
    unfolding process_cleanup_def bind_eq_Some_conv' by auto
  have "kinv c k1" using k1 assms(2) unfolding wake_parent_def
    by (elim kept_by(1), intro kept_rules; auto simp: yields_def intro!: kinv_new dest: kinv_procs)
  moreover obtain pr1 where "procs k1 p = Some pr1" "terminated pr1"
    using wake_parent_keeps [OF k1 assms(3)] assms(4) by auto
  moreover from calculation have "proc_ok c p pr1" by (blast intro: kinv_procs)
  then have "proc_ok c p (pr1\<lparr>cleaned := True\<rparr>)" using assms(5) calculation by (simp add: proc_ok_def)
  ultimately show ?thesis using u by (auto simp: upd_proc_eq_Some intro!: kinv_new)
qed

definition scheduled :: "ptr \<Rightarrow> ptr \<times> kernel \<Rightarrow> bool" where
  "scheduled c = (\<lambda>(n, k). kinv c k \<and> (n = c \<or> (\<exists>pr. procs k n = Some pr \<and> runnable pr)))"

lemma schedule_from_kinv:
  assumes "schedule_from k n = Some y" "kinv c k"
  shows "scheduled c y"
proof -
  have "kinv c k \<longrightarrow> scheduled c y"
  proof (rule schedule_from.raw_induct [OF _ assms(1)], rule impI)
    fix sf k n z
    assume ih: "\<And>k n y. sf k n = Some y \<Longrightarrow> kinv c k \<longrightarrow> scheduled c y" and k: "kinv c k"
      and z: "(if n = current_process k then Some (n, k)
        else do {
          pr \<leftarrow> procs k n;
          if runnable pr then Some (n, k)
          else do {
            k1 \<leftarrow> (if terminated pr \<and> \<not> cleaned pr then process_cleanup k n else Some k);
            pr1 \<leftarrow> procs k1 n;
            sf k1 (wrap_next k1 (p_next pr1))
          }
        }) = Some z"
    have cl: "kinv c k1" if "process_cleanup k n = Some k1" "procs k n = Some pr" "terminated pr" "n \<noteq> current_process k" for k1 pr
      using process_cleanup_kinv [OF that(1) k that(2,3)] that(4) kinv_current [OF k] by simp
    have cur: "scheduled c (current_process k, k)" using k by (simp add: scheduled_def kinv_current)
    have run: "scheduled c (n, k)" if "procs k n = Some pr" "runnable pr" for pr using k that by (simp add: scheduled_def)
    have "yields (scheduled c) (if n = current_process k then Some (n, k)
        else do {
          pr \<leftarrow> procs k n;
          if runnable pr then Some (n, k)
          else do {
            k1 \<leftarrow> (if terminated pr \<and> \<not> cleaned pr then process_cleanup k n else Some k);
            pr1 \<leftarrow> procs k1 n;
            sf k1 (wrap_next k1 (p_next pr1))
          }
        })"
      by (intro kept_rules) (use k ih cur run in \<open>auto simp: yields_def split: if_splits dest: cl\<close>)
    with z show "scheduled c z" by (simp add: yields_def)
  qed
  with assms(2) show ?thesis by simp
qed

lemma kinv_switch:
  assumes "kinv c k" "n = c \<or> (\<exists>pr. procs k n = Some pr \<and> runnable pr)"
  shows "kinv n (k\<lparr>previous_process := q, current_process := n\<rparr>)"
  using assms by (auto simp: kinv_def proc_ok_def runnable_def)

lemma process_schedule_kinv:
  assumes "process_schedule k = Some k'" "kinv c k"
  shows "kinv (current_process k') k'"
proof -
  from assms(1) obtain s n k1 where s: "schedule_from k s = Some (n, k1)"
    and k': "k' = k1\<lparr>previous_process := current_process k1, current_process := n\<rparr>"
    unfolding process_schedule_def bind_eq_Some_conv' by (auto simp: bind_eq_Some_conv' split: if_splits)
  from schedule_from_kinv [OF s assms(2)] have "kinv n k'"
    unfolding k' scheduled_def by (auto intro: kinv_switch)
  then show ?thesis by (simp add: k')
qed

section \<open>Runs\<close>

inductive kernel_step :: "kernel \<Rightarrow> kernel \<Rightarrow> bool" where
  trap: "isr_handler hw k reg = Some (out, r, st, k') \<Longrightarrow> kernel_step k k'"
| continue: "resume_call k reg rs = Some (out, r, st, k') \<Longrightarrow> kernel_step k k'"
| switch: "process_schedule k = Some k' \<Longrightarrow> kernel_step k k'"
| spawn: "spawn_process k ss path = Some k' \<Longrightarrow> kernel_step k k'"

inductive kernel_run :: "kernel \<Rightarrow> kernel \<Rightarrow> bool" where
  start: "kernel_run k k"
| step: "kernel_run k k' \<Longrightarrow> kernel_step k' k'' \<Longrightarrow> kernel_run k k''"

text \<open>The state of the process table in which the invariant holds; at boot it is empty.\<close>

definition table_ok :: "kernel \<Rightarrow> bool" where
  "table_ok k \<longleftrightarrow> kinv (current_process k) k"

lemma table_ok_boot: "procs k = Map.empty \<Longrightarrow> table_ok k"
  by (simp add: table_ok_def kinv_def)

lemma kernel_step_ok: "kernel_step k k' \<Longrightarrow> table_ok k \<Longrightarrow> table_ok k'"
proof (induction rule: kernel_step.induct)
  case (switch k k')
  then show ?case unfolding table_ok_def by (rule process_schedule_kinv)
next
  case (trap hw k reg out r st k')
  then show ?case unfolding table_ok_def by (metis isr_handler_kinv kinv_current)
next
  case (continue k reg rs out r st k')
  then show ?case unfolding table_ok_def by (metis resume_call_kinv kinv_current)
next
  case (spawn k ss path k')
  then show ?case unfolding table_ok_def by (metis spawn_process_kinv kinv_current)
qed

lemma kernel_run_ok: "kernel_run k k' \<Longrightarrow> table_ok k \<Longrightarrow> table_ok k'"
  by (induction rule: kernel_run.induct) (auto dest: kernel_step_ok)

text \<open>
  C1. Whatever processes and devices do, the process table keeps its form: after any sequence of
  traps, system calls, continuations, context switches and new processes, with any registers
  and any user memory, every process lies at the address it carries, has sixteen descriptors,
  a heap that does not end before it starts, and only memory maps of its own.
\<close>

theorem process_table_typed:
  assumes "kernel_run k k'" "table_ok k" "procs k' p = Some pr"
  shows "self pr = p \<and> length (open_fd pr) = 16 \<and> heap_start pr \<le> heap_break pr \<and>
    (\<forall>m \<in> set (first_map pr). mm_proc m = p)"
  using kernel_run_ok [OF assms(1,2)] assms(3) by (auto simp: table_ok_def kinv_def proc_ok_def FD_SIZE_def)

text \<open>
  C2. A process whose pages and files have been released never runs again: in every state that
  the kernel can come to, such a process has ended and is not the current one.
\<close>

theorem released_never_runs:
  assumes "kernel_run k k'" "table_ok k" "procs k' p = Some pr" "cleaned pr"
  shows "terminated pr \<and> current_process k' \<noteq> p"
  using kernel_run_ok [OF assms(1,2)] assms(3,4) by (auto simp: table_ok_def kinv_def proc_ok_def)

section \<open>Examples\<close>

text \<open>A kernel with a reclaimed process, in which the current one sets its signal handler.\<close>

definition run_example :: kernel where
  "run_example = kernel_example\<lparr>procs := [0x10 \<mapsto> proc1, 0x20 \<mapsto> proc2, 0x30 \<mapsto> proc3\<lparr>cleaned := True\<rparr>]\<rparr>"

definition run_example_next :: kernel where
  "run_example_next = put_proc 0x20 (proc2\<lparr>sig_handler := 0x400000\<rparr>) run_example"

lemma run_example_ok: "table_ok run_example"
  by (auto simp: run_example_def table_ok_def kinv_def proc_ok_def example_procs example_map_def)

lemma run_example_step: "kernel_run run_example run_example_next"
proof -
  let ?reg = "zero_reg\<lparr>int_num := 0x80, rax := 101, rdi := 0x400000\<rparr>"
  have "no_signal (proc2\<lparr>sig_handler := 0x400000\<rparr>)" by (simp add: no_signal_def example_procs)
  then have "isr_handler hw run_example ?reg = Some (Done 0, ?reg, [], run_example_next)" for hw
    by (simp add: isr_handler_def sys_call_def sys_set_signal_handler_def finish_quiet run_example_def run_example_next_def)
  then show ?thesis by (blast intro: kernel_run.intros kernel_step.trap)
qed

theorem process_table_typed_witness:
  "\<exists>pr. procs run_example_next 0x20 = Some pr \<and> sig_handler pr = 0x400000 \<and> length (open_fd pr) = 16"
  using process_table_typed [OF run_example_step run_example_ok, of "0x20" "proc2\<lparr>sig_handler := 0x400000\<rparr>"]
  by (simp add: run_example_next_def)

theorem released_never_runs_witness:
  "\<exists>pr. procs run_example_next 0x30 = Some pr \<and> cleaned pr \<and> current_process run_example_next \<noteq> 0x30"
  using released_never_runs [OF run_example_step run_example_ok, of "0x30" "proc3\<lparr>cleaned := True\<rparr>"]
  by (simp add: run_example_next_def run_example_def)

end
