(* ===== verification/Kmalloc.thy ===== *)
theory Kmalloc
  imports Kbrk
begin

text \<open>
  The kernel heap, \<^verbatim>\<open>sys/memory/kmalloc.c\<close>: blocks with boundary tags and an explicit list of the
  free ones, in the order of their addresses.  The memory of the heap is a function from
  addresses to 64-bit words, in which headers, footers and links lie as in the code; \<open>sf_sbrk\<close>,
  a macro for \<open>kbrk\<close>, is an argument.  Messages printed for debugging are left out.
\<close>

section \<open>Headers\<close>

text \<open>
  \<open>struct sf_header\<close>: 4 bits \<open>alloc\<close>, 28 bits \<open>block_size\<close>, in units of 16 bytes, and 32 bits
  \<open>requested_size\<close>.  A shifted \<open>block_size\<close> is an \<open>int\<close>.
\<close>

definition h_alloc :: "u64 \<Rightarrow> u64" where "h_alloc w = w AND mask 4"
definition block_size :: "u64 \<Rightarrow> u64" where "block_size w = drop_bit 4 w AND mask 28"
definition requested_size :: "u64 \<Rightarrow> u64" where "requested_size w = drop_bit 32 w"

definition set_alloc :: "u64 \<Rightarrow> u64 \<Rightarrow> u64" where "set_alloc v w = put_field w 0 4 v"
definition set_block_size :: "u64 \<Rightarrow> u64 \<Rightarrow> u64" where "set_block_size v w = put_field w 4 28 v"
definition set_requested :: "u64 \<Rightarrow> u64 \<Rightarrow> u64" where "set_requested v w = put_field w 32 32 v"

definition bytes_int :: "u64 \<Rightarrow> u32" where
  "bytes_int w = push_bit 4 (ucast (block_size w))"

text \<open>The state: the words of the heap, the global variables, and what \<open>sf_sbrk\<close> works on.\<close>

type_synonym hmem = "u64 \<Rightarrow> u64"

record 's sf_heap =
  hmem :: hmem
  heapStartPtr :: ptr
  freelist_head :: ptr
  firstPageInitialized :: bool
  brk_state :: 's

type_synonym 's sbrk = "u64 \<Rightarrow> 's \<Rightarrow> (u64 \<times> 's) option"

definition getFooter :: "hmem \<Rightarrow> ptr \<Rightarrow> ptr" where
  "getFooter m header = header + 16 * block_size (m header) - 8"

definition getHeader :: "hmem \<Rightarrow> ptr \<Rightarrow> ptr" where
  "getHeader m footer = footer - 16 * block_size (m footer) + 8"

definition headerToNextHeader :: "hmem \<Rightarrow> ptr \<Rightarrow> ptr" where
  "headerToNextHeader m header = header + 16 * block_size (m header)"

text \<open>The links of a free block follow its header.\<close>

definition next_of :: "ptr \<Rightarrow> ptr" where "next_of h = h + 8"
definition prev_of :: "ptr \<Rightarrow> ptr" where "prev_of h = h + 16"

definition modify :: "ptr \<Rightarrow> (u64 \<Rightarrow> u64) \<Rightarrow> hmem \<Rightarrow> hmem" where
  "modify a f m = m(a := f (m a))"

section \<open>Neighbours\<close>

text \<open>
  The loops to the last neighbour that is allocated, or free, before a header and after a
  footer.  They stop at the marks of size 0 at the ends of the heap.
\<close>

partial_function (option) back_while :: "u64 \<Rightarrow> hmem \<Rightarrow> ptr \<Rightarrow> ptr option" where
  "back_while v m h =
     (if h_alloc (m (h - 8)) = v \<and> block_size (m (h - 8)) \<noteq> 0
      then back_while v m (h - 16 * block_size (m (h - 8))) else Some h)"

partial_function (option) forward_while :: "u64 \<Rightarrow> hmem \<Rightarrow> ptr \<Rightarrow> ptr option" where
  "forward_while v m f =
     (if h_alloc (m (f + 8)) = v \<and> block_size (m (f + 8)) \<noteq> 0
      then forward_while v m (f + 16 * block_size (m (f + 8))) else Some f)"

definition sf_coalescing :: "'s sf_heap \<Rightarrow> ptr \<Rightarrow> bool \<Rightarrow> (ptr \<times> 's sf_heap) option" where
  "sf_coalescing s header onlyForward =
     do {
       let m = hmem s;
       prevHeader \<leftarrow> (if onlyForward then Some header else back_while 0 m header);
       let prevPt = m (prev_of prevHeader);
       nextFooter \<leftarrow> forward_while 0 m (getFooter m header);
       let nextPt = m (next_of (getHeader m nextFooter));
       let m1 = modify prevHeader (\<lambda>w. set_requested 0 (set_block_size ((nextFooter + 8 - prevHeader) div 16)
                  (set_alloc 0 w))) m;
       let m2 = m1(next_of prevHeader := nextPt, prev_of prevHeader := prevPt);
       let m3 = (if nextPt \<noteq> 0 then m2(prev_of (m2 (next_of prevHeader)) := prevHeader) else m2);
       let m4 = (if prevPt \<noteq> 0 then m3(next_of (m3 (prev_of prevHeader)) := prevHeader) else m3);
       let m5 = m4(nextFooter := m4 prevHeader);
       Some (prevHeader, s\<lparr>hmem := m5,
         freelist_head := (if m5 (prev_of prevHeader) = 0 then prevHeader else freelist_head s)\<rparr>)
     }"

section \<open>Allocation\<close>

definition checkSizeValidity :: "u64 \<Rightarrow> bool" where
  "checkSizeValidity sz \<longleftrightarrow> sz \<noteq> 0 \<and> sz \<le> 0x100000000"

text \<open>Words and bytes a request needs, with header and footer.\<close>

definition real8 :: "u64 \<Rightarrow> u64" where
  "real8 sz = ((sz + 16 - 1) div 16) * 2 + 2"

text \<open>The first free block that is large enough, as \<open>int\<close>s, and the last one that was passed.\<close>

partial_function (option) find_free :: "hmem \<Rightarrow> u32 \<Rightarrow> ptr \<Rightarrow> ptr \<Rightarrow> (ptr \<times> ptr) option" where
  "find_free m need lastCursor cur =
     (if cur = 0 then Some (lastCursor, 0)
      else if sint need \<le> sint (bytes_int (m cur)) then Some (lastCursor, cur)
      else find_free m need cur (m (next_of cur)))"

text \<open>A page count and a byte count are \<open>int\<close>s here.\<close>

definition sf_getMoreSpace :: "'s sbrk \<Rightarrow> 's sf_heap \<Rightarrow> u64 \<Rightarrow> ((ptr \<times> u64) \<times> 's sf_heap) option" where
  "sf_getMoreSpace sf_sbrk s sz =
     do {
       (pageNeeded, s1) \<leftarrow>
         (if firstPageInitialized s then
            do {
              (b, st) \<leftarrow> sf_sbrk 0 (brk_state s);
              let lastFreeBlock = b - 16;
              let w = hmem s lastFreeBlock;
              let sz' = (if h_alloc w = 0 then sz - scast (bytes_int w) else sz);
              Some (ucast ((sz' + 4096 - 1) div 4096) :: u32, s\<lparr>brk_state := st\<rparr>)
            }
          else Some (ucast ((sz + 16 + 4096 - 1) div 4096), s));
       (newPageAddress, st) \<leftarrow> sf_sbrk (scast (pageNeeded * 4096)) (brk_state s1);
       Some ((if newPageAddress \<noteq> - 1 then newPageAddress else 0, scast (pageNeeded * 4096)), s1\<lparr>brk_state := st\<rparr>)
     }"

text \<open>The new block with its tags and marks, at the end of the list; it is merged afterwards.\<close>

definition init_free_block :: "'s sf_heap \<Rightarrow> ptr \<Rightarrow> ptr \<Rightarrow> u64 \<Rightarrow> ptr \<times> 's sf_heap" where
  "init_free_block s startPt lastBlock newPageSize =
     (let header = (if firstPageInitialized s then startPt - 8 else startPt + 8);
          bs = (if firstPageInitialized s then drop_bit 4 newPageSize else drop_bit 4 newPageSize - 1);
          init = (\<lambda>w. set_requested 0 (set_block_size bs (set_alloc 0 w)));
          m1 = (modify header init (hmem s))(next_of header := 0, prev_of header := lastBlock);
          footer = getFooter m1 header;
          m2 = modify footer init m1;
          m3 = (if firstPageInitialized s then m2 else m2(header - 8 := 0));
          m4 = m3(footer + 8 := 0)
      in (header, s\<lparr>hmem := (if lastBlock \<noteq> 0 then m4(next_of lastBlock := header) else m4),
                 heapStartPtr := (if firstPageInitialized s then heapStartPtr s else header),
                 freelist_head := (if lastBlock \<noteq> 0 then freelist_head s else header)\<rparr>))"

definition sf_initializeFreeBlock :: "'s sf_heap \<Rightarrow> ptr \<Rightarrow> ptr \<Rightarrow> u64 \<Rightarrow> (ptr \<times> 's sf_heap) option" where
  "sf_initializeFreeBlock s startPt lastBlock newPageSize =
     (case init_free_block s startPt lastBlock newPageSize of (header, s1) \<Rightarrow> sf_coalescing s1 header False)"

definition sf_allocate :: "'s sf_heap \<Rightarrow> ptr \<Rightarrow> u64 \<Rightarrow> (ptr \<times> 's sf_heap) option" where
  "sf_allocate s freeHeader requiredSize =
     (let m = hmem s;
          available8Bytes = 2 * block_size (m freeHeader);
          real8Bytes = (if available8Bytes - 4 < real8 requiredSize then available8Bytes else real8 requiredSize);
          prevFree = m (prev_of freeHeader);
          nextFree = m (next_of freeHeader);
          m1 = modify freeHeader (\<lambda>w. set_requested requiredSize (set_block_size (real8Bytes div 2) (set_alloc 1 w))) m;
          m2 = modify (getFooter m1 freeHeader)
                 (\<lambda>w. set_requested 0 (set_block_size (block_size (m1 freeHeader)) (set_alloc 1 w))) m1;
          leftFree8Bytes = available8Bytes - real8Bytes
      in if leftFree8Bytes \<noteq> 0 then
           let left = freeHeader + 8 * real8Bytes;
               m3 = modify left (\<lambda>w. set_requested 0 (set_block_size (leftFree8Bytes div 2) (set_alloc 0 w))) m2;
               m4 = modify (getFooter m3 left)
                      (\<lambda>w. set_requested 0 (set_block_size (block_size (m3 left)) (set_alloc 0 w))) m3;
               m5 = m4(next_of left := nextFree, prev_of left := prevFree);
               m6 = (if nextFree \<noteq> 0 then m5(prev_of nextFree := left) else m5)
           in if prevFree = 0 then Some (freeHeader + 8, s\<lparr>hmem := m6, freelist_head := left\<rparr>)
              else Some (freeHeader + 8, s\<lparr>hmem := m6(next_of prevFree := left)\<rparr>)
         else
           let m3 = (if nextFree \<noteq> 0 then m2(prev_of nextFree := prevFree) else m2)
           in if prevFree = 0 then Some (freeHeader + 8, s\<lparr>hmem := m3, freelist_head := nextFree\<rparr>)
              else Some (freeHeader + 8, s\<lparr>hmem := m3(next_of prevFree := nextFree)\<rparr>))"

definition sf_malloc :: "'s sbrk \<Rightarrow> 's sf_heap \<Rightarrow> u64 \<Rightarrow> (ptr \<times> 's sf_heap) option" where
  "sf_malloc sf_sbrk s sz =
     (if \<not> checkSizeValidity sz then Some (0, s)
      else do {
        let sizeNeeded = (ucast (real8 sz * 8) :: u32);
        (lastCursor, cur) \<leftarrow> find_free (hmem s) sizeNeeded 0 (freelist_head s);
        if cur \<noteq> 0 then sf_allocate s cur sz
        else do {
          ((startAddress, sizeGet), s1) \<leftarrow> sf_getMoreSpace sf_sbrk s (scast sizeNeeded);
          if startAddress = 0 then Some (0, s1)
          else do {
            (c1, s2) \<leftarrow> sf_initializeFreeBlock s1 startAddress lastCursor sizeGet;
            (c2, s3) \<leftarrow> sf_coalescing (s2\<lparr>firstPageInitialized := True\<rparr>) c1 False;
            sf_allocate s3 c2 sz
          }
        }
      })"

section \<open>Release\<close>

definition checkPtrValidity :: "'s sbrk \<Rightarrow> 's sf_heap \<Rightarrow> ptr \<Rightarrow> bool option" where
  "checkPtrValidity sf_sbrk s p =
     do {
       (b, _) \<leftarrow> sf_sbrk 0 (brk_state s);
       if b < p \<or> p < heapStartPtr s then Some False
       else if p AND 15 \<noteq> 0 then Some False
       else let footer = getFooter (hmem s) (p - 8)
            in Some (\<not> (b < footer \<or> footer < heapStartPtr s \<or> footer < p \<or>
                 block_size (hmem s (p - 8)) \<noteq> block_size (hmem s footer) \<and> 1 < block_size (hmem s footer)))
     }"

definition sf_free_of :: "'s sbrk \<Rightarrow> 's sf_heap \<Rightarrow> ptr \<Rightarrow> bool \<Rightarrow> 's sf_heap option" where
  "sf_free_of sf_sbrk s p onlyCoalesceForward =
     do {
       ok \<leftarrow> checkPtrValidity sf_sbrk s p;
       if \<not> ok then Some s
       else do {
         let freed = p - 8;
         let m1 = modify freed (\<lambda>w. set_requested 0 (set_alloc 0 w)) (hmem s);
         let m2 = modify (getFooter m1 freed) (\<lambda>w. set_requested 0 (set_alloc 0 w)) m1;
         prevHeader \<leftarrow> back_while 1 m2 freed;
         let prevFree = (if block_size (m2 (prevHeader - 8)) \<noteq> 0
                         then prevHeader - 16 * block_size (m2 (prevHeader - 8)) else 0);
         nextFooter \<leftarrow> forward_while 1 m2 (getFooter m2 freed);
         let nextFree = (if block_size (m2 (nextFooter + 8)) \<noteq> 0
                         then getHeader m2 (nextFooter + 16 * block_size (m2 (nextFooter + 8))) else 0);
         let m3 = m2(next_of freed := nextFree, prev_of freed := prevFree);
         let m4 = (if nextFree \<noteq> 0 then m3(prev_of nextFree := freed) else m3);
         let m5 = (if prevFree \<noteq> 0 then m4(next_of prevFree := freed) else m4);
         (_, s') \<leftarrow> sf_coalescing (s\<lparr>hmem := m5,
             freelist_head := (if m5 (prev_of freed) = 0 then freed else freelist_head s)\<rparr>) freed onlyCoalesceForward;
         Some s'
       }
     }"

definition sf_free :: "'s sbrk \<Rightarrow> 's sf_heap \<Rightarrow> ptr \<Rightarrow> 's sf_heap option" where
  "sf_free sf_sbrk s p = sf_free_of sf_sbrk s p False"

section \<open>Bytes\<close>

text \<open>The byte at an address, in its word, and the byte loops of \<open>memcpy\<close> and \<open>memset\<close>.\<close>

definition hread8 :: "hmem \<Rightarrow> u64 \<Rightarrow> u64" where
  "hread8 m a = drop_bit (8 * unat (a AND 7)) (m (a AND NOT 7)) AND mask 8"

definition hwrite8 :: "u64 \<Rightarrow> u64 \<Rightarrow> hmem \<Rightarrow> hmem" where
  "hwrite8 a v m = modify (a AND NOT 7) (\<lambda>w. put_field w (8 * unat (a AND 7)) 8 v) m"

fun copy_bytes :: "nat \<Rightarrow> u64 \<Rightarrow> u64 \<Rightarrow> hmem \<Rightarrow> hmem" where
  "copy_bytes 0 dest src m = m"
| "copy_bytes (Suc n) dest src m = copy_bytes n (dest + 1) (src + 1) (hwrite8 dest (hread8 m src) m)"

fun fill_bytes :: "nat \<Rightarrow> u64 \<Rightarrow> u64 \<Rightarrow> hmem \<Rightarrow> hmem" where
  "fill_bytes 0 a v m = m"
| "fill_bytes (Suc n) a v m = fill_bytes n (a + 1) v (hwrite8 a v m)"

definition sf_calloc :: "'s sbrk \<Rightarrow> 's sf_heap \<Rightarrow> u64 \<Rightarrow> u64 \<Rightarrow> (ptr \<times> 's sf_heap) option" where
  "sf_calloc sf_sbrk s nmemb sz =
     (if \<not> checkSizeValidity (nmemb * sz) then Some (0, s)
      else do {
        (p, s1) \<leftarrow> sf_malloc sf_sbrk s (nmemb * sz);
        Some (p, if p \<noteq> 0 then s1\<lparr>hmem := fill_bytes (unat (nmemb * sz)) p 0 (hmem s1)\<rparr> else s1)
      })"

section \<open>Resizing\<close>

text \<open>The block grows into the free block behind it; its first two words are saved around this.\<close>

definition realloc_merge :: "'s sbrk \<Rightarrow> 's sf_heap \<Rightarrow> ptr \<Rightarrow> u64 \<Rightarrow> (ptr \<times> 's sf_heap) option" where
  "realloc_merge sf_sbrk s h sz =
     do {
       let dataInNext = hmem s (next_of h);
       let dataInPrev = hmem s (prev_of h);
       s1 \<leftarrow> sf_free_of sf_sbrk s (h + 8) True;
       (p, s2) \<leftarrow> sf_allocate s1 h sz;
       Some (p, s2\<lparr>hmem := (hmem s2)(prev_of (p - 8) := dataInPrev, next_of (p - 8) := dataInNext)\<rparr>)
     }"

definition realloc_move :: "'s sbrk \<Rightarrow> 's sf_heap \<Rightarrow> ptr \<Rightarrow> u64 \<Rightarrow> (ptr \<times> 's sf_heap) option" where
  "realloc_move sf_sbrk s h sz =
     do {
       (p, s1) \<leftarrow> sf_malloc sf_sbrk s sz;
       if p = 0 then Some (0, s1)
       else do {
         s2 \<leftarrow> sf_free sf_sbrk (s1\<lparr>hmem := copy_bytes (unat (requested_size (hmem s1 h))) p (h + 8) (hmem s1)\<rparr>) (h + 8);
         Some (p, s2)
       }
     }"

definition realloc_split :: "'s sbrk \<Rightarrow> 's sf_heap \<Rightarrow> ptr \<Rightarrow> u64 \<Rightarrow> u64 \<Rightarrow> u64 \<Rightarrow> 's sf_heap option" where
  "realloc_split sf_sbrk s h originalRealSize newRealSize sz =
     (let m1 = modify h (\<lambda>w. set_requested sz (set_block_size (drop_bit 4 newRealSize) w)) (hmem s);
          newAllocfooter = getFooter m1 h;
          m2 = modify newAllocfooter (\<lambda>w. set_requested sz (set_block_size (block_size (m1 h)) (set_alloc 1 w))) m1;
          freed = newAllocfooter + 8;
          m3 = modify freed (\<lambda>w. set_requested 0 (set_block_size (drop_bit 4 (originalRealSize - newRealSize))
                 (set_alloc 1 w))) m2;
          m4 = m3(getFooter m3 freed := m3 freed)
      in sf_free sf_sbrk (s\<lparr>hmem := m4\<rparr>) (freed + 8))"

definition sf_realloc :: "'s sbrk \<Rightarrow> 's sf_heap \<Rightarrow> ptr \<Rightarrow> u64 \<Rightarrow> (ptr \<times> 's sf_heap) option" where
  "sf_realloc sf_sbrk s p sz =
     (if \<not> checkSizeValidity sz then Some (0, s)
      else do {
        ok \<leftarrow> checkPtrValidity sf_sbrk s p;
        if \<not> ok then Some (0, s)
        else
          let h = p - 8;
              m = hmem s;
              originalRealSize = scast (bytes_int (m h));
              newRealSize = real8 sz * 8
          in if originalRealSize < newRealSize then
               let nx = m (headerToNextHeader m h);
                   totalAvailSize = (if h_alloc nx = 0 then originalRealSize + scast (bytes_int nx - 16) else originalRealSize)
               in if newRealSize \<le> totalAvailSize then realloc_merge sf_sbrk s h sz
                  else realloc_move sf_sbrk s h sz
             else if (if 32 < originalRealSize then originalRealSize else 32) - 32 < newRealSize then
               let m1 = modify h (set_requested sz) m
               in Some (p, s\<lparr>hmem := modify (getFooter m1 h) (set_requested sz) m1\<rparr>)
             else do { s' \<leftarrow> realloc_split sf_sbrk s h originalRealSize newRealSize sz; Some (p, s') }
      })"

end
