(* ===== verification/Heap_Layout.thy ===== *)
theory Heap_Layout
  imports Kmalloc
begin

text \<open>
  The layout of the kernel heap: which words hold the tags and links of a list of blocks, what
  it means that a memory is such a heap, and that merging neighbouring free blocks
  (\<open>sf_coalescing\<close>) keeps it one and the contents of all allocated blocks.
\<close>

section \<open>Words of the heap\<close>

text \<open>
  The words of the heap are counted from its first page on: the start mark is word 0, a block
  that begins \<open>o\<close> units of 16 bytes behind it has its header in word \<open>2 * o + 1\<close>, its links in
  the two words after it, and with \<open>n\<close> units its footer in word \<open>2 * (o + n)\<close>.
\<close>

definition cell :: "u64 \<Rightarrow> nat \<Rightarrow> u64" where
  "cell b c = b + 8 * of_nat c"

lemma cell_inj:
  assumes "c < 2 ^ 60" "d < 2 ^ 60"
  shows "cell b c = cell b d \<longleftrightarrow> c = d"
proof
  assume "cell b c = cell b d"
  then have "(of_nat (8 * c) :: u64) = of_nat (8 * d)" by (simp add: cell_def)
  then have "unat (of_nat (8 * c) :: u64) = unat (of_nat (8 * d) :: u64)" by (rule arg_cong)
  moreover have "unat (of_nat (8 * c) :: u64) = 8 * c" "unat (of_nat (8 * d) :: u64) = 8 * d"
    using assms by (intro unat_nat64; simp)+
  ultimately show "c = d" by linarith
qed simp

lemma cell_upd:
  "c < 2 ^ 60 \<Longrightarrow> d < 2 ^ 60 \<Longrightarrow> (m(cell b c := v)) (cell b d) = (if d = c then v else m (cell b d))"
  by (auto simp: cell_inj)

lemma cell_add [simp]:
  "cell b c + 8 = cell b (c + 1)" "cell b c + 16 = cell b (c + 2)"
  "cell b c + 16 * of_nat n = cell b (c + 2 * n)" "cell b c + 8 * of_nat n = cell b (c + n)"
  by (simp_all add: cell_def algebra_simps)

lemma cell_sub [simp]:
  "1 \<le> c \<Longrightarrow> cell b c - 8 = cell b (c - 1)"
  "2 * n \<le> c \<Longrightarrow> cell b c - 16 * of_nat n = cell b (c - 2 * n)"
  by (simp_all add: cell_def algebra_simps of_nat_diff)

lemma links_cell [simp]: "next_of (cell b c) = cell b (c + 1)" "prev_of (cell b c) = cell b (c + 2)"
  by (simp_all add: next_of_def prev_of_def)

lemma cell_dist: "c \<le> d \<Longrightarrow> d < 2 ^ 60 \<Longrightarrow> (cell b d - cell b c) div 16 = of_nat ((d - c) div 2)"
proof -
  assume a: "c \<le> d" "d < 2 ^ 60"
  then have "cell b d - cell b c = of_nat (8 * (d - c))" by (simp add: cell_def algebra_simps of_nat_diff)
  moreover have "unat (of_nat (8 * (d - c)) :: u64) = 8 * (d - c)" using a by (intro unat_nat64) simp
  then have "unat ((of_nat (8 * (d - c)) :: u64) div 16) = (d - c) div 2" by (simp only: unat_div) simp
  moreover have "unat (of_nat ((d - c) div 2) :: u64) = (d - c) div 2" using a by (intro unat_nat64) simp
  ultimately show ?thesis by (metis word_unat_eq_iff)
qed

lemma h_fields [simp]:
  "h_alloc (set_alloc v w) = v AND mask 4" "h_alloc (set_block_size v w) = h_alloc w"
  "h_alloc (set_requested v w) = h_alloc w" "block_size (set_alloc v w) = block_size w"
  "block_size (set_block_size v w) = v AND mask 28" "block_size (set_requested v w) = block_size w"
  by (rule bit_word_eqI; auto simp: h_alloc_def block_size_def set_alloc_def set_block_size_def set_requested_def
      bit_put_field bit_simps)+

text \<open>A header or footer: \<open>al\<close> for an allocated block, \<open>n\<close> its size.\<close>

definition tag :: "u64 \<Rightarrow> bool \<Rightarrow> nat \<Rightarrow> bool" where
  "tag w al n \<longleftrightarrow> h_alloc w = (if al then 1 else 0) \<and> block_size w = of_nat n"

lemma size_mask: "n < 2 ^ 28 \<Longrightarrow> (of_nat n :: u64) AND mask 28 = of_nat n"
  by (simp add: take_bit_eq_mask [symmetric] take_bit_nat_eq_self flip: of_nat_take_bit)

lemma set_tag: "n < 2 ^ 28 \<Longrightarrow> tag (set_requested r (set_block_size (of_nat n) (set_alloc (if al then 1 else 0) w))) al n"
  using size_mask [of n] by (simp add: tag_def mask_eq_exp_minus_1)

lemma set_tag' [simp]:
  "n < 2 ^ 28 \<Longrightarrow> tag (set_requested r (set_block_size (of_nat n) (set_alloc 1 w))) True n"
  "n < 2 ^ 28 \<Longrightarrow> tag (set_requested r (set_block_size (of_nat n) (set_alloc 0 w))) False n"
  using set_tag [of n r True w] set_tag [of n r False w] by simp_all

section \<open>The structure of the heap\<close>

text \<open>The blocks one after another, each with its two tags, and their total size.\<close>

type_synonym block = "bool \<times> nat"

fun blocks :: "hmem \<Rightarrow> u64 \<Rightarrow> nat \<Rightarrow> block list \<Rightarrow> bool" where
  "blocks m b o' [] \<longleftrightarrow> True"
| "blocks m b o' ((al, n) # bs) \<longleftrightarrow> 2 \<le> n \<and> tag (m (cell b (2 * o' + 1))) al n \<and>
     tag (m (cell b (2 * (o' + n)))) al n \<and> blocks m b (o' + n) bs"

definition total :: "block list \<Rightarrow> nat" where
  "total bs = sum_list (map snd bs)"

lemma total_simps [simp]: "total [] = 0" "total (x # bs) = snd x + total bs" "total (xs @ ys) = total xs + total ys"
  by (simp_all add: total_def)

lemma blocks_append [simp]: "blocks m b o' (xs @ ys) \<longleftrightarrow> blocks m b o' xs \<and> blocks m b (o' + total xs) ys"
  by (induction xs arbitrary: o') (auto simp: add.assoc)

text \<open>The words that hold tags, the offsets at which blocks begin, and those of the free ones.\<close>

fun tags :: "nat \<Rightarrow> block list \<Rightarrow> nat set" where
  "tags o' [] = {}"
| "tags o' ((al, n) # bs) = {2 * o' + 1, 2 * (o' + n)} \<union> tags (o' + n) bs"

fun frees :: "nat \<Rightarrow> block list \<Rightarrow> nat list" where
  "frees o' [] = []"
| "frees o' ((al, n) # bs) = (if al then [] else [o']) @ frees (o' + n) bs"

lemma frees_append [simp]: "frees o' (xs @ ys) = frees o' xs @ frees (o' + total xs) ys"
  by (induction xs arbitrary: o') (auto simp: add.assoc)

lemma frees_range: "blocks m b o' bs \<Longrightarrow> x \<in> set (frees o' bs) \<Longrightarrow> o' \<le> x \<and> x + 2 \<le> o' + total bs"
  by (induction bs arbitrary: o') (fastforce split: if_splits)+

lemma tags_range: "blocks m b o' bs \<Longrightarrow> c \<in> tags o' bs \<Longrightarrow> 2 * o' + 1 \<le> c \<and> c \<le> 2 * (o' + total bs)"
  by (induction bs arbitrary: o') fastforce+

lemma tags_links:
  "blocks m b o' bs \<Longrightarrow> x \<in> set (frees o' bs) \<Longrightarrow> 2 * x + 2 \<notin> tags o' bs \<and> 2 * x + 3 \<notin> tags o' bs"
proof (induction bs arbitrary: o')
  case (Cons bl bs)
  obtain al n where bl: "bl = (al, n)" by force
  have b: "blocks m b (o' + n) bs" "2 \<le> n" using Cons.prems bl by auto
  from Cons.prems(2) consider "x = o'" | "x \<in> set (frees (o' + n) bs)" by (auto simp: bl split: if_splits)
  then show ?case
  proof cases
    case 1
    with tags_range [OF b(1)] b(2) show ?thesis by (fastforce simp: bl)
  next
    case 2
    with frees_range [OF b(1)] have "o' + n \<le> x" by blast
    with Cons.IH [OF b(1) 2] b(2) show ?thesis by (auto simp: bl)
  qed
qed simp

lemma blocks_cong:
  "blocks m b o' bs \<Longrightarrow> (\<And>c. c \<in> tags o' bs \<Longrightarrow> m' (cell b c) = m (cell b c)) \<Longrightarrow> blocks m' b o' bs"
  by (induction bs arbitrary: o') auto

text \<open>A part of the doubly linked free list, between the pointers \<open>p\<close> and \<open>e\<close>.\<close>

definition hptr :: "u64 \<Rightarrow> nat \<Rightarrow> u64" where "hptr b x = cell b (2 * x + 1)"

lemma links_hptr [simp]: "next_of (hptr b x) = cell b (2 * x + 2)" "prev_of (hptr b x) = cell b (2 * x + 3)"
  by (simp_all add: hptr_def numeral_3_eq_3)

lemma hptr_add: "hptr b x + 8 = cell b (2 * x + 2)" "hptr b x + 8 * of_nat (2 * k) = hptr b (x + k)"
  by (simp_all add: hptr_def cell_def algebra_simps)

definition head_or :: "u64 \<Rightarrow> nat list \<Rightarrow> u64 \<Rightarrow> u64" where
  "head_or b xs e = (case xs of [] \<Rightarrow> e | x # _ \<Rightarrow> hptr b x)"

definition last_or :: "u64 \<Rightarrow> u64 \<Rightarrow> nat list \<Rightarrow> u64" where
  "last_or b p xs = (if xs = [] then p else hptr b (last xs))"

fun linked :: "hmem \<Rightarrow> u64 \<Rightarrow> u64 \<Rightarrow> nat list \<Rightarrow> u64 \<Rightarrow> bool" where
  "linked m b p [] e \<longleftrightarrow> True"
| "linked m b p (x # xs) e \<longleftrightarrow> m (cell b (2 * x + 3)) = p \<and> m (cell b (2 * x + 2)) = head_or b xs e \<and>
     linked m b (hptr b x) xs e"

lemma head_last_simps [simp]:
  "head_or b [] e = e" "head_or b (x # xs) e = hptr b x" "last_or b p [] = p" "last_or b p (xs @ [x]) = hptr b x"
  "head_or b (xs @ ys) e = head_or b xs (head_or b ys e)" "last_or b p (xs @ ys) = last_or b (last_or b p xs) ys"
  "last_or b p (x # xs) = last_or b (hptr b x) xs"
  by (auto simp: head_or_def last_or_def split: list.splits)

lemma head_or_ne: "xs \<noteq> [] \<Longrightarrow> head_or b xs e = hptr b (hd xs)"
  by (cases xs) simp_all

lemma linked_append [simp]:
  "linked m b p (xs @ ys) e \<longleftrightarrow> linked m b p xs (head_or b ys e) \<and> linked m b (last_or b p xs) ys e"
  by (induction xs arbitrary: p) auto

lemma linked_cong:
  "linked m b p xs e \<Longrightarrow> (\<And>x. x \<in> set xs \<Longrightarrow> m' (cell b (2 * x + 2)) = m (cell b (2 * x + 2)) \<and>
     m' (cell b (2 * x + 3)) = m (cell b (2 * x + 3))) \<Longrightarrow> linked m' b p xs e"
  by (induction xs arbitrary: p) auto

text \<open>The two ends of a part of the list, where it is tied to other neighbours.\<close>

lemma linked_end:
  assumes "linked m b p (xs @ [x]) e" "m' (cell b (2 * x + 2)) = e'" "m' (cell b (2 * x + 3)) = m (cell b (2 * x + 3))"
    and "\<And>y. y \<in> set xs \<Longrightarrow> m' (cell b (2 * y + 2)) = m (cell b (2 * y + 2)) \<and> m' (cell b (2 * y + 3)) = m (cell b (2 * y + 3))"
  shows "linked m' b p (xs @ [x]) e'"
proof -
  have "linked m b p xs (hptr b x)" using assms(1) by simp
  then have "linked m' b p xs (hptr b x)" by (rule linked_cong) (use assms(4) in blast)
  with assms show ?thesis by simp
qed

lemma linked_start:
  assumes "linked m b p (x # xs) e" "m' (cell b (2 * x + 3)) = p'" "m' (cell b (2 * x + 2)) = m (cell b (2 * x + 2))"
    and "\<And>y. y \<in> set xs \<Longrightarrow> m' (cell b (2 * y + 2)) = m (cell b (2 * y + 2)) \<and> m' (cell b (2 * y + 3)) = m (cell b (2 * y + 3))"
  shows "linked m' b p' (x # xs) e"
  using assms linked_cong [of m b "hptr b x" xs e m'] by simp

text \<open>The whole heap, with \<open>b\<close> the address of its first page.\<close>

definition heap_range :: "u64 \<Rightarrow> nat \<Rightarrow> bool" where
  "heap_range b n \<longleftrightarrow> 0 < unat b \<and> unat b + 16 * n + 16 \<le> 2 ^ 64 \<and> n < 2 ^ 27 \<and> b AND 15 = 0"

definition heap_wf :: "u64 \<Rightarrow> block list \<Rightarrow> 's sf_heap \<Rightarrow> bool" where
  "heap_wf b bs s \<longleftrightarrow> blocks (hmem s) b 0 bs \<and> block_size (hmem s (cell b 0)) = 0 \<and>
     block_size (hmem s (cell b (2 * total bs + 1))) = 0 \<and> linked (hmem s) b 0 (frees 0 bs) 0 \<and>
     freelist_head s = head_or b (frees 0 bs) 0 \<and> heap_range b (total bs)"

lemma hptr_nz: "heap_range b n \<Longrightarrow> x \<le> n \<Longrightarrow> hptr b x \<noteq> 0"
proof -
  assume a: "heap_range b n" "x \<le> n"
  have u: "unat (of_nat (8 * (2 * x + 1)) :: u64) = 8 * (2 * x + 1)"
    using a by (intro unat_nat64) (simp add: heap_range_def)
  have "hptr b x = b + of_nat (8 * (2 * x + 1))" by (simp add: hptr_def cell_def algebra_simps)
  moreover have "unat (b + of_nat (8 * (2 * x + 1))) = unat b + 8 * (2 * x + 1)"
    using a u by (subst unat_add_nowrap) (auto simp: heap_range_def)
  ultimately show ?thesis using a by (auto simp: heap_range_def)
qed

section \<open>The loops over neighbours\<close>

lemma tag_size: "tag w al n \<Longrightarrow> 2 \<le> n \<Longrightarrow> n < 2 ^ 28 \<Longrightarrow> block_size w \<noteq> 0"
  using unat_nat64 [of n] by (auto simp: tag_def)

lemma back_while_run:
  assumes "blocks m b o' fs" "\<forall>f \<in> set fs. fst f = av" "total fs < 2 ^ 27"
    and "h_alloc (m (cell b (2 * o'))) \<noteq> (if av then 1 else 0) \<or> block_size (m (cell b (2 * o'))) = 0"
  shows "back_while (if av then 1 else 0) m (cell b (2 * (o' + total fs) + 1)) = Some (cell b (2 * o' + 1))"
  using assms
proof (induction fs rule: rev_induct)
  case Nil
  then show ?case by (subst back_while.simps) auto
next
  case (snoc f fs)
  obtain n where f: "f = (av, n)" using snoc.prems(2) by (cases f) auto
  let ?h = "2 * (o' + total fs + n) + 1"
  have t: "tag (m (cell b (2 * (o' + total fs + n)))) av n" "2 \<le> n" using snoc.prems(1) f by auto
  have nz: "block_size (m (cell b (2 * (o' + total fs + n)))) \<noteq> 0"
    using tag_size [OF t] snoc.prems(3) f by simp
  have "back_while (if av then 1 else 0) m (cell b ?h) =
      back_while (if av then 1 else 0) m (cell b ?h - 16 * block_size (m (cell b ?h - 8)))"
    using t nz by (subst back_while.simps) (simp add: tag_def)
  also have "cell b ?h - 16 * block_size (m (cell b ?h - 8)) = cell b (2 * (o' + total fs) + 1)"
    using t by (simp add: tag_def)
  finally show ?case using snoc f by (simp add: add.assoc)
qed

lemma forward_while_run:
  assumes "blocks m b o' fs" "\<forall>f \<in> set fs. fst f = av" "total fs < 2 ^ 27"
    and "h_alloc (m (cell b (2 * (o' + total fs) + 1))) \<noteq> (if av then 1 else 0) \<or>
      block_size (m (cell b (2 * (o' + total fs) + 1))) = 0"
  shows "forward_while (if av then 1 else 0) m (cell b (2 * o')) = Some (cell b (2 * (o' + total fs)))"
  using assms
proof (induction fs arbitrary: o')
  case Nil
  then show ?case by (subst forward_while.simps) auto
next
  case (Cons f fs)
  obtain n where f: "f = (av, n)" using Cons.prems(2) by (cases f) auto
  have t: "tag (m (cell b (2 * o' + 1))) av n" "2 \<le> n" using Cons.prems(1) f by auto
  have nz: "block_size (m (cell b (2 * o' + 1))) \<noteq> 0" using tag_size [OF t] Cons.prems(3) f by simp
  have "forward_while (if av then 1 else 0) m (cell b (2 * o')) = forward_while (if av then 1 else 0) m (cell b (2 * (o' + n)))"
    using t nz by (subst forward_while.simps) (simp add: tag_def)
  also have "... = Some (cell b (2 * (o' + n + total fs)))"
    by (rule Cons.IH) (use Cons.prems f in \<open>auto simp: add.assoc\<close>)
  finally show ?case using f by (simp add: add.assoc)
qed

section \<open>Merging free blocks\<close>

lemma frees_all_free:
  "\<forall>f \<in> set fs. \<not> fst f \<Longrightarrow> fs \<noteq> [] \<Longrightarrow> \<exists>t. frees o' fs = o' # t"
  by (cases fs) auto

lemma frees_none: "\<forall>f \<in> set fs. fst f \<Longrightarrow> frees o' fs = []"
  by (induction fs arbitrary: o') auto

text \<open>The words of allocated blocks between their tags.\<close>

fun payload :: "nat \<Rightarrow> block list \<Rightarrow> nat set" where
  "payload o' [] = {}"
| "payload o' ((al, n) # bs) = (if al then {2 * o' + 2 ..< 2 * (o' + n)} else {}) \<union> payload (o' + n) bs"

lemma payload_append [simp]: "payload o' (xs @ ys) = payload o' xs \<union> payload (o' + total xs) ys"
  by (induction xs arbitrary: o') (auto simp: add.assoc)

lemma payload_free: "\<forall>f \<in> set fs. \<not> fst f \<Longrightarrow> payload o' fs = {}"
  by (induction fs arbitrary: o') auto

lemma payload_range: "blocks m b o' bs \<Longrightarrow> c \<in> payload o' bs \<Longrightarrow> 2 * o' + 2 \<le> c \<and> c < 2 * (o' + total bs)"
  by (induction bs arbitrary: o') (fastforce split: if_splits)+

lemma payload_links:
  "blocks m b o' bs \<Longrightarrow> x \<in> set (frees o' bs) \<Longrightarrow> 2 * x + 2 \<notin> payload o' bs \<and> 2 * x + 3 \<notin> payload o' bs"
proof (induction bs arbitrary: o')
  case (Cons bl bs)
  obtain al n where bl: "bl = (al, n)" by force
  have b: "blocks m b (o' + n) bs" "2 \<le> n" using Cons.prems bl by auto
  from Cons.prems(2) consider "x = o'" "\<not> al" | "x \<in> set (frees (o' + n) bs)" by (auto simp: bl split: if_splits)
  then show ?case
  proof cases
    case 1
    with payload_range [OF b(1)] b(2) show ?thesis by (fastforce simp: bl)
  next
    case 2
    with frees_range [OF b(1)] have "o' + n \<le> x" by blast
    with Cons.IH [OF b(1) 2] b(2) show ?thesis by (auto simp: bl)
  qed
qed simp

lemma frees_distinct: "blocks m b o' bs \<Longrightarrow> distinct (frees o' bs)"
proof (induction bs arbitrary: o')
  case (Cons bl bs)
  obtain al n where bl: "bl = (al, n)" by force
  have b: "blocks m b (o' + n) bs" "2 \<le> n" using Cons.prems bl by auto
  with frees_range [OF b(1)] Cons.IH [OF b(1)] show ?case by (force simp: bl)
qed simp

text \<open>
  A heap around a gap: everything but the \<open>n\<close> units at its place is in order.  An operation on
  the gap touches its words and the links of the free blocks \<open>A\<close> before and \<open>B\<close> behind it.
\<close>

definition gap :: "u64 \<Rightarrow> hmem \<Rightarrow> block list \<Rightarrow> nat \<Rightarrow> block list \<Rightarrow> bool" where
  "gap b m xs n ys \<longleftrightarrow> blocks m b 0 xs \<and> blocks m b (total xs + n) ys \<and> 2 \<le> n \<and>
     (\<exists>e. linked m b 0 (frees 0 xs) e) \<and> (\<exists>p. linked m b p (frees (total xs + n) ys) 0) \<and>
     block_size (m (cell b 0)) = 0 \<and> block_size (m (cell b (2 * (total xs + n + total ys) + 1))) = 0 \<and>
     heap_range b (total xs + n + total ys)"

definition touched :: "nat \<Rightarrow> nat \<Rightarrow> nat list \<Rightarrow> nat list \<Rightarrow> nat \<Rightarrow> bool" where
  "touched a n A B c \<longleftrightarrow> 2 * a + 1 \<le> c \<and> c \<le> 2 * (a + n) \<or> A \<noteq> [] \<and> c = 2 * last A + 2 \<or> B \<noteq> [] \<and> c = 2 * hd B + 3"

lemma untouched_blocks:
  assumes bl: "blocks m b 0 xs" "blocks m b (total xs + n) ys"
    and m': "\<And>c. c \<le> 2 * (total xs + n + total ys) + 1 \<Longrightarrow>
      \<not> touched (total xs) n (frees 0 xs) (frees (total xs + n) ys) c \<Longrightarrow> m' (cell b c) = m (cell b c)"
  shows "blocks m' b 0 xs" "blocks m' b (total xs + n) ys"
    "c \<in> payload 0 xs \<union> payload (total xs + n) ys \<Longrightarrow> m' (cell b c) = m (cell b c)"
proof -
  let ?a = "total xs" and ?A = "frees 0 xs" and ?B = "frees (total xs + n) ys"
  have A: "?A \<noteq> [] \<Longrightarrow> last ?A \<in> set ?A" and B: "?B \<noteq> [] \<Longrightarrow> hd ?B \<in> set ?B" by simp_all
  have lA: "?A \<noteq> [] \<Longrightarrow> last ?A + 2 \<le> ?a" and hB: "?B \<noteq> [] \<Longrightarrow> ?a + n \<le> hd ?B"
    using frees_range [OF bl(1) A] frees_range [OF bl(2) B] by simp_all
  have x: "m' (cell b c) = m (cell b c)" if "c \<le> 2 * ?a" "?A \<noteq> [] \<Longrightarrow> c \<noteq> 2 * last ?A + 2" for c
    using that hB by (intro m') (auto simp: touched_def)
  have y: "m' (cell b c) = m (cell b c)" if "2 * (?a + n) + 1 \<le> c" "c \<le> 2 * (?a + n + total ys)"
    "?B \<noteq> [] \<Longrightarrow> c \<noteq> 2 * hd ?B + 3" for c
    using that lA by (intro m') (auto simp: touched_def)
  show "blocks m' b 0 xs"
    by (rule blocks_cong [OF bl(1)], rule x) (use tags_range [OF bl(1)] tags_links [OF bl(1) A] in fastforce)+
  show "blocks m' b (?a + n) ys"
    by (rule blocks_cong [OF bl(2)], rule y) (use tags_range [OF bl(2)] tags_links [OF bl(2) B] in fastforce)+
  show "m' (cell b c) = m (cell b c)" if "c \<in> payload 0 xs \<union> payload (?a + n) ys"
    using that
  proof
    assume c: "c \<in> payload 0 xs"
    show ?thesis by (rule x) (use payload_range [OF bl(1) c] payload_links [OF bl(1) A] c in auto)
  next
    assume c: "c \<in> payload (?a + n) ys"
    show ?thesis by (rule y) (use payload_range [OF bl(2) c] payload_links [OF bl(2) B] c in auto)
  qed
qed

lemma untouched_linked:
  assumes l: "linked m b 0 A e" "linked m b p B 0" and d: "distinct A" "distinct B"
    and r: "\<And>x. x \<in> set A \<Longrightarrow> x + 2 \<le> a" "\<And>x. x \<in> set B \<Longrightarrow> a + n \<le> x \<and> x + 2 \<le> N"
    and m': "\<And>c. c \<le> 2 * N + 1 \<Longrightarrow> \<not> touched a n A B c \<Longrightarrow> m' (cell b c) = m (cell b c)" and n: "2 \<le> n" "a + n \<le> N"
    and e: "A \<noteq> [] \<Longrightarrow> m' (cell b (2 * last A + 2)) = e'" "B \<noteq> [] \<Longrightarrow> m' (cell b (2 * hd B + 3)) = p'"
  shows "linked m' b 0 A e'" "linked m' b p' B 0"
proof -
  have hB: "B \<noteq> [] \<Longrightarrow> a + n \<le> hd B" using r(2) by simp
  have lA: "A \<noteq> [] \<Longrightarrow> last A + 2 \<le> a" using r(1) by simp
  show "linked m' b 0 A e'"
  proof (cases A rule: rev_cases)
    case (snoc A0 x)
    have "linked m b 0 (A0 @ [x]) e" using l(1) snoc by simp
    then have "linked m' b 0 (A0 @ [x]) e'"
    proof (rule linked_end)
      have "x + 2 \<le> a" using r(1) snoc by simp
      then show "m' (cell b (2 * x + 2)) = e'" "m' (cell b (2 * x + 3)) = m (cell b (2 * x + 3))"
        using e(1) snoc n hB by (auto intro!: m' simp: touched_def)
      fix y assume y: "y \<in> set A0"
      then have "y + 2 \<le> a" "y \<noteq> x" using r(1) snoc d(1) by auto
      then show "m' (cell b (2 * y + 2)) = m (cell b (2 * y + 2)) \<and> m' (cell b (2 * y + 3)) = m (cell b (2 * y + 3))"
        using n snoc hB by (auto intro!: m' simp: touched_def)
    qed
    with snoc show ?thesis by simp
  qed simp
  show "linked m' b p' B 0"
  proof (cases B)
    case (Cons x B0)
    have "linked m b p (x # B0) 0" using l(2) Cons by simp
    then have "linked m' b p' (x # B0) 0"
    proof (rule linked_start)
      have "a + n \<le> x" "x + 2 \<le> N" using r(2) Cons by auto
      then show "m' (cell b (2 * x + 3)) = p'" "m' (cell b (2 * x + 2)) = m (cell b (2 * x + 2))"
        using e(2) Cons lA by (auto intro!: m' simp: touched_def)
      fix y assume y: "y \<in> set B0"
      then have "a + n \<le> y" "y + 2 \<le> N" "y \<noteq> x" using r(2) Cons d(2) by auto
      then show "m' (cell b (2 * y + 2)) = m (cell b (2 * y + 2)) \<and> m' (cell b (2 * y + 3)) = m (cell b (2 * y + 3))"
        using Cons lA by (auto intro!: m' simp: touched_def)
    qed
    with Cons show ?thesis by simp
  qed simp
qed

text \<open>Filling the gap with the blocks \<open>zs\<close> makes a heap; the contents of all other blocks stay.\<close>

lemma fill_gap:
  assumes g: "gap b m xs n ys" and zs: "blocks (hmem s) b (total xs) zs" "total zs = n"
    and m': "\<And>c. c \<le> 2 * (total xs + n + total ys) + 1 \<Longrightarrow>
      \<not> touched (total xs) n (frees 0 xs) (frees (total xs + n) ys) c \<Longrightarrow> hmem s (cell b c) = m (cell b c)"
    and l: "linked (hmem s) b (last_or b 0 (frees 0 xs)) (frees (total xs) zs) (head_or b (frees (total xs + n) ys) 0)"
    and e: "frees 0 xs \<noteq> [] \<Longrightarrow> hmem s (cell b (2 * last (frees 0 xs) + 2)) =
        head_or b (frees (total xs) zs) (head_or b (frees (total xs + n) ys) 0)"
      "frees (total xs + n) ys \<noteq> [] \<Longrightarrow> hmem s (cell b (2 * hd (frees (total xs + n) ys) + 3)) =
        last_or b (last_or b 0 (frees 0 xs)) (frees (total xs) zs)"
    and h: "freelist_head s = head_or b (frees 0 (xs @ zs @ ys)) 0"
  shows "heap_wf b (xs @ zs @ ys) s \<and>
     (\<forall>c \<in> payload 0 xs \<union> payload (total xs + n) ys. hmem s (cell b c) = m (cell b c))"
proof -
  let ?A = "frees 0 xs" and ?B = "frees (total xs + n) ys" and ?N = "total xs + n + total ys"
  have bl: "blocks m b 0 xs" "blocks m b (total xs + n) ys" "2 \<le> n" using g by (auto simp: gap_def)
  obtain e0 p0 where l0: "linked m b 0 ?A e0" "linked m b p0 ?B 0" using g by (auto simp: gap_def)
  note rA = frees_range [OF bl(1)] and rB = frees_range [OF bl(2)]
  have hB: "?B \<noteq> [] \<Longrightarrow> total xs + n \<le> hd ?B \<and> hd ?B + 2 \<le> ?N" using rB by simp
  have lA: "?A \<noteq> [] \<Longrightarrow> last ?A + 2 \<le> total xs" using rA [of "last ?A"] by simp
  have "linked (hmem s) b 0 ?A (head_or b (frees (total xs) zs) (head_or b ?B 0))"
    "linked (hmem s) b (last_or b (last_or b 0 ?A) (frees (total xs) zs)) ?B 0"
    by (rule untouched_linked [where N = ?N and a = "total xs" and n = n, OF l0 frees_distinct [OF bl(1)] frees_distinct [OF bl(2)]];
        use rA rB m' bl(3) e in auto)+
  moreover have "hmem s (cell b 0) = m (cell b 0)" by (rule m') (use bl(3) in \<open>simp_all add: touched_def\<close>)
  moreover have "hmem s (cell b (2 * ?N + 1)) = m (cell b (2 * ?N + 1))"
    by (rule m') (use hB lA in \<open>auto simp: touched_def\<close>)
  ultimately show ?thesis using untouched_blocks [OF bl(1,2) m'] g zs l h
    by (simp add: heap_wf_def gap_def add.assoc)
qed

text \<open>
  The memory after a free block with the tags \<open>w\<close> and \<open>w'\<close> has been put at offset \<open>a\<close> between its
  neighbours in the list.
\<close>

definition placed :: "u64 \<Rightarrow> hmem \<Rightarrow> nat \<Rightarrow> nat \<Rightarrow> nat list \<Rightarrow> nat list \<Rightarrow> u64 \<Rightarrow> u64 \<Rightarrow> nat \<Rightarrow> u64" where
  "placed b m a n A B w w' c =
     (if c = 2 * a + 1 then w else if c = 2 * (a + n) then w'
      else if c = 2 * a + 2 then head_or b B 0
      else if c = 2 * a + 3 then last_or b 0 A
      else if A \<noteq> [] \<and> c = 2 * last A + 2 \<or> B \<noteq> [] \<and> c = 2 * hd B + 3 then hptr b a
      else m (cell b c))"

lemma placed_wf:
  assumes g: "gap b m xs n ys" and w: "tag w False n" "tag w' False n"
    and m': "\<And>c. c \<le> 2 * (total xs + n + total ys) + 1 \<Longrightarrow>
      hmem s (cell b c) = placed b m (total xs) n (frees 0 xs) (frees (total xs + n) ys) w w' c"
    and h: "freelist_head s = head_or b (frees 0 xs) (hptr b (total xs))"
  shows "heap_wf b (xs @ (False, n) # ys) s \<and>
     (\<forall>c \<in> payload 0 (xs @ (False, n) # ys). hmem s (cell b c) = m (cell b c))"
proof -
  let ?A = "frees 0 xs" and ?B = "frees (total xs + n) ys"
  have bl: "blocks m b 0 xs" "blocks m b (total xs + n) ys" "2 \<le> n" using g by (auto simp: gap_def)
  have hB: "?B \<noteq> [] \<Longrightarrow> total xs + n \<le> hd ?B \<and> hd ?B + 2 \<le> total xs + n + total ys"
    using frees_range [OF bl(2), of "hd ?B"] by simp
  have lA: "?A \<noteq> [] \<Longrightarrow> last ?A + 2 \<le> total xs" using frees_range [OF bl(1), of "last ?A"] by simp
  have "heap_wf b (xs @ [(False, n)] @ ys) s \<and>
     (\<forall>c \<in> payload 0 xs \<union> payload (total xs + n) ys. hmem s (cell b c) = m (cell b c))"
    by (rule fill_gap [OF g]) (use w bl(3) hB lA h in \<open>auto simp: m' placed_def touched_def\<close>)
  then show ?thesis by simp
qed

text \<open>Tags and marks in order, whatever the free list.\<close>

definition tagged :: "u64 \<Rightarrow> block list \<Rightarrow> hmem \<Rightarrow> bool" where
  "tagged b bs m \<longleftrightarrow> blocks m b 0 bs \<and> block_size (m (cell b 0)) = 0 \<and>
     block_size (m (cell b (2 * total bs + 1))) = 0 \<and> heap_range b (total bs)"

lemma heap_wf_tagged: "heap_wf b bs s \<longleftrightarrow> tagged b bs (hmem s) \<and> linked (hmem s) b 0 (frees 0 bs) 0 \<and>
   freelist_head s = head_or b (frees 0 bs) 0"
  by (auto simp: heap_wf_def tagged_def)

lemma stop_before:
  assumes "tagged b (xs @ zs) m" "xs = [] \<or> fst (last xs) \<noteq> av"
  shows "h_alloc (m (cell b (2 * total xs))) \<noteq> (if av then 1 else 0) \<or> block_size (m (cell b (2 * total xs))) = 0"
proof (cases xs rule: rev_cases)
  case (snoc xs0 x)
  then show ?thesis using assms by (cases x) (auto simp: tagged_def tag_def)
qed (use assms in \<open>simp add: tagged_def\<close>)

lemma stop_after:
  assumes "tagged b (zs @ ys) m" "ys = [] \<or> fst (hd ys) \<noteq> av"
  shows "h_alloc (m (cell b (2 * total zs + 1))) \<noteq> (if av then 1 else 0) \<or> block_size (m (cell b (2 * total zs + 1))) = 0"
proof (cases ys)
  case (Cons y ys0)
  then show ?thesis using assms by (cases y) (auto simp: tagged_def tag_def)
qed (use assms in \<open>simp add: tagged_def\<close>)

lemma getFooter_block:
  "tag (m (cell b (2 * o' + 1))) al n \<Longrightarrow> 1 \<le> n \<Longrightarrow> getFooter m (cell b (2 * o' + 1)) = cell b (2 * (o' + n))"
  by (simp add: getFooter_def tag_def)

lemma getHeader_block:
  "tag (m (cell b (2 * (o' + n)))) al n \<Longrightarrow> getHeader m (cell b (2 * (o' + n))) = cell b (2 * o' + 1)"
  by (simp add: getHeader_def tag_def)

lemma run_last:
  assumes "linked m b p (frees o' fs) e" "blocks m b o' fs" "\<forall>f \<in> set fs. \<not> fst f" "fs \<noteq> []"
  shows "m (next_of (getHeader m (cell b (2 * (o' + total fs))))) = e"
proof -
  obtain gs n where fs: "fs = gs @ [(False, n)]" using assms(3,4) by (cases fs rule: rev_cases) force+
  then have "tag (m (cell b (2 * (o' + total gs + n)))) False n" using assms(2) by (simp add: add.assoc)
  then have "getHeader m (cell b (2 * (o' + total gs + n))) = hptr b (o' + total gs)"
    using getHeader_block [of m b "o' + total gs" n False] by (simp add: hptr_def)
  with assms(1) show ?thesis by (simp add: fs add.assoc)
qed

text \<open>The assignments that put a block between its neighbours in the list.\<close>

lemma splice_memory:
  assumes r: "heap_range b N" "a + n \<le> N" "2 \<le> n" "A \<noteq> [] \<Longrightarrow> last A + 2 \<le> a" "B \<noteq> [] \<Longrightarrow> a + n \<le> hd B \<and> hd B + 2 \<le> N"
    and m2: "m2 = m(cell b (2 * a + 1) := w, cell b (2 * a + 2) := head_or b B 0, cell b (2 * a + 3) := last_or b 0 A)"
    and m3: "m3 = (if head_or b B 0 \<noteq> 0 then m2(prev_of (head_or b B 0) := hptr b a) else m2)"
    and m4: "m4 = (if last_or b 0 A \<noteq> 0 then m3(next_of (last_or b 0 A) := hptr b a) else m3)"
    and c: "c \<le> 2 * N + 1"
  shows "(m4(cell b (2 * (a + n)) := w)) (cell b c) = placed b m a n A B w w c"
proof -
  have N: "N < 2 ^ 27" using r(1) by (simp add: heap_range_def)
  have B: "head_or b B 0 = (if B = [] then 0 else cell b (2 * hd B + 1))" by (cases B) (simp_all add: hptr_def)
  have A: "last_or b 0 A = (if A = [] then 0 else cell b (2 * last A + 1))" by (simp add: last_or_def hptr_def)
  have nz: "A \<noteq> [] \<Longrightarrow> cell b (2 * last A + 1) \<noteq> 0" "B \<noteq> [] \<Longrightarrow> cell b (2 * hd B + 1) \<noteq> 0"
    using hptr_nz [OF r(1), of "last A"] hptr_nz [OF r(1), of "hd B"] r by (auto simp: hptr_def)
  show ?thesis using r(2-5) N c nz
    by (cases "A = []"; cases "B = []") (auto simp: m2 m3 m4 A B placed_def cell_inj hptr_def)
qed

lemma sf_coalescing_merges:
  assumes wf: "heap_wf b (xs @ fs @ ys) s" and fs: "fs = fs1 @ (False, n) # fs2" "\<forall>f \<in> set fs. \<not> fst f"
    and ends: "only \<and> fs1 = [] \<or> \<not> only \<and> (xs = [] \<or> fst (last xs))" "ys = [] \<or> fst (hd ys)"
  shows "\<exists>s'. sf_coalescing s (hptr b (total (xs @ fs1))) only = Some (hptr b (total xs), s') \<and>
     heap_wf b (xs @ (False, total fs) # ys) s' \<and>
     (\<forall>c \<in> payload 0 (xs @ fs @ ys). hmem s' (cell b c) = hmem s (cell b c)) \<and>
     brk_state s' = brk_state s \<and> heapStartPtr s' = heapStartPtr s \<and> firstPageInitialized s' = firstPageInitialized s"
proof -
  let ?m = "hmem s" and ?a = "total xs" and ?L = "total fs" and ?N = "total (xs @ fs @ ys)"
  let ?A = "frees 0 xs" and ?B = "frees (total xs + total fs) ys"
  have tg: "tagged b (xs @ fs @ ys) ?m" and lk: "linked ?m b 0 (frees 0 (xs @ fs @ ys)) 0"
    and hd: "freelist_head s = head_or b (frees 0 (xs @ fs @ ys)) 0" using wf by (simp_all add: heap_wf_tagged)
  have bl: "blocks ?m b 0 xs" "blocks ?m b ?a fs" "blocks ?m b (?a + ?L) ys" and N: "?N < 2 ^ 27" and R: "heap_range b ?N"
    using tg by (auto simp: tagged_def heap_range_def)
  have ne: "fs \<noteq> []" using fs(1) by simp
  obtain t where t: "frees ?a fs = ?a # t" using frees_all_free [OF fs(2) ne] by blast
  have L2: "2 \<le> ?L" using bl(2) fs(1) by auto
  have g: "gap b ?m xs ?L ys" using bl L2 tg lk R by (auto simp: gap_def tagged_def add.assoc)
  have f1: "blocks ?m b ?a fs1" "\<forall>f \<in> set fs1. fst f = False" "total fs1 < 2 ^ 27" using bl(2) fs N by auto
  have "(if only then Some (hptr b (total (xs @ fs1))) else back_while 0 ?m (hptr b (total (xs @ fs1)))) = Some (hptr b ?a)"
    using back_while_run [OF f1] stop_before [of b xs "fs @ ys" ?m False] tg ends(1) by (auto simp: hptr_def)
  moreover have f2: "blocks ?m b (?a + total fs1 + n) fs2" "\<forall>f \<in> set fs2. fst f = False" "total fs2 < 2 ^ 27"
    using bl(2) fs N by (auto simp: add.assoc)
  have "getFooter ?m (hptr b (total (xs @ fs1))) = cell b (2 * (?a + total fs1 + n))"
    using getFooter_block [of ?m b "?a + total fs1" False n] bl(2) fs(1) by (simp add: hptr_def add.assoc)
  then have "forward_while 0 ?m (getFooter ?m (hptr b (total (xs @ fs1)))) = Some (cell b (2 * (?a + ?L)))"
    using forward_while_run [OF f2] stop_after [of b "xs @ fs" ys ?m False] tg ends(2) fs(1) by (simp add: add.assoc)
  moreover have prevPt: "?m (prev_of (hptr b ?a)) = last_or b 0 ?A" using lk t by simp
  moreover have nextPt: "?m (next_of (getHeader ?m (cell b (2 * (?a + ?L))))) = head_or b ?B 0"
    by (rule run_last [OF _ bl(2) fs(2) ne, of "last_or b 0 ?A"]) (use lk in simp)
  moreover have "(cell b (2 * (?a + ?L)) + 8 - hptr b ?a) div 16 = of_nat ?L"
    using cell_dist [of "2 * ?a + 1" "2 * (?a + ?L) + 1" b] N by (simp add: hptr_def)
  moreover define W where "W = set_requested 0 (set_block_size (of_nat ?L) (set_alloc 0 (?m (hptr b ?a))))"
  define m2 where "m2 = ?m(cell b (2 * ?a + 1) := W, cell b (2 * ?a + 2) := head_or b ?B 0, cell b (2 * ?a + 3) := last_or b 0 ?A)"
  define m3 where "m3 = (if head_or b ?B 0 \<noteq> 0 then m2(prev_of (head_or b ?B 0) := hptr b ?a) else m2)"
  define m4 where "m4 = (if last_or b 0 ?A \<noteq> 0 then m3(next_of (last_or b 0 ?A) := hptr b ?a) else m3)"
  define m5 where "m5 = m4(cell b (2 * (?a + ?L)) := W)"
  have lA: "?A \<noteq> [] \<Longrightarrow> last ?A + 2 \<le> ?a" using frees_range [OF bl(1), of "last ?A"] by simp
  have hB: "?B \<noteq> [] \<Longrightarrow> ?a + ?L \<le> hd ?B \<and> hd ?B + 2 \<le> ?N" using frees_range [OF bl(3), of "hd ?B"] by simp
  have pl: "m5 (cell b c) = placed b ?m ?a ?L ?A ?B W W c" if "c \<le> 2 * ?N + 1" for c
    unfolding m5_def by (rule splice_memory [OF R _ L2 lA hB m2_def m3_def m4_def that]) simp
  have B: "head_or b ?B 0 = (if ?B = [] then 0 else hptr b (hd ?B))" by (cases ?B) simp_all
  have A: "last_or b 0 ?A = (if ?A = [] then 0 else hptr b (last ?A))" by (simp add: last_or_def)
  have bd: "2 * ?a + 3 < 2 ^ 60" "?B \<noteq> [] \<Longrightarrow> 2 * hd ?B + 3 < 2 ^ 60" "?A \<noteq> [] \<Longrightarrow> 2 * last ?A + 2 < 2 ^ 60"
    using N lA hB L2 by auto
  have rd1: "m2 (cell b (2 * ?a + 2)) = head_or b ?B 0" "m2 (cell b (2 * ?a + 3)) = last_or b 0 ?A" "m2 (cell b (2 * ?a + 1)) = W"
    using bd(1) by (simp_all add: m2_def cell_inj)
  have rd2: "m3 (cell b (2 * ?a + 3)) = last_or b 0 ?A" "m3 (cell b (2 * ?a + 1)) = W"
    using bd(1,2) hB L2 rd1 by (cases "?B = []"; simp add: m3_def B cell_inj)+
  have rd: "m4 (hptr b ?a) = W"
    using bd(1,3) lA rd2 unfolding hptr_def by (cases "?A = []"; simp add: m4_def A cell_inj)
  have pv: "m5 (cell b (2 * ?a + 3)) = last_or b 0 ?A" using pl [of "2 * ?a + 3"] L2 by (simp add: placed_def)
  define s' where "s' = s\<lparr>hmem := m5, freelist_head := (if last_or b 0 ?A = 0 then hptr b ?a else freelist_head s)\<rparr>"
  have m1: "modify (hptr b ?a) (\<lambda>w. set_requested 0 (set_block_size (of_nat ?L) (set_alloc 0 w))) ?m = ?m(cell b (2 * ?a + 1) := W)"
    by (simp add: modify_def W_def hptr_def)
  ultimately have eq: "sf_coalescing s (hptr b (total (xs @ fs1))) only = Some (hptr b ?a, s')"
    unfolding sf_coalescing_def Let_def
    by (simp only: bind.bind_lunit links_hptr m1 m2_def [symmetric] rd1(1) m3_def [symmetric] rd2(1)
        m4_def [symmetric] rd m5_def [symmetric] pv s'_def if_cancel)
  have An: "?A \<noteq> [] \<Longrightarrow> last_or b 0 ?A \<noteq> 0" using hptr_nz [OF R, of "last ?A"] lA by (simp add: A)
  have "freelist_head s' = head_or b ?A (hptr b ?a)" using hd An by (cases ?A) (auto simp: s'_def t)
  then have "heap_wf b (xs @ (False, ?L) # ys) s' \<and>
      (\<forall>c \<in> payload 0 (xs @ (False, ?L) # ys). hmem s' (cell b c) = ?m (cell b c))"
    using N pl by (intro placed_wf [OF g, of W W]) (simp_all add: s'_def W_def)
  with payload_free [OF fs(2)] show ?thesis using eq by (auto simp: s'_def)
qed

end
