(* ===== verification/Heap_Alloc.thy ===== *)
theory Heap_Alloc
  imports Heap_Layout
begin

text \<open>
  Allocation and release in the kernel heap.  The contract of \<open>sf_sbrk\<close> is the locale
  \<open>program_break\<close>, which \<open>kbrk\<close> fulfils.
\<close>

section \<open>Taking a free block\<close>

text \<open>Sizes in words, as numbers.\<close>

lemma of_nat_words:
  assumes "x < 2 ^ 60" "y < 2 ^ 60"
  shows "(of_nat x :: u64) < of_nat y \<longleftrightarrow> x < y" "(of_nat x :: u64) = of_nat y \<longleftrightarrow> x = y"
    "(of_nat x :: u64) = 0 \<longleftrightarrow> x = 0" "(of_nat (2 * x) :: u64) div 2 = of_nat x"
proof -
  have u: "unat (of_nat x :: u64) = x" "unat (of_nat y :: u64) = y" "unat (of_nat (2 * x) :: u64) = 2 * x"
    using assms by (intro unat_nat64; simp)+
  show "(of_nat x :: u64) < of_nat y \<longleftrightarrow> x < y" by (simp only: word_less_nat_alt u)
  show "(of_nat x :: u64) = of_nat y \<longleftrightarrow> x = y" by (simp only: word_unat_eq_iff u)
  show "(of_nat x :: u64) = 0 \<longleftrightarrow> x = 0" by (simp only: word_unat_eq_iff u unat_0)
  have "unat ((of_nat (2 * x) :: u64) div 2) = unat (of_nat x :: u64)" by (simp only: unat_div u) simp
  then show "(of_nat (2 * x) :: u64) div 2 = of_nat x" by (simp only: word_unat_eq_iff)
qed

lemma of_nat_minus: "y \<le> x \<Longrightarrow> (of_nat x :: u64) - of_nat y = of_nat (x - y)"
  by (simp add: of_nat_diff)

lemma splice_after:
  assumes r: "heap_range b N" "a + n \<le> N" "2 \<le> n" "A \<noteq> [] \<Longrightarrow> last A + 2 \<le> a" "B \<noteq> [] \<Longrightarrow> a + n \<le> hd B \<and> hd B + 2 \<le> N"
    and m4: "m4 = m(cell b (2 * a + 1) := w, cell b (2 * (a + n)) := w', cell b (2 * a + 2) := head_or b B 0,
      cell b (2 * a + 3) := last_or b 0 A)"
    and m5: "m5 = (if head_or b B 0 \<noteq> 0 then m4(prev_of (head_or b B 0) := hptr b a) else m4)"
    and m6: "m6 = (if last_or b 0 A = 0 then m5 else m5(next_of (last_or b 0 A) := hptr b a))"
    and c: "c \<le> 2 * N + 1"
  shows "m6 (cell b c) = placed b m a n A B w w' c"
proof -
  have N: "N < 2 ^ 27" using r(1) by (simp add: heap_range_def)
  have B: "head_or b B 0 = (if B = [] then 0 else cell b (2 * hd B + 1))" by (cases B) (simp_all add: hptr_def)
  have A: "last_or b 0 A = (if A = [] then 0 else cell b (2 * last A + 1))" by (simp add: last_or_def hptr_def)
  have nz: "A \<noteq> [] \<Longrightarrow> cell b (2 * last A + 1) \<noteq> 0" "B \<noteq> [] \<Longrightarrow> cell b (2 * hd B + 1) \<noteq> 0"
    using hptr_nz [OF r(1), of "last A"] hptr_nz [OF r(1), of "hd B"] r by (auto simp: hptr_def)
  show ?thesis using r(2-5) N c nz
    by (cases "A = []"; cases "B = []") (auto simp: m4 m5 m6 A B placed_def cell_inj hptr_def)
qed

text \<open>The parts of the heap around a free block.\<close>

lemma heap_wf_gap:
  assumes "heap_wf b (xs @ (False, n) # ys) s"
  shows "gap b (hmem s) xs n ys" "hmem s (prev_of (hptr b (total xs))) = last_or b 0 (frees 0 xs)"
    "hmem s (next_of (hptr b (total xs))) = head_or b (frees (total xs + n) ys) 0"
    "tag (hmem s (hptr b (total xs))) False n" "tag (hmem s (cell b (2 * (total xs + n)))) False n"
proof -
  show "gap b (hmem s) xs n ys" "hmem s (prev_of (hptr b (total xs))) = last_or b 0 (frees 0 xs)"
    "hmem s (next_of (hptr b (total xs))) = head_or b (frees (total xs + n) ys) 0"
    using assms by (auto simp: heap_wf_def gap_def add.assoc)
  show "tag (hmem s (hptr b (total xs))) False n" "tag (hmem s (cell b (2 * (total xs + n)))) False n"
    using assms by (auto simp: heap_wf_def hptr_def)
qed

lemma gap_ranges:
  assumes "gap b m xs n ys"
  shows "frees 0 xs \<noteq> [] \<Longrightarrow> last (frees 0 xs) + 2 \<le> total xs"
    "frees (total xs + n) ys \<noteq> [] \<Longrightarrow> total xs + n \<le> hd (frees (total xs + n) ys) \<and>
       hd (frees (total xs + n) ys) + 2 \<le> total xs + n + total ys"
    "total xs + n + total ys < 2 ^ 27" "2 \<le> n"
  using assms frees_range [of m b 0 xs "last (frees 0 xs)"] frees_range [of m b "total xs + n" ys "hd (frees (total xs + n) ys)"]
  by (auto simp: gap_def heap_range_def)

text \<open>Splitting off the first \<open>k\<close> units of a gap, with allocated tags.\<close>

lemma gap_split:
  assumes g: "gap b m xs n ys" and k: "2 \<le> k" "k + 2 \<le> n" and w: "tag w True k" "tag w' True k"
  shows "gap b (m(cell b (2 * total xs + 1) := w, cell b (2 * (total xs + k)) := w')) (xs @ [(True, k)]) (n - k) ys"
proof -
  let ?m' = "m(cell b (2 * total xs + 1) := w, cell b (2 * (total xs + k)) := w')"
  note r = gap_ranges [OF g]
  have bl: "blocks m b 0 xs" "blocks m b (total xs + n) ys" using g by (auto simp: gap_def)
  have eq: "?m' (cell b c) = m (cell b c)"
    if "c \<noteq> 2 * total xs + 1" "c \<noteq> 2 * (total xs + k)" "c \<le> 2 * (total xs + n + total ys) + 1" for c
    using that r k by (simp add: cell_inj)
  have "blocks ?m' b 0 xs" using bl(1)
    by (rule blocks_cong) (use tags_range [OF bl(1)] k in \<open>fastforce intro!: eq\<close>)
  moreover have "blocks ?m' b (total xs + n) ys" using bl(2)
    by (rule blocks_cong) (use tags_range [OF bl(2)] k in \<open>fastforce intro!: eq\<close>)
  moreover obtain e p where l: "linked m b 0 (frees 0 xs) e" "linked m b p (frees (total xs + n) ys) 0"
    using g by (auto simp: gap_def)
  have "linked ?m' b 0 (frees 0 xs) e" using l(1)
    by (rule linked_cong) (use frees_range [OF bl(1)] k in \<open>fastforce intro!: eq\<close>)
  moreover have "linked ?m' b p (frees (total xs + n) ys) 0" using l(2)
    by (rule linked_cong) (use frees_range [OF bl(2)] k in \<open>fastforce intro!: eq\<close>)
  moreover have "?m' (cell b (2 * total xs + 1)) = w" "?m' (cell b (2 * (total xs + k))) = w'"
    using r k by (simp_all add: cell_inj)
  moreover have "?m' (cell b 0) = m (cell b 0)"
    "?m' (cell b (2 * (total xs + n + total ys) + 1)) = m (cell b (2 * (total xs + n + total ys) + 1))"
    using k by (intro eq; simp)+
  ultimately show ?thesis using g k w by (auto simp: gap_def add.assoc)
qed

text \<open>A block that is taken as a whole leaves the list.\<close>

lemma taken_wf:
  assumes g: "gap b m xs n ys" and w: "tag w True n" "tag w' True n"
    and m2: "m2 = m(cell b (2 * total xs + 1) := w, cell b (2 * (total xs + n)) := w')"
    and m3: "m3 = (if head_or b (frees (total xs + n) ys) 0 \<noteq> 0
      then m2(prev_of (head_or b (frees (total xs + n) ys) 0) := last_or b 0 (frees 0 xs)) else m2)"
    and m4: "hmem s = (if last_or b 0 (frees 0 xs) = 0 then m3
      else m3(next_of (last_or b 0 (frees 0 xs)) := head_or b (frees (total xs + n) ys) 0))"
    and h: "freelist_head s = head_or b (frees 0 xs) (head_or b (frees (total xs + n) ys) 0)"
  shows "heap_wf b (xs @ (True, n) # ys) s \<and>
     (\<forall>c \<in> payload 0 xs \<union> payload (total xs + n) ys. hmem s (cell b c) = m (cell b c))"
proof -
  let ?A = "frees 0 xs" and ?B = "frees (total xs + n) ys" and ?a = "total xs" and ?N = "total xs + n + total ys"
  note r = gap_ranges [OF g]
  have R: "heap_range b ?N" using g by (simp add: gap_def)
  have B: "head_or b ?B 0 = (if ?B = [] then 0 else cell b (2 * hd ?B + 1))" by (cases ?B) (simp_all add: hptr_def)
  have A: "last_or b 0 ?A = (if ?A = [] then 0 else cell b (2 * last ?A + 1))" by (simp add: last_or_def hptr_def)
  have nz: "?A \<noteq> [] \<Longrightarrow> cell b (2 * last ?A + 1) \<noteq> 0" "?B \<noteq> [] \<Longrightarrow> cell b (2 * hd ?B + 1) \<noteq> 0"
    using hptr_nz [OF R, of "last ?A"] hptr_nz [OF R, of "hd ?B"] r by (auto simp: hptr_def)
  have eq: "hmem s (cell b c) = (if c = 2 * ?a + 1 then w else if c = 2 * (?a + n) then w'
      else if ?A \<noteq> [] \<and> c = 2 * last ?A + 2 then head_or b ?B 0
      else if ?B \<noteq> [] \<and> c = 2 * hd ?B + 3 then last_or b 0 ?A else m (cell b c))" if "c \<le> 2 * ?N + 1" for c
    unfolding m4 m3 m2 using that r nz by (cases "?A = []"; cases "?B = []") (auto simp: A B cell_inj)
  have "heap_wf b (xs @ [(True, n)] @ ys) s \<and>
     (\<forall>c \<in> payload 0 xs \<union> payload (total xs + n) ys. hmem s (cell b c) = m (cell b c))"
    by (rule fill_gap [OF g]) (use w r h in \<open>auto simp: eq touched_def\<close>)
  then show ?thesis by simp
qed

text \<open>The words written for a header and its footer.\<close>

definition tag_word :: "u64 \<Rightarrow> u64 \<Rightarrow> u64 \<Rightarrow> u64 \<Rightarrow> u64" where
  "tag_word al n r w = set_requested r (set_block_size n (set_alloc al w))"

lemma tag_word [simp]:
  "n < 2 ^ 28 \<Longrightarrow> tag (tag_word 1 (of_nat n) r w) True n" "n < 2 ^ 28 \<Longrightarrow> tag (tag_word 0 (of_nat n) r w) False n"
  by (simp_all add: tag_word_def)

lemma tag_words:
  assumes "m1 = modify (hptr b a) (tag_word al (of_nat n) r) m" "n < 2 ^ 28" "1 \<le> n"
  shows "block_size (m1 (hptr b a)) = of_nat n" "getFooter m1 (hptr b a) = cell b (2 * (a + n))"
    "modify (getFooter m1 (hptr b a)) (tag_word al (of_nat n) 0) m1 =
       m(cell b (2 * a + 1) := tag_word al (of_nat n) r (m (cell b (2 * a + 1))),
         cell b (2 * (a + n)) := tag_word al (of_nat n) 0 (m1 (cell b (2 * (a + n)))))"
proof -
  show 1: "block_size (m1 (hptr b a)) = of_nat n" using size_mask [OF assms(2)] by (simp add: assms(1) modify_def tag_word_def)
  then show 2: "getFooter m1 (hptr b a) = cell b (2 * (a + n))"
    using assms(3) by (simp add: getFooter_def hptr_def)
  show "modify (getFooter m1 (hptr b a)) (tag_word al (of_nat n) 0) m1 =
       m(cell b (2 * a + 1) := tag_word al (of_nat n) r (m (cell b (2 * a + 1))),
         cell b (2 * (a + n)) := tag_word al (of_nat n) 0 (m1 (cell b (2 * (a + n)))))"
    by (subst 2) (simp add: modify_def assms(1) hptr_def)
qed

text \<open>A block that is not much larger than needed is taken whole, whether it is large enough or not.\<close>

lemma sf_allocate_whole:
  assumes wf: "heap_wf b (xs @ (False, n) # ys) s" and k: "real8 sz = of_nat (2 * k)" "k < 2 ^ 59" "n < k + 2"
  shows "\<exists>s'. sf_allocate s (hptr b (total xs)) sz = Some (cell b (2 * total xs + 2), s') \<and>
     heap_wf b (xs @ (True, n) # ys) s' \<and>
     (\<forall>c \<in> payload 0 (xs @ (False, n) # ys). hmem s' (cell b c) = hmem s (cell b c)) \<and>
     brk_state s' = brk_state s \<and> heapStartPtr s' = heapStartPtr s \<and> firstPageInitialized s' = firstPageInitialized s"
proof -
  note g = heap_wf_gap [OF wf]
  note r = gap_ranges [OF g(1)]
  let ?m = "hmem s" and ?a = "total xs" and ?A = "frees 0 xs" and ?B = "frees (total xs + n) ys"
  have R: "heap_range b (?a + n + total ys)" using g(1) by (simp add: gap_def)
  have hd: "freelist_head s = head_or b ?A (hptr b ?a)" using wf by (simp add: heap_wf_def)
  have A0: "last_or b 0 ?A = 0 \<longleftrightarrow> ?A = []" using hptr_nz [OF R, of "last ?A"] r(1) by (auto simp: last_or_def)
  have av: "2 * block_size (?m (hptr b ?a)) = of_nat (2 * n)" using g(4) by (simp add: tag_def)
  have lt: "(of_nat (2 * n) :: u64) - 4 < of_nat (2 * k) \<longleftrightarrow> True"
    using of_nat_words(1) [of "2 * n - 4" "2 * k"] of_nat_minus [of 4 "2 * n"] r k by auto
  define m1 where "m1 = modify (hptr b ?a) (tag_word 1 (of_nat n) sz) ?m"
  define w where "w = tag_word 1 (of_nat n) sz (?m (cell b (2 * ?a + 1)))"
  define w' where "w' = tag_word 1 (of_nat n) 0 (m1 (cell b (2 * (?a + n))))"
  define m2 where "m2 = ?m(cell b (2 * ?a + 1) := w, cell b (2 * (?a + n)) := w')"
  define m3 where "m3 = (if head_or b ?B 0 \<noteq> 0 then m2(prev_of (head_or b ?B 0) := last_or b 0 ?A) else m2)"
  define s' where "s' = (if last_or b 0 ?A = 0 then s\<lparr>hmem := m3, freelist_head := head_or b ?B 0\<rparr>
    else s\<lparr>hmem := m3(next_of (last_or b 0 ?A) := head_or b ?B 0)\<rparr>)"
  have t: "block_size (m1 (hptr b ?a)) = of_nat n" "modify (getFooter m1 (hptr b ?a)) (tag_word 1 (of_nat n) 0) m1 = m2"
    using tag_words [OF m1_def] r by (simp_all add: m2_def w_def w'_def)
  have d: "(of_nat (2 * n) :: u64) div 2 = of_nat n" using of_nat_words(4) [of n n] r by simp
  have "sf_allocate s (hptr b ?a) sz = Some (cell b (2 * ?a + 2), s')"
    by (simp only: sf_allocate_def Let_def av k(1) lt g(2,3) d tag_word_def [symmetric] m1_def [symmetric] t
        m3_def [symmetric] hptr_add simp_thms if_True if_False diff_self) (simp add: s'_def)
  moreover have "heap_wf b (xs @ (True, n) # ys) s' \<and>
     (\<forall>c \<in> payload 0 xs \<union> payload (?a + n) ys. hmem s' (cell b c) = ?m (cell b c))"
    by (rule taken_wf [OF g(1) _ _ m2_def m3_def]) (use r A0 hd in \<open>auto simp: w_def w'_def s'_def head_or_ne\<close>)
  ultimately show ?thesis by (intro exI [of _ s']) (auto simp: s'_def)
qed

lemma sf_allocate_spec:
  assumes wf: "heap_wf b (xs @ (False, n) # ys) s" and k: "real8 sz = of_nat (2 * k)" "2 \<le> k" "k \<le> n"
  shows "\<exists>k' s'. sf_allocate s (hptr b (total xs)) sz = Some (cell b (2 * total xs + 2), s') \<and> k \<le> k' \<and> k' \<le> n \<and>
     heap_wf b (xs @ (True, k') # (if k' = n then [] else [(False, n - k')]) @ ys) s' \<and>
     (\<forall>c \<in> payload 0 (xs @ (False, n) # ys). hmem s' (cell b c) = hmem s (cell b c)) \<and>
     brk_state s' = brk_state s \<and> heapStartPtr s' = heapStartPtr s \<and> firstPageInitialized s' = firstPageInitialized s"
proof -
  note g = heap_wf_gap [OF wf]
  note r = gap_ranges [OF g(1)]
  let ?m = "hmem s" and ?a = "total xs" and ?A = "frees 0 xs" and ?B = "frees (total xs + n) ys"
  have R: "heap_range b (?a + n + total ys)" using g(1) by (simp add: gap_def)
  have hd: "freelist_head s = head_or b ?A (hptr b ?a)" using wf by (simp add: heap_wf_def)
  have A0: "last_or b 0 ?A = 0 \<longleftrightarrow> ?A = []" using hptr_nz [OF R, of "last ?A"] r(1) by (auto simp: last_or_def)
  have av: "2 * block_size (?m (hptr b ?a)) = of_nat (2 * n)" using g(4) by (simp add: tag_def)
  have lt: "(of_nat (2 * n) :: u64) - 4 < of_nat (2 * k) \<longleftrightarrow> n < k + 2"
    using of_nat_words(1) [of "2 * n - 4" "2 * k"] of_nat_minus [of 4 "2 * n"] r k by auto
  show ?thesis
  proof (cases "n < k + 2")
    case True
    then have "k < 2 ^ 59" using k r by simp
    from sf_allocate_whole [OF wf k(1) this True] show ?thesis using k(3) by (intro exI [of _ n]) simp
  next
    case False
    let ?zs = "xs @ [(True, k)]"
    define m1 where "m1 = modify (hptr b ?a) (tag_word 1 (of_nat k) sz) ?m"
    define w where "w = tag_word 1 (of_nat k) sz (?m (cell b (2 * ?a + 1)))"
    define w' where "w' = tag_word 1 (of_nat k) 0 (m1 (cell b (2 * (?a + k))))"
    define m2 where "m2 = ?m(cell b (2 * ?a + 1) := w, cell b (2 * (?a + k)) := w')"
    have t: "block_size (m1 (hptr b ?a)) = of_nat k" "modify (getFooter m1 (hptr b ?a)) (tag_word 1 (of_nat k) 0) m1 = m2"
      using tag_words [OF m1_def] r k by (simp_all add: m2_def w_def w'_def)
    define m3 where "m3 = modify (hptr b (?a + k)) (tag_word 0 (of_nat (n - k)) 0) m2"
    define v where "v = tag_word 0 (of_nat (n - k)) 0 (m2 (cell b (2 * (?a + k) + 1)))"
    define v' where "v' = tag_word 0 (of_nat (n - k)) 0 (m3 (cell b (2 * (?a + k + (n - k)))))"
    define m4 where "m4 = m2(cell b (2 * (?a + k) + 1) := v, cell b (2 * (?a + k + (n - k))) := v')"
    have u: "block_size (m3 (hptr b (?a + k))) = of_nat (n - k)"
      "modify (getFooter m3 (hptr b (?a + k))) (tag_word 0 (of_nat (n - k)) 0) m3 = m4"
      using tag_words [OF m3_def] r k False by (simp_all add: m4_def v_def v'_def)
    define m5 where "m5 = m4(cell b (2 * (?a + k) + 2) := head_or b ?B 0, cell b (2 * (?a + k) + 3) := last_or b 0 ?A)"
    define m6 where "m6 = (if head_or b ?B 0 \<noteq> 0 then m5(prev_of (head_or b ?B 0) := hptr b (?a + k)) else m5)"
    define s' where "s' = (if last_or b 0 ?A = 0 then s\<lparr>hmem := m6, freelist_head := hptr b (?a + k)\<rparr>
      else s\<lparr>hmem := m6(next_of (last_or b 0 ?A) := hptr b (?a + k))\<rparr>)"
    have d: "(of_nat (2 * n) :: u64) - of_nat (2 * k) = of_nat (2 * (n - k))" "(of_nat (2 * k) :: u64) div 2 = of_nat k"
      "(of_nat (2 * (n - k)) :: u64) div 2 = of_nat (n - k)" "(of_nat (2 * (n - k)) :: u64) \<noteq> 0"
      using of_nat_words(4) [of k k] of_nat_words(4) [of "n - k" k] of_nat_words(3) [of "2 * (n - k)" k]
        of_nat_minus [of "2 * k" "2 * n"] r k False by (simp_all add: diff_mult_distrib2)
    have "sf_allocate s (hptr b ?a) sz = Some (cell b (2 * ?a + 2), s')"
      by (simp only: sf_allocate_def Let_def av k(1) lt False g(2,3) [unfolded links_hptr] d tag_word_def [symmetric] m1_def [symmetric] t
          m3_def [symmetric] u links_hptr m5_def [symmetric] m6_def [symmetric] hptr_add simp_thms if_True if_False)
        (simp add: s'_def)
    moreover have g': "gap b m2 ?zs (n - k) ys"
      unfolding m2_def by (rule gap_split [OF g(1)]) (use k False r in \<open>simp_all add: w_def w'_def\<close>)
    have e: "?a + k + (n - k) = ?a + n" using k by simp
    have R': "heap_range b (?a + k + (n - k) + total ys)" "frees 0 ?zs = ?A" "total ?zs = ?a + k" using R e by simp_all
    note r' = gap_ranges [OF g', unfolded R'(2,3) e]
    have pl: "hmem s' (cell b c) = placed b m2 (?a + k) (n - k) ?A ?B v v' c" if "c \<le> 2 * (?a + n + total ys) + 1" for c
      by (rule splice_after [where a = "?a + k" and n = "n - k", OF R _ r'(4,1) _ m5_def [unfolded m4_def] m6_def _ that])
        (use k r'(2) e in \<open>simp_all add: s'_def\<close>)
    have "heap_wf b (?zs @ (False, n - k) # ys) s' \<and>
       (\<forall>c \<in> payload 0 (?zs @ (False, n - k) # ys). hmem s' (cell b c) = m2 (cell b c))"
    proof (rule placed_wf [OF g'])
      show "tag v False (n - k)" "tag v' False (n - k)"
        unfolding v_def v'_def by (rule tag_word(2); use r in simp)+
      show "hmem s' (cell b c) = placed b m2 (total ?zs) (n - k) (frees 0 ?zs) (frees (total ?zs + (n - k)) ys) v v' c"
        if "c \<le> 2 * (total ?zs + (n - k) + total ys) + 1" for c using that pl [of c] e by simp
      show "freelist_head s' = head_or b (frees 0 ?zs) (hptr b (total ?zs))"
        using A0 hd by (auto simp: s'_def head_or_ne)
    qed
    moreover have "m2 (cell b c) = ?m (cell b c)" if "c \<in> payload 0 (xs @ (False, n) # ys)" for c
    proof -
      have "blocks ?m b 0 xs" "blocks ?m b (?a + n) ys" using g(1) by (auto simp: gap_def)
      with that have "c < 2 * ?a \<or> 2 * (?a + n) + 2 \<le> c \<and> c < 2 * (?a + n + total ys)"
        by (auto dest: payload_range)
      then show ?thesis using r k by (auto simp: m2_def cell_inj)
    qed
    moreover have "brk_state s' = brk_state s" "heapStartPtr s' = heapStartPtr s" "firstPageInitialized s' = firstPageInitialized s"
      by (simp_all add: s'_def)
    ultimately show ?thesis using k False by (intro exI [of _ k] exI [of _ s']) auto
  qed
qed

section \<open>Searching the free list\<close>

lemma int_small:
  assumes "x < 2 ^ 31"
  shows "sint (of_nat x :: u32) = int x" "(scast (of_nat x :: u32) :: u64) = of_nat x"
proof -
  show i: "sint (of_nat x :: u32) = int x"
    using assms sint_small [of "of_nat x :: u32"] by (simp add: unat_of_nat take_bit_nat_eq_self)
  show "(scast (of_nat x :: u32) :: u64) = of_nat x" by (simp add: scast_eq i)
qed

lemma bytes_int_tag:
  assumes "tag w al n" "n < 2 ^ 27"
  shows "bytes_int w = of_nat (16 * n)"
proof -
  have "(ucast (of_nat n :: u64) :: u32) = of_nat n"
    using assms(2) by (simp add: word_unat_eq_iff unsigned_ucast_eq unat_of_nat take_bit_nat_eq_self)
  then show ?thesis using assms(1) by (simp add: bytes_int_def tag_def push_bit_eq_mult mult.commute)
qed

text \<open>The first fit, or the last free block when nothing fits.\<close>

definition search_result :: "u64 \<Rightarrow> nat \<Rightarrow> ptr \<Rightarrow> nat \<Rightarrow> block list \<Rightarrow> (ptr \<times> ptr) option \<Rightarrow> bool" where
  "search_result b k p o' ys r \<longleftrightarrow>
     (\<exists>l zs n ws. r = Some (l, hptr b (o' + total zs)) \<and> ys = zs @ (False, n) # ws \<and> k \<le> n) \<or>
     r = Some (last_or b p (frees o' ys), 0) \<and> (\<forall>n. (False, n) \<in> set ys \<longrightarrow> n < k)"

lemma search_result_Cons:
  assumes "search_result b k p' (o' + n) ys r" "al \<and> p' = p \<or> \<not> al \<and> n < k \<and> p' = hptr b o'"
  shows "search_result b k p o' ((al, n) # ys) r"
  using assms(1) unfolding search_result_def
proof
  assume "\<exists>l zs n' ws. r = Some (l, hptr b (o' + n + total zs)) \<and> ys = zs @ (False, n') # ws \<and> k \<le> n'"
  then obtain l zs n' ws where "r = Some (l, hptr b (o' + n + total zs))" "ys = zs @ (False, n') # ws" "k \<le> n'" by blast
  then have "\<exists>l zs n'' ws. r = Some (l, hptr b (o' + total zs)) \<and> (al, n) # ys = zs @ (False, n'') # ws \<and> k \<le> n''"
    by (intro exI [of _ l] exI [of _ "(al, n) # zs"] exI [of _ n'] exI [of _ ws]) (simp add: add.assoc)
  then show "(\<exists>l zs n'' ws. r = Some (l, hptr b (o' + total zs)) \<and> (al, n) # ys = zs @ (False, n'') # ws \<and> k \<le> n'') \<or>
      r = Some (last_or b p (frees o' ((al, n) # ys)), 0) \<and> (\<forall>n'. (False, n') \<in> set ((al, n) # ys) \<longrightarrow> n' < k)" ..
qed (use assms(2) in auto)

lemma find_free_from:
  assumes "blocks m b o' ys" "linked m b p (frees o' ys) 0" "heap_range b (o' + total ys)" "k < 2 ^ 27"
  shows "search_result b k p o' ys (find_free m (of_nat (16 * k)) p (head_or b (frees o' ys) 0))"
  using assms
proof (induction ys arbitrary: o' p)
  case Nil
  then show ?case by (subst find_free.simps) (simp add: search_result_def)
next
  case (Cons y ys)
  obtain al n where y: "y = (al, n)" by force
  have R: "heap_range b (o' + n + total ys)" and n: "n < 2 ^ 27" using Cons.prems by (simp_all add: y heap_range_def add.assoc)
  have bl: "blocks m b (o' + n) ys" using Cons.prems(1) by (simp add: y)
  note ih = Cons.IH [OF bl _ R Cons.prems(4)]
  show ?case
  proof (cases al)
    case True
    with ih [of p] Cons.prems(2) show ?thesis unfolding y by (intro search_result_Cons [of b k p]) simp_all
  next
    case False
    let ?h = "hptr b o'"
    have nz: "?h \<noteq> 0" by (rule hptr_nz [OF Cons.prems(3)]) simp
    have "tag (m ?h) False n" using Cons.prems(1) by (simp add: y False hptr_def)
    then have sz: "sint (bytes_int (m ?h)) = int (16 * n)" using n int_small(1) [of "16 * n"] by (simp add: bytes_int_tag)
    have need: "sint (of_nat (16 * k) :: u32) = int (16 * k)" using int_small(1) [of "16 * k"] Cons.prems(4) by simp
    have l: "linked m b ?h (frees (o' + n) ys) 0" "m (next_of ?h) = head_or b (frees (o' + n) ys) 0"
      using Cons.prems(2) by (simp_all add: y False)
    show ?thesis
    proof (cases "k \<le> n")
      case True
      then have "find_free m (of_nat (16 * k)) p ?h = Some (p, hptr b (o' + total []))"
        using nz sz need by (subst find_free.simps) simp
      then show ?thesis using True y False unfolding search_result_def
        by (intro disjI1 exI [of _ p] exI [of _ "[]"] exI [of _ n] exI [of _ ys]) simp
    next
      case small: False
      then have "find_free m (of_nat (16 * k)) p ?h = find_free m (of_nat (16 * k)) ?h (head_or b (frees (o' + n) ys) 0)"
        using nz sz need l(2) by (subst find_free.simps) simp
      with ih [OF l(1)] small False show ?thesis unfolding y by (intro search_result_Cons [of b k ?h]) simp_all
    qed
  qed
qed

section \<open>More space\<close>

text \<open>
  The contract of \<open>sf_sbrk\<close>: \<open>pages_at st n\<close> when \<open>n\<close> pages have been handed out from \<open>base\<close> on, and
  \<open>room st m\<close> when \<open>m\<close> more can be.
\<close>

locale program_break =
  fixes sbrk :: "'s sbrk" and base :: u64 and pages_at :: "'s \<Rightarrow> nat \<Rightarrow> bool" and room :: "'s \<Rightarrow> nat \<Rightarrow> bool"
  assumes base_ok: "0 < unat base" "base AND 15 = 0" "unat base + 4096 * (509 * 512) + 16 \<le> 2 ^ 64"
    and query: "pages_at st n \<Longrightarrow> sbrk 0 st = Some (base + of_nat (4096 * n), st)"
    and extend: "pages_at st n \<Longrightarrow> room st m \<Longrightarrow> 0 < m \<Longrightarrow>
      \<exists>st'. sbrk (of_nat (4096 * m)) st = Some (base + of_nat (4096 * n), st') \<and> pages_at st' (n + m)"
    and bound: "pages_at st n \<Longrightarrow> n \<le> 509 * 512"
    and room_less: "room st m \<Longrightarrow> m' \<le> m \<Longrightarrow> room st m'"

lemma init_free_block_wf:
  assumes h: "(if firstPageInitialized s then startPt - 8 else startPt + 8) = hptr b (total bs)"
    and sz: "(if firstPageInitialized s then drop_bit 4 sz else drop_bit 4 sz - 1) = of_nat n"
    and n: "2 \<le> n" and R: "heap_range b (total bs + n)"
    and wf: "firstPageInitialized s \<and> heap_wf b bs s \<or> \<not> firstPageInitialized s \<and> bs = []"
  shows "\<exists>s1. init_free_block s startPt (last_or b 0 (frees 0 bs)) sz = (hptr b (total bs), s1) \<and>
     heap_wf b (bs @ [(False, n)]) s1 \<and> (\<forall>c \<in> payload 0 bs. hmem s1 (cell b c) = hmem s (cell b c)) \<and>
     brk_state s1 = brk_state s \<and> firstPageInitialized s1 = firstPageInitialized s \<and>
     heapStartPtr s1 = (if firstPageInitialized s then heapStartPtr s else hptr b 0)"
proof -
  let ?m = "hmem s" and ?T = "total bs" and ?A = "frees 0 bs"
  have N: "?T + n < 2 ^ 27" using R by (simp add: heap_range_def)
  define m0 where "m0 = (if firstPageInitialized s then ?m else ?m(cell b 0 := 0))(cell b (2 * (?T + n) + 1) := 0)"
  have m0: "m0 (cell b c) = ?m (cell b c)" if "0 < c" "c \<le> 2 * (?T + n)" for c
    using that N by (simp add: m0_def cell_inj)
  have bl: "blocks ?m b 0 bs" "\<exists>e. linked ?m b 0 ?A e" "firstPageInitialized s \<Longrightarrow> block_size (?m (cell b 0)) = 0"
    "firstPageInitialized s \<Longrightarrow> freelist_head s = head_or b ?A 0"
    using wf by (auto simp: heap_wf_def)
  have lA: "?A \<noteq> [] \<Longrightarrow> last ?A + 2 \<le> ?T" using frees_range [OF bl(1), of "last ?A"] by simp
  have "blocks m0 b 0 bs" using bl(1) by (rule blocks_cong) (use tags_range [OF bl(1)] in \<open>fastforce intro!: m0\<close>)
  moreover obtain e where "linked ?m b 0 ?A e" using bl(2) by blast
  then have "linked m0 b 0 ?A e" by (rule linked_cong) (use frees_range [OF bl(1)] in \<open>fastforce intro!: m0\<close>)
  moreover have "block_size (m0 (cell b 0)) = 0" "m0 (cell b (2 * (?T + n) + 1)) = 0"
    using bl(3) N n by (auto simp: m0_def cell_inj block_size_def)
  ultimately have g: "gap b m0 bs n []" using n R by (auto simp: gap_def block_size_def)
  define w where "w = tag_word 0 (of_nat n) 0 (?m (cell b (2 * ?T + 1)))"
  define m1 where "m1 = ?m(cell b (2 * ?T + 1) := w, cell b (2 * ?T + 2) := 0, cell b (2 * ?T + 3) := last_or b 0 ?A)"
  define w' where "w' = tag_word 0 (of_nat n) 0 (m1 (cell b (2 * (?T + n))))"
  define m4 where "m4 = (if firstPageInitialized s then m1(cell b (2 * (?T + n)) := w')
    else m1(cell b (2 * (?T + n)) := w', hptr b ?T - 8 := 0))(cell b (2 * (?T + n) + 1) := 0)"
  define s1 where "s1 = s\<lparr>hmem := (if last_or b 0 ?A \<noteq> 0 then m4(next_of (last_or b 0 ?A) := hptr b ?T) else m4),
    heapStartPtr := (if firstPageInitialized s then heapStartPtr s else hptr b ?T),
    freelist_head := (if last_or b 0 ?A \<noteq> 0 then freelist_head s else hptr b ?T)\<rparr>"
  have tw: "tag w False n" "tag w' False n" using N by (simp_all add: w_def w'_def)
  have "m1 (hptr b ?T) = w" using N n by (simp add: m1_def hptr_def cell_inj)
  then have ft: "getFooter m1 (hptr b ?T) = cell b (2 * (?T + n))" "cell b (2 * (?T + n)) + 8 = cell b (2 * (?T + n) + 1)"
    using getFooter_block [of m1 b ?T False n] tw(1) n by (simp_all add: hptr_def)
  have md: "(modify (hptr b ?T) (tag_word 0 (of_nat n) 0) ?m)(next_of (hptr b ?T) := 0, prev_of (hptr b ?T) := last_or b 0 ?A) = m1"
    "modify (cell b (2 * (?T + n))) (tag_word 0 (of_nat n) 0) m1 = m1(cell b (2 * (?T + n)) := w')"
    by (simp_all add: modify_def m1_def w_def w'_def hptr_def [of b ?T] numeral_3_eq_3)
  have eq: "init_free_block s startPt (last_or b 0 ?A) sz = (hptr b ?T, s1)"
    by (simp only: init_free_block_def Let_def h sz tag_word_def [symmetric] md ft s1_def m4_def)
  have A: "last_or b 0 ?A = (if ?A = [] then 0 else hptr b (last ?A))" by (simp add: last_or_def)
  have An: "?A \<noteq> [] \<Longrightarrow> hptr b (last ?A) \<noteq> 0" using hptr_nz [OF R, of "last ?A"] lA by simp
  have z: "\<not> firstPageInitialized s \<Longrightarrow> hptr b ?T - 8 = cell b 0 \<and> ?A = []" using wf by (auto simp: hptr_def)
  have pl: "hmem s1 (cell b c) = placed b m0 ?T n ?A [] w w' c" if "c \<le> 2 * (?T + n) + 1" for c
    using that N n lA An z
    by (cases "?A = []"; cases "firstPageInitialized s") (auto simp: s1_def m4_def m1_def m0_def A placed_def cell_inj)
  have "freelist_head s1 = head_or b ?A (hptr b ?T)" using bl(4) An z
    by (cases "firstPageInitialized s") (auto simp: s1_def A head_or_ne)
  then have "heap_wf b (bs @ [(False, n)]) s1 \<and> (\<forall>c \<in> payload 0 (bs @ [(False, n)]). hmem s1 (cell b c) = m0 (cell b c))"
    using placed_wf [OF g tw, of s1] pl by simp
  moreover have "m0 (cell b c) = ?m (cell b c)" if "c \<in> payload 0 bs" for c
    using payload_range [OF bl(1) that] by (intro m0) auto
  moreover have "heapStartPtr s1 = (if firstPageInitialized s then heapStartPtr s else hptr b 0)"
    "brk_state s1 = brk_state s" "firstPageInitialized s1 = firstPageInitialized s" using wf by (auto simp: s1_def)
  ultimately show ?thesis using eq by auto
qed

lemma page_count:
  assumes "m = (d + 4095) div 4096" "d < 2 ^ 40"
  shows "((of_nat d :: u64) + 4096 - 1) div 4096 = of_nat m"
proof -
  have e: "(of_nat d :: u64) + 4096 - 1 = of_nat (d + 4095)" by simp
  have "unat (of_nat (d + 4095) :: u64) = d + 4095" using assms(2) by (intro unat_nat64) simp
  moreover have "unat (of_nat m :: u64) = m" using assms by (intro unat_nat64) simp
  ultimately have "unat ((of_nat (d + 4095) :: u64) div 4096) = unat (of_nat m :: u64)"
    using assms(1) by (simp only: unat_div) simp
  then show ?thesis unfolding e by (simp only: word_unat_eq_iff)
qed

lemma page_bytes:
  assumes "4096 * m < 2 ^ 31"
  shows "(scast ((ucast (of_nat m :: u64) :: u32) * 4096) :: u64) = of_nat (4096 * m)"
    "drop_bit 4 (of_nat (4096 * m) :: u64) = of_nat (256 * m)"
proof -
  have "(ucast (of_nat m :: u64) :: u32) = of_nat m"
    using assms by (simp add: word_unat_eq_iff unsigned_ucast_eq unat_of_nat take_bit_nat_eq_self)
  then have "(ucast (of_nat m :: u64) :: u32) * 4096 = of_nat (4096 * m)" by (simp add: mult.commute)
  then show "(scast ((ucast (of_nat m :: u64) :: u32) * 4096) :: u64) = of_nat (4096 * m)"
    using int_small(2) [OF assms] by simp
  have u: "unat (of_nat (4096 * m) :: u64) = 4096 * m" "unat (of_nat (256 * m) :: u64) = 256 * m"
    using assms by (intro unat_nat64; simp)+
  have "unat (drop_bit 4 (of_nat (4096 * m) :: u64)) = unat (of_nat (256 * m) :: u64)"
    unfolding unat_drop_bit_eq u by (simp add: drop_bit_eq_div)
  then show "drop_bit 4 (of_nat (4096 * m) :: u64) = of_nat (256 * m)" by (simp only: word_unat_eq_iff)
qed

text \<open>
  The invariant of the heap: the blocks fill the pages that were handed out, between the two
  marks; before the first request there is nothing.
\<close>

definition sf_inv :: "('s \<Rightarrow> nat \<Rightarrow> bool) \<Rightarrow> u64 \<Rightarrow> block list \<Rightarrow> 's sf_heap \<Rightarrow> bool" where
  "sf_inv pages_at b bs s \<longleftrightarrow> (\<exists>n. pages_at (brk_state s) n \<and>
     (if firstPageInitialized s then heap_wf b bs s \<and> heapStartPtr s = hptr b 0 \<and> total bs + 1 = 256 * n
      else bs = [] \<and> freelist_head s = 0 \<and> n = 0))"

text \<open>How many bytes are asked for: a free block at the end of the heap counts.\<close>

definition missing :: "'s sf_heap \<Rightarrow> block list \<Rightarrow> nat \<Rightarrow> nat" where
  "missing s bs k = (if firstPageInitialized s then 16 * k - (if fst (last bs) then 0 else 16 * snd (last bs)) else 16 * k + 16)"

lemma last_footer:
  assumes "heap_wf b bs s" "total bs + 1 = 256 * n"
  shows "\<exists>al q. last bs = (al, q) \<and> tag (hmem s (b + of_nat (4096 * n) - 16)) al q \<and> (al, q) \<in> set bs \<and> q < 2 ^ 27"
proof -
  have ne: "bs \<noteq> []" using assms(2) by auto
  then obtain bs' al q where bs: "bs = bs' @ [(al, q)]" by (metis append_butlast_last_id surj_pair)
  have "of_nat (4096 * n) = (of_nat (16 * total bs + 16) :: u64)" using arg_cong [OF assms(2), of "\<lambda>x. of_nat (16 * x) :: u64"] by (simp add: add.commute)
  then have "b + of_nat (4096 * n) - 16 = cell b (2 * total bs)" by (simp add: cell_def algebra_simps)
  moreover have "tag (hmem s (cell b (2 * total bs))) al q" "q < 2 ^ 27"
    using assms(1) by (auto simp: heap_wf_def bs heap_range_def)
  ultimately show ?thesis by (auto simp: bs)
qed

section \<open>Live blocks\<close>

text \<open>The abstract heap: offsets and sizes of the allocated blocks.\<close>

fun live :: "nat \<Rightarrow> block list \<Rightarrow> (nat \<times> nat) set" where
  "live o' [] = {}"
| "live o' ((al, n) # bs) = (if al then {(o', n)} else {}) \<union> live (o' + n) bs"

lemma live_append [simp]: "live o' (xs @ ys) = live o' xs \<union> live (o' + total xs) ys"
  by (induction xs arbitrary: o') (auto simp: add.assoc)

lemma live_free: "\<forall>f \<in> set fs. \<not> fst f \<Longrightarrow> live o' fs = {}"
  by (induction fs arbitrary: o') auto

lemma payload_live: "(x, n) \<in> live o' bs \<Longrightarrow> 2 * x + 2 \<le> c \<Longrightarrow> c < 2 * (x + n) \<Longrightarrow> c \<in> payload o' bs"
  by (induction bs arbitrary: o') (auto split: if_splits)

lemma live_range: "blocks m b o' bs \<Longrightarrow> (x, n) \<in> live o' bs \<Longrightarrow> o' \<le> x \<and> 2 \<le> n \<and> x + n \<le> o' + total bs"
  by (induction bs arbitrary: o') (fastforce split: if_splits)+

text \<open>Different blocks share nothing.\<close>

lemma live_apart:
  "blocks m b o' bs \<Longrightarrow> (x, n) \<in> live o' bs \<Longrightarrow> (y, k) \<in> live o' bs \<Longrightarrow> (x, n) = (y, k) \<or> x + n \<le> y \<or> y + k \<le> x"
proof (induction bs arbitrary: o')
  case (Cons bl bs)
  obtain al q where bl: "bl = (al, q)" by force
  have b: "blocks m b (o' + q) bs" using Cons.prems(1) by (simp add: bl)
  show ?case using Cons.prems(2,3) Cons.IH [OF b] live_range [OF b] by (auto simp: bl split: if_splits)
qed simp

lemma free_suffix:
  "\<exists>xs fs. bs = xs @ fs \<and> (\<forall>f \<in> set fs. \<not> fst f) \<and> (xs = [] \<or> fst (last xs)) \<and>
     (bs \<noteq> [] \<and> \<not> fst (last bs) \<longrightarrow> snd (last bs) \<le> total fs)"
proof (induction bs rule: rev_induct)
  case (snoc x bs)
  show ?case
  proof (cases "fst x")
    case True
    then show ?thesis by (intro exI [of _ "bs @ [x]"] exI [of _ "[]"]) simp
  next
    case False
    from snoc obtain xs fs where "bs = xs @ fs" "\<forall>f \<in> set fs. \<not> fst f" "xs = [] \<or> fst (last xs)" by blast
    with False show ?thesis by (intro exI [of _ xs] exI [of _ "fs @ [x]"]) auto
  qed
qed simp

text \<open>The size of a block for a request of \<open>n\<close> bytes.\<close>

definition units :: "nat \<Rightarrow> nat" where
  "units n = (n + 15) div 16 + 1"

lemma real8_units:
  assumes "unat sz \<le> 2 ^ 32"
  shows "real8 sz = of_nat (2 * units (unat sz))"
proof -
  have e: "sz + 16 - 1 = sz + 15" by simp
  have "unat (sz + 15) = unat sz + 15" using assms by (subst unat_add_nowrap) simp_all
  then have "unat ((sz + 16 - 1) div 16) = (unat sz + 15) div 16" unfolding e by (simp only: unat_div) simp
  moreover have "unat (of_nat ((unat sz + 15) div 16) :: u64) = (unat sz + 15) div 16"
    using assms by (intro unat_nat64) simp
  ultimately have "(sz + 16 - 1) div 16 = of_nat ((unat sz + 15) div 16)" by (metis word_unat_eq_iff)
  then show ?thesis by (simp add: real8_def units_def algebra_simps)
qed

lemma need_units:
  assumes "unat sz \<le> 2 ^ 30"
  shows "(ucast (real8 sz * 8) :: u32) = of_nat (16 * units (unat sz))"
    "(scast (of_nat (16 * units (unat sz)) :: u32) :: u64) = of_nat (16 * units (unat sz))"
    "sz \<noteq> 0 \<Longrightarrow> 2 \<le> units (unat sz)" "units (unat sz) < 2 ^ 27"
proof -
  show lt: "units (unat sz) < 2 ^ 27" using assms by (simp add: units_def)
  have e: "real8 sz * 8 = of_nat (16 * units (unat sz))" using real8_units assms by simp
  have "unat (of_nat (16 * units (unat sz)) :: u64) = 16 * units (unat sz)" using lt by (intro unat_nat64) simp
  moreover have "unat (of_nat (16 * units (unat sz)) :: u32) = 16 * units (unat sz)"
    using lt by (subst unat_of_nat) simp
  ultimately have "(ucast (of_nat (16 * units (unat sz)) :: u64) :: u32) = of_nat (16 * units (unat sz))"
    using lt by (simp only: word_unat_eq_iff unsigned_ucast_eq) (simp add: take_bit_nat_eq_self)
  then show "(ucast (real8 sz * 8) :: u32) = of_nat (16 * units (unat sz))" by (simp only: e)
  show "(scast (of_nat (16 * units (unat sz)) :: u32) :: u64) = of_nat (16 * units (unat sz))"
    using lt by (intro int_small(2)) simp
  show "2 \<le> units (unat sz)" if "sz \<noteq> 0"
    using that unat_gt_0 [of sz] by (simp add: units_def)
qed

lemma blocks_fields: "hmem s' = hmem s \<Longrightarrow> freelist_head s' = freelist_head s \<Longrightarrow> heap_wf b bs s' = heap_wf b bs s"
  by (simp add: heap_wf_def)

text \<open>
  What an allocation of at least \<open>k\<close> units does to the abstract heap: one block more, apart from all
  others, whose contents stay.
\<close>

definition allocates :: "u64 \<Rightarrow> block list \<Rightarrow> 's sf_heap \<Rightarrow> nat \<Rightarrow> nat \<Rightarrow> block list \<Rightarrow> 's sf_heap \<Rightarrow> bool" where
  "allocates b bs s k x bs' s' \<longleftrightarrow> (\<exists>n \<ge> k. live 0 bs' = insert (x, n) (live 0 bs) \<and>
     (\<forall>(y, j) \<in> live 0 bs. y + j \<le> x \<or> x + n \<le> y) \<and>
     (\<forall>c \<in> payload 0 bs. hmem s' (cell b c) = hmem s (cell b c)))"

lemma sf_allocate_inv:
  assumes inv: "sf_inv pages_at b (xs @ (False, n) # ys) s" and k: "real8 sz = of_nat (2 * k)" "2 \<le> k" "k \<le> n"
  shows "\<exists>s' bs'. sf_allocate s (hptr b (total xs)) sz = Some (cell b (2 * total xs + 2), s') \<and>
     sf_inv pages_at b bs' s' \<and> allocates b (xs @ (False, n) # ys) s k (total xs) bs' s'"
proof -
  let ?bs = "xs @ (False, n) # ys"
  from inv obtain i where i: "pages_at (brk_state s) i" "firstPageInitialized s" "heap_wf b ?bs s"
    "heapStartPtr s = hptr b 0" "total ?bs + 1 = 256 * i" unfolding sf_inv_def by (auto split: if_splits)
  from sf_allocate_spec [OF i(3) k] obtain k' s' where
    r: "sf_allocate s (hptr b (total xs)) sz = Some (cell b (2 * total xs + 2), s')" and k': "k \<le> k'" "k' \<le> n"
      and wf: "heap_wf b (xs @ (True, k') # (if k' = n then [] else [(False, n - k')]) @ ys) s'"
      and p: "\<forall>c \<in> payload 0 ?bs. hmem s' (cell b c) = hmem s (cell b c)"
      and st: "brk_state s' = brk_state s" "heapStartPtr s' = heapStartPtr s" "firstPageInitialized s' = firstPageInitialized s"
    by blast
  let ?bs' = "xs @ (True, k') # (if k' = n then [] else [(False, n - k')]) @ ys"
  have "total ?bs' = total ?bs" using k' by auto
  then have "sf_inv pages_at b ?bs' s'" unfolding sf_inv_def using i st wf by (intro exI [of _ i]) simp
  moreover have l: "live 0 ?bs' = insert (total xs, k') (live 0 ?bs)" using k' by auto
  have "blocks (hmem s) b 0 xs" "blocks (hmem s) b (total xs + n) ys" using i(3) by (auto simp: heap_wf_def)
  then have "\<forall>(y, j) \<in> live 0 ?bs. y + j \<le> total xs \<or> total xs + k' \<le> y"
    using k' by (auto dest: live_range)
  with l k'(1) p have "allocates b ?bs s k (total xs) ?bs' s'" unfolding allocates_def by (intro exI [of _ k'] conjI)
  ultimately show ?thesis using r by blast
qed

context program_break
begin

lemma limit: "pages_at st n \<Longrightarrow> room st m \<Longrightarrow> n + m \<le> 509 * 512"
  using bound [of st n] extend [of st n m] bound [of _ "n + m"] by (cases "m = 0") auto

lemma getMoreSpace_spec:
  assumes n: "pages_at (brk_state s) n"
    and init: "firstPageInitialized s \<Longrightarrow> heap_wf base bs s \<and> total bs + 1 = 256 * n"
    and k: "2 \<le> k" "k < 2 ^ 27" "\<And>q. (False, q) \<in> set bs \<Longrightarrow> q < k"
    and m: "m = (missing s bs k + 4095) div 4096" "room (brk_state s) m"
  shows "\<exists>st'. sf_getMoreSpace sbrk s (of_nat (16 * k)) = Some ((base + of_nat (4096 * n), of_nat (4096 * m)), s\<lparr>brk_state := st'\<rparr>) \<and>
     pages_at st' (n + m) \<and> 0 < m"
proof -
  have d: "0 < missing s bs k \<and> missing s bs k < 2 ^ 40 \<and>
      (if firstPageInitialized s then
         Option.bind (sbrk 0 (brk_state s)) (\<lambda>(b, st).
           let w = hmem s (b - 16); sz' = (if h_alloc w = 0 then of_nat (16 * k) - scast (bytes_int w) else of_nat (16 * k))
           in Some (ucast ((sz' + 4096 - 1) div 4096 :: u64) :: u32, s\<lparr>brk_state := st\<rparr>))
       else Some (ucast ((of_nat (16 * k) + 16 + 4096 - 1) div 4096 :: u64), s)) = Some (ucast (of_nat m :: u64), s)"
  proof (cases "firstPageInitialized s")
    case True
    from last_footer [of base bs s n] init [OF True] obtain al q where l: "last bs = (al, q)" "(al, q) \<in> set bs" "q < 2 ^ 27"
      "tag (hmem s (base + of_nat (4096 * n) - 16)) al q" by blast
    let ?w = "hmem s (base + of_nat (4096 * n) - 16)"
    have w: "h_alloc ?w = 0 \<longleftrightarrow> \<not> al" "(scast (bytes_int ?w) :: u64) = of_nat (16 * q)"
      using l(3,4) int_small(2) [of "16 * q"] bytes_int_tag [OF l(4,3)] by (auto simp: tag_def)
    have q: "\<not> al \<Longrightarrow> q < k" using k(3) l(2) by auto
    have e: "missing s bs k = (if al then 16 * k else 16 * k - 16 * q)" using True l(1) by (simp add: missing_def)
    have "(if h_alloc ?w = 0 then of_nat (16 * k) - scast (bytes_int ?w) else of_nat (16 * k)) = (of_nat (missing s bs k) :: u64)"
      using w q e of_nat_minus [of "16 * q" "16 * k"] by auto
    moreover have "0 < missing s bs k" "missing s bs k < 2 ^ 40" using e q k by auto
    moreover have "s\<lparr>brk_state := brk_state s\<rparr> = s" by simp
    ultimately show ?thesis using page_count [OF m(1)]
      by (simp only: Let_def query [OF n] True if_True bind.bind_lunit prod.case simp_thms)
  next
    case False
    then have e: "missing s bs k = 16 * k + 16" by (simp add: missing_def)
    have "(of_nat (16 * k) :: u64) + 16 = of_nat (missing s bs k)" unfolding e by simp
    then show ?thesis using page_count [OF m(1)] k e False by (simp add: add.assoc)
  qed
  then have m0: "0 < m" using m(1) by auto
  have "4096 * m < 2 ^ 31" using limit [OF n m(2)] by simp
  note pb = page_bytes(1) [OF this]
  from extend [OF n m(2) m0] obtain st' where st: "sbrk (of_nat (4096 * m)) (brk_state s) = Some (base + of_nat (4096 * n), st')"
    "pages_at st' (n + m)" by blast
  have "unat (base + of_nat (4096 * n)) = unat base + 4096 * n"
    using base_ok(3) limit [OF n m(2)] unat_nat64 [of "4096 * n"] by (subst unat_add_nowrap) auto
  moreover have "unat (- 1 :: u64) = 2 ^ 64 - 1" by (simp add: unsigned_minus_1_eq_mask mask_eq_exp_minus_1)
  ultimately have "base + of_nat (4096 * n) \<noteq> - 1" using base_ok(3) limit [OF n m(2)] m0 by auto
  then have "sf_getMoreSpace sbrk s (of_nat (16 * k)) = Some ((base + of_nat (4096 * n), of_nat (4096 * m)), s\<lparr>brk_state := st'\<rparr>)"
    by (simp only: sf_getMoreSpace_def Let_def d [THEN conjunct2, THEN conjunct2, unfolded Let_def]
        bind.bind_lunit prod.case pb st if_True simp_thms)
  with st(2) m0 show ?thesis by blast
qed

lemma heap_range_pages:
  assumes "pages_at st n" "room st m" "t + 1 = 256 * (n + m)"
  shows "heap_range base t"
  using limit [OF assms(1,2)] assms(3) base_ok by (simp add: heap_range_def)

text \<open>The heap is extended by a free block at its end that is large enough, merged with free blocks before it.\<close>

lemma grown_heap:
  assumes inv: "sf_inv pages_at base bs s" and k: "2 \<le> k" "k < 2 ^ 27" "\<And>q. (False, q) \<in> set bs \<Longrightarrow> q < k"
    and room: "room (brk_state s) (k div 256 + 1)"
  shows "\<exists>a sz s1 s2 xs n. sf_getMoreSpace sbrk s (of_nat (16 * k)) = Some ((a, sz), s1) \<and> a \<noteq> 0 \<and>
     sf_initializeFreeBlock s1 a (last_or base 0 (frees 0 bs)) sz = Some (hptr base (total xs), s2) \<and> k \<le> n \<and>
     sf_inv pages_at base (xs @ [(False, n)]) (s2\<lparr>firstPageInitialized := True\<rparr>) \<and> (xs = [] \<or> fst (last xs)) \<and>
     live 0 xs = live 0 bs \<and> (\<forall>c \<in> payload 0 bs. hmem s2 (cell base c) = hmem s (cell base c)) \<and> payload 0 xs = payload 0 bs"
proof -
  let ?F = "firstPageInitialized s"
  from inv obtain n where n: "pages_at (brk_state s) n"
    and init: "?F \<Longrightarrow> heap_wf base bs s \<and> total bs + 1 = 256 * n \<and> heapStartPtr s = hptr base 0"
    and fresh: "\<not> ?F \<Longrightarrow> bs = [] \<and> n = 0" by (auto simp: sf_inv_def split: if_splits)
  define m where "m = (missing s bs k + 4095) div 4096"
  have "missing s bs k + 4095 < (k div 256 + 2) * 4096" by (auto simp: missing_def)
  then have "m \<le> k div 256 + 1" unfolding m_def by (simp add: less_mult_imp_div_less less_Suc_eq_le [symmetric])
  then have rm: "room (brk_state s) m" using room_less [OF room] by blast
  obtain st' where more: "sf_getMoreSpace sbrk s (of_nat (16 * k)) = Some ((base + of_nat (4096 * n), of_nat (4096 * m)), s\<lparr>brk_state := st'\<rparr>)"
    "pages_at st' (n + m)" "0 < m" using getMoreSpace_spec [OF n _ k m_def rm] init by blast
  define q where "q = (if ?F then 256 * m else 256 * m - 1)"
  have tot: "total bs + q + 1 = 256 * (n + m)" using init fresh more(3) by (cases ?F) (auto simp: q_def)
  have R: "heap_range base (total bs + q)" by (rule heap_range_pages [OF n rm tot])
  have mb: "4096 * m < 2 ^ 31" using limit [OF n rm] by simp
  let ?s1 = "s\<lparr>brk_state := st'\<rparr>"
  have wf: "firstPageInitialized ?s1 \<and> heap_wf base bs ?s1 \<or> \<not> firstPageInitialized ?s1 \<and> bs = []"
    using init fresh by (auto simp: blocks_fields [of ?s1 s])
  have q2: "2 \<le> q" using more(3) by (auto simp: q_def)
  have h: "(if firstPageInitialized ?s1 then base + of_nat (4096 * n) - 8 else base + of_nat (4096 * n) + 8) = hptr base (total bs)"
  proof (cases ?F)
    case True
    then have "16 * total bs + 16 = 4096 * n" using init by linarith
    then have "(of_nat (4096 * n) :: u64) = of_nat (16 * total bs + 16)" by (simp only:)
    then show ?thesis using True by (simp add: hptr_def cell_def algebra_simps)
  next
    case False
    then show ?thesis using fresh by (simp add: hptr_def cell_def)
  qed
  have sz: "(if firstPageInitialized ?s1 then drop_bit 4 (of_nat (4096 * m)) else drop_bit 4 (of_nat (4096 * m)) - 1) = (of_nat q :: u64)"
    using page_bytes(2) [OF mb] more(3) of_nat_minus [of 1 "256 * m"] by (simp add: q_def)
  from init_free_block_wf [OF h sz q2 R wf] obtain s2 where
    s2: "init_free_block ?s1 (base + of_nat (4096 * n)) (last_or base 0 (frees 0 bs)) (of_nat (4096 * m)) = (hptr base (total bs), s2)"
      "heap_wf base (bs @ [(False, q)]) s2" "\<forall>c \<in> payload 0 bs. hmem s2 (cell base c) = hmem s (cell base c)"
      "brk_state s2 = st'" "heapStartPtr s2 = hptr base 0" using init by auto
  obtain xs fs where xf: "bs = xs @ fs" "\<forall>f \<in> set fs. \<not> fst f" "xs = [] \<or> fst (last xs)"
    "bs \<noteq> [] \<and> \<not> fst (last bs) \<longrightarrow> snd (last bs) \<le> total fs" using free_suffix by blast
  have "heap_wf base (xs @ (fs @ [(False, q)]) @ []) s2" using s2(2) xf(1) by simp
  from sf_coalescing_merges [OF this, of fs q "[]" False] xf obtain s3 where
    s3: "sf_coalescing s2 (hptr base (total bs)) False = Some (hptr base (total xs), s3)"
      "heap_wf base (xs @ [(False, total fs + q)]) s3"
      "\<forall>c \<in> payload 0 (xs @ (fs @ [(False, q)])). hmem s3 (cell base c) = hmem s2 (cell base c)"
      "brk_state s3 = st'" "heapStartPtr s3 = hptr base 0" using s2(4,5) by auto
  have fin: "sf_initializeFreeBlock ?s1 (base + of_nat (4096 * n)) (last_or base 0 (frees 0 bs)) (of_nat (4096 * m)) =
      Some (hptr base (total xs), s3)"
    unfolding sf_initializeFreeBlock_def s2(1) prod.case by (rule s3(1))
  have "unat (base + of_nat (4096 * n)) = unat base + 4096 * n"
    using base_ok(3) limit [OF n rm] unat_nat64 [of "4096 * n"] by (subst unat_add_nowrap) auto
  then have a0: "base + of_nat (4096 * n) \<noteq> 0" using base_ok(1) by auto
  have "missing s bs k \<le> 4096 * m" unfolding m_def by linarith
  then have kq: "k \<le> total fs + q"
  proof (cases ?F)
    case True
    then have "bs \<noteq> []" using init by auto
    with True xf(4) \<open>missing s bs k \<le> 4096 * m\<close> show ?thesis by (auto simp: missing_def q_def split: if_splits)
  qed (simp add: missing_def q_def)
  have e: "live 0 xs = live 0 bs" "payload 0 xs = payload 0 bs"
    using live_free [OF xf(2)] payload_free [OF xf(2)] by (simp_all add: xf(1))
  have "total xs + (total fs + q) + 1 = 256 * (n + m)" using tot by (simp add: xf(1))
  then have si: "sf_inv pages_at base (xs @ [(False, total fs + q)]) (s3\<lparr>firstPageInitialized := True\<rparr>)"
    unfolding sf_inv_def using more(2) s3(2,4,5) blocks_fields [of "s3\<lparr>firstPageInitialized := True\<rparr>" s3]
    by (intro exI [of _ "n + m"]) simp
  have "\<forall>c \<in> payload 0 bs. hmem s3 (cell base c) = hmem s (cell base c)"
    using s3(3) s2(3) by (simp add: xf(1))
  with more(1) a0 fin kq si xf(3) e show ?thesis by blast
qed

lemma sf_malloc_spec:
  assumes inv: "sf_inv pages_at base bs s" and sz: "sz \<noteq> 0" "unat sz \<le> 2 ^ 30"
    and room: "room (brk_state s) (units (unat sz) div 256 + 1)"
  shows "\<exists>x s' bs'. sf_malloc sbrk s sz = Some (cell base (2 * x + 2), s') \<and> sf_inv pages_at base bs' s' \<and>
     allocates base bs s (units (unat sz)) x bs' s'"
proof -
  let ?k = "units (unat sz)" and ?F = "firstPageInitialized s"
  note nu = need_units [OF sz(2)]
  have r8: "real8 sz = of_nat (2 * ?k)" using real8_units sz(2) by simp
  have k: "2 \<le> ?k" "?k < 2 ^ 27" using nu(3,4) sz(1) by auto
  have ok: "checkSizeValidity sz" using sz by (simp add: checkSizeValidity_def word_le_nat_alt)
  have sr: "search_result base ?k 0 0 bs (find_free (hmem s) (of_nat (16 * ?k)) 0 (freelist_head s))"
  proof (cases ?F)
    case True
    with inv have wf: "heap_wf base bs s" by (auto simp: sf_inv_def)
    then have "freelist_head s = head_or base (frees 0 bs) 0" by (simp add: heap_wf_def)
    with wf show ?thesis using find_free_from [of "hmem s" base 0 bs 0 ?k] k by (simp add: heap_wf_def)
  next
    case False
    with inv have "bs = []" "freelist_head s = 0" by (auto simp: sf_inv_def)
    then show ?thesis by (simp add: search_result_def find_free.simps)
  qed
  have hit: "?thesis" if fit: "find_free (hmem s) (of_nat (16 * ?k)) 0 (freelist_head s) = Some (l, hptr base (total zs))"
      "bs = zs @ (False, n) # ws" "?k \<le> n" for l zs n ws
  proof -
    have "?F" using inv fit(2) by (auto simp: sf_inv_def split: if_splits)
    then have "heap_range base (total bs)" using inv by (auto simp: sf_inv_def heap_wf_def)
    then have nz: "hptr base (total zs) \<noteq> 0" by (rule hptr_nz) (simp add: fit(2))
    obtain s' bs' where "sf_allocate s (hptr base (total zs)) sz = Some (cell base (2 * total zs + 2), s')"
      "sf_inv pages_at base bs' s'" "allocates base bs s ?k (total zs) bs' s'"
      using sf_allocate_inv [OF inv [unfolded fit(2)] r8 k(1) fit(3)] fit(2) by blast
    moreover from this(1) have "sf_malloc sbrk s sz = Some (cell base (2 * total zs + 2), s')"
      using ok nz fit(1) by (simp add: sf_malloc_def nu(1) del: of_nat_mult)
    ultimately show ?thesis by blast
  qed
  have miss: "?thesis" if none: "find_free (hmem s) (of_nat (16 * ?k)) 0 (freelist_head s) = Some (last_or base 0 (frees 0 bs), 0)"
      "\<forall>n. (False, n) \<in> set bs \<longrightarrow> n < ?k"
  proof -
    obtain a szg s1 s2 xs n where
      g: "sf_getMoreSpace sbrk s (of_nat (16 * ?k)) = Some ((a, szg), s1)" "a \<noteq> 0"
        "sf_initializeFreeBlock s1 a (last_or base 0 (frees 0 bs)) szg = Some (hptr base (total xs), s2)" "?k \<le> n"
        "sf_inv pages_at base (xs @ [(False, n)]) (s2\<lparr>firstPageInitialized := True\<rparr>)" "xs = [] \<or> fst (last xs)"
        "live 0 xs = live 0 bs" "\<forall>c \<in> payload 0 bs. hmem s2 (cell base c) = hmem s (cell base c)" "payload 0 xs = payload 0 bs"
      using grown_heap [OF inv k _ room] none(2) by blast
    let ?s2 = "s2\<lparr>firstPageInitialized := True\<rparr>"
    from g(5) have wf: "heap_wf base (xs @ [(False, n)] @ []) ?s2" by (auto simp: sf_inv_def)
    from sf_coalescing_merges [OF wf, of "[]" n "[]" False] g(6) obtain s3 where
      s3: "sf_coalescing ?s2 (hptr base (total xs)) False = Some (hptr base (total xs), s3)" "heap_wf base (xs @ [(False, n)]) s3"
        "\<forall>c \<in> payload 0 (xs @ [(False, n)]). hmem s3 (cell base c) = hmem s2 (cell base c)"
        "brk_state s3 = brk_state s2" "heapStartPtr s3 = heapStartPtr s2" "firstPageInitialized s3" by auto
    have "sf_inv pages_at base (xs @ [(False, n)]) s3" using g(5) s3 by (auto simp: sf_inv_def)
    from sf_allocate_inv [OF this r8 k(1) g(4)] obtain s' bs' where
      al: "sf_allocate s3 (hptr base (total xs)) sz = Some (cell base (2 * total xs + 2), s')"
        "sf_inv pages_at base bs' s'" "allocates base (xs @ [(False, n)]) s3 ?k (total xs) bs' s'" by blast
    have "\<forall>c \<in> payload 0 bs. hmem s3 (cell base c) = hmem s (cell base c)" using s3(3) g(8,9) by simp
    then have "allocates base bs s ?k (total xs) bs' s'" using al(3) g(7,9) unfolding allocates_def by simp
    moreover have "sf_malloc sbrk s sz = Some (cell base (2 * total xs + 2), s')"
      using ok none(1) by (simp add: sf_malloc_def nu(1,2) g(1-3) s3(1) al(1) del: of_nat_mult)
    ultimately show ?thesis using al(2) by blast
  qed
  from sr show ?thesis unfolding search_result_def add_0 using hit miss by blast
qed

end

end
