(* ===== verification/Heap_Free.thy ===== *)
theory Heap_Free
  imports Heap_Alloc
begin

text \<open>
  Release in the kernel heap: the search for the free neighbours in address order, the insertion
  into the free list, and the merge.  A block that was handed out is accepted, leaves the abstract
  heap, and nothing else changes there.
\<close>

section \<open>Neighbours in the free list\<close>

lemma live_split: "(x, n) \<in> live o' bs \<Longrightarrow> \<exists>xs ys. bs = xs @ (True, n) # ys \<and> x = o' + total xs"
proof (induction bs arbitrary: o')
  case (Cons y bs)
  obtain al q where y: "y = (al, q)" by force
  from Cons.prems consider "al" "x = o'" "n = q" | "(x, n) \<in> live (o' + q) bs" by (auto simp: y split: if_splits)
  then show ?case
  proof cases
    case 1
    then show ?thesis by (intro exI [of _ "[]"] exI [of _ bs]) (simp add: y)
  next
    case 2
    from Cons.IH [OF this] obtain xs ys where "bs = xs @ (True, n) # ys" "x = o' + q + total xs" by blast
    then show ?thesis by (intro exI [of _ "y # xs"] exI [of _ ys]) (simp add: y)
  qed
qed simp

lemma alloc_suffix: "\<exists>xs1 zs. xs = xs1 @ zs \<and> (\<forall>z \<in> set zs. fst z) \<and> (xs1 = [] \<or> \<not> fst (last xs1))"
proof (induction xs rule: rev_induct)
  case (snoc x xs)
  show ?case
  proof (cases "fst x")
    case True
    from snoc obtain xs1 zs where "xs = xs1 @ zs" "\<forall>z \<in> set zs. fst z" "xs1 = [] \<or> \<not> fst (last xs1)" by blast
    with True show ?thesis by (intro exI [of _ xs1] exI [of _ "zs @ [x]"]) auto
  next
    case False
    then show ?thesis by (intro exI [of _ "xs @ [x]"] exI [of _ "[]"]) simp
  qed
qed simp

lemma run_prefix: "\<exists>zs ys1. ys = zs @ ys1 \<and> (\<forall>z \<in> set zs. fst z = av) \<and> (ys1 = [] \<or> fst (hd ys1) \<noteq> av)"
proof (intro exI conjI)
  show "ys = takeWhile (\<lambda>z. fst z = av) ys @ dropWhile (\<lambda>z. fst z = av) ys" by simp
  show "\<forall>z \<in> set (takeWhile (\<lambda>z. fst z = av) ys). fst z = av" by (auto dest: set_takeWhileD)
  show "dropWhile (\<lambda>z. fst z = av) ys = [] \<or> fst (hd (dropWhile (\<lambda>z. fst z = av) ys)) \<noteq> av"
    using hd_dropWhile [of "\<lambda>z. fst z = av" ys] by blast
qed

text \<open>The loop backwards ends at a free block, the last before, or at the start mark.\<close>

lemma prev_free:
  assumes t: "tagged b (xs @ zs) m"
  shows "\<exists>h. back_while 1 m (hptr b (total xs)) = Some h \<and>
     (if block_size (m (h - 8)) \<noteq> 0 then h - 16 * block_size (m (h - 8)) else 0) = last_or b 0 (frees 0 xs)"
proof -
  obtain xs1 ws where x: "xs = xs1 @ ws" "\<forall>z \<in> set ws. fst z" "xs1 = [] \<or> \<not> fst (last xs1)" using alloc_suffix by blast
  have bl: "blocks m b 0 xs1" "blocks m b (total xs1) ws" and N: "total xs1 + total ws < 2 ^ 27"
    using t by (auto simp: tagged_def heap_range_def x(1))
  have "back_while 1 m (hptr b (total xs)) = Some (hptr b (total xs1))"
    using back_while_run [OF bl(2), of True] x(2) N stop_before [of b xs1 "ws @ zs" m True] t x(1,3) by (simp add: hptr_def)
  moreover have "hptr b (total xs1) - 8 = cell b (2 * total xs1)" by (simp add: hptr_def)
  moreover have "(if block_size (m (cell b (2 * total xs1))) \<noteq> 0
      then hptr b (total xs1) - 16 * block_size (m (cell b (2 * total xs1))) else 0) = last_or b 0 (frees 0 xs)"
  proof (cases xs1 rule: rev_cases)
    case Nil
    then show ?thesis using t x(2) by (simp add: tagged_def x(1) frees_none)
  next
    case (snoc xs0 f)
    then obtain q where f: "f = (False, q)" using x(3) by (cases f) auto
    have tg: "tag (m (cell b (2 * (total xs0 + q)))) False q" "2 \<le> q" using bl(1) by (simp_all add: snoc f)
    then have "block_size (m (cell b (2 * (total xs0 + q)))) \<noteq> 0" by (rule tag_size) (use N in \<open>simp add: snoc f\<close>)
    then show ?thesis using tg x(2) by (simp add: snoc f x(1) frees_none tag_def hptr_def)
  qed
  ultimately show ?thesis by (intro exI [of _ "hptr b (total xs1)"]) (simp only: simp_thms)
qed

text \<open>The loop forwards, to the first free block behind or the end mark.\<close>

lemma next_free:
  assumes t: "tagged b (zs @ ys) m"
  shows "\<exists>f. forward_while 1 m (cell b (2 * total zs)) = Some f \<and>
     (if block_size (m (f + 8)) \<noteq> 0 then getHeader m (f + 16 * block_size (m (f + 8))) else 0) =
     head_or b (frees (total zs) ys) 0"
proof -
  obtain ws ys1 where y: "ys = ws @ ys1" "\<forall>z \<in> set ws. fst z" "ys1 = [] \<or> \<not> fst (hd ys1)" using run_prefix [of ys True] by auto
  have bl: "blocks m b (total zs) ws" "blocks m b (total zs + total ws) ys1" and N: "total ws + total ys1 < 2 ^ 27"
    using t by (auto simp: tagged_def heap_range_def y(1))
  let ?e = "total zs + total ws"
  have "forward_while 1 m (cell b (2 * total zs)) = Some (cell b (2 * ?e))"
    using forward_while_run [OF bl(1), of True] y(2) N stop_after [of b "zs @ ws" ys1 m True] t y(1,3) by simp
  moreover have "cell b (2 * ?e) + 8 = cell b (2 * ?e + 1)" by simp
  moreover have "(if block_size (m (cell b (2 * ?e + 1))) \<noteq> 0
      then getHeader m (cell b (2 * ?e) + 16 * block_size (m (cell b (2 * ?e + 1)))) else 0) = head_or b (frees (total zs) ys) 0"
  proof (cases ys1)
    case Nil
    then show ?thesis using t y(2) by (simp add: tagged_def y(1) frees_none)
  next
    case (Cons f ys0)
    then obtain q where f: "f = (False, q)" using y(3) by (cases f) auto
    have tg: "tag (m (cell b (2 * ?e + 1))) False q" "2 \<le> q" "tag (m (cell b (2 * (?e + q)))) False q"
      using bl(2) by (simp_all add: Cons f add.assoc)
    have "block_size (m (cell b (2 * ?e + 1))) \<noteq> 0" using tg(1,2) by (rule tag_size) (use N in \<open>simp add: Cons f\<close>)
    moreover have "cell b (2 * ?e) + 16 * block_size (m (cell b (2 * ?e + 1))) = cell b (2 * (?e + q))"
      using tg(1) by (simp add: tag_def)
    ultimately show ?thesis using getHeader_block [of m b ?e q False] tg(3) y(2)
      by (simp add: Cons f y(1) frees_none hptr_def)
  qed
  ultimately show ?thesis by (intro exI [of _ "cell b (2 * ?e)"]) (simp only: simp_thms)
qed

section \<open>Insertion and merge\<close>

definition free_word :: "u64 \<Rightarrow> u64" where
  "free_word w = set_requested 0 (set_alloc 0 w)"

lemma free_word [simp]: "tag w al n \<Longrightarrow> tag (free_word w) False n"
  by (simp add: free_word_def tag_def)

lemma alloc_gap:
  assumes "heap_wf b (xs @ (True, n) # ys) s"
  shows "gap b (hmem s) xs n ys" "tag (hmem s (cell b (2 * total xs + 1))) True n" "tag (hmem s (cell b (2 * (total xs + n)))) True n"
    "freelist_head s = head_or b (frees 0 xs) (head_or b (frees (total xs + n) ys) 0)"
  using assms by (auto simp: heap_wf_def gap_def add.assoc)

text \<open>The tags of a block are cleared.\<close>

lemma cleared_tags:
  assumes g: "gap b m xs n ys" and w: "tag w False n" "tag w' False n"
  shows "tagged b (xs @ (False, n) # ys) (m(cell b (2 * total xs + 1) := w, cell b (2 * (total xs + n)) := w'))"
proof -
  let ?m' = "m(cell b (2 * total xs + 1) := w, cell b (2 * (total xs + n)) := w')"
  note r = gap_ranges [OF g]
  have bl: "blocks m b 0 xs" "blocks m b (total xs + n) ys" using g by (auto simp: gap_def)
  have eq: "?m' (cell b c) = m (cell b c)"
    if "c \<noteq> 2 * total xs + 1" "c \<noteq> 2 * (total xs + n)" "c \<le> 2 * (total xs + n + total ys) + 1" for c
    using that r by (simp add: cell_inj)
  have "blocks ?m' b 0 xs" using bl(1)
    by (rule blocks_cong) (use tags_range [OF bl(1)] r in \<open>fastforce intro!: eq\<close>)
  moreover have "blocks ?m' b (total xs + n) ys" using bl(2)
    by (rule blocks_cong) (use tags_range [OF bl(2)] r in \<open>fastforce intro!: eq\<close>)
  moreover have "?m' (cell b (2 * total xs + 1)) = w" "?m' (cell b (2 * (total xs + n))) = w'"
    using r by (simp_all add: cell_inj)
  moreover have "?m' (cell b 0) = m (cell b 0)"
    "?m' (cell b (2 * (total xs + n + total ys) + 1)) = m (cell b (2 * (total xs + n + total ys) + 1))"
    using r by (intro eq; simp)+
  ultimately show ?thesis using g w by (simp add: tagged_def gap_def add.assoc)
qed

lemma sf_free_of_spec:
  assumes wf: "heap_wf b (xs @ (True, n) # ys) s"
    and ok: "checkPtrValidity sbrk s (cell b (2 * total xs + 2)) = Some True"
    and x: "xs = xs' @ fs1" "only \<and> fs1 = [] \<or> \<not> only \<and> (xs' = [] \<or> fst (last xs'))" "\<forall>f \<in> set fs1. \<not> fst f"
    and y: "ys = fs2 @ ys'" "\<forall>f \<in> set fs2. \<not> fst f" "ys' = [] \<or> fst (hd ys')"
  shows "\<exists>s'. sf_free_of sbrk s (cell b (2 * total xs + 2)) only = Some s' \<and>
     heap_wf b (xs' @ (False, total fs1 + n + total fs2) # ys') s' \<and>
     (\<forall>c \<in> payload 0 (xs @ ((False, n) # ys)). hmem s' (cell b c) = hmem s (cell b c)) \<and>
     brk_state s' = brk_state s \<and> heapStartPtr s' = heapStartPtr s \<and> firstPageInitialized s' = firstPageInitialized s"
proof -
  note g = alloc_gap [OF wf]
  note r = gap_ranges [OF g(1)]
  let ?m = "hmem s" and ?a = "total xs" and ?A = "frees 0 xs" and ?B = "frees (total xs + n) ys"
  have R: "heap_range b (?a + n + total ys)" using g(1) by (simp add: gap_def)
  have A0: "last_or b 0 ?A = 0 \<longleftrightarrow> ?A = []" using hptr_nz [OF R, of "last ?A"] r(1) by (auto simp: last_or_def)
  define w where "w = free_word (?m (cell b (2 * ?a + 1)))"
  define m1 where "m1 = modify (hptr b ?a) free_word ?m"
  define w' where "w' = free_word (m1 (cell b (2 * (?a + n))))"
  define m2 where "m2 = ?m(cell b (2 * ?a + 1) := w, cell b (2 * (?a + n)) := w')"
  have m1: "m1 = ?m(cell b (2 * ?a + 1) := w)" by (simp add: m1_def modify_def hptr_def w_def)
  have "m1 (cell b (2 * (?a + n))) = ?m (cell b (2 * (?a + n)))" using r by (simp add: m1 cell_inj)
  then have tw: "tag w False n" "tag w' False n" using g(2,3) by (simp_all add: w_def w'_def)
  have f1: "getFooter m1 (hptr b ?a) = cell b (2 * (?a + n))"
    using getFooter_block [of m1 b ?a False n] tw r by (simp add: m1 hptr_def)
  have m2: "modify (cell b (2 * (?a + n))) free_word m1 = m2" by (simp add: modify_def m2_def w'_def m1)
  have tg: "tagged b (xs @ (False, n) # ys) m2" unfolding m2_def by (rule cleared_tags [OF g(1) tw])
  have "m2 (cell b (2 * ?a + 1)) = w" using r by (simp add: m2_def cell_inj)
  then have f2: "getFooter m2 (hptr b ?a) = cell b (2 * total (xs @ [(False, n)]))"
    using getFooter_block [of m2 b ?a False n] tw r by (simp add: hptr_def)
  obtain h where h: "back_while 1 m2 (hptr b ?a) = Some h"
    "(if block_size (m2 (h - 8)) \<noteq> 0 then h - 16 * block_size (m2 (h - 8)) else 0) = last_or b 0 ?A"
    using prev_free [OF tg] by blast
  obtain f where f: "forward_while 1 m2 (cell b (2 * total (xs @ [(False, n)]))) = Some f"
    "(if block_size (m2 (f + 8)) \<noteq> 0 then getHeader m2 (f + 16 * block_size (m2 (f + 8))) else 0) = head_or b ?B 0"
    using next_free [of b "xs @ [(False, n)]" ys m2] tg by auto
  define m3 where "m3 = m2(cell b (2 * ?a + 2) := head_or b ?B 0, cell b (2 * ?a + 3) := last_or b 0 ?A)"
  define m4 where "m4 = (if head_or b ?B 0 \<noteq> 0 then m3(prev_of (head_or b ?B 0) := hptr b ?a) else m3)"
  define m5 where "m5 = (if last_or b 0 ?A = 0 then m4 else m4(next_of (last_or b 0 ?A) := hptr b ?a))"
  have m5': "(if last_or b 0 ?A \<noteq> 0 then m4(next_of (last_or b 0 ?A) := hptr b ?a) else m4) = m5" by (simp add: m5_def)
  have pl: "m5 (cell b c) = placed b ?m ?a n ?A ?B w w' c" if "c \<le> 2 * (?a + n + total ys) + 1" for c
    by (rule splice_after [OF R _ r(4,1,2) _ m4_def m5_def that]) (simp_all add: m3_def m2_def)
  have pv: "m5 (cell b (2 * ?a + 3)) = last_or b 0 ?A" using pl [of "2 * ?a + 3"] r(4) by (simp add: placed_def)
  define s5 where "s5 = s\<lparr>hmem := m5, freelist_head := (if last_or b 0 ?A = 0 then hptr b ?a else freelist_head s)\<rparr>"
  have "freelist_head s5 = head_or b ?A (hptr b ?a)" using g(4) A0 by (auto simp: s5_def head_or_ne)
  then have s5: "heap_wf b (xs @ (False, n) # ys) s5 \<and> (\<forall>c \<in> payload 0 (xs @ (False, n) # ys). m5 (cell b c) = ?m (cell b c))"
    using placed_wf [OF g(1) tw, of s5] pl by (simp add: s5_def)
  then have "heap_wf b (xs' @ (fs1 @ (False, n) # fs2) @ ys') s5" by (simp add: x(1) y(1))
  from sf_coalescing_merges [OF this refl, of only] x y obtain s' where
    s': "sf_coalescing s5 (hptr b ?a) only = Some (hptr b (total xs'), s')"
      "heap_wf b (xs' @ (False, total fs1 + n + total fs2) # ys') s'"
      "\<forall>c \<in> payload 0 (xs @ (False, n) # ys). hmem s' (cell b c) = hmem s5 (cell b c)"
      "brk_state s' = brk_state s5" "heapStartPtr s' = heapStartPtr s5" "firstPageInitialized s' = firstPageInitialized s5"
    by (auto simp: add.assoc)
  have p: "cell b (2 * ?a + 2) - 8 = hptr b ?a" by (simp add: hptr_def)
  have "sf_free_of sbrk s (cell b (2 * ?a + 2)) only = Some s'"
    unfolding sf_free_of_def Let_def
    by (simp only: ok bind.bind_lunit simp_thms if_False p free_word_def [symmetric] m1_def [symmetric] f1 m2 h f2 f
        links_hptr m3_def [symmetric] m4_def [symmetric] m5' pv s5_def [symmetric] s'(1) prod.case)
  with s' s5 show ?thesis by (auto simp: s5_def)
qed

section \<open>Pointers that were handed out\<close>

lemma unat_cell:
  assumes "heap_range b N" "c \<le> 2 * N + 1"
  shows "unat (cell b c) = unat b + 8 * c"
proof -
  have u: "unat (of_nat (8 * c) :: u64) = 8 * c" using assms by (intro unat_nat64) (simp add: heap_range_def)
  have "cell b c = b + of_nat (8 * c)" by (simp add: cell_def)
  then show ?thesis using assms u by (simp only:) (subst unat_add_nowrap, auto simp: heap_range_def)
qed

lemma cell_le:
  assumes "heap_range b N" "c \<le> 2 * N + 1" "d \<le> 2 * N + 1"
  shows "cell b c < cell b d \<longleftrightarrow> c < d"
  using unat_cell [OF assms(1,2)] unat_cell [OF assms(1,3)] by (simp add: word_less_nat_alt)

lemma unat_and_15: "unat (w AND 15 :: u64) = unat w mod 16"
proof -
  have "(15 :: u64) = mask 4" by (simp add: mask_eq_exp_minus_1)
  then have "w AND 15 = take_bit 4 w" by (simp add: take_bit_eq_mask)
  then have "unat (w AND 15) = take_bit 4 (unat w)" by (simp only: unsigned_take_bit_eq)
  then show ?thesis by (simp add: take_bit_eq_mod)
qed

lemma heap_range_aligned: "heap_range b N \<Longrightarrow> unat b mod 16 = 0"
  using unat_and_15 [of b] by (simp add: heap_range_def)

lemma cell_aligned:
  assumes "heap_range b N" "x < N"
  shows "cell b (2 * x + 2) AND 15 = 0"
proof -
  have "unat b mod 16 = 0" using assms(1) by (rule heap_range_aligned)
  moreover have "unat (cell b (2 * x + 2)) = unat b + 16 * (x + 1)" using unat_cell [OF assms(1), of "2 * x + 2"] assms(2) by simp
  ultimately have "unat (cell b (2 * x + 2)) mod 16 = 0" by presburger
  then have "unat (cell b (2 * x + 2) AND 15) = 0" by (simp only: unat_and_15)
  then show ?thesis by (simp only: unat_eq_0)
qed

context program_break
begin

lemma live_pointer_valid:
  assumes inv: "sf_inv pages_at base bs s" and l: "(x, n) \<in> live 0 bs"
  shows "checkPtrValidity sbrk s (cell base (2 * x + 2)) = Some True"
proof -
  obtain xs ys where bs: "bs = xs @ (True, n) # ys" and x: "x = total xs" using live_split [OF l] by auto
  from inv obtain i where i: "pages_at (brk_state s) i" "heap_wf base bs s" "heapStartPtr s = hptr base 0" "total bs + 1 = 256 * i"
    unfolding sf_inv_def bs by (auto split: if_splits)
  have R: "heap_range base (total bs)" using i(2) by (simp add: heap_wf_def)
  note t = alloc_gap(2,3) [OF i(2) [unfolded bs], folded x] and n = gap_ranges(4) [OF alloc_gap(1) [OF i(2) [unfolded bs]]]
  have xn: "x + n \<le> total bs" by (simp add: bs x)
  have "16 * (total bs + 1) = 4096 * i" using i(4) by simp
  then have "of_nat (4096 * i) = (of_nat (16 * (total bs + 1)) :: u64)" by (simp only:)
  then have br: "base + of_nat (4096 * i) = cell base (2 * total bs + 1) + 8" by (simp add: cell_def algebra_simps)
  have ub: "unat (base + of_nat (4096 * i)) = unat base + 4096 * i"
    using base_ok(3) bound [OF i(1)] unat_nat64 [of "4096 * i"] by (subst unat_add_nowrap) auto
  note uc = unat_cell [OF R]
  have f: "getFooter (hmem s) (cell base (2 * x + 2) - 8) = cell base (2 * (x + n))" "cell base (2 * x + 2) - 8 = cell base (2 * x + 1)"
    using getFooter_block [of "hmem s" base x True n] t(1) n by simp_all
  have "\<not> base + of_nat (4096 * i) < cell base (2 * x + 2)" "\<not> base + of_nat (4096 * i) < cell base (2 * (x + n))"
    unfolding word_less_nat_alt ub using i(4) xn n uc [of "2 * x + 2"] uc [of "2 * (x + n)"] by auto
  moreover have "\<not> cell base (2 * x + 2) < heapStartPtr s" "\<not> cell base (2 * (x + n)) < heapStartPtr s"
    "\<not> cell base (2 * (x + n)) < cell base (2 * x + 2)"
    using i(3) xn n by (simp_all add: hptr_def cell_le [OF R])
  moreover have "block_size (hmem s (cell base (2 * x + 1))) = block_size (hmem s (cell base (2 * (x + n))))"
    using t by (simp add: tag_def)
  moreover have "cell base (2 * x + 2) AND 15 = 0" by (rule cell_aligned [OF R]) (use xn n in simp)
  ultimately show ?thesis unfolding checkPtrValidity_def query [OF i(1)] Let_def f(1)
    by (simp only: f(2) bind.bind_lunit prod.case simp_thms if_False)
qed

lemma sf_free_spec:
  assumes inv: "sf_inv pages_at base bs s" and l: "(x, n) \<in> live 0 bs"
  shows "\<exists>s' bs'. sf_free sbrk s (cell base (2 * x + 2)) = Some s' \<and> sf_inv pages_at base bs' s' \<and>
     live 0 bs' = live 0 bs - {(x, n)} \<and> (\<forall>c \<in> payload 0 bs'. hmem s' (cell base c) = hmem s (cell base c)) \<and>
     brk_state s' = brk_state s"
proof -
  obtain xs ys where bs: "bs = xs @ (True, n) # ys" and x: "x = total xs" using live_split [OF l] by auto
  from inv obtain i where i: "pages_at (brk_state s) i" "heap_wf base bs s" "heapStartPtr s = hptr base 0" "total bs + 1 = 256 * i"
    "firstPageInitialized s" unfolding sf_inv_def bs by (auto split: if_splits)
  obtain xs' fs1 where x': "xs = xs' @ fs1" "\<forall>f \<in> set fs1. \<not> fst f" "xs' = [] \<or> fst (last xs')" using free_suffix by blast
  obtain fs2 ys' where y': "ys = fs2 @ ys'" "\<forall>f \<in> set fs2. \<not> fst f" "ys' = [] \<or> fst (hd ys')" using run_prefix [of ys False] by auto
  let ?bs' = "xs' @ (False, total fs1 + n + total fs2) # ys'"
  from sf_free_of_spec [OF i(2) [unfolded bs] _ x'(1) _ x'(2) y', of sbrk False] live_pointer_valid [OF inv l] x'(3) x
  obtain s' where s': "sf_free_of sbrk s (cell base (2 * x + 2)) False = Some s'" "heap_wf base ?bs' s'"
    "\<forall>c \<in> payload 0 (xs @ ((False, n) # ys)). hmem s' (cell base c) = hmem s (cell base c)"
    "brk_state s' = brk_state s" "heapStartPtr s' = heapStartPtr s" "firstPageInitialized s' = firstPageInitialized s"
    by auto
  have "total ?bs' = total bs" by (simp add: bs x' y')
  then have "sf_inv pages_at base ?bs' s'" unfolding sf_inv_def using i s' by (intro exI [of _ i]) simp
  moreover have "live 0 ?bs' = live 0 xs \<union> live (x + n) ys" "payload 0 ?bs' = payload 0 (xs @ ((False, n) # ys))"
    using live_free x'(2) y'(2) payload_free by (auto simp: x x'(1) y'(1) add.assoc)
  moreover have bl: "blocks (hmem s) base 0 xs" "blocks (hmem s) base (x + n) ys" "2 \<le> n"
    using i(2) by (auto simp: heap_wf_def bs x)
  then have "live 0 bs - {(x, n)} = live 0 xs \<union> live (x + n) ys" by (auto simp: bs x dest: live_range)
  ultimately show ?thesis using s' unfolding sf_free_def by auto
qed

end

end
