(* ===== verification/Heap_Bytes.thy ===== *)
theory Heap_Bytes
  imports Heap_Free
begin

text \<open>
  Bytes in the blocks of the kernel heap: reading back what was written, that writing inside
  allocated blocks keeps the heap in order, and that \<open>sf_calloc\<close> hands out cleared bytes.
\<close>

section \<open>Reading and writing bytes\<close>

lemma hread8_hwrite8: "hread8 (hwrite8 a v m) a' = (if a' = a then v AND mask 8 else hread8 m a')"
proof -
  have k: "unat (x AND 7) < 8" for x :: u64
    using word_and_le1 [of x 7] by (simp add: word_le_nat_alt)
  have split: "x = y" if "x AND NOT 7 = y AND NOT 7" "unat (x AND 7) = unat (y AND 7)" for x y :: u64
  proof -
    have "x AND 7 = y AND 7" using that(2) by (simp only: word_unat_eq_iff)
    then have "(x AND NOT 7) OR (x AND 7) = (y AND NOT 7) OR (y AND 7)" using that(1) by simp
    then show ?thesis by (simp only: bit.conj_disj_distrib [symmetric] bit.disj_cancel_left bit.conj_one_right)
  qed
  have r: "8 * i \<le> 8 * j + q \<and> 8 * j + q < 8 * i + 8 \<longleftrightarrow> i = j" if "q < 8" for i j q :: nat using that by presburger
  show ?thesis
  proof (cases "a' AND NOT 7 = a AND NOT 7")
    case True
    show ?thesis
    proof (cases "a' = a")
      case True
      then show ?thesis unfolding hread8_def hwrite8_def modify_def
        by (intro bit_word_eqI) (use k [of a] in \<open>auto simp: bit_put_field bit_simps\<close>)
    next
      case False
      with split [of a' a] True have "unat (a AND 7) \<noteq> unat (a' AND 7)" by metis
      then show ?thesis using False True unfolding hread8_def hwrite8_def modify_def
        by (intro bit_word_eqI) (use r k [of a'] in \<open>auto simp: bit_put_field bit_simps\<close>)
    qed
  qed (auto simp: hread8_def hwrite8_def modify_def)
qed

lemma hwrite8_other: "x \<noteq> a AND NOT 7 \<Longrightarrow> hwrite8 a v m x = m x"
  by (simp add: hwrite8_def modify_def)

lemma hread8_fill: "hread8 (fill_bytes n a v m) y = (if \<exists>i < n. y = a + of_nat i then v AND mask 8 else hread8 m y)"
proof (induction n arbitrary: a m)
  case (Suc n)
  have "(\<exists>i < Suc n. y = a + of_nat i) \<longleftrightarrow> y = a \<or> (\<exists>i < n. y = a + 1 + of_nat i)"
    by (simp add: Ex_less_Suc2 add.assoc)
  then show ?case unfolding fill_bytes.simps Suc.IH hread8_hwrite8
    by (cases "y = a"; cases "\<exists>i < n. y = a + 1 + of_nat i") (simp_all only: simp_thms if_True if_False)
qed simp

lemma fill_other: "(\<And>i. i < n \<Longrightarrow> x \<noteq> (a + of_nat i) AND NOT 7) \<Longrightarrow> fill_bytes n a v m x = m x"
proof (induction n arbitrary: a m)
  case (Suc n)
  have "x \<noteq> (a + 1 + of_nat i) AND NOT 7" if "i < n" for i
    using Suc.prems [of "Suc i"] that by (simp add: add.assoc)
  then have "fill_bytes n (a + 1) v (hwrite8 a v m) x = hwrite8 a v m x" by (rule Suc.IH)
  then show ?case using Suc.prems [of 0] by (simp add: hwrite8_other)
qed simp

text \<open>The word of a byte in the heap.\<close>

lemma unat_and_not_7: "unat (w AND NOT 7 :: u64) = 8 * (unat w div 8)"
proof -
  have m: "(7 :: u64) = mask 3" by (simp add: mask_eq_exp_minus_1)
  then have "w AND 7 = take_bit 3 w" by (simp add: take_bit_eq_mask)
  then have u: "unat (w AND 7) = unat w mod 8" by (simp only: unsigned_take_bit_eq) (simp add: take_bit_eq_mod)
  have "w - (w AND 7) = w AND NOT (w AND 7)"
    by (rule disjunctive_diff_eq_and_not) (rule bit_word_eqI, auto simp: bit_simps)
  also have "\<dots> = w AND NOT 7" by (rule bit_word_eqI) (auto simp: bit_simps)
  finally have "unat (w AND NOT 7) = unat (w - (w AND 7))" by simp
  also have "\<dots> = unat w - unat (w AND 7)" by (rule unat_sub) (rule word_and_le2)
  finally show ?thesis unfolding u by presburger
qed

lemma unat_heap_byte:
  assumes R: "heap_range b N" and i: "8 * c + i < 16 * N + 16"
  shows "unat (cell b c + of_nat i) = unat b + 8 * c + i"
proof -
  have c: "c \<le> 2 * N + 1" using i by linarith
  have "unat (of_nat i :: u64) = i" using R i by (intro unat_nat64) (simp add: heap_range_def)
  then show ?thesis using unat_cell [OF R c] R i by (subst unat_add_nowrap) (auto simp: heap_range_def)
qed

lemma byte_cell:
  assumes R: "heap_range b N" and i: "8 * c + i < 16 * N + 16"
  shows "(cell b c + of_nat i) AND NOT 7 = cell b (c + i div 8)"
proof -
  have c: "c + i div 8 \<le> 2 * N + 1" using i by linarith
  have "8 * ((unat b + 8 * c + i) div 8) = unat b + 8 * (c + i div 8)" 
  proof -
    define q where "q = 2 * (unat b div 16)"
    have q: "unat b = 8 * q" unfolding q_def using mult_div_mod_eq [of 16 "unat b"] heap_range_aligned [OF R] by linarith
    have "(8 * q + 8 * c + i) div 8 = q + c + i div 8" by simp
    then show ?thesis unfolding q by simp
  qed
  then have "unat ((cell b c + of_nat i) AND NOT 7) = unat (cell b (c + i div 8))"
    unfolding unat_and_not_7 unat_heap_byte [OF R i] unat_cell [OF R c] .
  then show ?thesis by (simp only: word_unat_eq_iff)
qed

text \<open>A byte depends on its word only; bytes of different blocks, or different bytes of a block, are at different addresses.\<close>

lemma block_byte_word:
  assumes R: "heap_range b N" and x: "x + n \<le> N" "i + 16 < 16 * n"
  shows "(cell b (2 * x + 2) + of_nat i) AND NOT 7 = cell b (2 * x + 2 + i div 8)" "2 * x + 2 + i div 8 < 2 * (x + n)"
proof -
  show "(cell b (2 * x + 2) + of_nat i) AND NOT 7 = cell b (2 * x + 2 + i div 8)" by (rule byte_cell [OF R]) (use x in auto)
  show "2 * x + 2 + i div 8 < 2 * (x + n)" using x(2) by presburger
qed

lemma block_byte_cong:
  assumes R: "heap_range b N" and x: "x + n \<le> N" "i + 16 < 16 * n"
    and m': "\<And>c. 2 * x + 2 \<le> c \<Longrightarrow> c < 2 * (x + n) \<Longrightarrow> m' (cell b c) = m (cell b c)"
  shows "hread8 m' (cell b (2 * x + 2) + of_nat i) = hread8 m (cell b (2 * x + 2) + of_nat i)"
  unfolding hread8_def block_byte_word(1) [OF R x] using m' block_byte_word(2) [OF R x] by simp

lemma block_byte_inj:
  assumes R: "heap_range b N" and x: "x + n \<le> N" "i + 16 < 16 * n" and y: "y + k \<le> N" "j + 16 < 16 * k"
    and apart: "x = y \<or> x + n \<le> y \<or> y + k \<le> x"
  shows "cell b (2 * x + 2) + of_nat i = cell b (2 * y + 2) + of_nat j \<longleftrightarrow> x = y \<and> i = j"
proof -
  have "8 * (2 * x + 2) + i < 16 * N + 16" "8 * (2 * y + 2) + j < 16 * N + 16" using x y by auto
  note u = unat_heap_byte [OF R this(1)] unat_heap_byte [OF R this(2)]
  show ?thesis unfolding word_unat_eq_iff u using x(2) y(2) apart by auto
qed

section \<open>Clients write into their blocks\<close>

lemma tags_payload: "blocks m b o' bs \<Longrightarrow> c \<in> tags o' bs \<Longrightarrow> c \<notin> payload o' bs"
proof (induction bs arbitrary: o')
  case (Cons bl bs)
  obtain al n where bl: "bl = (al, n)" by force
  have b: "blocks m b (o' + n) bs" "2 \<le> n" using Cons.prems bl by auto
  from Cons.prems(2) consider "c = 2 * o' + 1" | "c = 2 * (o' + n)" | "c \<in> tags (o' + n) bs" by (auto simp: bl)
  then show ?case
  proof cases
    case 1
    with payload_range [OF b(1), of c] b(2) show ?thesis by (auto simp: bl)
  next
    case 2
    with payload_range [OF b(1), of c] show ?thesis by (auto simp: bl)
  next
    case 3
    with Cons.IH [OF b(1)] tags_range [OF b(1), of c] show ?thesis by (auto simp: bl)
  qed
qed simp

lemma payload_in_live: "c \<in> payload o' bs \<Longrightarrow> \<exists>(y, j) \<in> live o' bs. 2 * y + 2 \<le> c \<and> c < 2 * (y + j)"
proof (induction bs arbitrary: o')
  case (Cons bl bs)
  obtain al n where bl: "bl = (al, n)" by force
  from Cons.prems consider "al" "2 * o' + 2 \<le> c" "c < 2 * (o' + n)" | "c \<in> payload (o' + n) bs"
    by (auto simp: bl split: if_splits)
  then show ?case using Cons.IH by cases (fastforce simp: bl)+
qed simp

text \<open>A heap stays one when only words inside allocated blocks change.\<close>

lemma payload_write_wf:
  assumes wf: "heap_wf b bs s" and h: "freelist_head s' = freelist_head s"
    and m': "\<And>c. c \<le> 2 * total bs + 1 \<Longrightarrow> c \<notin> payload 0 bs \<Longrightarrow> hmem s' (cell b c) = hmem s (cell b c)"
  shows "heap_wf b bs s'"
proof -
  have bl: "blocks (hmem s) b 0 bs" and l: "linked (hmem s) b 0 (frees 0 bs) 0" using wf by (auto simp: heap_wf_def)
  have "blocks (hmem s') b 0 bs" using bl
    by (rule blocks_cong) (use tags_range [OF bl] tags_payload [OF bl] in \<open>fastforce intro!: m'\<close>)
  moreover have "linked (hmem s') b 0 (frees 0 bs) 0" using l
    by (rule linked_cong) (use frees_range [OF bl] payload_links [OF bl] in \<open>fastforce intro!: m'\<close>)
  moreover have "hmem s' (cell b 0) = hmem s (cell b 0)" "hmem s' (cell b (2 * total bs + 1)) = hmem s (cell b (2 * total bs + 1))"
    using payload_range [OF bl] by (intro m'; fastforce)+
  ultimately show ?thesis using wf h by (simp add: heap_wf_def)
qed

lemma payload_write_inv:
  assumes inv: "sf_inv pages_at b bs s" and m': "\<And>x. x \<notin> cell b ` payload 0 bs \<Longrightarrow> m' x = hmem s x"
  shows "sf_inv pages_at b bs (s\<lparr>hmem := m'\<rparr>)"
proof -
  have "heap_wf b bs (s\<lparr>hmem := m'\<rparr>)" if wf: "heap_wf b bs s"
  proof (rule payload_write_wf [OF wf])
    fix c assume c: "c \<le> 2 * total bs + 1" "c \<notin> payload 0 bs"
    have r: "total bs < 2 ^ 27" "blocks (hmem s) b 0 bs" using wf by (auto simp: heap_wf_def heap_range_def)
    have "cell b c \<notin> cell b ` payload 0 bs"
    proof
      assume "cell b c \<in> cell b ` payload 0 bs"
      then obtain d where d: "d \<in> payload 0 bs" "cell b c = cell b d" by blast
      then have "c = d" using payload_range [OF r(2)] r(1) c(1) cell_inj [of c d b] by fastforce
      with d c show False by simp
    qed
    then show "hmem (s\<lparr>hmem := m'\<rparr>) (cell b c) = hmem s (cell b c)" using m' by simp
  qed simp
  with inv show ?thesis by (auto simp: sf_inv_def split: if_splits)
qed

section \<open>Cleared blocks\<close>

context program_break
begin

lemma sf_calloc_spec:
  assumes inv: "sf_inv pages_at base bs s" and sz: "k * sz \<noteq> 0" "unat (k * sz) \<le> 2 ^ 30"
    and room: "room (brk_state s) (units (unat (k * sz)) div 256 + 1)"
  shows "\<exists>x s' bs'. sf_calloc sbrk s k sz = Some (cell base (2 * x + 2), s') \<and> sf_inv pages_at base bs' s' \<and>
     allocates base bs s (units (unat (k * sz))) x bs' s' \<and>
     (\<forall>i < unat (k * sz). hread8 (hmem s') (cell base (2 * x + 2) + of_nat i) = 0)"
proof -
  let ?T = "unat (k * sz)"
  have ok: "checkSizeValidity (k * sz)" using sz by (simp add: checkSizeValidity_def word_le_nat_alt)
  from sf_malloc_spec [OF inv sz room] obtain x s1 bs' where
    r: "sf_malloc sbrk s (k * sz) = Some (cell base (2 * x + 2), s1)" "sf_inv pages_at base bs' s1"
      "allocates base bs s (units ?T) x bs' s1" by blast
  from r(3) obtain n where n: "units ?T \<le> n" "live 0 bs' = insert (x, n) (live 0 bs)"
    "\<forall>(y, j) \<in> live 0 bs. y + j \<le> x \<or> x + n \<le> y"
    "\<forall>c \<in> payload 0 bs. hmem s1 (cell base c) = hmem s (cell base c)" unfolding allocates_def by blast
  let ?p = "cell base (2 * x + 2)" and ?s' = "s1\<lparr>hmem := fill_bytes ?T (cell base (2 * x + 2)) 0 (hmem s1)\<rparr>"
  have "bs' \<noteq> []" using n(2) by auto
  then have wf: "heap_wf base bs' s1" using r(2) by (auto simp: sf_inv_def split: if_splits)
  then have R: "heap_range base (total bs')" and bl: "blocks (hmem s1) base 0 bs'" by (auto simp: heap_wf_def)
  have xn: "x + n \<le> total bs'" using live_range [OF bl, of x n] n(2) by simp
  have T: "?T + 16 \<le> 16 * n" using n(1) by (simp add: units_def)
  have iT: "i + 16 < 16 * n" if "i < ?T" for i using that T by simp
  note w = block_byte_word [OF R xn iT]
  have out: "hmem ?s' y = hmem s1 y" if "\<And>c. 2 * x + 2 \<le> c \<Longrightarrow> c < 2 * (x + n) \<Longrightarrow> y \<noteq> cell base c" for y
  proof -
    have "y \<noteq> (?p + of_nat i) AND NOT 7" if "i < ?T" for i
      unfolding w(1) [OF that] using \<open>\<And>c. 2 * x + 2 \<le> c \<Longrightarrow> c < 2 * (x + n) \<Longrightarrow> y \<noteq> cell base c\<close> w(2) [OF that] by simp
    then show ?thesis using fill_other [of ?T y ?p 0 "hmem s1"] by simp
  qed
  have "sf_inv pages_at base bs' ?s'"
  proof (rule payload_write_inv [OF r(2)])
    fix y assume y: "y \<notin> cell base ` payload 0 bs'"
    have "y \<noteq> cell base c" if "2 * x + 2 \<le> c" "c < 2 * (x + n)" for c
      using payload_live [of x n 0 bs' c] that n(2) y by auto
    then have "hmem ?s' y = hmem s1 y" by (rule out)
    then show "fill_bytes ?T ?p 0 (hmem s1) y = hmem s1 y" by simp
  qed
  moreover have keep: "hmem ?s' (cell base c) = hmem s (cell base c)" if c: "c \<in> payload 0 bs" for c
  proof -
    obtain y j where y: "(y, j) \<in> live 0 bs" "2 * y + 2 \<le> c" "c < 2 * (y + j)" using payload_in_live [OF c] by auto
    have "y + j \<le> total bs'" using live_range [OF bl, of y j] y(1) n(2) by simp
    then have b: "c < 2 ^ 60" "2 * (x + n) < 2 ^ 60" using y(3) R xn by (auto simp: heap_range_def)
    have "c < 2 * x + 2 \<or> 2 * (x + n) \<le> c" using n(3) y by fastforce
    then have "hmem ?s' (cell base c) = hmem s1 (cell base c)" using b by (intro out) (auto simp: cell_inj)
    with n(4) c show ?thesis by simp
  qed
  then have "allocates base bs s (units ?T) x bs' ?s'" using n unfolding allocates_def by blast
  moreover have "\<forall>i < ?T. hread8 (hmem ?s') (?p + of_nat i) = 0" by (auto simp: hread8_fill)
  moreover have "?p \<noteq> 0" using unat_cell [OF R, of "2 * x + 2"] R xn T by (auto simp: heap_range_def)
  then have "sf_calloc sbrk s k sz = Some (?p, ?s')" using ok r(1) by (simp add: sf_calloc_def)
  ultimately show ?thesis by blast
qed

end

end
