(* ===== verification/Kernel_Heap.thy ===== *)
theory Kernel_Heap
  imports Heap_Bytes
begin

text \<open>
  The kernel heap on the pages that \<open>kbrk\<close> maps: what allocation and release promise to the rest
  of the kernel, and that every sequence of requests by a careful client keeps its blocks apart.
\<close>

section \<open>The break of the kernel\<close>

definition KHEAP :: u64 where "KHEAP = KBRK_BASE_ADDRESS + 0x400000"

definition kheap_pages :: "kpt \<Rightarrow> kmem \<Rightarrow> nat \<Rightarrow> bool" where
  "kheap_pages t k n \<longleftrightarrow> heap_at t k n \<and> n \<le> 509 * 512"

text \<open>There is room for \<open>m\<close> pages: addresses, and two free frames for each, as one may be a page table.\<close>

definition kheap_room :: "kpt \<Rightarrow> kmem \<Rightarrow> nat \<Rightarrow> bool" where
  "kheap_room t k m \<longleftrightarrow> (\<exists>n. kbrk t 0 k = Some (KHEAP + of_nat (4096 * n), k) \<and> n + m \<le> 509 * 512) \<and> 2 * m \<le> card (kfree k)"

lemma kheap_break: "kheap_pages t k n \<Longrightarrow> kbrk t 0 k = Some (KHEAP + of_nat (4096 * n), k)"
  using kbrk_query [of t k n] by (simp add: kheap_pages_def KHEAP_def mult.commute)

lemma kheap_count:
  assumes "kheap_pages t k n" "kheap_room t k m"
  shows "n + m \<le> 509 * 512" "2 * m \<le> card (kfree k)"
proof -
  from assms obtain n' where n': "KHEAP + of_nat (4096 * n) = KHEAP + of_nat (4096 * n')" "n' + m \<le> 509 * 512"
    using kheap_break [OF assms(1)] by (auto simp: kheap_room_def)
  have "(of_nat (4096 * n) :: u64) = of_nat (4096 * n')" using n'(1) by (simp only: add_left_cancel)
  then have "4096 * n = 4096 * n'"
    using assms(1) n'(2) by (subst (asm) of_nat_words(2)) (auto simp: kheap_pages_def)
  with n'(2) show "n + m \<le> 509 * 512" by simp
  show "2 * m \<le> card (kfree k)" using assms(2) by (simp add: kheap_room_def)
qed

interpretation kb: program_break "kbrk t" KHEAP "kheap_pages t" "kheap_room t" for t
proof
  have u: "unat KHEAP = 0xFFFFFFFF80400000" by (simp add: KHEAP_def KBRK_BASE_ADDRESS_def)
  show "0 < unat KHEAP" "unat KHEAP + 4096 * (509 * 512) + 16 \<le> 2 ^ 64" unfolding u by simp_all
  show "KHEAP AND 15 = 0" by (simp add: KHEAP_def KBRK_BASE_ADDRESS_def)
  show "kbrk t 0 st = Some (KHEAP + of_nat (4096 * n), st)" if "kheap_pages t st n" for st n
    using that by (rule kheap_break)
  show "\<exists>st'. kbrk t (of_nat (4096 * m)) st = Some (KHEAP + of_nat (4096 * n), st') \<and> kheap_pages t st' (n + m)"
    if "kheap_pages t st n" "kheap_room t st m" "0 < m" for st n m
    using kbrk_grows [of t st n m] kheap_count [OF that(1,2)] that(1,3)
    by (auto simp: kheap_pages_def KHEAP_def mult.commute)
  show "n \<le> 509 * 512" if "kheap_pages t st n" for st n using that by (simp add: kheap_pages_def)
  show "kheap_room t st m'" if "kheap_room t st m" "m' \<le> m" for st m m' using that by (auto simp: kheap_room_def)
qed

section \<open>Clients\<close>

text \<open>The state the kernel starts with.\<close>

definition fresh_heap :: "hmem \<Rightarrow> 's \<Rightarrow> 's sf_heap" where
  "fresh_heap m k = \<lparr>hmem = m, heapStartPtr = 0, freelist_head = 0, firstPageInitialized = False, brk_state = k\<rparr>"

lemma fresh_heap_inv: "heap_at t k 0 \<Longrightarrow> sf_inv (kheap_pages t) KHEAP [] (fresh_heap m k)"
  by (auto simp: sf_inv_def fresh_heap_def kheap_pages_def)

text \<open>
  The abstract heap of a client: the bytes of each block it holds.  It asks for blocks, gives back
  blocks it holds, and writes bytes inside them.
\<close>

type_synonym holdings = "u64 \<rightharpoonup> u64 list"

definition block_bytes :: "hmem \<Rightarrow> u64 \<Rightarrow> nat \<Rightarrow> u64 list" where
  "block_bytes m p n = map (\<lambda>i. hread8 m (p + of_nat i)) [0..<n]"

definition can_serve :: "kpt \<Rightarrow> kmem sf_heap \<Rightarrow> u64 \<Rightarrow> bool" where
  "can_serve t s sz \<longleftrightarrow> sz \<noteq> 0 \<and> unat sz \<le> 2 ^ 30 \<and> kheap_room t (brk_state s) (units (unat sz) div 256 + 1)"

inductive heap_run :: "kpt \<Rightarrow> kmem sf_heap \<Rightarrow> holdings \<Rightarrow> bool" for t where
  start: "heap_at t k 0 \<Longrightarrow> heap_run t (fresh_heap m k) Map.empty"
| malloc: "heap_run t s A \<Longrightarrow> can_serve t s sz \<Longrightarrow> sf_malloc (kbrk t) s sz = Some (p, s') \<Longrightarrow>
    heap_run t s' (A(p \<mapsto> block_bytes (hmem s') p (unat sz)))"
| calloc: "heap_run t s A \<Longrightarrow> can_serve t s (k * sz) \<Longrightarrow> sf_calloc (kbrk t) s k sz = Some (p, s') \<Longrightarrow>
    heap_run t s' (A(p \<mapsto> replicate (unat (k * sz)) 0))"
| free: "heap_run t s A \<Longrightarrow> p \<in> dom A \<Longrightarrow> sf_free (kbrk t) s p = Some s' \<Longrightarrow> heap_run t s' (A(p := None))"
| poke: "heap_run t s A \<Longrightarrow> A p = Some bytes \<Longrightarrow> i < length bytes \<Longrightarrow>
    heap_run t (s\<lparr>hmem := hwrite8 (p + of_nat i) v (hmem s)\<rparr>) (A(p \<mapsto> bytes[i := v AND mask 8]))"

text \<open>What relates the two: each block that is held is a live block of the heap, large enough and with these bytes.\<close>

definition held :: "hmem \<Rightarrow> block list \<Rightarrow> u64 \<Rightarrow> u64 list \<Rightarrow> bool" where
  "held m bs p bytes \<longleftrightarrow> (\<exists>x n. p = cell KHEAP (2 * x + 2) \<and> (x, n) \<in> live 0 bs \<and> length bytes + 16 \<le> 16 * n \<and>
     bytes = block_bytes m p (length bytes))"

definition heap_sim :: "kpt \<Rightarrow> block list \<Rightarrow> kmem sf_heap \<Rightarrow> holdings \<Rightarrow> bool" where
  "heap_sim t bs s A \<longleftrightarrow> sf_inv (kheap_pages t) KHEAP bs s \<and> (\<forall>p bytes. A p = Some bytes \<longrightarrow> held (hmem s) bs p bytes)"

lemma inv_wf:
  assumes "sf_inv pages_at b bs s" "(x, n) \<in> live 0 bs"
  shows "heap_wf b bs s" "heap_range b (total bs)" "blocks (hmem s) b 0 bs" "x + n \<le> total bs" "2 \<le> n"
proof -
  have "bs \<noteq> []" using assms(2) by auto
  then show wf: "heap_wf b bs s" using assms(1) by (auto simp: sf_inv_def split: if_splits)
  then show "heap_range b (total bs)" and bl: "blocks (hmem s) b 0 bs" by (auto simp: heap_wf_def)
  from live_range [OF bl assms(2)] show "x + n \<le> total bs" "2 \<le> n" by auto
qed

lemma held_kept:
  assumes inv: "sf_inv pages_at KHEAP bs s" and h: "held (hmem s) bs p bytes"
    and l: "\<And>x n. p = cell KHEAP (2 * x + 2) \<Longrightarrow> (x, n) \<in> live 0 bs \<Longrightarrow> (x, n) \<in> live 0 bs' \<and>
      (\<forall>c. 2 * x + 2 \<le> c \<longrightarrow> c < 2 * (x + n) \<longrightarrow> m' (cell KHEAP c) = hmem s (cell KHEAP c))"
  shows "held m' bs' p bytes"
proof -
  from h obtain x n where x: "p = cell KHEAP (2 * x + 2)" "(x, n) \<in> live 0 bs" "length bytes + 16 \<le> 16 * n"
    "bytes = block_bytes (hmem s) p (length bytes)" unfolding held_def by blast
  note w = inv_wf [OF inv x(2)]
  have "hread8 m' (p + of_nat i) = hread8 (hmem s) (p + of_nat i)" if "i < length bytes" for i
    unfolding x(1) by (rule block_byte_cong [OF w(2,4)]) (use that x(3) l [OF x(1,2)] in auto)
  then have "block_bytes m' p (length bytes) = block_bytes (hmem s) p (length bytes)" by (simp add: block_bytes_def)
  with x l [OF x(1,2)] show ?thesis unfolding held_def by auto
qed

lemma length_block_bytes [simp]: "length (block_bytes m p n) = n"
  by (simp add: block_bytes_def)

text \<open>A new block of at least the units asked for.\<close>

lemma allocates_sim:
  assumes sim: "heap_sim t bs s A" and inv: "sf_inv (kheap_pages t) KHEAP bs' s'" and al: "allocates KHEAP bs s (units n) x bs' s'"
  shows "heap_sim t bs' s' (A(cell KHEAP (2 * x + 2) \<mapsto> block_bytes (hmem s') (cell KHEAP (2 * x + 2)) n))"
proof -
  let ?p = "cell KHEAP (2 * x + 2)"
  from al obtain j where j: "units n \<le> j" "live 0 bs' = insert (x, j) (live 0 bs)"
    "\<forall>c \<in> payload 0 bs. hmem s' (cell KHEAP c) = hmem s (cell KHEAP c)" unfolding allocates_def by blast
  have inv0: "sf_inv (kheap_pages t) KHEAP bs s" using sim by (simp add: heap_sim_def)
  have "held (hmem s') bs' ?p (block_bytes (hmem s') ?p n)"
    unfolding held_def using j(1,2) by (intro exI [of _ x] exI [of _ j]) (auto simp: units_def)
  moreover have "held (hmem s') bs' p bytes" if "A p = Some bytes" for p bytes
    by (rule held_kept [OF inv0]) (use sim that j payload_live in \<open>auto simp: heap_sim_def\<close>)
  ultimately show ?thesis using inv by (auto simp: heap_sim_def)
qed

lemma free_sim:
  assumes sim: "heap_sim t bs s A" and p: "p \<in> dom A"
  shows "\<exists>s' bs'. sf_free (kbrk t) s p = Some s' \<and> heap_sim t bs' s' (A(p := None))"
proof -
  from p obtain bytes where A: "A p = Some bytes" by blast
  have inv: "sf_inv (kheap_pages t) KHEAP bs s" and h: "\<And>q bytes. A q = Some bytes \<Longrightarrow> held (hmem s) bs q bytes"
    using sim by (auto simp: heap_sim_def)
  from h [OF A] obtain x n where x: "p = cell KHEAP (2 * x + 2)" "(x, n) \<in> live 0 bs" unfolding held_def by blast
  from kb.sf_free_spec [OF inv x(2)] obtain s' bs' where
    r: "sf_free (kbrk t) s p = Some s'" "sf_inv (kheap_pages t) KHEAP bs' s'" "live 0 bs' = live 0 bs - {(x, n)}"
      "\<forall>c \<in> payload 0 bs'. hmem s' (cell KHEAP c) = hmem s (cell KHEAP c)" unfolding x(1) by blast
  have "held (hmem s') bs' q b" if "q \<noteq> p" "A q = Some b" for q b
  proof (rule held_kept [OF inv h [OF that(2)]])
    fix y k assume y: "q = cell KHEAP (2 * y + 2)" "(y, k) \<in> live 0 bs"
    then have "(y, k) \<in> live 0 bs'" using that(1) x(1) r(3) by auto
    with r(4) payload_live [OF this] show "(y, k) \<in> live 0 bs' \<and>
      (\<forall>c. 2 * y + 2 \<le> c \<longrightarrow> c < 2 * (y + k) \<longrightarrow> hmem s' (cell KHEAP c) = hmem s (cell KHEAP c))" by blast
  qed
  with r show ?thesis by (intro exI [of _ s'] exI [of _ bs']) (auto simp: heap_sim_def)
qed

lemma poke_sim:
  assumes sim: "heap_sim t bs s A" and p: "A p = Some bytes" "i < length bytes"
  shows "heap_sim t bs (s\<lparr>hmem := hwrite8 (p + of_nat i) v (hmem s)\<rparr>) (A(p \<mapsto> bytes[i := v AND mask 8]))"
proof -
  let ?m' = "hwrite8 (p + of_nat i) v (hmem s)"
  have inv: "sf_inv (kheap_pages t) KHEAP bs s" and h: "\<And>q bytes. A q = Some bytes \<Longrightarrow> held (hmem s) bs q bytes"
    using sim by (auto simp: heap_sim_def)
  from h [OF p(1)] obtain x n where x: "p = cell KHEAP (2 * x + 2)" "(x, n) \<in> live 0 bs" "length bytes + 16 \<le> 16 * n"
    "bytes = block_bytes (hmem s) p (length bytes)" unfolding held_def by blast
  note w = inv_wf [OF inv x(2)]
  have i: "i + 16 < 16 * n" using p(2) x(3) by simp
  have inv': "sf_inv (kheap_pages t) KHEAP bs (s\<lparr>hmem := ?m'\<rparr>)"
  proof (rule payload_write_inv [OF inv])
    fix a assume a: "a \<notin> cell KHEAP ` payload 0 bs"
    have "2 * x + 2 + i div 8 \<in> payload 0 bs"
      using payload_live [OF x(2)] block_byte_word(2) [OF w(2,4) i] by simp
    then have "a \<noteq> (p + of_nat i) AND NOT 7" using a block_byte_word(1) [OF w(2,4) i] x(1) by auto
    then show "?m' a = hmem s a" by (rule hwrite8_other)
  qed
  have rd: "hread8 ?m' (cell KHEAP (2 * y + 2) + of_nat j) =
      (if y = x \<and> j = i then v AND mask 8 else hread8 (hmem s) (cell KHEAP (2 * y + 2) + of_nat j))"
    if "(y, k) \<in> live 0 bs" "j + 16 < 16 * k" for y k j
  proof -
    have "y = x \<or> y + k \<le> x \<or> x + n \<le> y" using live_apart [OF w(3) that(1) x(2)] by auto
    from block_byte_inj [OF w(2) inv_wf(4) [OF inv that(1)] that(2) w(4) i this]
    show ?thesis unfolding hread8_hwrite8 x(1) by simp
  qed
  have "held ?m' bs p (bytes[i := v AND mask 8])"
  proof -
    have "bytes[i := v AND mask 8] = block_bytes ?m' p (length bytes)"
    proof (rule nth_equalityI)
      fix j assume j: "j < length (bytes[i := v AND mask 8])"
      then have "hread8 ?m' (p + of_nat j) = (if j = i then v AND mask 8 else hread8 (hmem s) (p + of_nat j))"
        using rd [OF x(2), of j] x(1,3) by simp
      then show "bytes[i := v AND mask 8] ! j = block_bytes ?m' p (length bytes) ! j"
        using j arg_cong [OF x(4), of "\<lambda>l. l ! j"] by (auto simp: block_bytes_def nth_list_update)
    qed simp
    with x show ?thesis unfolding held_def by (intro exI [of _ x] exI [of _ n]) simp
  qed
  moreover have "held ?m' bs q b" if q: "q \<noteq> p" "A q = Some b" for q b
  proof -
    from h [OF q(2)] obtain y k where y: "q = cell KHEAP (2 * y + 2)" "(y, k) \<in> live 0 bs" "length b + 16 \<le> 16 * k"
      "b = block_bytes (hmem s) q (length b)" unfolding held_def by blast
    have "block_bytes ?m' q (length b) = block_bytes (hmem s) q (length b)"
      unfolding block_bytes_def by (rule map_cong [OF refl]) (use rd [OF y(2)] y(1,3) q(1) x(1) in auto)
    with y show ?thesis unfolding held_def by (intro exI [of _ y] exI [of _ k]) simp
  qed
  ultimately show ?thesis using inv' by (auto simp: heap_sim_def)
qed

lemma heap_run_sim: "heap_run t s A \<Longrightarrow> \<exists>bs. heap_sim t bs s A"
proof (induction rule: heap_run.induct)
  case (start k m)
  then show ?case using fresh_heap_inv by (auto simp: heap_sim_def)
next
  case (malloc s A sz p s')
  then obtain bs where bs: "heap_sim t bs s A" by blast
  then have "sf_inv (kheap_pages t) KHEAP bs s" by (simp add: heap_sim_def)
  from kb.sf_malloc_spec [OF this] malloc(2,3) obtain x bs' where "p = cell KHEAP (2 * x + 2)"
    "sf_inv (kheap_pages t) KHEAP bs' s'" "allocates KHEAP bs s (units (unat sz)) x bs' s'" by (fastforce simp: can_serve_def)
  with allocates_sim [OF bs] show ?case by blast
next
  case (calloc s A k sz p s')
  then obtain bs where bs: "heap_sim t bs s A" by blast
  then have "sf_inv (kheap_pages t) KHEAP bs s" by (simp add: heap_sim_def)
  from kb.sf_calloc_spec [OF this] calloc(2,3) obtain x bs' where r: "p = cell KHEAP (2 * x + 2)"
    "sf_inv (kheap_pages t) KHEAP bs' s'" "allocates KHEAP bs s (units (unat (k * sz))) x bs' s'"
    "\<forall>i < unat (k * sz). hread8 (hmem s') (cell KHEAP (2 * x + 2) + of_nat i) = 0" by (fastforce simp: can_serve_def)
  then have "block_bytes (hmem s') p (unat (k * sz)) = replicate (unat (k * sz)) 0"
    by (intro nth_equalityI) (auto simp: block_bytes_def)
  with allocates_sim [OF bs r(2,3)] r(1) show ?case by metis
next
  case (free s A p s')
  then show ?case by (metis free_sim option.inject)
next
  case (poke s A p bytes i v)
  then show ?case using poke_sim by blast
qed

section \<open>What the kernel heap promises\<close>

text \<open>
  C9. A request of at most 1 GiB, for which there is room, is served.  \<open>sf_malloc\<close> returns a block
  of at least the size asked for, from the free list or from new pages; the heap stays in order,
  the block is apart from all blocks handed out before, and their contents stay.
\<close>

theorem sf_malloc_allocates:
  assumes "sf_inv (kheap_pages t) KHEAP bs s" "sz \<noteq> 0" "unat sz \<le> 2 ^ 30"
    "kheap_room t (brk_state s) (units (unat sz) div 256 + 1)"
  shows "\<exists>x s' bs'. sf_malloc (kbrk t) s sz = Some (cell KHEAP (2 * x + 2), s') \<and>
     sf_inv (kheap_pages t) KHEAP bs' s' \<and> allocates KHEAP bs s (units (unat sz)) x bs' s'"
  by (rule kb.sf_malloc_spec [OF assms])

lemma kernel_heap_ready:
  "\<exists>t k. kernel_page_table_init pages_example = Some (t, k) \<and> heap_at t k 0 \<and> kheap_room t k 2"
proof -
  obtain t k where k: "kernel_page_table_init pages_example = Some (t, k)" "heap_at t k 0" "4 \<le> card (kfree k)"
    using kernel_tables_ready [OF pages_example_ok(1)] pages_example_ok(2) by auto
  then have "kheap_room t k 2" using kheap_break [of t k 0]
    unfolding kheap_room_def by (intro conjI exI [of _ 0]) (simp_all add: kheap_pages_def)
  with k show ?thesis by blast
qed

theorem sf_malloc_allocates_witness:
  "\<exists>t k x s' bs'. kernel_page_table_init pages_example = Some (t, k) \<and>
     sf_malloc (kbrk t) (fresh_heap (\<lambda>_. 7) k) 300 = Some (cell KHEAP (2 * x + 2), s') \<and>
     sf_inv (kheap_pages t) KHEAP bs' s' \<and> allocates KHEAP [] (fresh_heap (\<lambda>_. 7) k) 20 x bs' s'"
proof -
  obtain t k where k: "kernel_page_table_init pages_example = Some (t, k)" "heap_at t k 0" "kheap_room t k 2"
    using kernel_heap_ready by blast
  have "kheap_room t k 1" by (rule kb.room_less [OF k(3)]) simp
  then show ?thesis using sf_malloc_allocates [OF fresh_heap_inv [OF k(2)], of 300] k(1)
    by (fastforce simp: units_def fresh_heap_def)
qed

text \<open>
  C10. A block that was handed out is taken back.  \<open>sf_free\<close> accepts its pointer, the block is free
  afterwards, merged with free neighbours, all other blocks and their contents stay, and the
  heap stays in order.
\<close>

theorem sf_free_releases:
  assumes "sf_inv (kheap_pages t) KHEAP bs s" "(x, n) \<in> live 0 bs"
  shows "\<exists>s' bs'. sf_free (kbrk t) s (cell KHEAP (2 * x + 2)) = Some s' \<and> sf_inv (kheap_pages t) KHEAP bs' s' \<and>
     live 0 bs' = live 0 bs - {(x, n)} \<and> (\<forall>c \<in> payload 0 bs'. hmem s' (cell KHEAP c) = hmem s (cell KHEAP c)) \<and>
     brk_state s' = brk_state s"
  by (rule kb.sf_free_spec [OF assms])

lemma kernel_heap_block:
  "\<exists>t k s bs x n. kernel_page_table_init pages_example = Some (t, k) \<and> heap_run t s [cell KHEAP (2 * x + 2) \<mapsto> replicate 24 0] \<and>
     sf_inv (kheap_pages t) KHEAP bs s \<and> live 0 bs = {(x, n)}"
proof -
  obtain t k where k: "kernel_page_table_init pages_example = Some (t, k)" "heap_at t k 0" "kheap_room t k 2"
    using kernel_heap_ready by blast
  have room: "kheap_room t k 1" by (rule kb.room_less [OF k(3)]) simp
  let ?s = "fresh_heap (\<lambda>_. 7) k"
  from kb.sf_calloc_spec [OF fresh_heap_inv [OF k(2)], of 8 3 "\<lambda>_. 7"] room obtain x s bs where
    r: "sf_calloc (kbrk t) ?s 8 3 = Some (cell KHEAP (2 * x + 2), s)" "sf_inv (kheap_pages t) KHEAP bs s"
      "allocates KHEAP [] ?s 3 x bs s" by (auto simp: units_def fresh_heap_def)
  from r(3) obtain n where "live 0 bs = {(x, n)}" by (auto simp: allocates_def)
  moreover have "can_serve t ?s (8 * 3)" using room by (simp add: can_serve_def units_def fresh_heap_def)
  then have "heap_run t s (Map.empty(cell KHEAP (2 * x + 2) \<mapsto> replicate (unat (8 * 3 :: u64)) 0))"
    using heap_run.start [OF k(2)] r(1) by (intro heap_run.calloc)
  ultimately show ?thesis using k(1) r(2) by auto
qed

theorem sf_free_releases_witness:
  "\<exists>t k s s' bs bs' x n. kernel_page_table_init pages_example = Some (t, k) \<and> live 0 bs = {(x, n)} \<and>
     sf_inv (kheap_pages t) KHEAP bs s \<and>
     sf_free (kbrk t) s (cell KHEAP (2 * x + 2)) = Some s' \<and> sf_inv (kheap_pages t) KHEAP bs' s' \<and> live 0 bs' = {}"
proof -
  obtain t k s bs x n where k: "kernel_page_table_init pages_example = Some (t, k)"
    "sf_inv (kheap_pages t) KHEAP bs s" "live 0 bs = {(x, n)}" using kernel_heap_block by blast
  obtain s' bs' where "sf_free (kbrk t) s (cell KHEAP (2 * x + 2)) = Some s'" "sf_inv (kheap_pages t) KHEAP bs' s'" "live 0 bs' = {}"
    using sf_free_releases [OF k(2), of x n] k(3) by auto
  with k show ?thesis by blast
qed

text \<open>
  C8. The kernel heap is a store of blocks.  Whatever sequence of \<open>sf_malloc\<close>, \<open>sf_calloc\<close> and
  \<open>sf_free\<close> a client calls, and whatever it writes into the blocks it holds, the bytes in a
  block are those it wrote last, or zero where \<open>sf_calloc\<close> cleared them; blocks it holds do not
  overlap; and each of them can be given back.
\<close>

theorem heap_run_refines:
  assumes "heap_run t s A" "A p = Some bytes"
  shows "block_bytes (hmem s) p (length bytes) = bytes \<and>
     (\<forall>q bytes'. A q = Some bytes' \<longrightarrow> q \<noteq> p \<longrightarrow> unat p + length bytes \<le> unat q \<or> unat q + length bytes' \<le> unat p) \<and>
     (\<exists>s'. sf_free (kbrk t) s p = Some s' \<and> heap_run t s' (A(p := None)))"
proof -
  obtain bs where sim: "heap_sim t bs s A" using heap_run_sim [OF assms(1)] by blast
  then have inv: "sf_inv (kheap_pages t) KHEAP bs s" and h: "\<And>q b. A q = Some b \<Longrightarrow> held (hmem s) bs q b"
    by (auto simp: heap_sim_def)
  from h [OF assms(2)] obtain x n where x: "p = cell KHEAP (2 * x + 2)" "(x, n) \<in> live 0 bs" "length bytes + 16 \<le> 16 * n"
    "bytes = block_bytes (hmem s) p (length bytes)" unfolding held_def by blast
  note w = inv_wf [OF inv x(2)]
  have up: "unat p = unat KHEAP + 8 * (2 * x + 2)" unfolding x(1) by (rule unat_cell [OF w(2)]) (use w(4,5) in simp)
  have "unat p + length bytes \<le> unat q \<or> unat q + length b \<le> unat p" if q: "A q = Some b" "q \<noteq> p" for q b
  proof -
    from h [OF q(1)] obtain y k where y: "q = cell KHEAP (2 * y + 2)" "(y, k) \<in> live 0 bs" "length b + 16 \<le> 16 * k"
      unfolding held_def by blast
    have "unat q = unat KHEAP + 8 * (2 * y + 2)" unfolding y(1)
      by (rule unat_cell [OF w(2)]) (use inv_wf(4,5) [OF inv y(2)] in simp)
    moreover have "x + n \<le> y \<or> y + k \<le> x" using live_apart [OF w(3) x(2) y(2)] q(2) x(1) y(1) by auto
    ultimately show ?thesis using up x(3) y(3) by auto
  qed
  moreover from free_sim [OF sim] assms(2) obtain s' where "sf_free (kbrk t) s p = Some s'" by blast
  ultimately show ?thesis using x(4) assms heap_run.free by (metis domI)
qed

theorem heap_run_refines_witness:
  "\<exists>t k s s' x. kernel_page_table_init pages_example = Some (t, k) \<and>
     block_bytes (hmem s) (cell KHEAP (2 * x + 2)) 24 = (replicate 24 0)[5 := 9] \<and>
     sf_free (kbrk t) s (cell KHEAP (2 * x + 2)) = Some s' \<and> heap_run t s' Map.empty"
proof -
  obtain t k s x where k: "kernel_page_table_init pages_example = Some (t, k)"
    "heap_run t s [cell KHEAP (2 * x + 2) \<mapsto> replicate 24 0]" using kernel_heap_block by blast
  let ?p = "cell KHEAP (2 * x + 2)" and ?s = "s\<lparr>hmem := hwrite8 (cell KHEAP (2 * x + 2) + of_nat 5) 9 (hmem s)\<rparr>"
  have "heap_run t ?s ([?p \<mapsto> replicate 24 0](?p \<mapsto> (replicate 24 0)[5 := 9 AND mask 8]))"
    by (rule heap_run.poke [OF k(2)]) simp_all
  moreover have "(9 :: u64) AND mask 8 = 9" by (simp add: mask_eq_exp_minus_1)
  ultimately have run: "heap_run t ?s ([?p \<mapsto> (replicate 24 0)[5 := 9]])" by (simp only: fun_upd_upd)
  have e: "([?p \<mapsto> (replicate 24 0)[5 := 9]])(?p := None) = (Map.empty :: holdings)" by simp
  have "block_bytes (hmem ?s) ?p (length ((replicate 24 0 :: u64 list)[5 := 9])) = (replicate 24 0)[5 := 9]"
    "\<exists>s'. sf_free (kbrk t) ?s ?p = Some s' \<and> heap_run t s' Map.empty"
    using heap_run_refines [OF run fun_upd_same] unfolding e by blast+
  with k(1) show ?thesis unfolding length_list_update length_replicate by blast
qed

section \<open>Requests of two gigabytes and more\<close>

text \<open>
  \<open>checkSizeValidity\<close> lets requests up to \<open>2 ^ 32\<close> bytes pass, but the size is then kept in an \<open>int\<close>.
\<close>

lemma int_overflow:
  assumes "2 ^ 31 \<le> unat sz" "unat sz \<le> 2 ^ 32"
  shows "sint (ucast (real8 sz * 8) :: u32) \<le> 16"
proof -
  define u where "u = units (unat sz)"
  have u: "2 ^ 27 < u" "u \<le> 2 ^ 28 + 1" using assms by (simp_all add: u_def units_def)
  have e: "real8 sz * 8 = of_nat (16 * u)" using real8_units assms(2) by (simp add: u_def)
  have un: "unat (ucast (real8 sz * 8) :: u32) = (16 * u) mod 2 ^ 32"
  proof -
    have "unat (of_nat (16 * u) :: u64) = 16 * u" using u by (intro unat_nat64) simp
    then show ?thesis unfolding e by (simp only: unsigned_ucast_eq) (simp add: take_bit_eq_mod)
  qed
  have si: "sint w = int (unat w) - 2 ^ 32 * of_bool (bit w 31)" for w :: u32
    using uint_bounded [of w] by (simp add: sint_uint signed_take_bit_eq_take_bit_minus bit_uint_iff take_bit_int_eq_self)
  show ?thesis
  proof (cases "u < 2 ^ 28")
    case True
    then have w: "unat (ucast (real8 sz * 8) :: u32) = 16 * u" using un by simp
    have "(16 * u) div 2 ^ 31 = 1" using True u(1) by (intro div_nat_eqI) simp_all
    then have "bit (unat (ucast (real8 sz * 8) :: u32)) 31" unfolding w by (simp add: bit_iff_odd)
    then have "bit (ucast (real8 sz * 8) :: u32) 31" by (simp add: bit_unsigned_iff)
    then show ?thesis using si [of "ucast (real8 sz * 8)"] True by (simp add: w)
  next
    case False
    then have "u = 2 ^ 28 \<or> u = 2 ^ 28 + 1" using u(2) by linarith
    then have "unat (ucast (real8 sz * 8) :: u32) \<le> 16" using un by auto
    then have "int (unat (ucast (real8 sz * 8) :: u32)) \<le> 16" by (simp only: of_nat_le_numeral_iff)
    moreover have "sint (ucast (real8 sz * 8) :: u32) \<le> int (unat (ucast (real8 sz * 8) :: u32))" unfolding si by simp
    ultimately show ?thesis by linarith
  qed
qed

text \<open>
  The first free block is handed out for such a request, whatever its size: fewer bytes than
  were asked for.
\<close>

theorem sf_malloc_oversized:
  assumes "heap_wf b (xs @ (False, n) # ys) s" "\<forall>f \<in> set xs. fst f" "2 ^ 31 \<le> unat sz" "unat sz \<le> 2 ^ 32"
  shows "\<exists>s'. sf_malloc sbrk s sz = Some (cell b (2 * total xs + 2), s') \<and> heap_wf b (xs @ (True, n) # ys) s' \<and>
     16 * n < unat sz"
proof -
  let ?h = "hptr b (total xs)" and ?need = "ucast (real8 sz * 8) :: u32"
  note g = heap_wf_gap [OF assms(1)]
  note r = gap_ranges [OF g(1)]
  have R: "heap_range b (total xs + n + total ys)" using g(1) by (simp add: gap_def)
  have hd: "freelist_head s = ?h" using assms(1,2) by (simp add: heap_wf_def frees_none)
  have nz: "?h \<noteq> 0" by (rule hptr_nz [OF R]) simp
  have "sint (bytes_int (hmem s ?h)) = int (16 * n)"
    using bytes_int_tag [OF g(4)] int_small(1) [of "16 * n"] r by simp
  then have "sint ?need \<le> sint (bytes_int (hmem s ?h))" using int_overflow [OF assms(3,4)] r(4) by simp
  then have f: "find_free (hmem s) ?need 0 (freelist_head s) = Some (0, ?h)"
    unfolding hd using nz by (subst find_free.simps) simp
  have k: "real8 sz = of_nat (2 * units (unat sz))" using real8_units assms(4) by simp
  have u: "units (unat sz) < 2 ^ 59" "n < units (unat sz) + 2" using assms(3,4) r by (auto simp: units_def)
  from sf_allocate_whole [OF assms(1) k u] obtain s' where
    s': "sf_allocate s ?h sz = Some (cell b (2 * total xs + 2), s')" "heap_wf b (xs @ (True, n) # ys) s'" by blast
  have "checkSizeValidity sz" using assms(3,4) by (auto simp: checkSizeValidity_def word_le_nat_alt)
  then have "sf_malloc sbrk s sz = Some (cell b (2 * total xs + 2), s')" using f nz s'(1) by (simp add: sf_malloc_def)
  then show ?thesis using s'(2) assms(3) r by auto
qed

theorem sf_malloc_oversized_witness:
  "\<exists>s'. sf_malloc (\<lambda>_ _. None) \<lparr>hmem = (\<lambda>a. if a = 24 \<or> a = 80 then 64 else 0), heapStartPtr = 24, freelist_head = 24,
       firstPageInitialized = True, brk_state = ()\<rparr> 0x80000000 = Some (32, s') \<and> heap_wf 16 [(True, 4)] s'"
proof -
  let ?s = "\<lparr>hmem = (\<lambda>a. if a = 24 \<or> a = 80 then 64 else 0), heapStartPtr = 24, freelist_head = 24,
       firstPageInitialized = True, brk_state = ()\<rparr>"
  have "heap_wf 16 ([] @ (False, 4) # []) ?s"
    by (simp add: heap_wf_def tag_def h_alloc_def block_size_def cell_def hptr_def heap_range_def mask_eq_exp_minus_1)
  from sf_malloc_oversized [OF this, of "0x80000000" "\<lambda>_ _. None"] show ?thesis by (auto simp: cell_def)
qed

end
