(* ===== verification/Sbush_Parse.thy ===== *)
theory Sbush_Parse
  imports Misc
begin

text \<open>
  The command lines of the shell, \<^verbatim>\<open>bin/sbush/sbush_process.c\<close>: a line is cut at its bars and each
  part at its spaces, in buffers of fixed size.  \<open>None\<close> is an access outside of a buffer, in front
  of its first byte included.  Blocks from \<open>malloc\<close> are zero, as the C library never uses memory
  twice; how many bytes may be touched in the one for the copy of the line is an argument.
\<close>

section \<open>Strings\<close>

abbreviation SPACE :: u8 where "SPACE \<equiv> 32"
abbreviation AMP :: u8 where "AMP \<equiv> 38"
abbreviation BAR :: u8 where "BAR \<equiv> 124"

definition NUMBER_OF_TOKENS_BY_PIPE :: nat where "NUMBER_OF_TOKENS_BY_PIPE = 20"
definition NUMBER_OF_TOKENS_BY_SPACE :: nat where "NUMBER_OF_TOKENS_BY_SPACE = 20"
definition NUMBER_OF_CHAR_EACH_TOKEN :: nat where "NUMBER_OF_CHAR_EACH_TOKEN = 50"

fun selfdefine_stringlen :: "bytes \<Rightarrow> nat option" where
  "selfdefine_stringlen [] = None"
| "selfdefine_stringlen (c # cs) = (if c = 0 then Some 0 else map_option Suc (selfdefine_stringlen cs))"

text \<open>The two strings never overlap where this is called.\<close>

definition self_strCpy :: "bytes \<Rightarrow> bytes \<Rightarrow> bytes option" where
  "self_strCpy des src =
     do {
       len \<leftarrow> selfdefine_stringlen src;
       if len < length des then Some (put_at des 0 (take len src @ [0])) else None
     }"

fun self_strComp :: "bytes \<Rightarrow> bytes \<Rightarrow> int option" where
  "self_strComp (a # as) (b # bs) =
     (if a \<noteq> 0 \<and> b \<noteq> 0 \<and> a = b then self_strComp as bs else Some (uint a - uint b))"
| "self_strComp _ _ = None"

definition lastCharIsAmpercent :: "bytes \<Rightarrow> bool option" where
  "lastCharIsAmpercent s =
     do {
       len \<leftarrow> selfdefine_stringlen s;
       if len = 0 then None else Some (s ! (len - 1) = AMP)
     }"

text \<open>\<open>back_index + 1\<close> is counted down.\<close>

fun trim_end :: "bytes \<Rightarrow> nat \<Rightarrow> bytes option" where
  "trim_end token 0 = None"
| "trim_end token (Suc i) = (if token ! i = SPACE then trim_end (token[i := 0]) i else Some token)"

definition removeSpaceOnTheEnd :: "bytes \<Rightarrow> bytes option" where
  "removeSpaceOnTheEnd token =
     do {
       len \<leftarrow> selfdefine_stringlen token;
       token1 \<leftarrow> trim_end token len;
       len1 \<leftarrow> selfdefine_stringlen token1;
       let front_index = length (takeWhile (\<lambda>c. c = SPACE) (take len1 token1));
       template \<leftarrow> self_strCpy (replicate 100 0) (drop front_index token1);
       self_strCpy token1 template
     }"

partial_function (option) strip_from :: "bytes \<Rightarrow> nat \<Rightarrow> nat \<Rightarrow> bytes option" where
  "strip_from token index new_index =
     do {
       c \<leftarrow> byte_at token index;
       if c = 0 then put_byte token new_index 0
       else if c \<noteq> SPACE \<or> 0 < index \<and> token ! (index - 1) \<noteq> SPACE
       then do { token' \<leftarrow> put_byte token new_index c; strip_from token' (index + 1) (new_index + 1) }
       else strip_from token (index + 1) new_index
     }"

declare strip_from.simps [code]

definition stripExtraSpace :: "bytes \<Rightarrow> bytes option" where
  "stripExtraSpace token = strip_from token 0 0"

section \<open>Cutting a line\<close>

definition copy_token :: "bytes list \<Rightarrow> nat \<Rightarrow> bytes \<Rightarrow> bytes list option" where
  "copy_token save_tokens i tok =
     (if i < length save_tokens then do { b \<leftarrow> self_strCpy (save_tokens ! i) tok; Some (save_tokens[i := b]) } else None)"

text \<open>The loop of \<open>ParseCommand\<close>; \<open>tok\<close> is \<open>save_tokenChar\<close>.\<close>

fun parse_pipes :: "bytes \<Rightarrow> bytes \<Rightarrow> nat \<Rightarrow> bytes list \<Rightarrow> nat \<Rightarrow> (bytes list \<times> nat) option" where
  "parse_pipes [] tok ci save_tokens ti = None"
| "parse_pipes (c # rest) tok ci save_tokens ti =
     (if c = 0 then do { ts \<leftarrow> copy_token save_tokens ti tok; Some (ts, ti + 1) }
      else if c \<noteq> BAR then do { tok' \<leftarrow> put_byte tok ci c; parse_pipes rest tok' (ci + 1) save_tokens ti }
      else do {
        ts \<leftarrow> copy_token save_tokens ti tok;
        parse_pipes rest (replicate NUMBER_OF_CHAR_EACH_TOKEN 0) 0 ts (ti + 1)
      })"

text \<open>
  \<open>index\<close> stays 0 for a line without content; \<open>backup\<close> is the memory from the block for the copy up
  to the program's break, as \<open>malloc\<close> leaves it (\<open>ProcessCommand_heap\<close> of \<open>Sbush_Main\<close>).
\<close>

definition ParseCommand :: "bytes \<Rightarrow> bytes list \<Rightarrow> bytes \<Rightarrow> (bytes list \<times> nat) option" where
  "ParseCommand command save_tokens backup =
     do {
       backup1 \<leftarrow> self_strCpy backup command;
       backup2 \<leftarrow> removeSpaceOnTheEnd backup1;
       len \<leftarrow> selfdefine_stringlen backup2;
       if len = 0 then Some (save_tokens, 0)
       else parse_pipes backup2 (replicate NUMBER_OF_CHAR_EACH_TOKEN 0) 0 save_tokens 0
     }"

text \<open>
  The loop of \<open>ParseBySpace\<close>; \<open>argv\<close> is the list of the blocks stored so far, of at most
  \<open>NUMBER_OF_TOKENS_BY_SPACE\<close>.
\<close>

definition push_arg :: "bytes list \<Rightarrow> bytes \<Rightarrow> bytes list option" where
  "push_arg argv tok =
     (if length argv < NUMBER_OF_TOKENS_BY_SPACE
      then do { b \<leftarrow> self_strCpy (replicate NUMBER_OF_CHAR_EACH_TOKEN 0) tok; Some (argv @ [b]) } else None)"

fun parse_spaces :: "bytes \<Rightarrow> bytes \<Rightarrow> nat \<Rightarrow> bytes list \<Rightarrow> bytes list option" where
  "parse_spaces [] tok ci argv = None"
| "parse_spaces (c # rest) tok ci argv =
     (if c = 0 then push_arg argv tok
      else if c \<noteq> SPACE then do { tok' \<leftarrow> put_byte tok ci c; parse_spaces rest tok' (ci + 1) argv }
      else do {
        argv' \<leftarrow> push_arg argv tok;
        parse_spaces rest (replicate NUMBER_OF_CHAR_EACH_TOKEN 0) 0 argv'
      })"

text \<open>The arguments in front of the null pointer, whose place must be in the table as well.\<close>

definition ParseBySpace :: "bytes \<Rightarrow> bytes list option" where
  "ParseBySpace token =
     do {
       argv \<leftarrow> parse_spaces token (replicate NUMBER_OF_CHAR_EACH_TOKEN 0) 0 [];
       let last_arg = last argv;
       cmp \<leftarrow> self_strComp last_arg [AMP, 0];
       if cmp = 0 then Some (butlast argv)
       else do {
         amp \<leftarrow> lastCharIsAmpercent last_arg;
         argv' \<leftarrow> (if amp then do {
                     len \<leftarrow> selfdefine_stringlen last_arg;
                     Some (butlast argv @ [last_arg[len - 1 := 0]])
                   } else Some argv);
         if length argv' < NUMBER_OF_TOKENS_BY_SPACE then Some argv' else None
       }
     }"

definition isBackground :: "bytes list \<Rightarrow> nat \<Rightarrow> bool option" where
  "isBackground save_tokens n =
     do {
       len \<leftarrow> selfdefine_stringlen (save_tokens ! (n - 1));
       if len = 0 then None else Some (save_tokens ! (n - 1) ! (len - 1) = AMP)
     }"

section \<open>Jobs\<close>

text \<open>A process of a job with its descriptors, and \<open>-1\<close> for none; its path is its first argument.\<close>

record job_process =
  jargv :: "bytes list"
  fd_out :: int
  fd_in :: int
  process_id :: int

record job =
  job_processes :: "job_process list"
  isBackground_job :: bool

definition new_job_process :: "bytes list \<Rightarrow> job_process" where
  "new_job_process argv = \<lparr>jargv = argv, fd_out = -1, fd_in = -1, process_id = -1\<rparr>"

fun parse_tokens :: "bytes list \<Rightarrow> job_process list option" where
  "parse_tokens [] = Some []"
| "parse_tokens (t # ts) =
     do {
       t1 \<leftarrow> removeSpaceOnTheEnd t;
       t2 \<leftarrow> stripExtraSpace t1;
       argv \<leftarrow> ParseBySpace t2;
       ps \<leftarrow> parse_tokens ts;
       Some (new_job_process argv # ps)
     }"

text \<open>
  \<open>ProcessCommand\<close> up to \<open>execute\<close>: the job, or none for a line without content.  The blocks for the
  parts are fresh memory of the heap, which the kernel has zeroed.
\<close>

definition ProcessCommand :: "bytes \<Rightarrow> bytes \<Rightarrow> job option option" where
  "ProcessCommand command backup =
     do {
       (save_tokens, n) \<leftarrow> ParseCommand command (replicate NUMBER_OF_TOKENS_BY_PIPE (replicate NUMBER_OF_CHAR_EACH_TOKEN 0)) backup;
       if n = 0 then Some None
       else do {
         bg \<leftarrow> isBackground save_tokens n;
         ps \<leftarrow> parse_tokens (take n save_tokens);
         Some (Some \<lparr>job_processes = ps, isBackground_job = bg\<rparr>)
       }
     }"

section \<open>What a line means\<close>

text \<open>The reference: parts between separators, words, and a line without the spaces around it.\<close>

fun split_on :: "u8 \<Rightarrow> bytes \<Rightarrow> bytes list" where
  "split_on x [] = [[]]"
| "split_on x (c # cs) = (if c = x then [] # split_on x cs else (c # hd (split_on x cs)) # tl (split_on x cs))"

definition words_of :: "bytes \<Rightarrow> bytes list" where
  "words_of t = filter (\<lambda>w. w \<noteq> []) (split_on SPACE t)"

definition rtrim :: "bytes \<Rightarrow> bytes" where
  "rtrim t = rev (dropWhile (\<lambda>c. c = SPACE) (rev t))"

definition trim :: "bytes \<Rightarrow> bytes" where
  "trim t = dropWhile (\<lambda>c. c = SPACE) (rtrim t)"

definition blank :: "bytes \<Rightarrow> bool" where
  "blank t \<longleftrightarrow> set t \<subseteq> {SPACE}"

text \<open>A last word \<open>&\<close>, or an \<open>&\<close> at the end of the last word, is not an argument.\<close>

definition strip_amp :: "bytes list \<Rightarrow> bytes list" where
  "strip_amp ws = (if last ws = [AMP] then butlast ws
     else if last (last ws) = AMP then butlast ws @ [butlast (last ws)] else ws)"

text \<open>A string in a block of the size used for tokens.\<close>

definition pad :: "bytes \<Rightarrow> bytes" where
  "pad w = w @ replicate (NUMBER_OF_CHAR_EACH_TOKEN - length w) 0"

section \<open>The string routines\<close>

lemma stringlen_cstr [simp]: "is_cstr b s \<Longrightarrow> selfdefine_stringlen b = Some (length s)"
  by (induction b arbitrary: s rule: selfdefine_stringlen.induct) (auto split: if_splits)

lemma is_cstr_take: "is_cstr b s \<Longrightarrow> take (length s) b = s" "is_cstr b s \<Longrightarrow> length s < length b"
  by (auto simp: is_cstr_def)

lemma strCpy_cstr:
  assumes "is_cstr src s" "length s < length des"
  shows "self_strCpy des src = Some (s @ 0 # drop (Suc (length s)) des)"
  using assms by (simp add: self_strCpy_def is_cstr_take put_at_def)

lemma is_cstr_pad: "0 \<notin> set w \<Longrightarrow> length w < NUMBER_OF_CHAR_EACH_TOKEN \<Longrightarrow> is_cstr (pad w) w"
proof -
  assume a: "0 \<notin> set w" "length w < NUMBER_OF_CHAR_EACH_TOKEN"
  then have "pad w = w @ 0 # replicate (NUMBER_OF_CHAR_EACH_TOKEN - Suc (length w)) 0"
    by (simp add: pad_def Suc_diff_Suc [symmetric])
  with a show ?thesis by auto
qed

lemma length_pad [simp]: "length w \<le> NUMBER_OF_CHAR_EACH_TOKEN \<Longrightarrow> length (pad w) = NUMBER_OF_CHAR_EACH_TOKEN"
  by (simp add: pad_def)

lemma strCpy_pad:
  assumes "0 \<notin> set w" "length w < NUMBER_OF_CHAR_EACH_TOKEN"
  shows "self_strCpy (replicate NUMBER_OF_CHAR_EACH_TOKEN 0) (pad w) = Some (pad w)"
proof -
  have "(replicate (NUMBER_OF_CHAR_EACH_TOKEN - length w) 0 :: bytes) = 0 # replicate (NUMBER_OF_CHAR_EACH_TOKEN - Suc (length w)) 0"
    using assms(2) by (simp add: Suc_diff_Suc [symmetric])
  then show ?thesis using strCpy_cstr [OF is_cstr_pad [OF assms], of "replicate NUMBER_OF_CHAR_EACH_TOKEN 0"] assms(2)
    by (simp add: pad_def)
qed

lemma put_byte_pad:
  assumes "length w < NUMBER_OF_CHAR_EACH_TOKEN"
  shows "put_byte (pad w) (length w) c = Some (pad (w @ [c]))"
proof -
  have "(replicate (NUMBER_OF_CHAR_EACH_TOKEN - length w) 0 :: bytes) = 0 # replicate (NUMBER_OF_CHAR_EACH_TOKEN - Suc (length w)) 0"
    using assms by (simp add: Suc_diff_Suc [symmetric])
  then show ?thesis by (simp add: pad_def)
qed

lemma split_on_ne [simp]: "split_on x s \<noteq> []"
  by (induction s) auto

lemma split_on_set: "w \<in> set (split_on x s) \<Longrightarrow> set w \<subseteq> set s"
proof (induction s arbitrary: w)
  case (Cons c s)
  then show ?case by (cases "split_on x s") (fastforce split: if_splits)+
qed simp

lemma split_on_append: "x \<notin> set w \<Longrightarrow> split_on x (w @ x # r) = w # split_on x r" "x \<notin> set w \<Longrightarrow> split_on x w = [w]"
  by (induction w) auto

section \<open>Cutting\<close>

lemma parse_spaces_spec:
  assumes "is_cstr b t" "0 \<notin> set pre" "length pre + length t < NUMBER_OF_CHAR_EACH_TOKEN"
    and "length argv + length (split_on SPACE t) \<le> NUMBER_OF_TOKENS_BY_SPACE"
  shows "parse_spaces b (pad pre) (length pre) argv =
     Some (argv @ map pad ((pre @ hd (split_on SPACE t)) # tl (split_on SPACE t)))"
  using assms
proof (induction b arbitrary: t pre argv)
  case (Cons c b)
  have push: "push_arg argv (pad pre) = Some (argv @ [pad pre])"
  proof -
    have "0 < length (split_on SPACE t)" by simp
    then have "length argv < NUMBER_OF_TOKENS_BY_SPACE" using Cons.prems(4) by linarith
    then show ?thesis using Cons.prems(2,3) strCpy_pad [of pre] by (simp add: push_arg_def)
  qed
  show ?case
  proof (cases "c = 0")
    case True
    with Cons.prems(1) push show ?thesis by simp
  next
    case False
    then obtain t' where t: "t = c # t'" "is_cstr b t'" using Cons.prems(1) by auto
    show ?thesis
    proof (cases "c = SPACE")
      case True
      have "parse_spaces b (pad []) 0 (argv @ [pad pre]) = Some ((argv @ [pad pre]) @ map pad (split_on SPACE t'))"
        using Cons.IH [OF t(2), of "[]" "argv @ [pad pre]"] Cons.prems t True by simp
      then show ?thesis using push True t by (simp add: pad_def)
    next
      case ns: False
      have "parse_spaces b (pad (pre @ [c])) (length (pre @ [c])) argv =
          Some (argv @ map pad (((pre @ [c]) @ hd (split_on SPACE t')) # tl (split_on SPACE t')))"
        by (rule Cons.IH [OF t(2)]) (use Cons.prems t ns False in auto)
      then show ?thesis using False ns t Cons.prems(3) by (simp add: put_byte_pad)
    qed
  qed
qed simp

lemma parse_pipes_spec:
  assumes "is_cstr b t" "0 \<notin> set pre" "\<forall>w \<in> set ((pre @ hd (split_on BAR t)) # tl (split_on BAR t)). length w < NUMBER_OF_CHAR_EACH_TOKEN"
    and "length (split_on BAR t) \<le> n"
  shows "parse_pipes b (pad pre) (length pre) (ts @ replicate n (pad [])) (length ts) =
     Some (ts @ map pad ((pre @ hd (split_on BAR t)) # tl (split_on BAR t)) @ replicate (n - length (split_on BAR t)) (pad []),
       length ts + length (split_on BAR t))"
  using assms
proof (induction b arbitrary: t pre ts n)
  case (Cons c b)
  have n: "0 < n" using Cons.prems(4) split_on_ne [of BAR t] by (cases n) auto
  then obtain n' where n': "n = Suc n'" by (cases n) auto
  have pl: "length pre < NUMBER_OF_CHAR_EACH_TOKEN" using Cons.prems(3) by auto
  have e: "pad [] = replicate NUMBER_OF_CHAR_EACH_TOKEN 0" by (simp add: pad_def)
  have cp: "copy_token (ts @ replicate n (pad [])) (length ts) (pad pre) = Some ((ts @ [pad pre]) @ replicate n' (pad []))"
    using strCpy_pad [OF Cons.prems(2) pl] by (simp add: copy_token_def n' list_update_append nth_append e)
  show ?case
  proof (cases "c = 0")
    case True
    with Cons.prems(1) cp n' show ?thesis by simp
  next
    case False
    then obtain t' where t: "t = c # t'" "is_cstr b t'" using Cons.prems(1) by auto
    show ?thesis
    proof (cases "c = BAR")
      case True
      have "parse_pipes b (pad []) 0 ((ts @ [pad pre]) @ replicate n' (pad [])) (length (ts @ [pad pre])) =
          Some ((ts @ [pad pre]) @ map pad (split_on BAR t') @ replicate (n' - length (split_on BAR t')) (pad []),
            length (ts @ [pad pre]) + length (split_on BAR t'))"
        using Cons.IH [OF t(2), of "[]" n' "ts @ [pad pre]"] Cons.prems t True n' by simp
      then show ?thesis using cp True t n' by (simp add: e)
    next
      case ns: False
      have "parse_pipes b (pad (pre @ [c])) (length (pre @ [c])) (ts @ replicate n (pad [])) (length ts) =
          Some (ts @ map pad (((pre @ [c]) @ hd (split_on BAR t')) # tl (split_on BAR t')) @
              replicate (n - length (split_on BAR t')) (pad []), length ts + length (split_on BAR t'))"
        by (rule Cons.IH [OF t(2)]) (use Cons.prems t ns False in auto)
      then show ?thesis using False ns t pl by (simp add: put_byte_pad)
    qed
  qed
qed simp

section \<open>Trimming\<close>

lemma rtrim_split: "\<exists>k. t = rtrim t @ replicate k SPACE" "rtrim t = [] \<or> last (rtrim t) \<noteq> SPACE"
proof -
  have "rev (takeWhile (\<lambda>c. c = SPACE) (rev t) @ dropWhile (\<lambda>c. c = SPACE) (rev t)) = t" by simp
  then have "t = rtrim t @ rev (takeWhile (\<lambda>c. c = SPACE) (rev t))" unfolding rev_append rtrim_def by (rule sym)
  moreover have "takeWhile (\<lambda>c. c = SPACE) (rev t) = replicate (length (takeWhile (\<lambda>c. c = SPACE) (rev t))) SPACE"
    by (rule replicate_eqI) (auto dest: set_takeWhileD)
  ultimately show "\<exists>k. t = rtrim t @ replicate k SPACE" by (metis rev_replicate)
  show "rtrim t = [] \<or> last (rtrim t) \<noteq> SPACE"
    using hd_dropWhile [of "\<lambda>c. c = SPACE" "rev t"] by (auto simp: rtrim_def last_rev)
qed

lemma trim_end_run:
  assumes "s \<noteq> []" "last s \<noteq> SPACE"
  shows "trim_end (s @ replicate k SPACE @ rest) (length s + k) = Some (s @ replicate k 0 @ rest)"
proof (induction k arbitrary: rest)
  case 0
  obtain i where i: "length s = Suc i" using assms(1) by (cases s) auto
  then have "s ! i = last s" using assms(1) by (simp add: last_conv_nth)
  then show ?case using assms by (simp add: i nth_append)
next
  case (Suc k)
  have "(s @ replicate k SPACE @ SPACE # rest) ! (length s + k) = SPACE" by (simp add: nth_append)
  moreover have "(s @ replicate k SPACE @ SPACE # rest)[length s + k := 0] = s @ replicate k SPACE @ 0 # rest"
    by (simp add: list_update_append)
  ultimately show ?case using Suc [of "0 # rest"] by (simp add: replicate_app_Cons_same)
qed

lemma ltrim_split: "\<exists>k. t = replicate k SPACE @ dropWhile (\<lambda>c. c = SPACE) t"
proof -
  have "t = takeWhile (\<lambda>c. c = SPACE) t @ dropWhile (\<lambda>c. c = SPACE) t" by simp
  moreover have "takeWhile (\<lambda>c. c = SPACE) t = replicate (length (takeWhile (\<lambda>c. c = SPACE) t)) SPACE"
    by (rule replicate_eqI) (auto dest: set_takeWhileD)
  ultimately show ?thesis by metis
qed

lemma trim_facts:
  assumes "\<not> blank t"
  shows "rtrim t \<noteq> []" "trim t \<noteq> []" "hd (trim t) \<noteq> SPACE" "last (trim t) \<noteq> SPACE"
proof -
  obtain k where k: "t = rtrim t @ replicate k SPACE" using rtrim_split(1) by blast
  have "set t = set (rtrim t) \<union> set (replicate k SPACE)" by (subst k) simp
  then have nb: "\<not> blank (rtrim t)" using assms by (auto simp: blank_def)
  then show "rtrim t \<noteq> []" by (auto simp: blank_def)
  show ne: "trim t \<noteq> []" using nb by (auto simp: trim_def blank_def)
  show "hd (trim t) \<noteq> SPACE" using ne hd_dropWhile [of "\<lambda>c. c = SPACE" "rtrim t"] by (auto simp: trim_def)
  obtain j where "rtrim t = replicate j SPACE @ trim t" using ltrim_split unfolding trim_def by blast
  then show "last (trim t) \<noteq> SPACE" using rtrim_split(2) [of t] \<open>rtrim t \<noteq> []\<close> ne by (metis last_appendR)
qed

lemma trim_subset: "set (trim t) \<subseteq> set t" "length (trim t) \<le> length t"
proof -
  obtain k where k: "t = rtrim t @ replicate k SPACE" using rtrim_split(1) by blast
  have "set t = set (rtrim t) \<union> set (replicate k SPACE)" "length t = length (rtrim t) + k" by (subst k, simp)+
  moreover have "set (trim t) \<subseteq> set (rtrim t)" "length (trim t) \<le> length (rtrim t)"
    unfolding trim_def by (auto dest: set_dropWhileD simp: length_dropWhile_le)
  ultimately show "set (trim t) \<subseteq> set t" "length (trim t) \<le> length t" by auto
qed

text \<open>The line without the spaces around it goes through a buffer of 100 bytes.\<close>

lemma removeSpace_steps:
  assumes b: "is_cstr b t" and t: "\<not> blank t"
  shows "\<exists>b1 src. is_cstr src (trim t) \<and> length b1 = length b \<and>
     removeSpaceOnTheEnd b = Option.bind (self_strCpy (replicate 100 0) src) (self_strCpy b1)"
proof -
  obtain rest where rest: "b = t @ 0 # rest" and z: "0 \<notin> set t" using b by (auto simp: is_cstr_def)
  obtain k where k: "t = rtrim t @ replicate k SPACE" using rtrim_split(1) by blast
  have e: "trim_end b (length t) = Some (rtrim t @ replicate k 0 @ 0 # rest)"
    using trim_end_run [OF trim_facts(1) [OF t(1)], of k "0 # rest"] rtrim_split(2) [of t] trim_facts(1) [OF t(1)] k
    by (metis append.assoc length_append length_replicate rest)
  let ?b1 = "rtrim t @ replicate k 0 @ 0 # rest" and ?f = "length (takeWhile (\<lambda>c. c = SPACE) (rtrim t))"
  have z1: "0 \<notin> set (rtrim t)" using z by (subst (asm) k) simp
  have c1: "is_cstr ?b1 (rtrim t)" using z1 by (cases k) (auto intro: is_cstrI)
  have d: "drop ?f (rtrim t) = trim t" unfolding trim_def by (rule dropWhile_eq_drop [symmetric])
  have z2: "0 \<notin> set (trim t)" using trim_subset(1) z by blast
  have c2: "is_cstr (drop ?f ?b1) (trim t)" using length_takeWhile_le [of "\<lambda>c. c = SPACE" "rtrim t"] d z2 by (cases k) (auto intro: is_cstrI)
  have "length t = length (rtrim t) + k" by (subst k) simp
  then have "length ?b1 = length b" using rest by simp
  moreover have "removeSpaceOnTheEnd b = Option.bind (self_strCpy (replicate 100 0) (drop ?f ?b1)) (self_strCpy ?b1)"
    unfolding removeSpaceOnTheEnd_def using e b c1 by simp
  ultimately show ?thesis using c2 by blast
qed

lemma removeSpace_spec:
  assumes b: "is_cstr b t" and t: "\<not> blank t" "length (trim t) < 100"
  shows "\<exists>b'. removeSpaceOnTheEnd b = Some b' \<and> is_cstr b' (trim t) \<and> length b' = length b"
proof -
  obtain b1 src where s: "is_cstr src (trim t)" "length b1 = length b"
    "removeSpaceOnTheEnd b = Option.bind (self_strCpy (replicate 100 0) src) (self_strCpy b1)"
    using removeSpace_steps [OF b t(1)] by blast
  have z: "0 \<notin> set (trim t)" using s(1) by (simp add: is_cstr_def)
  have len: "length (trim t) < length b1" using is_cstr_take(2) [OF b] trim_subset(2) [of t] s(2) by simp
  show ?thesis using s(2,3) strCpy_cstr [OF s(1), of "replicate 100 0"] strCpy_cstr [OF is_cstrI [OF z] len] t(2) len z
    by (auto simp del: drop_replicate)
qed

section \<open>Runs of spaces\<close>

text \<open>What \<open>stripExtraSpace\<close> keeps; \<open>sp\<close> tells that the character before is a space, or that there is none.\<close>

fun squeeze :: "bool \<Rightarrow> bytes \<Rightarrow> bytes" where
  "squeeze sp [] = []"
| "squeeze sp (c # cs) = (if c \<noteq> SPACE \<or> \<not> sp then c # squeeze (c = SPACE) cs else squeeze True cs)"

lemma strip_from_spec:
  assumes "0 \<notin> set t" "sp \<longleftrightarrow> out @ mid = [] \<or> last (out @ mid) = SPACE"
  shows "\<exists>rest'. strip_from (out @ mid @ t @ 0 # rest) (length out + length mid) (length out) = Some (out @ squeeze sp t @ 0 # rest')"
  using assms
proof (induction t arbitrary: out mid sp)
  case Nil
  have "byte_at (out @ mid @ 0 # rest) (length out + length mid) = Some 0"
    using byte_at_append [of "out @ mid" 0 rest] by simp
  moreover have "\<exists>rest'. put_byte (out @ mid @ 0 # rest) (length out) 0 = Some (out @ 0 # rest')" by (cases mid) simp_all
  ultimately show ?case by (subst strip_from.simps) simp
next
  case (Cons c t)
  let ?tok = "out @ mid @ c # t @ 0 # rest" and ?i = "length out + length mid"
  have c: "byte_at ?tok ?i = Some c" "c \<noteq> 0" using byte_at_append [of "out @ mid" c "t @ 0 # rest"] Cons.prems(1) by auto
  have pv: "0 < ?i \<and> ?tok ! (?i - 1) \<noteq> SPACE \<longleftrightarrow> \<not> sp"
  proof (cases "out @ mid = []")
    case False
    then have "?tok ! (?i - 1) = last (out @ mid)"
      using nth_append [of "out @ mid" "c # t @ 0 # rest" "?i - 1"] by (simp add: last_conv_nth)
    then show ?thesis using False Cons.prems(2) by auto
  qed (use Cons.prems(2) in auto)
  show ?case
  proof (cases "c \<noteq> SPACE \<or> \<not> sp")
    case True
    obtain mid' where m: "put_byte ?tok (length out) c = Some ((out @ [c]) @ mid' @ t @ 0 # rest)" "length mid' = length mid"
      "last ((out @ [c]) @ mid') = c"
    proof (cases mid)
      case Nil
      with that [of "[]"] show ?thesis by simp
    next
      case (Cons x xs)
      with that [of "xs @ [c]"] show ?thesis by simp
    qed
    obtain rest' where "strip_from ((out @ [c]) @ mid' @ t @ 0 # rest) (length (out @ [c]) + length mid') (length (out @ [c])) =
        Some ((out @ [c]) @ squeeze (c = SPACE) t @ 0 # rest')"
      using Cons.IH [of "c = SPACE" "out @ [c]" mid'] Cons.prems(1) m(3) by auto
    then show ?thesis using c pv True m(1,2) by (subst strip_from.simps) auto
  next
    case False
    obtain rest' where "strip_from (out @ (mid @ [c]) @ t @ 0 # rest) (length out + length (mid @ [c])) (length out) =
        Some (out @ squeeze True t @ 0 # rest')"
      using Cons.IH [of True out "mid @ [c]"] Cons.prems(1) False by auto
    then show ?thesis using c pv False by (subst strip_from.simps) auto
  qed
qed

lemma stripExtraSpace_spec:
  assumes "is_cstr b t"
  shows "\<exists>b'. stripExtraSpace b = Some b' \<and> is_cstr b' (squeeze True t)"
proof -
  obtain rest where b: "b = t @ 0 # rest" and z: "0 \<notin> set t" using assms by (auto simp: is_cstr_def)
  have "set (squeeze sp t) \<subseteq> set t" for sp by (induction t arbitrary: sp) (fastforce split: if_splits)+
  with z have "0 \<notin> set (squeeze True t)" by blast
  moreover obtain rest' where "stripExtraSpace b = Some (squeeze True t @ 0 # rest')"
    using strip_from_spec [OF z, of True "[]" "[]" rest] unfolding stripExtraSpace_def b by auto
  ultimately show ?thesis by blast
qed

lemma squeeze_word: "SPACE \<notin> set w \<Longrightarrow> squeeze False (w @ r) = w @ squeeze False r"
  "SPACE \<notin> set w \<Longrightarrow> w \<noteq> [] \<Longrightarrow> squeeze True (w @ r) = w @ squeeze False r"
proof -
  show 1: "squeeze False (w @ r) = w @ squeeze False r" if "SPACE \<notin> set w" using that by (induction w) auto
  show "squeeze True (w @ r) = w @ squeeze False r" if "SPACE \<notin> set w" "w \<noteq> []"
  proof (cases w)
    case (Cons c v)
    have "squeeze False (v @ r) = v @ squeeze False r" using that Cons by (induction v arbitrary: w) auto
    then show ?thesis using that Cons by simp
  qed (use that in simp)
qed

lemma split_squeeze:
  "s \<noteq> [] \<Longrightarrow> last s \<noteq> SPACE \<Longrightarrow> split_on SPACE (squeeze True s) = words_of s \<and> words_of s \<noteq> []"
proof (induction s rule: length_induct)
  case (1 s)
  define w where "w = takeWhile (\<lambda>c. c \<noteq> SPACE) s"
  define r where "r = dropWhile (\<lambda>c. c \<noteq> SPACE) s"
  have s: "s = w @ r" and w: "SPACE \<notin> set w" unfolding w_def r_def by (auto dest: set_takeWhileD)
  show ?case
  proof (cases r)
    case Nil
    then have "w \<noteq> []" using s 1(2) by simp
    then show ?thesis using squeeze_word(2) [OF w, of "[]"] split_on_append(2) [OF w] by (simp add: s Nil words_of_def)
  next
    case (Cons c r')
    then have c: "c = SPACE" using hd_dropWhile [of "\<lambda>c. c \<noteq> SPACE" s] unfolding r_def by auto
    then have r': "r' \<noteq> []" "last r' \<noteq> SPACE" using 1(3) s Cons by (auto split: if_splits)
    have ih: "split_on SPACE (squeeze True r') = words_of r' \<and> words_of r' \<noteq> []"
      using 1(1) r' s Cons by auto
    show ?thesis
    proof (cases "w = []")
      case True
      then show ?thesis using ih by (simp add: s Cons c words_of_def)
    next
      case False
      then have "squeeze True s = w @ SPACE # squeeze True r'" using squeeze_word(2) [OF w False, of r] by (simp add: s Cons c)
      then show ?thesis using ih split_on_append(1) [OF w] False by (simp add: s Cons c words_of_def)
    qed
  qed
qed

lemma squeeze_length: "length (squeeze sp t) \<le> length t"
  by (induction sp t rule: squeeze.induct) auto

section \<open>Arguments and jobs\<close>

lemma strComp_amp: "is_cstr b w \<Longrightarrow> \<exists>d. self_strComp b [AMP, 0] = Some d \<and> (d = 0 \<longleftrightarrow> w = [AMP])"
proof -
  assume "is_cstr b w"
  then obtain rest where b: "b = w @ 0 # rest" and z: "0 \<notin> set w" by (auto simp: is_cstr_def)
  have u: "uint c = 38 \<longleftrightarrow> c = AMP" "uint c = 0 \<longleftrightarrow> c = 0" for c :: u8
    using word_uint_eq_iff [of c AMP] word_uint_eq_iff [of c 0] by auto
  consider "w = []" | c where "w = [c]" | c d w' where "w = c # d # w'" by (cases w rule: remdups_adj.cases) auto
  then show ?thesis using z by cases (auto simp: b u)
qed

lemma split_on_length: "w \<in> set (split_on x s) \<Longrightarrow> length w \<le> length s"
proof (induction s arbitrary: w)
  case (Cons c s)
  then show ?case by (cases "split_on x s") (fastforce split: if_splits)+
qed simp

lemma pad_butlast:
  assumes "w \<noteq> []" "length w \<le> NUMBER_OF_CHAR_EACH_TOKEN"
  shows "(pad w)[length w - 1 := 0] = pad (butlast w)"
proof -
  obtain v c where w: "w = v @ [c]" using assms(1) by (cases w rule: rev_cases) auto
  have "(replicate (NUMBER_OF_CHAR_EACH_TOKEN - length v) 0 :: bytes) = 0 # replicate (NUMBER_OF_CHAR_EACH_TOKEN - Suc (length v)) 0"
    using assms(2) by (simp add: w Suc_diff_Suc [symmetric])
  then show ?thesis by (simp add: w pad_def list_update_append)
qed

lemma ParseBySpace_spec:
  assumes b: "is_cstr b t" "length t < NUMBER_OF_CHAR_EACH_TOKEN" and w: "split_on SPACE t = ws" "[] \<notin> set ws" "length ws < NUMBER_OF_TOKENS_BY_SPACE"
  shows "ParseBySpace b = Some (map pad (strip_amp ws))"
proof -
  have ne: "ws \<noteq> []" using w(1) split_on_ne by blast
  have ps: "parse_spaces b (replicate NUMBER_OF_CHAR_EACH_TOKEN 0) 0 [] = Some (map pad ws)"
    using parse_spaces_spec [OF b(1), of "[]" "[]"] b(2) w ne by (simp add: pad_def)
  let ?w = "last ws"
  have lw: "?w \<in> set ws" using ne by simp
  then have sub: "set ?w \<subseteq> set t" using split_on_set [of ?w SPACE t] w(1) by simp
  have z: "0 \<notin> set ?w" using sub b(1) by (auto simp: is_cstr_def)
  have len: "length ?w < NUMBER_OF_CHAR_EACH_TOKEN" using split_on_length [of ?w SPACE t] lw w(1) b(2) by simp
  have cw: "is_cstr (pad ?w) ?w" by (rule is_cstr_pad [OF z len])
  have wne: "?w \<noteq> []" using lw w(2) by auto
  obtain d where d: "self_strComp (pad ?w) [AMP, 0] = Some d" "d = 0 \<longleftrightarrow> ?w = [AMP]" using strComp_amp [OF cw] by blast
  have lc: "lastCharIsAmpercent (pad ?w) = Some (last ?w = AMP)"
    using cw wne by (simp add: lastCharIsAmpercent_def pad_def nth_append last_conv_nth)
  have cut: "(pad ?w)[length ?w - 1 := 0] = pad (butlast ?w)" using pad_butlast [OF wne] len by simp
  have lm: "last (map pad ws) = pad ?w" "butlast (map pad ws) = map pad (butlast ws)" using ne by (simp_all add: last_map map_butlast)
  show ?thesis unfolding ParseBySpace_def ps strip_amp_def
    using d lc cut cw w(3) ne by (auto simp: lm Let_def)
qed

text \<open>A part of a line that can be handled: some words, of fewer characters and fewer of them than there are places.\<close>

definition part_ok :: "bytes \<Rightarrow> bool" where
  "part_ok seg \<longleftrightarrow> \<not> blank seg \<and> length seg < NUMBER_OF_CHAR_EACH_TOKEN \<and> length (words_of seg) < NUMBER_OF_TOKENS_BY_SPACE"

definition line_ok :: "bytes \<Rightarrow> bool" where
  "line_ok t \<longleftrightarrow> \<not> blank t \<and> length (trim t) < 100 \<and> length (split_on BAR (trim t)) \<le> NUMBER_OF_TOKENS_BY_PIPE \<and>
     list_all part_ok (split_on BAR (trim t))"

lemma words_of_trim: "words_of (trim t) = words_of t"
proof -
  have l: "words_of (replicate k SPACE @ u) = words_of u" for k u by (induction k) (auto simp: words_of_def)
  have sp: "split_on SPACE (u @ SPACE # v) = split_on SPACE u @ split_on SPACE v" for u v
  proof (induction u)
    case (Cons c u)
    then show ?case using split_on_ne [of SPACE u] by (cases "split_on SPACE u") auto
  qed simp
  have r: "words_of (u @ replicate k SPACE) = words_of u" for k u
  proof (induction k arbitrary: u)
    case (Suc k)
    have "words_of (u @ replicate (Suc k) SPACE) = words_of (u @ [SPACE])" using Suc [of "u @ [SPACE]"] by simp
    also have "\<dots> = words_of u" using sp [of u "[]"] by (simp add: words_of_def)
    finally show ?case .
  qed simp
  obtain k where "t = rtrim t @ replicate k SPACE" using rtrim_split(1) by blast
  then have "words_of t = words_of (rtrim t)" using r by metis
  moreover obtain j where "rtrim t = replicate j SPACE @ trim t" using ltrim_split unfolding trim_def by blast
  then have "words_of (rtrim t) = words_of (trim t)" using l by metis
  ultimately show ?thesis by simp
qed

lemma parse_tokens_spec:
  assumes "\<forall>seg \<in> set segs. part_ok seg \<and> 0 \<notin> set seg"
  shows "parse_tokens (map pad segs) = Some (map (\<lambda>seg. new_job_process (map pad (strip_amp (words_of seg)))) segs)"
  using assms
proof (induction segs)
  case (Cons seg segs)
  have ok: "\<not> blank seg" "length seg < NUMBER_OF_CHAR_EACH_TOKEN" "length (words_of seg) < NUMBER_OF_TOKENS_BY_SPACE" "0 \<notin> set seg"
    using Cons.prems by (auto simp: part_ok_def)
  have tl: "length (trim seg) < NUMBER_OF_CHAR_EACH_TOKEN" using trim_subset(2) [of seg] ok(2) by simp
  obtain t1 where t1: "removeSpaceOnTheEnd (pad seg) = Some t1" "is_cstr t1 (trim seg)"
    using removeSpace_spec [OF is_cstr_pad [OF ok(4,2)] ok(1)] tl by (auto simp: NUMBER_OF_CHAR_EACH_TOKEN_def)
  obtain t2 where t2: "stripExtraSpace t1 = Some t2" "is_cstr t2 (squeeze True (trim seg))" using stripExtraSpace_spec [OF t1(2)] by blast
  have sq: "split_on SPACE (squeeze True (trim seg)) = words_of seg"
    using split_squeeze [OF trim_facts(2,4) [OF ok(1)]] words_of_trim by simp
  have "ParseBySpace t2 = Some (map pad (strip_amp (words_of seg)))"
    by (rule ParseBySpace_spec [OF t2(2) _ sq]) (use squeeze_length [of True "trim seg"] tl ok(3) in \<open>auto simp: words_of_def\<close>)
  then show ?case using t1(1) t2(1) Cons by simp
qed simp

lemma split_on_last: "s \<noteq> [] \<Longrightarrow> last (split_on x s) \<noteq> [] \<Longrightarrow> last (last (split_on x s)) = last s"
proof (induction s)
  case (Cons c s)
  show ?case
  proof (cases s)
    case Cons' : (Cons d s')
    obtain w ws where w: "split_on x s = w # ws" by (cases "split_on x s") auto
    show ?thesis using Cons.IH Cons.prems Cons' w by (auto split: if_splits)
  qed (use Cons.prems in \<open>auto split: if_splits\<close>)
qed simp

text \<open>
  A command line becomes the job it denotes.  The parts of the line between its bars are the
  processes, in order; the words of a part are the arguments, without an \<open>&\<close> at the end; and
  the job is in the background when the line ends in \<open>&\<close>.
\<close>

lemma ProcessCommand_job:
  assumes "is_cstr command t" "line_ok t" "length t < length backup"
  shows "ProcessCommand command backup = Some (Some
     \<lparr>job_processes = map (\<lambda>seg. new_job_process (map pad (strip_amp (words_of seg)))) (split_on BAR (trim t)),
      isBackground_job = (last (trim t) = AMP)\<rparr>)"
proof -
  let ?segs = "split_on BAR (trim t)"
  have ok: "\<not> blank t" "length (trim t) < 100" "length ?segs \<le> 20" "\<forall>seg \<in> set ?segs. part_ok seg"
    using assms(2) by (auto simp: line_ok_def list_all_iff NUMBER_OF_TOKENS_BY_PIPE_def)
  have z: "0 \<notin> set t" using assms(1) by (simp add: is_cstr_def)
  have zs: "\<forall>seg \<in> set ?segs. 0 \<notin> set seg" using split_on_set trim_subset(1) z by blast
  have "self_strCpy backup command = Some (t @ 0 # drop (Suc (length t)) backup)" by (rule strCpy_cstr [OF assms(1,3)])
  moreover obtain b2 where b2: "removeSpaceOnTheEnd (t @ 0 # drop (Suc (length t)) backup) = Some b2" "is_cstr b2 (trim t)"
    using removeSpace_spec [OF is_cstrI [OF z] ok(1,2)] by blast
  have "parse_pipes b2 (pad []) (length ([] :: bytes)) ([] @ replicate 20 (pad [])) (length ([] :: bytes list)) =
      Some ([] @ map pad (([] @ hd ?segs) # tl ?segs) @ replicate (20 - length ?segs) (pad []), length ([] :: bytes list) + length ?segs)"
    by (rule parse_pipes_spec [OF b2(2)]) (use ok(3,4) in \<open>auto simp: part_ok_def\<close>)
  then have "ParseCommand command (replicate 20 (pad [])) backup = Some (map pad ?segs @ replicate (20 - length ?segs) (pad []), length ?segs)"
    if "self_strCpy backup command = Some (t @ 0 # drop (Suc (length t)) backup)"
    using that b2 trim_facts(2) [OF ok(1)] by (simp add: ParseCommand_def pad_def)
  ultimately have pc: "ParseCommand command (replicate 20 (pad [])) backup =
      Some (map pad ?segs @ replicate (20 - length ?segs) (pad []), length ?segs)" by blast
  have l: "last ?segs \<in> set ?segs" by simp
  then have ls: "last ?segs \<noteq> []" "length (last ?segs) < NUMBER_OF_CHAR_EACH_TOKEN" "0 \<notin> set (last ?segs)"
    using bspec [OF ok(4) l] bspec [OF zs l] by (auto simp: part_ok_def blank_def)
  have n: "0 < length ?segs" by simp
  have "(map pad ?segs @ replicate (20 - length ?segs) (pad [])) ! (length ?segs - 1) = pad (last ?segs)"
    using n by (simp add: nth_append last_conv_nth)
  moreover have "pad (last ?segs) ! (length (last ?segs) - 1) = last (last ?segs)"
    using ls(1) by (simp add: pad_def nth_append last_conv_nth)
  ultimately have "isBackground (map pad ?segs @ replicate (20 - length ?segs) (pad [])) (length ?segs) = Some (last (trim t) = AMP)"
    using is_cstr_pad [OF ls(3,2)] ls(1) split_on_last [OF trim_facts(2) [OF ok(1)] ls(1)] by (simp add: isBackground_def)
  moreover have "parse_tokens (map pad ?segs) = Some (map (\<lambda>seg. new_job_process (map pad (strip_amp (words_of seg)))) ?segs)"
    using parse_tokens_spec ok(4) zs by simp
  moreover have "replicate NUMBER_OF_CHAR_EACH_TOKEN 0 = pad []" by (simp add: pad_def)
  ultimately show ?thesis using pc n by (simp add: ProcessCommand_def NUMBER_OF_TOKENS_BY_PIPE_def)
qed

section \<open>Lines it cannot handle\<close>

text \<open>
  The block for the copy of a line has no place for its terminator, so that nothing is left to write
  to when the block ends at the break.
\<close>

lemma ParseCommand_overflow: "is_cstr command t \<Longrightarrow> ParseCommand command save_tokens (replicate (length t) 0) = None"
  by (simp add: ParseCommand_def self_strCpy_def)

lemma ProcessCommand_overflow: "is_cstr command t \<Longrightarrow> ProcessCommand command (replicate (length t) 0) = None"
  by (simp add: ProcessCommand_def ParseCommand_overflow)

text \<open>A line, or a part of one, without a word makes the search for its end run out in front of the buffer.\<close>

lemma trim_end_blank: "set (take n b) \<subseteq> {SPACE} \<Longrightarrow> n \<le> length b \<Longrightarrow> trim_end b n = None"
proof (induction n arbitrary: b)
  case (Suc n)
  have "b ! n = SPACE" using Suc.prems by (auto simp: take_Suc_conv_app_nth)
  moreover have "set (take n (b[n := 0])) \<subseteq> {SPACE}" using Suc.prems set_take_subset_set_take [of n "Suc n" b] by auto
  ultimately show ?case using Suc by simp
qed simp

lemma blank_line_undefined:
  assumes "is_cstr b t" "blank t"
  shows "removeSpaceOnTheEnd b = None"
proof -
  have "take (length t) b = t" "length t \<le> length b" using is_cstr_take [OF assms(1)] by simp_all
  then have "trim_end b (length t) = None" using assms(2) by (intro trim_end_blank) (auto simp: blank_def)
  then show ?thesis using assms(1) by (simp add: removeSpaceOnTheEnd_def)
qed

text \<open>A line of 100 characters or more does not fit into the buffer on the stack.\<close>

lemma template_overflow:
  assumes "is_cstr b t" "\<not> blank t" "100 \<le> length (trim t)"
  shows "removeSpaceOnTheEnd b = None"
proof -
  obtain b1 src where s: "is_cstr src (trim t)"
    "removeSpaceOnTheEnd b = Option.bind (self_strCpy (replicate 100 0) src) (self_strCpy b1)"
    using removeSpace_steps [OF assms(1,2)] by blast
  then show ?thesis using assms(3) by (simp add: self_strCpy_def)
qed

end
