(* ===== verification/Sbush_Exec.thy ===== *)
theory Sbush_Exec
  imports Sbush_Parse
begin

text \<open>
  Jobs and the environment of the shell, \<^verbatim>\<open>bin/sbush/sbush_exec.c\<close>.  Strings are in buffers as in
  \<open>Sbush_Parse\<close>.  \<open>execute\<close> is given what the calls of \<open>pipe\<close>, \<open>fork\<close> and \<open>chdir\<close> return and yields
  the system calls that the shell and each of its children make, in order.
\<close>

section \<open>Environment strings\<close>

fun env_strcmp :: "bytes \<Rightarrow> bytes \<Rightarrow> bool option" where
  "env_strcmp (c # cs) (d # ds) =
     (if c = 0 then Some (d = 0) else if c \<noteq> d then Some False else env_strcmp cs ds)"
| "env_strcmp _ _ = None"

text \<open>A zero is stored behind the terminator as well.\<close>

definition write_env :: "bytes \<Rightarrow> bytes \<Rightarrow> bytes \<Rightarrow> bytes option" where
  "write_env key value output =
     do {
       klen \<leftarrow> selfdefine_stringlen key;
       vlen \<leftarrow> selfdefine_stringlen value;
       if klen + vlen + 2 < length output
       then Some (put_at output 0 (take klen key @ [61] @ take vlen value @ [0, 0])) else None
     }"

text \<open>Storing through a pointer that may be null.\<close>

definition store_opt :: "bytes option \<Rightarrow> nat \<Rightarrow> u8 \<Rightarrow> bytes option option" where
  "store_opt buf i c = (case buf of None \<Rightarrow> Some None | Some b \<Rightarrow> map_option Some (put_byte b i c))"

text \<open>The loop for the key; the inner \<open>None\<close> is the return value 0.\<close>

fun extract_key :: "bytes \<Rightarrow> nat \<Rightarrow> bytes option \<Rightarrow> (bytes \<times> bytes option) option option" where
  "extract_key [] i key = None"
| "extract_key (c # cs) i key =
     (if c = 61 then do { key' \<leftarrow> store_opt key i 0; Some (Some (cs, key')) }
      else do {
        key' \<leftarrow> store_opt key i c;
        if c = 0 then Some None else extract_key cs (i + 1) key'
      })"

fun extract_value :: "bytes \<Rightarrow> nat \<Rightarrow> bytes option \<Rightarrow> bytes option option" where
  "extract_value [] i val = None"
| "extract_value (c # cs) i val =
     do {
       val' \<leftarrow> store_opt val i c;
       if c = 0 then store_opt val' (i + 1) 0 else extract_value cs (i + 1) val'
     }"

definition extract_env :: "bytes \<Rightarrow> bytes option \<Rightarrow> bytes option \<Rightarrow> (bytes option \<times> bytes option) option option" where
  "extract_env env_str key val =
     do {
       r \<leftarrow> extract_key env_str 0 key;
       case r of None \<Rightarrow> Some None
       | Some (rest, key') \<Rightarrow> do { val' \<leftarrow> extract_value rest 0 val; Some (Some (key', val')) }
     }"

fun search_env_from :: "int \<Rightarrow> bytes list \<Rightarrow> bytes \<Rightarrow> int option" where
  "search_env_from i [] key_to_find = Some (- 1)"
| "search_env_from i (e # env) key_to_find =
     do {
       r \<leftarrow> extract_env e (Some (replicate 128 0)) None;
       case r of Some (Some key, _) \<Rightarrow> do {
           eq \<leftarrow> env_strcmp key key_to_find;
           if eq then Some i else search_env_from (i + 1) env key_to_find
         }
       | _ \<Rightarrow> search_env_from (i + 1) env key_to_find
     }"

definition search_env :: "bytes list \<Rightarrow> bytes \<Rightarrow> int option" where
  "search_env env key_to_find = search_env_from 0 env key_to_find"

section \<open>Commands of the shell itself\<close>

datatype sh_call = Chdir "bytes option" | Exit int | Puts bytes | Dup2 int int | Close int | Execvp "bytes list"
  | Waitpid int | SetForeground int

datatype builtin = NotBuiltin | Handled int | Exits

text \<open>\<open>chdir_ret\<close> is what \<open>chdir\<close> returns for its argument.\<close>

definition export_env :: "bytes \<Rightarrow> bytes list \<Rightarrow> (builtin \<times> bytes list) option" where
  "export_env arg environ =
     do {
       r \<leftarrow> extract_env arg (Some (replicate 128 0)) (Some (replicate 128 0));
       case r of
         Some (Some desire_key, Some desire_value) \<Rightarrow> do {
           target \<leftarrow> search_env environ desire_key;
           new_env_str \<leftarrow> write_env desire_key desire_value (replicate 256 0);
           Some (Handled 0, if 0 \<le> target then environ[nat target := new_env_str] else environ @ [new_env_str])
         }
       | _ \<Rightarrow> Some (Handled 1, environ)
     }"

definition build_in_exec :: "(bytes option \<Rightarrow> int) \<Rightarrow> bytes list \<Rightarrow> bytes list \<Rightarrow> (builtin \<times> bytes list \<times> sh_call list) option" where
  "build_in_exec chdir_ret argv environ =
     (case argv of [] \<Rightarrow> None
      | path # args \<Rightarrow> do {
          is_cd \<leftarrow> env_strcmp path [99, 100, 0];
          if is_cd then
            let arg = (case args of [] \<Rightarrow> None | a # _ \<Rightarrow> Some a)
            in Some (if chdir_ret arg < 0 then Handled 1 else Handled 0, environ,
                 Chdir arg # (if chdir_ret arg < 0 then [Puts [102, 97, 105, 108, 101, 100, 32, 111, 110, 32, 99, 104, 100, 105, 114, 40, 41, 10]] else []))
          else do {
            is_exit \<leftarrow> env_strcmp path [101, 120, 105, 116, 0];
            if is_exit then Some (Exits, environ, [Exit 0])
            else do {
              is_ttt \<leftarrow> env_strcmp path [116, 116, 116, 0];
              if is_ttt then Some (Handled 0, environ, [Puts [114, 101, 112, 108, 121, 32, 116, 116, 116, 10]])
              else do {
                is_export \<leftarrow> env_strcmp path [101, 120, 112, 111, 114, 116, 0];
                if \<not> is_export then Some (NotBuiltin, environ, [])
                else case args of [] \<Rightarrow> None
                     | a # _ \<Rightarrow> do {
                         (r, environ') \<leftarrow> export_env a environ;
                         Some (r, environ', if r = Handled 1 then [Puts [102, 111, 114, 109, 97, 116, 32, 101, 114, 114, 111, 114]] else [])
                       }
              }
            }
          }
        })"

section \<open>Running a job\<close>

text \<open>
  Pipes between neighbours: \<open>pipes\<close> holds the descriptors from the calls of \<open>pipe\<close> that succeed, in
  order.  When one more is needed that call fails, and so does \<open>connect\<close>: the
  descriptors stored until then are not used any more.
\<close>

fun connect :: "(int \<times> int) list \<Rightarrow> job_process list \<Rightarrow> job_process list option" where
  "connect pipes (p # q # ps) =
     (case pipes of
        (r, w) # pipes' \<Rightarrow> map_option (\<lambda>l. p\<lparr>fd_out := w\<rparr> # l) (connect pipes' (q\<lparr>fd_in := r\<rparr> # ps))
      | [] \<Rightarrow> None)"
| "connect pipes ps = Some ps"

text \<open>What follows \<open>Execvp\<close> is done only when it fails.\<close>

definition child_calls :: "job_process \<Rightarrow> sh_call list" where
  "child_calls p =
     (if 0 \<le> fd_in p then [Dup2 (fd_in p) 0, Close (fd_in p)] else []) @
     (if 0 \<le> fd_out p then [Dup2 (fd_out p) 1, Close (fd_out p)] else []) @
     [Execvp (jargv p), Puts [102, 97, 105, 108, 101, 100, 32, 111, 110, 32, 101, 120, 101, 99, 118, 112, 40, 41, 10], Exit 1]"

definition parent_calls :: "job_process \<Rightarrow> sh_call list" where
  "parent_calls p = (if 0 \<le> fd_in p then [Close (fd_in p)] else []) @ (if 0 \<le> fd_out p then [Close (fd_out p)] else [])"

text \<open>
  What happened: the calls of the shell, with a mark where a child is created, the processes with
  their ids, and the environment; \<open>shell_ended\<close> when a command was \<open>exit\<close>.
\<close>

datatype sh_event = Call sh_call | Forked int "sh_call list"

record sh_result =
  sh_events :: "sh_event list"
  sh_processes :: "job_process list"
  sh_environ :: "bytes list"
  shell_ended :: bool

fun run_processes :: "(bytes option \<Rightarrow> int) \<Rightarrow> int list \<Rightarrow> job_process list \<Rightarrow> bytes list \<Rightarrow> sh_result option" where
  "run_processes chdir_ret pids [] environ =
     Some \<lparr>sh_events = [], sh_processes = [], sh_environ = environ, shell_ended = False\<rparr>"
| "run_processes chdir_ret pids (p # ps) environ =
     do {
       (r, environ', calls) \<leftarrow> build_in_exec chdir_ret (jargv p) environ;
       case r of
         Exits \<Rightarrow> Some \<lparr>sh_events = map Call calls, sh_processes = p # ps, sh_environ = environ', shell_ended = True\<rparr>
       | Handled _ \<Rightarrow> do {
           res \<leftarrow> run_processes chdir_ret pids ps environ';
           Some (res\<lparr>sh_events := map Call calls @ sh_events res, sh_processes := p # sh_processes res\<rparr>)
         }
       | NotBuiltin \<Rightarrow> (case pids of [] \<Rightarrow> None
           | pid # pids' \<Rightarrow> do {
               res \<leftarrow> run_processes chdir_ret pids' ps environ';
               Some (res\<lparr>sh_events := Forked pid (child_calls p) # map Call (parent_calls p) @ sh_events res,
                         sh_processes := p\<lparr>process_id := pid\<rparr> # sh_processes res\<rparr>)
             })
     }"

text \<open>\<open>wait_ret\<close> is what \<open>waitpid\<close> returns for a process, \<open>self\<close> the id of the shell.\<close>

definition wait_calls :: "(int \<Rightarrow> int) \<Rightarrow> int \<Rightarrow> job_process list \<Rightarrow> sh_call list" where
  "wait_calls wait_ret self ps = concat (map (\<lambda>p. [SetForeground (process_id p), Waitpid (process_id p)] @
       (if wait_ret (process_id p) < 0 then [Puts [102, 97, 105, 108, 101, 100, 32, 111, 110, 32, 119, 97, 105, 116, 112, 105, 100, 40, 41, 10]] else []) @
       [SetForeground self])
     (takeWhile (\<lambda>p. 0 \<le> process_id p) ps))"

definition execute :: "(int \<times> int) list \<Rightarrow> int list \<Rightarrow> (bytes option \<Rightarrow> int) \<Rightarrow> (int \<Rightarrow> int) \<Rightarrow> int \<Rightarrow> job \<Rightarrow> bytes list \<Rightarrow> sh_result option" where
  "execute pipes pids chdir_ret wait_ret self jb environ =
     (case connect pipes (job_processes jb) of
        None \<Rightarrow> Some \<lparr>sh_events = [Call (Puts [102, 97, 105, 108, 101, 100, 32, 111, 110, 32, 112, 105, 112, 101, 40, 41, 10])],
                      sh_processes = job_processes jb, sh_environ = environ, shell_ended = False\<rparr>
      | Some ps \<Rightarrow> do {
          res \<leftarrow> run_processes chdir_ret pids ps environ;
          Some (if shell_ended res \<or> isBackground_job jb then res
                else res\<lparr>sh_events := sh_events res @ map Call (wait_calls wait_ret self (sh_processes res))\<rparr>)
        })"

section \<open>Environment: lemmas\<close>

lemma env_strcmp_cstr: "is_cstr a s \<Longrightarrow> is_cstr b t \<Longrightarrow> env_strcmp a b = Some (s = t)"
  by (induction a b arbitrary: s t rule: env_strcmp.induct) (auto split: if_splits)

lemma store_opt_at: "store_opt (Some (pre @ x # post)) (length pre) c = Some (Some (pre @ c # post))"
  by (simp add: store_opt_def)

lemma store_at_end:
  assumes "length pre < n"
  shows "store_opt (Some (pre @ replicate (n - length pre) 0)) (length pre) c = Some (Some ((pre @ [c]) @ replicate (n - length (pre @ [c])) 0))"
proof -
  have "(replicate (n - length pre) 0 :: bytes) = 0 # replicate (n - Suc (length pre)) 0" using assms by (simp add: Suc_diff_Suc [symmetric])
  then show ?thesis using store_opt_at [of pre 0 "replicate (n - Suc (length pre)) 0" c] by simp
qed

text \<open>The key is what stands in front of the first \<open>=\<close>.\<close>

lemma extract_key_spec:
  assumes "61 \<notin> set k" "0 \<notin> set k" "length pre + length k < n"
  shows "extract_key (k @ 61 # rest) (length pre) (Some (pre @ replicate (n - length pre) 0)) =
     Some (Some (rest, Some ((pre @ k) @ replicate (n - length (pre @ k)) 0)))"
  using assms
proof (induction k arbitrary: pre)
  case Nil
  have "(replicate (n - length pre) 0 :: bytes) = 0 # replicate (n - Suc (length pre)) 0" using Nil by (simp add: Suc_diff_Suc [symmetric])
  then show ?case using store_opt_at [of pre 0 "replicate (n - Suc (length pre)) 0" 0] by simp
next
  case (Cons c k)
  have "extract_key (k @ 61 # rest) (length (pre @ [c])) (Some ((pre @ [c]) @ replicate (n - length (pre @ [c])) 0)) =
      Some (Some (rest, Some (((pre @ [c]) @ k) @ replicate (n - length ((pre @ [c]) @ k)) 0)))"
    by (rule Cons.IH) (use Cons.prems in auto)
  then show ?case using Cons.prems store_at_end [of pre n c] by simp
qed

lemma extract_key_null: "61 \<notin> set k \<Longrightarrow> 0 \<notin> set k \<Longrightarrow> extract_key (k @ 61 # rest) i None = Some (Some (rest, None))"
  by (induction k arbitrary: i) (auto simp: store_opt_def)

lemma extract_value_spec:
  assumes "0 \<notin> set v" "length pre + length v + 1 < n"
  shows "extract_value (v @ 0 # rest) (length pre) (Some (pre @ replicate (n - length pre) 0)) =
     Some (Some ((pre @ v) @ replicate (n - length (pre @ v)) 0))"
  using assms
proof (induction v arbitrary: pre)
  case Nil
  have "(replicate (n - length pre) 0 :: bytes) = 0 # 0 # replicate (n - Suc (Suc (length pre))) 0"
    using Nil by (simp add: Suc_diff_Suc [symmetric])
  then show ?case using store_opt_at [of pre 0 "0 # replicate (n - Suc (Suc (length pre))) 0" 0]
      store_opt_at [of "pre @ [0]" 0 "replicate (n - Suc (Suc (length pre))) 0" 0] by simp
next
  case (Cons c v)
  have "extract_value (v @ 0 # rest) (length (pre @ [c])) (Some ((pre @ [c]) @ replicate (n - length (pre @ [c])) 0)) =
      Some (Some (((pre @ [c]) @ v) @ replicate (n - length ((pre @ [c]) @ v)) 0))"
    by (rule Cons.IH) (use Cons.prems in auto)
  then show ?case using Cons.prems store_at_end [of pre n c] by simp
qed

lemma extract_value_null: "0 \<notin> set v \<Longrightarrow> extract_value (v @ 0 # rest) i None = Some None"
  by (induction v arbitrary: i) (auto simp: store_opt_def)

text \<open>A buffer that holds the string \<open>k=v\<close>.\<close>

definition is_binding :: "bytes \<Rightarrow> bytes \<Rightarrow> bytes \<Rightarrow> bool" where
  "is_binding b k v \<longleftrightarrow> is_cstr b (k @ 61 # v) \<and> 61 \<notin> set k"

lemma is_bindingE:
  assumes "is_binding b k v"
  obtains rest where "b = k @ 61 # v @ 0 # rest" "61 \<notin> set k" "0 \<notin> set k" "0 \<notin> set v"
  using assms by (auto simp: is_binding_def is_cstr_def)

lemma is_cstr_replicate: "0 \<notin> set k \<Longrightarrow> length k < n \<Longrightarrow> is_cstr (k @ replicate (n - length k) 0) k"
proof -
  assume a: "0 \<notin> set k" "length k < n"
  then have "(replicate (n - length k) 0 :: bytes) = 0 # replicate (n - Suc (length k)) 0" by (simp add: Suc_diff_Suc [symmetric])
  with a show ?thesis by auto
qed

lemma extract_env_binding:
  assumes "is_binding b k v" "length k < n"
  shows "length v + 1 < m \<Longrightarrow> extract_env b (Some (replicate n 0)) (Some (replicate m 0)) =
      Some (Some (Some (k @ replicate (n - length k) 0), Some (v @ replicate (m - length v) 0)))"
    "extract_env b (Some (replicate n 0)) None = Some (Some (Some (k @ replicate (n - length k) 0), None))"
proof -
  obtain rest where b: "b = k @ 61 # v @ 0 # rest" "61 \<notin> set k" "0 \<notin> set k" "0 \<notin> set v"
    using assms(1) by (rule is_bindingE)
  have k: "extract_key b 0 (Some (replicate n 0)) = Some (Some (v @ 0 # rest, Some (k @ replicate (n - length k) 0)))"
    using extract_key_spec [OF b(2,3), of "[]" n] assms(2) by (simp add: b(1))
  show "extract_env b (Some (replicate n 0)) None = Some (Some (Some (k @ replicate (n - length k) 0), None))"
    using k extract_value_null [OF b(4)] by (simp add: extract_env_def)
  show "extract_env b (Some (replicate n 0)) (Some (replicate m 0)) =
      Some (Some (Some (k @ replicate (n - length k) 0), Some (v @ replicate (m - length v) 0)))" if "length v + 1 < m"
    using k extract_value_spec [OF b(4), of "[]" m rest] that by (simp add: extract_env_def)
qed

text \<open>An environment whose strings bind the keys and values of a list.\<close>

definition binds :: "bytes list \<Rightarrow> (bytes \<times> bytes) list \<Rightarrow> bool" where
  "binds env kvs \<longleftrightarrow> list_all2 (\<lambda>b (k, v). is_binding b k v \<and> length k < 128) env kvs"

definition key_index :: "bytes \<Rightarrow> (bytes \<times> bytes) list \<Rightarrow> nat" where
  "key_index k kvs = length (takeWhile (\<lambda>kv. fst kv \<noteq> k) kvs)"

lemma search_env_spec:
  assumes "binds env kvs" "is_cstr key k"
  shows "search_env_from i env key = Some (if k \<in> fst ` set kvs then i + int (key_index k kvs) else - 1)"
  using assms(1) unfolding binds_def
proof (induction env kvs arbitrary: i rule: list_all2_induct)
  case (Cons b env kv kvs)
  obtain k' v where kv: "kv = (k', v)" by force
  have b: "is_binding b k' v" "length k' < 128" using Cons(1) by (simp_all add: kv)
  then have z: "0 \<notin> set k'" by (auto simp: is_binding_def is_cstr_def)
  note e = extract_env_binding(2) [OF b]
  have "env_strcmp (k' @ replicate (128 - length k') 0) key = Some (k' = k)"
    by (rule env_strcmp_cstr [OF is_cstr_replicate [OF z b(2)] assms(2)])
  then show ?case using e Cons(3) [of "i + 1"] by (auto simp: kv key_index_def)
qed simp

lemma write_env_spec:
  assumes "is_cstr key k" "is_cstr val v" "61 \<notin> set k" "length k + length v + 2 < n"
  shows "\<exists>b. write_env key val (replicate n 0) = Some b \<and> is_binding b k v"
proof -
  have z: "0 \<notin> set k" "0 \<notin> set v" using assms(1,2) by (auto simp: is_cstr_def)
  have "write_env key val (replicate n 0) = Some (k @ 61 # v @ 0 # 0 # drop (length k + length v + 3) (replicate n 0))"
    using assms by (simp add: write_env_def is_cstr_take put_at_def)
  moreover have "is_cstr ((k @ 61 # v) @ 0 # 0 # drop (length k + length v + 3) (replicate n 0)) (k @ 61 # v)"
    using z by (intro is_cstrI) auto
  ultimately show ?thesis using assms(3) by (simp add: is_binding_def)
qed

lemma map_of_key_index: "k \<in> fst ` set kvs \<Longrightarrow> key_index k kvs < length kvs \<and> map_of (kvs[key_index k kvs := (k, v)]) = (map_of kvs)(k \<mapsto> v)"
proof (induction kvs)
  case (Cons kv kvs)
  obtain k' v' where kv: "kv = (k', v')" by force
  show ?case
  proof (cases "k' = k")
    case False
    then show ?thesis using Cons by (auto simp: key_index_def kv fun_upd_twist)
  qed (auto simp: key_index_def kv)
qed simp

text \<open>
  C34. \<open>export\<close> sets a variable.  After \<open>export k=v\<close> the environment binds \<open>k\<close> to \<open>v\<close>, whether it was
  bound before or not, and every other variable as before.
\<close>

theorem export_env_binds:
  assumes "binds env kvs" "is_binding arg k v" "length k < 128" "length v < 127"
  shows "\<exists>env' kvs'. export_env arg env = Some (Handled 0, env') \<and> binds env' kvs' \<and> map_of kvs' = (map_of kvs)(k \<mapsto> v)"
proof -
  obtain rest where z: "61 \<notin> set k" "0 \<notin> set k" "0 \<notin> set v" using assms(2) by (rule is_bindingE)
  let ?kb = "k @ replicate (128 - length k) 0" and ?vb = "v @ replicate (128 - length v) 0"
  have c: "is_cstr ?kb k" "is_cstr ?vb v" using is_cstr_replicate z assms(3,4) by auto
  have e: "extract_env arg (Some (replicate 128 0)) (Some (replicate 128 0)) = Some (Some (Some ?kb, Some ?vb))"
    using extract_env_binding(1) [OF assms(2,3)] assms(4) by simp
  obtain b where b: "write_env ?kb ?vb (replicate 256 0) = Some b" "is_binding b k v"
    using write_env_spec [OF c z(1), of 256] assms(3,4) by auto
  note s = search_env_spec [OF assms(1) c(1), of 0, folded search_env_def]
  show ?thesis
  proof (cases "k \<in> fst ` set kvs")
    case True
    note ki = map_of_key_index [OF True, of v]
    have "binds (env[key_index k kvs := b]) (kvs[key_index k kvs := (k, v)])"
      using assms(1,3) b(2) unfolding binds_def by (intro list_all2_update_cong) simp_all
    then show ?thesis using e b(1) s True ki by (simp add: export_env_def) blast
  next
    case False
    then have "map_of kvs k = None" by (simp add: map_of_eq_None_iff)
    then have m: "map_of (kvs @ [(k, v)]) = (map_of kvs)(k \<mapsto> v)" by (auto simp: map_add_def split: option.splits)
    have "binds (env @ [b]) (kvs @ [(k, v)])" using assms(1,3) b(2) by (simp add: binds_def list_all2_appendI)
    moreover have "export_env arg env = Some (Handled 0, env @ [b])" using e b(1) s False by (simp add: export_env_def)
    ultimately show ?thesis using m by blast
  qed
qed

theorem export_env_binds_witness:
  "\<exists>env' kvs'. export_env [80, 83, 49, 61, 62, 0] [[80, 65, 84, 72, 61, 47, 98, 105, 110, 0], [80, 83, 49, 61, 0]] = Some (Handled 0, env') \<and>
     binds env' kvs' \<and> map_of kvs' = [[80, 65, 84, 72] \<mapsto> [47, 98, 105, 110], [80, 83, 49] \<mapsto> [62]]"
proof -
  have "binds [[80, 65, 84, 72, 61, 47, 98, 105, 110, 0], [80, 83, 49, 61, 0]] [([80, 65, 84, 72], [47, 98, 105, 110]), ([80, 83, 49], [])]"
    by (simp add: binds_def is_binding_def)
  from export_env_binds [OF this, of "[80, 83, 49, 61, 62, 0]" "[80, 83, 49]" "[62]"]
  show ?thesis by (simp add: is_binding_def fun_upd_twist)
qed

section \<open>Descriptors of a job\<close>

text \<open>What the calls do to a table of descriptors, and the tables with which children start their programs.\<close>

fun apply_call :: "sh_call \<Rightarrow> (int \<rightharpoonup> 'f) \<Rightarrow> (int \<rightharpoonup> 'f)" where
  "apply_call (Dup2 a b) t = t(b := t a)"
| "apply_call (Close a) t = t(a := None)"
| "apply_call _ t = t"

fun run_events :: "sh_event list \<Rightarrow> (int \<rightharpoonup> 'f) \<Rightarrow> (int \<times> (int \<rightharpoonup> 'f)) list \<times> (int \<rightharpoonup> 'f)" where
  "run_events [] t = ([], t)"
| "run_events (Call c # es) t = run_events es (apply_call c t)"
| "run_events (Forked pid cs # es) t = (case run_events es t of (ch, t') \<Rightarrow> ((pid, fold apply_call cs t) # ch, t'))"

lemma run_events_calls: "run_events (map Call cs @ es) t = run_events es (fold apply_call cs t)"
  by (induction cs arbitrary: t) auto

lemma run_events_append:
  "run_events xs t = (c1, t1) \<Longrightarrow> run_events ys t1 = (c2, t2) \<Longrightarrow> run_events (xs @ ys) t = (c1 @ c2, t2)"
  by (induction xs t arbitrary: c1 rule: run_events.induct) (auto split: prod.splits)

definition own_fds :: "job_process \<Rightarrow> int set" where
  "own_fds p = {fd. 0 \<le> fd \<and> (fd = fd_in p \<or> fd = fd_out p)}"

text \<open>A process gets its ends as descriptors 0 and 1, and the shell keeps none of them.\<close>

definition stdio_of :: "(int \<rightharpoonup> 'f) \<Rightarrow> job_process \<Rightarrow> int \<Rightarrow> 'f option" where
  "stdio_of t p fd = (let src = (if fd = 0 then fd_in p else fd_out p) in if 0 \<le> src then t src else t fd)"

lemma child_table:
  assumes "fd_in p \<noteq> fd_out p \<or> fd_in p < 0" "own_fds p \<inter> {0, 1} = {}"
  shows "fold apply_call (child_calls p) t 0 = stdio_of t p 0" "fold apply_call (child_calls p) t 1 = stdio_of t p 1"
  using assms by (auto simp: child_calls_def stdio_of_def own_fds_def)

lemma parent_table: "fold apply_call (parent_calls p) t = t |` (- own_fds p)"
  by (rule ext) (auto simp: parent_calls_def own_fds_def restrict_map_def)

text \<open>The events of the processes of a job, none of which is a command of the shell itself.\<close>

definition fork_events :: "int \<Rightarrow> job_process \<Rightarrow> sh_event list" where
  "fork_events pid p = Forked pid (child_calls p) # map Call (parent_calls p)"

lemma fork_tables:
  assumes "length pids = length ps" "\<forall>p \<in> set ps. (fd_in p \<noteq> fd_out p \<or> fd_in p < 0) \<and> own_fds p \<inter> {0, 1} = {}"
    "sorted_wrt (\<lambda>p q. own_fds p \<inter> own_fds q = {}) ps"
  shows "\<exists>ch. run_events (concat (map2 fork_events pids ps)) t = (ch, t |` (- \<Union> (own_fds ` set ps))) \<and> length ch = length ps \<and>
     (\<forall>i < length ps. fst (ch ! i) = pids ! i \<and> snd (ch ! i) 0 = stdio_of t (ps ! i) 0 \<and> snd (ch ! i) 1 = stdio_of t (ps ! i) 1)"
  using assms
proof (induction pids ps arbitrary: t rule: list_induct2)
  case Nil
  then show ?case by simp
next
  case (Cons pid pids p ps)
  let ?t1 = "t |` (- own_fds p)" and ?t2 = "t |` (- \<Union> (own_fds ` set (p # ps)))"
  have t2: "?t1 |` (- \<Union> (own_fds ` set ps)) = ?t2" by (auto simp: restrict_restrict)
  obtain ch where ch: "run_events (concat (map2 fork_events pids ps)) ?t1 = (ch, ?t2)"
    "length ch = length ps" "\<forall>i < length ps. fst (ch ! i) = pids ! i \<and> snd (ch ! i) 0 = stdio_of ?t1 (ps ! i) 0 \<and> snd (ch ! i) 1 = stdio_of ?t1 (ps ! i) 1"
    using Cons.IH [of ?t1] Cons.prems unfolding t2 by auto
  have st: "stdio_of ?t1 q fd = stdio_of t q fd" if "q \<in> set ps" "fd \<in> {0, 1}" for q fd
  proof -
    have "own_fds p \<inter> own_fds q = {}" "own_fds p \<inter> {0, 1} = {}" using Cons.prems that by auto
    moreover have "0 \<le> fd_in q \<Longrightarrow> fd_in q \<in> own_fds q" "0 \<le> fd_out q \<Longrightarrow> fd_out q \<in> own_fds q" by (simp_all add: own_fds_def)
    ultimately have "0 \<le> fd_in q \<Longrightarrow> fd_in q \<notin> own_fds p" "0 \<le> fd_out q \<Longrightarrow> fd_out q \<notin> own_fds p" "fd \<notin> own_fds p"
      using that(2) by blast+
    then show ?thesis by (auto simp: stdio_of_def restrict_map_def Let_def)
  qed
  let ?c = "(pid, fold apply_call (child_calls p) t)"
  have "run_events (concat (map2 fork_events (pid # pids) (p # ps))) t = (?c # ch, ?t2)"
    using ch(1) by (simp add: fork_events_def run_events_calls parent_table)
  moreover have "fst ((?c # ch) ! i) = (pid # pids) ! i \<and> snd ((?c # ch) ! i) 0 = stdio_of t ((p # ps) ! i) 0 \<and>
      snd ((?c # ch) ! i) 1 = stdio_of t ((p # ps) ! i) 1" if "i < length (p # ps)" for i
  proof (cases i)
    case 0
    then show ?thesis using child_table [of p t] Cons.prems by simp
  next
    case (Suc j)
    then have "ps ! j \<in> set ps" using that by simp
    then show ?thesis using ch(3) that st [of "ps ! j" 0] st [of "ps ! j" 1] by (simp add: Suc)
  qed
  ultimately show ?case using ch(2) by (intro exI [of _ "?c # ch"]) simp
qed

lemma connect_spec:
  "ps \<noteq> [] \<Longrightarrow> length ps = Suc (length pipes) \<Longrightarrow> \<exists>qs. connect pipes ps = Some qs \<and> length qs = length ps \<and>
     (\<forall>i < length ps. jargv (qs ! i) = jargv (ps ! i) \<and> fd_in (qs ! i) = (if i = 0 then fd_in (ps ! 0) else fst (pipes ! (i - 1))) \<and>
        fd_out (qs ! i) = (if i = length pipes then fd_out (ps ! i) else snd (pipes ! i)))"
proof (induction pipes ps rule: connect.induct)
  case (1 pipes p q ps)
  then obtain r w pipes' where pp: "pipes = (r, w) # pipes'" by (cases pipes) auto
  from 1(1) [OF pp] 1(3) obtain qs where qs: "connect pipes' (q\<lparr>fd_in := r\<rparr> # ps) = Some qs" "length qs = Suc (length ps)"
    "\<forall>i < Suc (length ps). jargv (qs ! i) = jargv ((q\<lparr>fd_in := r\<rparr> # ps) ! i) \<and>
        fd_in (qs ! i) = (if i = 0 then r else fst (pipes' ! (i - 1))) \<and>
        fd_out (qs ! i) = (if i = length pipes' then fd_out ((q\<lparr>fd_in := r\<rparr> # ps) ! i) else snd (pipes' ! i))"
    by (auto simp: pp)
  show ?case
  proof (intro exI conjI allI impI)
    show "connect pipes (p # q # ps) = Some (p\<lparr>fd_out := w\<rparr> # qs)" using qs(1) by (simp add: pp)
    fix i assume i: "i < length (p # q # ps)"
    show "jargv ((p\<lparr>fd_out := w\<rparr> # qs) ! i) = jargv ((p # q # ps) ! i)"
      "fd_in ((p\<lparr>fd_out := w\<rparr> # qs) ! i) = (if i = 0 then fd_in ((p # q # ps) ! 0) else fst (pipes ! (i - 1)))"
      "fd_out ((p\<lparr>fd_out := w\<rparr> # qs) ! i) = (if i = length pipes then fd_out ((p # q # ps) ! i) else snd (pipes ! i))"
      using i qs(3) by (cases i; cases "i - 1"; auto simp: pp)+
  qed (use qs(2) in simp)
qed auto

text \<open>A program that is not one of the shell's own commands.\<close>

definition external :: "bytes list \<Rightarrow> bool" where
  "external argv \<longleftrightarrow> (\<exists>path. argv \<noteq> [] \<and> is_cstr (hd argv) path \<and>
     path \<notin> {[99, 100], [101, 120, 105, 116], [116, 116, 116], [101, 120, 112, 111, 114, 116]})"

lemma external_not_builtin: "external argv \<Longrightarrow> build_in_exec r argv environ = Some (NotBuiltin, environ, [])"
proof -
  assume "external argv"
  then obtain path b args where p: "argv = b # args" "is_cstr b path"
    "path \<notin> {[99, 100], [101, 120, 105, 116], [116, 116, 116], [101, 120, 112, 111, 114, 116]}"
    unfolding external_def by (cases argv) auto
  have "env_strcmp b [99, 100, 0] = Some False" "env_strcmp b [101, 120, 105, 116, 0] = Some False"
    "env_strcmp b [116, 116, 116, 0] = Some False" "env_strcmp b [101, 120, 112, 111, 114, 116, 0] = Some False"
    using env_strcmp_cstr [OF p(2)] p(3) by auto
  then show ?thesis by (simp add: build_in_exec_def p(1))
qed

lemma run_processes_spec:
  "length pids = length ps \<Longrightarrow> \<forall>p \<in> set ps. external (jargv p) \<Longrightarrow>
   run_processes r pids ps environ = Some \<lparr>sh_events = concat (map2 fork_events pids ps),
     sh_processes = map2 (\<lambda>pid p. p\<lparr>process_id := pid\<rparr>) pids ps, sh_environ = environ, shell_ended = False\<rparr>"
  by (induction pids ps rule: list_induct2) (auto simp: external_not_builtin fork_events_def)

lemma wait_calls_fold: "fold apply_call (wait_calls wait_ret self ps) t = t"
  unfolding wait_calls_def by (induction ps arbitrary: t) auto

fun waited :: "sh_event list \<Rightarrow> int list" where
  "waited [] = []"
| "waited (Call (Waitpid pid) # es) = pid # waited es"
| "waited (_ # es) = waited es"

lemma waited_append [simp]: "waited (xs @ ys) = waited xs @ waited ys"
  by (induction xs rule: waited.induct) auto

lemma waited_forks: "waited (concat (map2 fork_events pids ps)) = []"
proof (induction pids ps rule: list_induct2')
  case (4 pid pids p ps)
  have "waited (fork_events pid p) = []" by (simp add: fork_events_def parent_calls_def)
  with 4 show ?case by simp
qed auto

lemma waited_waits:
  assumes "length pids = length ps" "\<forall>pid \<in> set pids. 0 \<le> pid"
  shows "waited (map Call (wait_calls wait_ret self (map2 (\<lambda>pid p. p\<lparr>process_id := pid\<rparr>) pids ps))) = pids"
  using assms unfolding wait_calls_def by (induction pids ps rule: list_induct2) auto

text \<open>The descriptors of the processes after \<open>connect\<close>: different ones for each, and together those of all pipes.\<close>

lemma connected_fds:
  assumes n: "length qs = Suc (length pipes)" and pipes: "distinct (map fst pipes @ map snd pipes)" "\<forall>(r, w) \<in> set pipes. 2 < r \<and> 2 < w"
    and qs: "\<forall>i < length qs. fd_in (qs ! i) = (if i = 0 then - 1 else fst (pipes ! (i - 1))) \<and>
        fd_out (qs ! i) = (if i = length pipes then - 1 else snd (pipes ! i))"
  shows "\<forall>p \<in> set qs. (fd_in p \<noteq> fd_out p \<or> fd_in p < 0) \<and> own_fds p \<inter> {0, 1} = {}"
    "sorted_wrt (\<lambda>p q. own_fds p \<inter> own_fds q = {}) qs" "\<Union> (own_fds ` set qs) = fst ` set pipes \<union> snd ` set pipes"
proof -
  let ?m = "length pipes" and ?n = "length qs" and ?S = "fst ` set pipes \<union> snd ` set pipes"
  have big: "2 < fst (pipes ! i) \<and> 2 < snd (pipes ! i)" if "i < ?m" for i
    using pipes(2) nth_mem [OF that] by (cases "pipes ! i") auto
  have inj: "fst (pipes ! i) = fst (pipes ! j) \<longleftrightarrow> i = j" "snd (pipes ! i) = snd (pipes ! j) \<longleftrightarrow> i = j"
    "fst (pipes ! i) \<noteq> snd (pipes ! j)" if "i < ?m" "j < ?m" for i j
  proof -
    show "fst (pipes ! i) = fst (pipes ! j) \<longleftrightarrow> i = j" "snd (pipes ! i) = snd (pipes ! j) \<longleftrightarrow> i = j"
      using pipes(1) that nth_eq_iff_index_eq [of "map fst pipes" i j] nth_eq_iff_index_eq [of "map snd pipes" i j] by auto
    have "fst (pipes ! i) \<in> fst ` set pipes" "snd (pipes ! j) \<in> snd ` set pipes" using that by simp_all
    moreover have "fst ` set pipes \<inter> snd ` set pipes = {}" using pipes(1) by simp
    ultimately show "fst (pipes ! i) \<noteq> snd (pipes ! j)" by (metis disjoint_iff)
  qed
  have big': "0 < i \<Longrightarrow> 2 < fst (pipes ! (i - 1))" "i \<noteq> ?m \<Longrightarrow> 2 < snd (pipes ! i)" if "i < ?n" for i
    using that n big [of "i - 1"] big [of i] by auto
  have own: "own_fds (qs ! i) = (if i = 0 then {} else {fst (pipes ! (i - 1))}) \<union> (if i = ?m then {} else {snd (pipes ! i)})"
    if "i < ?n" for i
    using qs that big' [OF that] by (auto simp: own_fds_def)
  show "\<forall>p \<in> set qs. (fd_in p \<noteq> fd_out p \<or> fd_in p < 0) \<and> own_fds p \<inter> {0, 1} = {}"
  proof
    fix p assume "p \<in> set qs"
    then obtain i where i: "i < ?n" "p = qs ! i" by (auto simp: in_set_conv_nth)
    show "(fd_in p \<noteq> fd_out p \<or> fd_in p < 0) \<and> own_fds p \<inter> {0, 1} = {}"
      unfolding i(2) own [OF i(1)] using qs i(1) n big' [OF i(1)] inj(3) [of "i - 1" i] by auto
  qed
  show "sorted_wrt (\<lambda>p q. own_fds p \<inter> own_fds q = {}) qs"
    unfolding sorted_wrt_iff_nth_less
  proof (intro allI impI)
    fix i j assume ij: "i < j" "j < ?n"
    then obtain j' where j: "j = Suc j'" "j' < ?m" "i \<le> j'" "i < ?n" using n by (cases j) auto
    show "own_fds (qs ! i) \<inter> own_fds (qs ! j) = {}"
    proof (cases i)
      case 0
      then show ?thesis unfolding own [OF j(4)] own [OF ij(2)]
        using j ij n inj(3) [of j' 0] inj(2) [of 0 j] by (auto split: if_splits)
    next
      case (Suc i')
      then show ?thesis unfolding own [OF j(4)] own [OF ij(2)]
        using j ij n inj(1) [of i' j'] inj(2) [of i j] inj(3) [of i' j] inj(3) [of j' i] by (auto split: if_splits)
    qed
  qed
  show "\<Union> (own_fds ` set qs) = ?S"
  proof (intro equalityI subsetI)
    fix x assume "x \<in> \<Union> (own_fds ` set qs)"
    then obtain i where "i < ?n" "x \<in> own_fds (qs ! i)" by (auto simp: in_set_conv_nth)
    then show "x \<in> ?S" using own [of i] n by (auto split: if_splits)
  next
    fix x assume "x \<in> ?S"
    then obtain i where i: "i < ?m" "x = fst (pipes ! i) \<or> x = snd (pipes ! i)" by (auto simp: in_set_conv_nth)
    then have "x \<in> own_fds (qs ! Suc i) \<or> x \<in> own_fds (qs ! i)" using own [of "Suc i"] own [of i] n by auto
    moreover have "qs ! Suc i \<in> set qs" "qs ! i \<in> set qs" using i(1) n by simp_all
    ultimately show "x \<in> \<Union> (own_fds ` set qs)" by blast
  qed
qed

text \<open>
  C33. A pipeline is connected.  Each program of a job starts with its standard input at the read
  end of the pipe before it and its standard output at the write end of the pipe behind it, the
  first and the last with those of the shell; the shell has closed all ends of the pipes; and it
  has waited for every process of a job in the foreground, in order.
\<close>

theorem execute_connects:
  assumes "job_processes jb = map new_job_process argvs" "argvs \<noteq> []" "\<forall>argv \<in> set argvs. external argv"
    and "length argvs = Suc (length pipes)" "length pids = length argvs" "\<forall>pid \<in> set pids. 0 \<le> pid"
    and "distinct (map fst pipes @ map snd pipes)" "\<forall>(r, w) \<in> set pipes. 2 < r \<and> 2 < w"
  shows "\<exists>res ch t'. execute pipes pids chdir_ret wait_ret self jb environ = Some res \<and> run_events (sh_events res) t = (ch, t') \<and>
     length ch = length argvs \<and>
     (\<forall>i < length argvs. fst (ch ! i) = pids ! i \<and>
        snd (ch ! i) 0 = (if i = 0 then t 0 else t (fst (pipes ! (i - 1)))) \<and>
        snd (ch ! i) 1 = (if i = length pipes then t 1 else t (snd (pipes ! i)))) \<and>
     t' = t |` (- (fst ` set pipes \<union> snd ` set pipes)) \<and>
     (\<not> isBackground_job jb \<longrightarrow> waited (sh_events res) = pids)"
proof -
  let ?m = "length pipes" and ?n = "length argvs" and ?S = "fst ` set pipes \<union> snd ` set pipes"
  obtain qs where qs: "connect pipes (job_processes jb) = Some qs" "length qs = ?n"
    "\<forall>i < ?n. jargv (qs ! i) = argvs ! i \<and> fd_in (qs ! i) = (if i = 0 then - 1 else fst (pipes ! (i - 1))) \<and>
        fd_out (qs ! i) = (if i = ?m then - 1 else snd (pipes ! i))"
    using connect_spec [of "map new_job_process argvs" pipes] assms(1,2,4) by (auto simp: new_job_process_def)
  have len: "length qs = Suc ?m" using qs(2) assms(4) by simp
  note fds = connected_fds [OF len assms(7,8)]
  have fq: "\<forall>i < length qs. fd_in (qs ! i) = (if i = 0 then - 1 else fst (pipes ! (i - 1))) \<and>
        fd_out (qs ! i) = (if i = ?m then - 1 else snd (pipes ! i))" using qs(2,3) by simp
  have ext: "\<forall>p \<in> set qs. external (jargv p)" using qs(2,3) assms(3) by (metis in_set_conv_nth nth_mem)
  obtain ch where ch: "run_events (concat (map2 fork_events pids qs)) t = (ch, t |` (- ?S))" "length ch = ?n"
     "\<forall>i < ?n. fst (ch ! i) = pids ! i \<and> snd (ch ! i) 0 = stdio_of t (qs ! i) 0 \<and> snd (ch ! i) 1 = stdio_of t (qs ! i) 1"
    using fork_tables [OF _ fds(1,2) [OF fq], of pids t] fds(3) [OF fq] assms(5) qs(2) by auto
  let ?ps = "map2 (\<lambda>pid p. p\<lparr>process_id := pid\<rparr>) pids qs"
  let ?ws = "if isBackground_job jb then [] else map Call (wait_calls wait_ret self ?ps)"
  let ?res = "\<lparr>sh_events = concat (map2 fork_events pids qs) @ ?ws, sh_processes = ?ps, sh_environ = environ, shell_ended = False\<rparr>"
  have "execute pipes pids chdir_ret wait_ret self jb environ = Some ?res"
    using qs(1,2) run_processes_spec [of pids qs] ext assms(5) by (simp add: execute_def)
  moreover have "run_events ?ws (t |` (- ?S)) = ([], t |` (- ?S))"
    using run_events_calls [of "wait_calls wait_ret self ?ps" "[]" "t |` (- ?S)"] by (simp add: wait_calls_fold)
  then have "run_events (sh_events ?res) t = (ch, t |` (- ?S))" using run_events_append [OF ch(1)] by auto
  moreover have "\<not> isBackground_job jb \<longrightarrow> waited (sh_events ?res) = pids"
    using waited_forks waited_waits [of pids qs wait_ret self] assms(5,6) qs(2) by simp
  moreover have "\<forall>i < ?n. fst (ch ! i) = pids ! i \<and>
        snd (ch ! i) 0 = (if i = 0 then t 0 else t (fst (pipes ! (i - 1)))) \<and>
        snd (ch ! i) 1 = (if i = ?m then t 1 else t (snd (pipes ! i)))"
  proof (intro allI impI)
    fix i assume i: "i < ?n"
    have pos: "0 < i \<Longrightarrow> 0 \<le> fst (pipes ! (i - 1))" "i \<noteq> ?m \<Longrightarrow> 0 \<le> snd (pipes ! i)"
      using assms(8) i assms(4) nth_mem [of "i - 1" pipes] nth_mem [of i pipes] by fastforce+
    from i show "fst (ch ! i) = pids ! i \<and> snd (ch ! i) 0 = (if i = 0 then t 0 else t (fst (pipes ! (i - 1)))) \<and>
        snd (ch ! i) 1 = (if i = ?m then t 1 else t (snd (pipes ! i)))"
      using ch(3) qs(3) pos by (auto simp: stdio_of_def Let_def)
  qed
  ultimately show ?thesis using ch(2) by blast
qed

theorem execute_connects_witness:
  "\<exists>res ch t'. execute [(3, 4)] [7, 8] (\<lambda>_. 0) (\<lambda>_. 0) 1
       \<lparr>job_processes = [new_job_process [[108, 115, 0]], new_job_process [[99, 97, 116, 0]]], isBackground_job = False\<rparr> [] = Some res \<and>
     run_events (sh_events res) [0 \<mapsto> 10, 1 \<mapsto> 11, 3 \<mapsto> 20, 4 \<mapsto> (21 :: nat)] = (ch, t') \<and>
     snd (ch ! 0) 1 = Some 21 \<and> snd (ch ! 1) 0 = Some 20 \<and> t' 4 = None \<and> waited (sh_events res) = [7, 8]"
proof -
  let ?pp = "[(3, 4)] :: (int \<times> int) list"
  let ?jb = "\<lparr>job_processes = [new_job_process [[108, 115, 0]], new_job_process [[99, 97, 116, 0]]], isBackground_job = False\<rparr>"
  let ?t = "[0 \<mapsto> 10, 1 \<mapsto> 11, 3 \<mapsto> 20, 4 \<mapsto> (21 :: nat)] :: int \<rightharpoonup> nat"
  have ext: "external [[108, 115, 0]]" "external [[99, 97, 116, 0]]" by (simp_all add: external_def)
  have "\<exists>res ch t'. execute ?pp [7, 8] (\<lambda>_. 0) (\<lambda>_. 0) 1 ?jb [] = Some res \<and> run_events (sh_events res) ?t = (ch, t') \<and>
     length ch = length [[[108, 115, 0 :: u8]], [[99, 97, 116, 0]]] \<and>
     (\<forall>i < length [[[108, 115, 0 :: u8]], [[99, 97, 116, 0]]]. fst (ch ! i) = [7, 8] ! i \<and>
        snd (ch ! i) 0 = (if i = 0 then ?t 0 else ?t (fst (?pp ! (i - 1)))) \<and>
        snd (ch ! i) 1 = (if i = length ?pp then ?t 1 else ?t (snd (?pp ! i)))) \<and>
     t' = ?t |` (- (fst ` set ?pp \<union> snd ` set ?pp)) \<and>
     (\<not> isBackground_job ?jb \<longrightarrow> waited (sh_events res) = [7, 8])"
    by (rule execute_connects) (use ext in simp_all)
  then obtain res ch t' where r: "execute ?pp [7, 8] (\<lambda>_. 0) (\<lambda>_. 0) 1 ?jb [] = Some res" "run_events (sh_events res) ?t = (ch, t')"
    "\<forall>i < 2. snd (ch ! i) 0 = (if i = 0 then ?t 0 else ?t (fst (?pp ! (i - 1)))) \<and>
        snd (ch ! i) 1 = (if i = 1 then ?t 1 else ?t (snd (?pp ! i)))" "t' 4 = None" "waited (sh_events res) = [7, 8]"
    by (auto simp: restrict_map_def)
  have "snd (ch ! 0) 1 = Some 21" "snd (ch ! 1) 0 = Some 20" using r(3) by simp_all
  with r show ?thesis by blast
qed

text \<open>
  A command of the shell itself in a pipeline, as in \<open>cd / | cat\<close>: the shell keeps the write end of
  the pipe open, and does not wait for the processes behind it.
\<close>

lemma builtin_in_pipeline:
  "\<exists>res ch t'. execute [(3, 4)] [7] (\<lambda>_. 0) (\<lambda>_. 0) 1
       \<lparr>job_processes = [new_job_process [[99, 100, 0], [47, 0]], new_job_process [[99, 97, 116, 0]]], isBackground_job = False\<rparr> [] = Some res \<and>
     run_events (sh_events res) [0 \<mapsto> 10, 1 \<mapsto> 11, 3 \<mapsto> 20, 4 \<mapsto> (21 :: nat)] = (ch, t') \<and> t' 4 = Some 21 \<and> waited (sh_events res) = []"
  by (simp add: execute_def new_job_process_def build_in_exec_def child_calls_def parent_calls_def wait_calls_def)

end
