(* ===== verification/Libc.thy ===== *)
theory Libc
  imports Syscall_File Syscall_Proc Kprintf Sbush_Exec
begin

text \<open>
  The C library of user programs: the wrappers of the system calls with \<open>errno\<close>
  (\<^verbatim>\<open>libc/syscall.c\<close>), \<open>malloc\<close> (\<^verbatim>\<open>libc/malloc.c\<close>, the part that is compiled), \<open>execvpe\<close>
  (\<^verbatim>\<open>libc/exec.c\<close>) and \<open>printf\<close> (\<^verbatim>\<open>libc/printf.c\<close>).  A wrapper gets the value that the system call
  has left in \<open>rax\<close>, and \<open>errno\<close>; it yields its own value and the new \<open>errno\<close>.
\<close>

section \<open>Wrappers\<close>

definition errno_of :: "u64 \<Rightarrow> u32" where
  "errno_of result = ucast (0 - result)"

text \<open>Three shapes: a status, a value of 32 bits, a value of 64 bits.\<close>

definition status_ret :: "u64 \<Rightarrow> u32 \<Rightarrow> u32 \<times> u32" where
  "status_ret result errno = (if sint result < 0 then (- 1, errno_of result) else (0, errno))"

definition value32_ret :: "u64 \<Rightarrow> u32 \<Rightarrow> u32 \<times> u32" where
  "value32_ret result errno = (if sint result < 0 then (- 1, errno_of result) else (ucast result, errno))"

definition value64_ret :: "u64 \<Rightarrow> u32 \<Rightarrow> u64 \<times> u32" where
  "value64_ret result errno = (if sint result < 0 then (- 1, errno_of result) else (result, errno))"

text \<open>Stubs that are declared to return \<open>int\<close>: the lower half of \<open>rax\<close>, with its sign.\<close>

definition int_result :: "u64 \<Rightarrow> u64" where
  "int_result rax' = scast (ucast rax' :: u32)"

definition libc_kill :: "u64 \<Rightarrow> u32 \<Rightarrow> u32 \<times> u32" where "libc_kill = status_ret"
definition libc_open :: "u64 \<Rightarrow> u32 \<Rightarrow> u32 \<times> u32" where "libc_open = value32_ret"
definition libc_close :: "u64 \<Rightarrow> u32 \<Rightarrow> u32 \<times> u32" where "libc_close = status_ret"
definition libc_read :: "u64 \<Rightarrow> u32 \<Rightarrow> u64 \<times> u32" where "libc_read = value64_ret"
definition libc_write :: "u64 \<Rightarrow> u32 \<Rightarrow> u64 \<times> u32" where "libc_write = value64_ret"
definition libc_unlink :: "u64 \<Rightarrow> u32 \<Rightarrow> u32 \<times> u32" where "libc_unlink = status_ret"
definition libc_chdir :: "u64 \<Rightarrow> u32 \<Rightarrow> u32 \<times> u32" where "libc_chdir = status_ret"
definition libc_fork :: "u64 \<Rightarrow> u32 \<Rightarrow> u32 \<times> u32" where "libc_fork = value32_ret"
definition libc_lseek :: "u64 \<Rightarrow> u32 \<Rightarrow> u64 \<times> u32" where "libc_lseek = value64_ret"
definition libc_mkdir :: "u64 \<Rightarrow> u32 \<Rightarrow> u32 \<times> u32" where "libc_mkdir = status_ret"
definition libc_pipe :: "u64 \<Rightarrow> u32 \<Rightarrow> u32 \<times> u32" where "libc_pipe = status_ret"
definition libc_ioctl :: "u64 \<Rightarrow> u32 \<Rightarrow> u32 \<times> u32" where "libc_ioctl = status_ret"
definition libc_dup2 :: "u64 \<Rightarrow> u32 \<Rightarrow> u32 \<times> u32" where "libc_dup2 r = status_ret (int_result r)"
definition libc_alarm :: "u64 \<Rightarrow> u32 \<Rightarrow> u32 \<times> u32" where "libc_alarm r = status_ret (int_result r)"
definition libc_list_pid :: "u64 \<Rightarrow> u32 \<Rightarrow> u32 \<times> u32" where "libc_list_pid r = value32_ret (int_result r)"
definition libc_pid_name :: "u64 \<Rightarrow> u32 \<Rightarrow> u32 \<times> u32" where "libc_pid_name r = status_ret (int_result r)"

definition libc_getcwd :: "ptr \<Rightarrow> u64 \<Rightarrow> u32 \<Rightarrow> ptr \<times> u32" where
  "libc_getcwd buf result errno = (if sint result < 0 then (0, errno_of result) else (buf, errno))"

text \<open>\<open>wait\<close> and \<open>waitpid\<close> store a status of 0 when the call fails; the third result is that store.\<close>

definition libc_waitpid :: "u64 \<Rightarrow> u32 \<Rightarrow> u32 \<times> u32 \<times> u32 option" where
  "libc_waitpid result errno = (if sint result < 0 then (- 1, errno_of result, Some 0) else (0, errno, None))"

definition libc_wait :: "u64 \<Rightarrow> u32 \<Rightarrow> u32 \<times> u32 \<times> u32 option" where
  "libc_wait = libc_waitpid"

text \<open>\<open>getppid\<close> calls \<open>sys_getpid\<close>.\<close>

definition libc_getpid :: "kernel \<Rightarrow> handler_reg \<Rightarrow> trap_result option" where
  "libc_getpid k reg = sys_getpid k reg"

definition libc_getppid :: "kernel \<Rightarrow> handler_reg \<Rightarrow> trap_result option" where
  "libc_getppid k reg = sys_getpid k reg"

text \<open>\<open>puts\<close> writes at most 1024 characters; \<open>puts_length\<close> is their number.\<close>

fun puts_length :: "nat \<Rightarrow> bytes \<Rightarrow> nat option" where
  "puts_length i [] = None"
| "puts_length i (c # cs) = (if c \<noteq> 0 \<and> i < 1024 then puts_length (i + 1) cs else Some i)"

definition libc_puts :: "bytes \<Rightarrow> u64 \<Rightarrow> u32 \<Rightarrow> (u32 \<times> u32) option" where
  "libc_puts s result errno =
     do {
       i \<leftarrow> puts_length 0 s;
       Some (if result \<noteq> of_nat i then (- 1, errno_of result) else (0, errno))
     }"

definition libc_putchar :: "u64 \<Rightarrow> u32 \<Rightarrow> u32 \<times> u32" where
  "libc_putchar result errno = (if result \<noteq> 1 then (- 1, errno_of result) else (0, errno))"

text \<open>
  \<open>gets\<close>: every byte is read to the first place of the buffer.  The argument lists the bytes that
  the reads deliver; at its end a read delivers none.  An inner \<open>None\<close> is the null pointer.
\<close>

fun libc_gets :: "bytes \<Rightarrow> bytes \<Rightarrow> bytes option option" where
  "libc_gets [] s = Some None"
| "libc_gets (c # cs) s =
     do { s' \<leftarrow> put_byte s 0 c; if c = 10 then map_option Some (put_byte s' 0 0) else libc_gets cs s' }"

text \<open>\<open>default_sig_handler\<close> of a program: what it does before it returns from the signal.\<close>

datatype sig_action = Run_handler ptr u32 | Exit_program | Sig_return

definition default_sig_handler :: "(nat \<Rightarrow> ptr) \<Rightarrow> u64 \<Rightarrow> sig_action list" where
  "default_sig_handler handlers sig_num =
     (if 64 \<le> sig_num then [Sig_return]
      else if handlers (unat sig_num) \<noteq> 0 then [Run_handler (handlers (unat sig_num)) (ucast sig_num), Sig_return]
      else if sig_num = 2 \<or> sig_num = 11 then [Exit_program]
      else [Sig_return])"

text \<open>\<open>signal\<close> stores a handler in the table of 64.\<close>

definition libc_signal :: "(nat \<Rightarrow> ptr) \<Rightarrow> u32 \<Rightarrow> ptr \<Rightarrow> (nat \<Rightarrow> ptr) option" where
  "libc_signal handlers signum handler =
     (if unat signum < 64 then Some (handlers(unat signum := handler)) else None)"

text \<open>The argument that \<open>sleep\<close> gives to \<open>sys_pause\<close>, in microseconds.\<close>

definition libc_sleep :: "u32 \<Rightarrow> u64" where
  "libc_sleep seconds = ucast seconds * 1000000"

text \<open>\<open>opendir\<close>: at most 126 characters of the name, and a slash when there is none at its end.\<close>

definition opendir_path :: "bytes \<Rightarrow> bytes option" where
  "opendir_path name =
     (if 0 \<in> set (take 127 name) \<or> 127 \<le> length name then
        let p = take 126 (cstr name)
        in if p = [] then None else Some (if last p \<noteq> 47 then p @ [47] else p)
      else None)"

section \<open>Memory\<close>

text \<open>\<open>sbrk\<close> with its static variable; \<open>sys_brk\<close> is an argument.\<close>

definition libc_sbrk :: "(u64 \<Rightarrow> 's \<Rightarrow> (u64 \<times> 's) option) \<Rightarrow> u64 \<Rightarrow> u64 \<times> 's \<Rightarrow> (u64 \<times> u64 \<times> 's) option" where
  "libc_sbrk sys_brk' inc st =
     (case st of (current_brk, k) \<Rightarrow>
       do {
         (current_brk, k) \<leftarrow> (if current_brk = 0 then sys_brk' 0 k else Some (current_brk, k));
         if inc = 0 then Some (current_brk, current_brk, k)
         else let inc = ((inc - 1) div 4096 + 1) * 4096
              in do {
                (r, k) \<leftarrow> sys_brk' (current_brk + inc) k;
                Some (if r = 0 then current_brk else 0, current_brk, k)
              }
       })"

record malloc_state =
  current_brk :: u64
  allocated :: u64

text \<open>What \<open>brk\<close> returns the second time is not looked at.\<close>

definition libc_malloc :: "(u64 \<Rightarrow> 's \<Rightarrow> (u64 \<times> 's) option) \<Rightarrow> u64 \<Rightarrow> malloc_state \<Rightarrow> 's \<Rightarrow> (u64 \<times> malloc_state \<times> 's) option" where
  "libc_malloc brk sz ms k =
     do {
       (ms, k) \<leftarrow> (if current_brk ms = 0
                   then do { (b, k) \<leftarrow> brk 0 k; Some (\<lparr>current_brk = b, allocated = b\<rparr>, k) }
                   else Some (ms, k));
       let want_to = ((allocated ms + sz - 1) div 4096 + 1) * 4096;
       (ms, k) \<leftarrow> (if current_brk ms < want_to
                   then do { (_, k) \<leftarrow> brk want_to k; Some (ms\<lparr>current_brk := want_to\<rparr>, k) }
                   else Some (ms, k));
       Some (allocated ms, ms\<lparr>allocated := allocated ms + sz\<rparr>, k)
     }"

text \<open>\<open>brk\<close> is the system call.\<close>

definition user_brk :: "handler_reg \<Rightarrow> u64 \<Rightarrow> kernel \<Rightarrow> (u64 \<times> kernel) option" where
  "user_brk reg to k = do { (_, reg', _, k') \<leftarrow> sys_brk k (reg\<lparr>rdi := to\<rparr>); Some (rax reg', k') }"

section \<open>Programs\<close>

text \<open>The functions on environment strings are those of the shell under other names.\<close>

definition libc_extract_env :: "bytes \<Rightarrow> bytes option \<Rightarrow> bytes option \<Rightarrow> (bytes option \<times> bytes option) option option" where
  "libc_extract_env = extract_env"

definition libc_search_env :: "bytes list \<Rightarrow> bytes \<Rightarrow> int option" where
  "libc_search_env = search_env"

definition libc_execve :: "u64 \<Rightarrow> u32 \<Rightarrow> u32 \<times> u32" where "libc_execve = status_ret"

text \<open>
  \<open>execvpe\<close>: \<open>can_open\<close> tells for which strings \<open>open\<close> succeeds.  The result is the path given to
  \<open>execve\<close>, or none with \<open>errno\<close> 2.
\<close>

fun path_component :: "bytes \<Rightarrow> nat \<Rightarrow> bytes \<Rightarrow> (bytes \<times> nat \<times> bytes option) option" where
  "path_component [] i path_append = None"
| "path_component (c # cs) i path_append =
     (if c = 0 then Some (path_append, i, None)
      else if c = 58 then Some (path_append, i, Some cs)
      else do { p \<leftarrow> put_byte path_append i c; path_component cs (i + 1) p })"

fun append_from :: "bytes \<Rightarrow> nat \<Rightarrow> bytes \<Rightarrow> (bytes \<times> nat) option" where
  "append_from [] i path_append = None"
| "append_from (c # cs) i path_append =
     (if c = 0 then Some (path_append, i) else do { p \<leftarrow> put_byte path_append i c; append_from cs (i + 1) p })"

partial_function (option) try_paths :: "(bytes \<Rightarrow> bool) \<Rightarrow> bytes \<Rightarrow> bytes option \<Rightarrow> bytes \<Rightarrow> bytes option option" where
  "try_paths can_open file path_to_check path_append =
     (case path_to_check of None \<Rightarrow> Some None
      | Some p \<Rightarrow> do {
          c \<leftarrow> byte_at p 0;
          if c = 0 then Some None
          else do {
            (a1, i, next) \<leftarrow> path_component p 0 path_append;
            a2 \<leftarrow> put_byte a1 i 47;
            (a3, j) \<leftarrow> append_from file (i + 1) a2;
            a4 \<leftarrow> put_byte a3 j 0;
            if can_open (cstr a4) then Some (Some (cstr a4)) else try_paths can_open file next a4
          }
        })"

declare try_paths.simps [code]

definition execvpe :: "(bytes \<Rightarrow> bool) \<Rightarrow> bytes \<Rightarrow> bytes list \<Rightarrow> bytes option option" where
  "execvpe can_open file env =
     do {
       c \<leftarrow> byte_at file 0;
       let direct = (if can_open (cstr file) then Some (cstr file) else None);
       if c = 47 then Some direct
       else do {
         target \<leftarrow> libc_search_env env [80, 65, 84, 72, 0];
         if target < 0 then Some direct
         else do {
           r \<leftarrow> libc_extract_env (env ! nat target) None (Some (replicate 1024 0));
           case r of Some (_, Some path) \<Rightarrow> try_paths can_open file (Some path) (replicate 512 0)
           | _ \<Rightarrow> Some (Some (cstr file))
         }
       }
     }"

section \<open>Output\<close>

text \<open>
  The printers are the code of \<^verbatim>\<open>sys/kprintf.c\<close> with other names, each character going to
  \<open>putchar\<close>; \<open>printf\<close> yields the characters it writes, in order.
\<close>

definition libc_print_num :: "u32 \<Rightarrow> bytes" where "libc_print_num = print_num"
definition libc_print_pointer :: "u64 \<Rightarrow> bytes" where "libc_print_pointer = print_pointer"
definition libc_print_hex :: "u64 \<Rightarrow> bytes" where "libc_print_hex = print_hex"

definition libc_printf :: "bytes \<Rightarrow> va list \<Rightarrow> bytes option" where
  "libc_printf format ap = map_option fst (format_bytes format ap)"

text \<open>\<open>str_to_int\<close> of \<open>kill\<close>, \<open>ps\<close> and \<open>sleep\<close>, on a string of digits.\<close>

fun str_to_int_from :: "u32 \<Rightarrow> bytes \<Rightarrow> u32" where
  "str_to_int_from acc [] = acc"
| "str_to_int_from acc (c # cs) = str_to_int_from (acc * 10 + (scast c - 48)) cs"

definition str_to_int :: "bytes \<Rightarrow> u32 option" where
  "str_to_int s = (if 0 \<in> set s then Some (str_to_int_from 0 (cstr s)) else None)"

section \<open>Errors\<close>

text \<open>
  C37. Errors of the kernel reach the program as \<open>errno\<close>.  Reading from, writing to or seeking on a
  descriptor that is not open gives \<open>-1\<close>, with \<open>EMFILE\<close> for numbers above 15 and \<open>EBADF\<close> for closed
  ones.
\<close>

theorem bad_descriptor_errno:
  assumes "procs k (current_process k) = Some pr" "no_signal pr" "16 \<le> rdi reg \<or> open_fd pr ! unat (rdi reg) = None"
  shows "\<exists>r. sys_read k reg = Some (Trap.Done 0, reg\<lparr>rax := r\<rparr>, [], k) \<and> sys_write um k reg = Some (Trap.Done 0, reg\<lparr>rax := r\<rparr>, [], k) \<and>
     sys_lseek k reg = Some (Trap.Done 0, reg\<lparr>rax := r\<rparr>, [], k) \<and>
     libc_read r e = (- 1, if 16 \<le> rdi reg then 24 else 9) \<and> libc_write r e = (- 1, if 16 \<le> rdi reg then 24 else 9) \<and>
     libc_lseek r e = (- 1, if 16 \<le> rdi reg then 24 else 9)"
proof -
  let ?r = "if 16 \<le> rdi reg then - EMFILE else - EBADF"
  have f: "fd_entry pr (rdi reg) = Inl ?r" using assms(3) by (auto simp: fd_entry_def FD_SIZE_def)
  have "value64_ret ?r e = (- 1, if 16 \<le> rdi reg then 24 else 9)" by (simp add: value64_ret_def errno_of_def)
  then show ?thesis using f assms(1,2)
    by (intro exI [of _ ?r]) (simp add: sys_read_def sys_write_def sys_lseek_def cur_proc_def sys_return_quiet libc_read_def libc_write_def libc_lseek_def)
qed

theorem bad_descriptor_errno_witness:
  "\<exists>r. sys_read rw_example (zero_reg\<lparr>rdi := 5\<rparr>) = Some (Trap.Done 0, zero_reg\<lparr>rdi := 5, rax := r\<rparr>, [], rw_example) \<and> libc_read r 0 = (- 1, 9)"
  using bad_descriptor_errno [OF rw_example_sel(2) rw_example_quiet(2), of "zero_reg\<lparr>rdi := 5\<rparr>" "\<lambda>_. []" 0]
  by (auto simp: nth_Cons')

text \<open>The wrappers report success and leave \<open>errno\<close> alone when the result is not negative.\<close>

lemma wrappers_success:
  assumes "0 \<le> sint r"
  shows "status_ret r e = (0, e)" "value32_ret r e = (ucast r, e)" "value64_ret r e = (r, e)"
  using assms by (simp_all add: status_ret_def value32_ret_def value64_ret_def)

section \<open>Departures\<close>

text \<open>\<open>gets\<close> delivers an empty string whatever was typed.\<close>

lemma libc_gets_empty:
  assumes "10 \<notin> set line" "s \<noteq> []"
  shows "\<exists>s'. libc_gets (line @ 10 # rest) s = Some (Some s') \<and> is_cstr s' []"
  using assms
proof (induction line arbitrary: s)
  case Nil
  then obtain x xs where "s = x # xs" by (cases s) auto
  then show ?case by (simp add: put_byte_def)
next
  case (Cons c line)
  then obtain x xs where s: "s = x # xs" by (cases s) auto
  then show ?case using Cons.IH [of "c # xs"] Cons.prems by (simp add: put_byte_def)
qed

text \<open>\<open>getppid\<close> is \<open>getpid\<close>.\<close>

lemma getppid_own: "libc_getppid k reg = libc_getpid k reg"
  by (simp add: libc_getppid_def libc_getpid_def)

text \<open>Two calls of \<open>sbrk\<close> return the same memory.\<close>

lemma sbrk_twice_same:
  assumes "\<And>to k. \<exists>k'. sys_brk' to k = Some (0, k')" "b \<noteq> 0" "inc \<noteq> 0"
  shows "\<exists>k' k''. libc_sbrk sys_brk' inc (b, k) = Some (b, b, k') \<and> libc_sbrk sys_brk' inc (b, k') = Some (b, b, k'')"
proof -
  let ?to = "b + ((inc - 1) div 4096 + 1) * 4096"
  obtain k' where "sys_brk' ?to k = Some (0, k')" using assms(1) by blast
  moreover obtain k'' where "sys_brk' ?to k' = Some (0, k'')" using assms(1) by blast
  ultimately show ?thesis using assms(2,3) by (simp add: libc_sbrk_def Let_def)
qed

section \<open>The heap of a program\<close>

lemma round_up:
  assumes "0 < unat x" "unat x + 4096 \<le> 2 ^ 64"
  shows "unat x \<le> unat (((x - 1) div 4096 + 1) * 4096 :: u64)" "unat (((x - 1) div 4096 + 1) * 4096 :: u64) < unat x + 4096"
    "4096 dvd unat (((x - 1) div 4096 + 1) * 4096 :: u64)"
proof -
  have "1 \<le> x" using assms(1) by (simp add: word_le_nat_alt)
  then have u: "unat (x - 1) = unat x - 1" by (simp add: unat_sub_nowrap)
  then have d: "unat ((x - 1) div 4096) = (unat x - 1) div 4096" by (simp only: unat_div) simp
  define q where "q = (unat x - 1) div 4096"
  have q: "q * 4096 + 4096 < 2 ^ 64 \<or> q * 4096 + 4096 = 2 ^ 64" "unat x \<le> q * 4096 + 4096" "q * 4096 < unat x"
    using assms unfolding q_def by linarith+
  have "q < 2 ^ 52" using q(3) assms(2) by simp
  then have "unat ((x - 1) div 4096 + 1) = q + 1" unfolding d [folded q_def] by (subst unat_add_nowrap) (simp_all add: d [folded q_def])
  then have "unat (((x - 1) div 4096 + 1) * 4096) = (q + 1) * 4096 mod 2 ^ 64" by (simp only: unat_word_ariths) simp
  moreover have "(q + 1) * 4096 < 2 ^ 64" using q(3) assms(2) by simp
  ultimately have "unat (((x - 1) div 4096 + 1) * 4096) = (q + 1) * 4096" by simp
  then show "unat x \<le> unat (((x - 1) div 4096 + 1) * 4096 :: u64)" "unat (((x - 1) div 4096 + 1) * 4096 :: u64) < unat x + 4096"
    "4096 dvd unat (((x - 1) div 4096 + 1) * 4096 :: u64)" using q(2,3) by simp_all
qed

lemma user_brk_query:
  assumes "procs k (current_process k) = Some pr" "no_signal pr"
  shows "user_brk reg 0 k = Some (heap_break pr, k)"
  using assms by (simp add: user_brk_def sys_brk_def cur_proc_def sys_return_quiet)

lemma user_brk_set:
  assumes "procs k (current_process k) = Some pr" "no_signal pr" "heap_start pr \<le> to" "to \<noteq> 0"
  shows "user_brk reg to k = Some (0, put_proc (current_process k) (pr\<lparr>heap_break := to\<rparr>) k)"
proof -
  let ?k = "put_proc (current_process k) (pr\<lparr>heap_break := to\<rparr>) k"
  have p: "procs ?k (current_process ?k) = Some (pr\<lparr>heap_break := to\<rparr>)" by simp
  have "no_signal (pr\<lparr>heap_break := to\<rparr>)" using assms(2) by (simp add: no_signal_def)
  then have "sys_return 0 (reg\<lparr>rdi := to\<rparr>) [] ?k = Some (Trap.Done 0, reg\<lparr>rdi := to, rax := 0\<rparr>, [], ?k)"
    using sys_return_quiet [OF p] by simp
  moreover have "\<not> to < heap_start pr" using assms(3) by simp
  ultimately show ?thesis using assms by (simp add: user_brk_def sys_brk_def cur_proc_def)
qed

text \<open>The library's variables fit the process: what is allocated lies between the start of the heap and its break.\<close>

definition malloc_ok :: "kernel \<Rightarrow> process \<Rightarrow> malloc_state \<Rightarrow> bool" where
  "malloc_ok k pr ms \<longleftrightarrow> procs k (current_process k) = Some pr \<and> no_signal pr \<and> heap_start pr \<le> heap_break pr \<and> heap_break pr \<noteq> 0 \<and>
     (current_brk ms \<noteq> 0 \<longrightarrow> current_brk ms = heap_break pr \<and> heap_start pr \<le> allocated ms \<and> allocated ms \<le> heap_break pr)"

definition next_block :: "process \<Rightarrow> malloc_state \<Rightarrow> u64" where
  "next_block pr ms = (if current_brk ms = 0 then heap_break pr else allocated ms)"

text \<open>The break is the end of the page that the next block starts in.\<close>

definition tight :: "process \<Rightarrow> malloc_state \<Rightarrow> bool" where
  "tight pr ms \<longleftrightarrow> 4096 dvd unat (heap_break pr) \<and> unat (heap_break pr) < unat (next_block pr ms) + 4096"

lemma libc_malloc_step:
  assumes ok: "malloc_ok k pr ms" and sz: "unat (next_block pr ms) + unat sz + 4096 \<le> 2 ^ 64" "0 < unat (next_block pr ms)"
  shows "\<exists>ms' k' pr'. libc_malloc (user_brk reg) sz ms k = Some (next_block pr ms, ms', k') \<and> malloc_ok k' pr' ms' \<and>
     heap_start pr' = heap_start pr \<and> heap_break pr \<le> heap_break pr' \<and>
     unat (next_block pr' ms') = unat (next_block pr ms) + unat sz \<and> current_brk ms' = heap_break pr' \<and>
     (tight pr ms \<longrightarrow> tight pr' ms')"
proof -
  note p = ok [unfolded malloc_ok_def]
  let ?a = "next_block pr ms" and ?b = "heap_break pr"
  let ?ms = "\<lparr>current_brk = ?b, allocated = ?a\<rparr>" and ?want = "((?a + sz - 1) div 4096 + 1) * 4096"
  have first: "(if current_brk ms = 0 then do { (b, k) \<leftarrow> user_brk reg 0 k; Some (\<lparr>current_brk = b, allocated = b\<rparr>, k) }
      else Some (ms, k)) = Some (?ms, k)"
    using p user_brk_query [of k pr reg] by (cases ms) (auto simp: next_block_def)
  have u: "unat (?a + sz) = unat ?a + unat sz" using sz by (subst unat_add_nowrap) simp_all
  then have w: "unat ?a + unat sz \<le> unat ?want" "unat ?want < unat ?a + unat sz + 4096" "4096 dvd unat ?want"
    using round_up [of "?a + sz"] sz by simp_all
  have a: "heap_start pr \<le> ?a" "?a \<le> ?b" using p by (auto simp: next_block_def)
  show ?thesis
  proof (cases "?b < ?want")
    case True
    let ?pr = "pr\<lparr>heap_break := ?want\<rparr>" and ?k = "put_proc (current_process k) (pr\<lparr>heap_break := ?want\<rparr>) k"
    have le: "heap_start pr \<le> ?want" "?want \<noteq> 0" using True p by auto
    note r = user_brk_set [OF _ _ le, of k reg]
    have "libc_malloc (user_brk reg) sz ms k = Some (?a, \<lparr>current_brk = ?want, allocated = ?a + sz\<rparr>, ?k)"
      unfolding libc_malloc_def first using r p True by (simp add: Let_def)
    moreover have "heap_start pr \<le> ?a + sz" "?a + sz \<le> ?want" using a(1) u w(1) by (simp_all add: word_le_nat_alt)
    then have "malloc_ok ?k ?pr \<lparr>current_brk = ?want, allocated = ?a + sz\<rparr>"
      using p le by (simp add: malloc_ok_def no_signal_def)
    moreover have "tight ?pr \<lparr>current_brk = ?want, allocated = ?a + sz\<rparr>" using w u le by (simp add: tight_def next_block_def)
    ultimately show ?thesis using True le u
      by (intro exI [of _ "\<lparr>current_brk = ?want, allocated = ?a + sz\<rparr>"] exI [of _ ?k] exI [of _ ?pr]) (simp add: next_block_def)
  next
    case False
    have "libc_malloc (user_brk reg) sz ms k = Some (?a, \<lparr>current_brk = ?b, allocated = ?a + sz\<rparr>, k)"
      unfolding libc_malloc_def first using False by (simp add: Let_def)
    moreover have "heap_start pr \<le> ?a + sz" "?a + sz \<le> ?b" using a(1) u w(1) False by (simp_all add: word_le_nat_alt not_less)
    then have "malloc_ok k pr \<lparr>current_brk = ?b, allocated = ?a + sz\<rparr>" using p by (simp add: malloc_ok_def)
    moreover have "tight pr ms \<Longrightarrow> tight pr \<lparr>current_brk = ?b, allocated = ?a + sz\<rparr>"
      using u p by (auto simp: tight_def next_block_def)
    ultimately show ?thesis using p u
      by (intro exI [of _ "\<lparr>current_brk = ?b, allocated = ?a + sz\<rparr>"] exI [of _ k] exI [of _ pr]) (simp add: next_block_def)
  qed
qed

fun mallocs :: "handler_reg \<Rightarrow> u64 list \<Rightarrow> malloc_state \<Rightarrow> kernel \<Rightarrow> (u64 list \<times> malloc_state \<times> kernel) option" where
  "mallocs reg [] ms k = Some ([], ms, k)"
| "mallocs reg (sz # szs) ms k =
     do { (p, ms, k) \<leftarrow> libc_malloc (user_brk reg) sz ms k; (ps, ms, k) \<leftarrow> mallocs reg szs ms k; Some (p # ps, ms, k) }"

lemma next_block_le: "malloc_ok k pr ms \<Longrightarrow> heap_start pr \<le> next_block pr ms \<and> next_block pr ms \<le> heap_break pr"
  by (auto simp: malloc_ok_def next_block_def)

text \<open>Where a row of blocks ends, and that the break stays tight.\<close>

lemma mallocs_end:
  assumes "malloc_ok k pr ms" "unat (next_block pr ms) + sum_list (map unat szs) + 4096 \<le> 2 ^ 64" "0 < unat (next_block pr ms)"
    "tight pr ms"
  shows "\<exists>ps ms' k' pr'. mallocs reg szs ms k = Some (ps, ms', k') \<and> malloc_ok k' pr' ms' \<and> tight pr' ms' \<and>
     heap_start pr' = heap_start pr \<and> unat (next_block pr' ms') = unat (next_block pr ms) + sum_list (map unat szs)"
  using assms
proof (induction szs arbitrary: ms k pr)
  case (Cons sz szs)
  have s: "unat (next_block pr ms) + unat sz + 4096 \<le> 2 ^ 64" using Cons.prems(2) by simp
  obtain ms1 k1 pr1 where 1: "libc_malloc (user_brk reg) sz ms k = Some (next_block pr ms, ms1, k1)" "malloc_ok k1 pr1 ms1"
    "heap_start pr1 = heap_start pr" "unat (next_block pr1 ms1) = unat (next_block pr ms) + unat sz" "tight pr1 ms1"
    using libc_malloc_step [OF Cons.prems(1) s Cons.prems(3)] Cons.prems(4) by blast
  have "unat (next_block pr1 ms1) + sum_list (map unat szs) + 4096 \<le> 2 ^ 64" "0 < unat (next_block pr1 ms1)"
    unfolding 1(4) using Cons.prems(2,3) by simp_all
  from Cons.IH [OF 1(2) this 1(5)] show ?case using 1 by (auto simp: add.assoc)
qed (auto intro: exI)

text \<open>The pointers one after another, from \<open>a\<close> up to \<open>e\<close>.\<close>

fun in_order :: "nat \<Rightarrow> u64 list \<Rightarrow> u64 list \<Rightarrow> nat \<Rightarrow> bool" where
  "in_order a [] [] e \<longleftrightarrow> a \<le> e"
| "in_order a (p # ps) (sz # szs) e \<longleftrightarrow> a \<le> unat p \<and> in_order (unat p + unat sz) ps szs e"
| "in_order a _ _ e \<longleftrightarrow> False"

lemma mallocs_in_order:
  assumes "malloc_ok k pr ms" "unat (next_block pr ms) + sum_list (map unat szs) + 4096 \<le> 2 ^ 64" "0 < unat (next_block pr ms)"
  shows "\<exists>ps ms' k' pr'. mallocs reg szs ms k = Some (ps, ms', k') \<and> malloc_ok k' pr' ms' \<and> heap_start pr' = heap_start pr \<and>
     in_order (unat (next_block pr ms)) ps szs (unat (heap_break pr'))"
  using assms
proof (induction szs arbitrary: ms k pr)
  case Nil
  then show ?case using next_block_le by (auto simp: word_le_nat_alt)
next
  case (Cons sz szs)
  have s: "unat (next_block pr ms) + unat sz + 4096 \<le> 2 ^ 64" using Cons.prems(2) by simp
  obtain ms1 k1 pr1 where 1: "libc_malloc (user_brk reg) sz ms k = Some (next_block pr ms, ms1, k1)" "malloc_ok k1 pr1 ms1"
    "heap_start pr1 = heap_start pr" "unat (next_block pr1 ms1) = unat (next_block pr ms) + unat sz"
    using libc_malloc_step [OF Cons.prems(1) s Cons.prems(3)] by blast
  have s1: "unat (next_block pr1 ms1) + sum_list (map unat szs) + 4096 \<le> 2 ^ 64" "0 < unat (next_block pr1 ms1)"
    unfolding 1(4) using Cons.prems(2,3) by simp_all
  obtain ps ms' k' pr' where 2: "mallocs reg szs ms1 k1 = Some (ps, ms', k')" "malloc_ok k' pr' ms'" "heap_start pr' = heap_start pr1"
    "in_order (unat (next_block pr1 ms1)) ps szs (unat (heap_break pr'))"
    using Cons.IH [OF 1(2) s1] by blast
  show ?case using 1 2 by (intro exI [of _ "next_block pr ms # ps"] exI [of _ ms'] exI [of _ k'] exI [of _ pr']) simp
qed

lemma in_order_apart:
  assumes "in_order a ps szs e"
  shows "length ps = length szs \<and> a \<le> e \<and> (\<forall>j < length ps. a \<le> unat (ps ! j) \<and> unat (ps ! j) + unat (szs ! j) \<le> e \<and>
     (\<forall>i < j. unat (ps ! i) + unat (szs ! i) \<le> unat (ps ! j)))"
  using assms
proof (induction a ps szs e rule: in_order.induct)
  case (2 a p ps sz szs e)
  have ih: "length ps = length szs" "unat p + unat sz \<le> e" "\<And>j. j < length ps \<Longrightarrow> unat p + unat sz \<le> unat (ps ! j) \<and>
      unat (ps ! j) + unat (szs ! j) \<le> e \<and> (\<forall>i < j. unat (ps ! i) + unat (szs ! i) \<le> unat (ps ! j))" using 2 by auto
  have "a \<le> unat ((p # ps) ! j) \<and> unat ((p # ps) ! j) + unat ((sz # szs) ! j) \<le> e \<and>
      (\<forall>i < j. unat ((p # ps) ! i) + unat ((sz # szs) ! i) \<le> unat ((p # ps) ! j))" if "j < length (p # ps)" for j
  proof (cases j)
    case 0
    then show ?thesis using ih 2(2) by simp
  next
    case (Suc j')
    have "unat ((p # ps) ! i) + unat ((sz # szs) ! i) \<le> unat (ps ! j')" if "i < j" for i
      using ih(3) [of j'] \<open>j < length (p # ps)\<close> that Suc by (cases i) auto
    then show ?thesis using ih(3) [of j'] that Suc 2(2) by simp
  qed
  then show ?case using ih(1,2) 2(2) by simp
qed auto

text \<open>
  C36. The blocks a program gets from \<open>malloc\<close> are apart, each behind the one before, and all lie
  between the start of its heap and the break that the kernel has recorded for it, so that the
  kernel maps pages there.
\<close>

theorem mallocs_separate:
  assumes "malloc_ok k pr ms" "unat (next_block pr ms) + sum_list (map unat szs) + 4096 \<le> 2 ^ 64" "0 < unat (next_block pr ms)"
  shows "\<exists>ps ms' k' pr'. mallocs reg szs ms k = Some (ps, ms', k') \<and> procs k' (current_process k') = Some pr' \<and> length ps = length szs \<and>
     (\<forall>j < length ps. unat (heap_start pr') \<le> unat (ps ! j) \<and> unat (ps ! j) + unat (szs ! j) \<le> unat (heap_break pr') \<and>
        (\<forall>i < j. unat (ps ! i) + unat (szs ! i) \<le> unat (ps ! j)))"
proof -
  obtain ps ms' k' pr' where r: "mallocs reg szs ms k = Some (ps, ms', k')" "malloc_ok k' pr' ms'" "heap_start pr' = heap_start pr"
    "in_order (unat (next_block pr ms)) ps szs (unat (heap_break pr'))" using mallocs_in_order [OF assms] by blast
  have "unat (heap_start pr') \<le> unat (next_block pr ms)" using next_block_le [OF assms(1)] r(3) by (simp add: word_le_nat_alt)
  then show ?thesis using r in_order_apart [OF r(4)] by (intro exI [of _ ps] exI [of _ ms'] exI [of _ k'] exI [of _ pr']) (auto simp: malloc_ok_def)
qed

theorem mallocs_separate_witness:
  "\<exists>ps ms' k' pr'. mallocs zero_reg [100, 5000] \<lparr>current_brk = 0, allocated = 0\<rparr>
       (put_proc (current_process kernel_example) (proc2\<lparr>heap_start := 0x600000, heap_break := 0x600000\<rparr>) kernel_example) = Some (ps, ms', k') \<and>
     procs k' (current_process k') = Some pr' \<and> length ps = 2 \<and>
     unat (ps ! 1) + 5000 \<le> unat (heap_break pr') \<and> unat (ps ! 0) + 100 \<le> unat (ps ! 1)"
proof -
  let ?pr = "proc2\<lparr>heap_start := 0x600000, heap_break := 0x600000\<rparr>" and ?ms = "\<lparr>current_brk = 0, allocated = 0\<rparr>"
  let ?k = "put_proc (current_process kernel_example) ?pr kernel_example"
  have ok: "malloc_ok ?k ?pr ?ms" by (simp add: malloc_ok_def no_signal_def rw_example_quiet(3))
  have "\<exists>ps ms' k' pr'. mallocs zero_reg [100, 5000] ?ms ?k = Some (ps, ms', k') \<and> procs k' (current_process k') = Some pr' \<and>
     length ps = length [100 :: u64, 5000] \<and>
     (\<forall>j < length ps. unat (heap_start pr') \<le> unat (ps ! j) \<and> unat (ps ! j) + unat ([100, 5000] ! j :: u64) \<le> unat (heap_break pr') \<and>
        (\<forall>i < j. unat (ps ! i) + unat ([100, 5000] ! i :: u64) \<le> unat (ps ! j)))"
    by (rule mallocs_separate [OF ok]) (simp_all add: next_block_def)
  then obtain ps ms' k' pr' where r: "mallocs zero_reg [100, 5000] ?ms ?k = Some (ps, ms', k')" "procs k' (current_process k') = Some pr'"
    "length ps = 2" "\<forall>j < 2. unat (ps ! j) + unat ([100, 5000] ! j :: u64) \<le> unat (heap_break pr') \<and>
        (\<forall>i < j. unat (ps ! i) + unat ([100, 5000] ! i :: u64) \<le> unat (ps ! j))" by auto
  have "unat (ps ! 1) + 5000 \<le> unat (heap_break pr')" "unat (ps ! 0) + 100 \<le> unat (ps ! 1)"
    using r(4) [rule_format, of 1] by auto
  with r show ?thesis by blast
qed

section \<open>The search for a program\<close>

text \<open>The directories of a search path; an empty one at its end does not count.\<close>

fun path_dirs :: "bytes list \<Rightarrow> bytes list" where
  "path_dirs [] = []"
| "path_dirs [d] = (if d = [] then [] else [d])"
| "path_dirs (d # e # ds) = d # path_dirs (e # ds)"

definition candidate :: "bytes \<Rightarrow> bytes \<Rightarrow> bytes" where
  "candidate file d = d @ 47 # file"

lemma path_component_spec:
  assumes "is_cstr p t" "n + length (hd (split_on 58 t)) \<le> length buf" "n \<le> length buf"
  shows "\<exists>buf'. path_component p n buf = Some (buf', n + length (hd (split_on 58 t)),
      (case tl (split_on 58 t) of [] \<Rightarrow> None | _ \<Rightarrow> Some (drop (Suc (length (hd (split_on 58 t)))) p))) \<and>
     length buf' = length buf \<and> take (n + length (hd (split_on 58 t))) buf' = take n buf @ hd (split_on 58 t)"
  using assms
proof (induction p arbitrary: t n buf)
  case (Cons c p)
  show ?case
  proof (cases "c = 0")
    case True
    with Cons.prems show ?thesis by simp
  next
    case False
    then obtain t' where t: "t = c # t'" "is_cstr p t'" using Cons.prems(1) by auto
    show ?thesis
    proof (cases "c = 58")
      case True
      with t Cons.prems show ?thesis using split_on_ne [of 58 t'] by (cases "split_on 58 t'") simp_all
    next
      case ns: False
      let ?b = "buf[n := c]"
      have n: "n < length buf" using Cons.prems(2) t ns by simp
      obtain buf' where "path_component p (Suc n) ?b = Some (buf', Suc n + length (hd (split_on 58 t')),
          (case tl (split_on 58 t') of [] \<Rightarrow> None | _ \<Rightarrow> Some (drop (Suc (length (hd (split_on 58 t')))) p)))"
        "length buf' = length buf" "take (Suc n + length (hd (split_on 58 t'))) buf' = take (Suc n) ?b @ hd (split_on 58 t')"
        using Cons.IH [OF t(2), of "Suc n" ?b] Cons.prems(2) t ns n by auto
      then show ?thesis using False ns t n
        by (intro exI [of _ buf']) (auto simp: put_byte_def take_Suc_conv_app_nth split: list.split)
    qed
  qed
qed simp

lemma append_from_spec:
  assumes "is_cstr f t" "n + length t \<le> length buf" "n \<le> length buf"
  shows "\<exists>buf'. append_from f n buf = Some (buf', n + length t) \<and> length buf' = length buf \<and> take (n + length t) buf' = take n buf @ t"
  using assms
proof (induction f arbitrary: t n buf)
  case (Cons c f)
  show ?case
  proof (cases "c = 0")
    case True
    with Cons.prems show ?thesis by simp
  next
    case False
    then obtain t' where t: "t = c # t'" "is_cstr f t'" using Cons.prems(1) by auto
    have n: "n < length buf" using Cons.prems(2) t by simp
    obtain buf' where "append_from f (Suc n) (buf[n := c]) = Some (buf', Suc n + length t')" "length buf' = length buf"
      "take (Suc n + length t') buf' = take (Suc n) (buf[n := c]) @ t'"
      using Cons.IH [OF t(2), of "Suc n" "buf[n := c]"] Cons.prems(2) t n by auto
    then show ?thesis using False t n by (intro exI [of _ buf']) (simp add: put_byte_def take_Suc_conv_app_nth)
  qed
qed simp

lemma split_on_rest:
  assumes "is_cstr p t" "split_on x t = d # e # ds" "x \<noteq> 0"
  shows "is_cstr (drop (Suc (length d)) p) (drop (Suc (length d)) t) \<and> split_on x (drop (Suc (length d)) t) = e # ds"
  using assms
proof (induction p arbitrary: t d)
  case (Cons c p)
  show ?case
  proof (cases t)
    case (Cons c' t')
    then have c: "c' = c" "is_cstr p t'" "c \<noteq> 0" using Cons.prems(1) by (auto split: if_splits)
    show ?thesis
    proof (cases "c = x")
      case True
      then show ?thesis using Cons.prems c Cons by auto
    next
      case False
      then have "split_on x t' = tl d # e # ds" "d = c # tl d" using Cons.prems(2) c Cons split_on_ne [of x t'] by (cases "split_on x t'"; auto)+
      then show ?thesis using Cons.IH [OF c(2)] Cons.prems(3) c Cons by (metis drop_Suc_Cons length_Cons)
    qed
  qed (use Cons.prems in simp)
qed simp

lemma put_byte_take:
  assumes "n < length b"
  shows "\<exists>b'. put_byte b n v = Some b' \<and> length b' = length b \<and> take (Suc n) b' = take n b @ [v]"
  using assms by (simp add: put_byte_def take_Suc_conv_app_nth)

lemma try_paths_end [simp]: "try_paths can_open file None buf = Some None"
  by (subst try_paths.simps) simp

text \<open>One pass of the loop over the directories.\<close>

lemma try_paths_step:
  assumes p: "is_cstr p t" "t \<noteq> []" and fl: "is_cstr file f"
    and d: "split_on 58 t = d # ds" "length d + length f + 2 \<le> length buf"
  shows "\<exists>buf'. length buf' = length buf \<and>
     try_paths can_open file (Some p) buf =
       (if can_open (candidate f d) then Some (Some (candidate f d))
        else try_paths can_open file (case ds of [] \<Rightarrow> None | _ \<Rightarrow> Some (drop (Suc (length d)) p)) buf')"
proof -
  obtain c t' where t: "t = c # t'" using p(2) by (cases t) auto
  have h: "byte_at p 0 = Some c" "c \<noteq> 0" using p(1) by (auto simp: byte_at_def is_cstr_def t)
  have z: "0 \<notin> set t" "0 \<notin> set f" using p(1) fl by (auto simp: is_cstr_def)
  then have zd: "0 \<notin> set (candidate f d)" using split_on_set [of d 58 t] d(1) by (auto simp: candidate_def)
  obtain b1 where 1: "path_component p 0 buf = Some (b1, length d, case ds of [] \<Rightarrow> None | _ \<Rightarrow> Some (drop (Suc (length d)) p))"
    "length b1 = length buf" "take (length d) b1 = d"
    using path_component_spec [OF p(1), of 0 buf] d(2) unfolding d(1) list.sel by auto
  obtain b2 where 2: "put_byte b1 (length d) 47 = Some b2" "length b2 = length buf" "take (Suc (length d)) b2 = d @ [47]"
    using put_byte_take [of "length d" b1 47] d(2) 1 by auto
  obtain b3 where 3: "append_from file (Suc (length d)) b2 = Some (b3, Suc (length d) + length f)" "length b3 = length buf"
    "take (Suc (length d) + length f) b3 = candidate f d"
    using append_from_spec [OF fl, of "Suc (length d)" b2] d(2) 2 by (auto simp: candidate_def)
  obtain b4 where 4: "put_byte b3 (Suc (length d) + length f) 0 = Some b4" "length b4 = length buf"
    "take (Suc (Suc (length d) + length f)) b4 = candidate f d @ [0]"
    using put_byte_take [of "Suc (length d) + length f" b3 0] d(2) 3 by auto
  have "b4 = candidate f d @ 0 # drop (Suc (Suc (length d) + length f)) b4"
    using append_take_drop_id [of "Suc (Suc (length d) + length f)" b4] unfolding 4(3) by simp
  then have "cstr b4 = candidate f d" using zd by (metis is_cstr_cstr is_cstrI)
  then show ?thesis using h 1(1) 2(1) 3(1) 4(1,2) by (intro exI [of _ b4]) (subst try_paths.simps, simp)
qed

lemma try_paths_spec:
  assumes "is_cstr p t" "is_cstr file f" "\<forall>d \<in> set (split_on 58 t). length d + length f + 2 \<le> length buf"
  shows "try_paths can_open file (Some p) buf = Some (find can_open (map (candidate f) (path_dirs (split_on 58 t))))"
  using assms(1,3)
proof (induction "split_on 58 t" arbitrary: p t buf)
  case (Cons d ds)
  show ?case
  proof (cases "t = []")
    case True
    then have "byte_at p 0 = Some 0" using Cons.prems(1) by (auto simp: byte_at_def is_cstr_def)
    then show ?thesis using True by (subst try_paths.simps) simp
  next
    case False
    note d = Cons.hyps(2) [symmetric]
    obtain buf' where b: "length buf' = length buf" "try_paths can_open file (Some p) buf =
       (if can_open (candidate f d) then Some (Some (candidate f d))
        else try_paths can_open file (case ds of [] \<Rightarrow> None | _ \<Rightarrow> Some (drop (Suc (length d)) p)) buf')"
      using try_paths_step [OF Cons.prems(1) False assms(2) d, of buf can_open] Cons.prems(2) d by auto
    show ?thesis
    proof (cases ds)
      case Nil
      then have "d \<noteq> []" using d False by (cases t) (auto split: if_splits)
      then show ?thesis using Nil d b(2) by simp
    next
      case (Cons e es)
      have r: "is_cstr (drop (Suc (length d)) p) (drop (Suc (length d)) t)" "split_on 58 (drop (Suc (length d)) t) = ds"
        using split_on_rest [OF Cons.prems(1)] d local.Cons by auto
      have "try_paths can_open file (Some (drop (Suc (length d)) p)) buf' = Some (find can_open (map (candidate f) (path_dirs ds)))"
        using Cons.hyps(1) [OF r(2) [symmetric] r(1), of buf'] r(2) Cons.prems(2) d b(1) by simp
      then show ?thesis using local.Cons d b(2) by simp
    qed
  qed
qed (metis split_on_ne)

lemma extract_path:
  assumes "is_binding b k v" "length v + 1 < m"
  shows "extract_env b None (Some (replicate m 0)) = Some (Some (None, Some (v @ replicate (m - length v) 0)))"
proof -
  obtain rest where b: "b = k @ 61 # v @ 0 # rest" "61 \<notin> set k" "0 \<notin> set k" "0 \<notin> set v"
    using assms(1) by (rule is_bindingE)
  show ?thesis using extract_key_null [OF b(2,3)] extract_value_spec [OF b(4), of "[]" m rest] assms(2) b(1)
    by (simp add: extract_env_def)
qed

lemma binds_key_index:
  assumes "binds env kvs" "map_of kvs k = Some v"
  shows "k \<in> fst ` set kvs \<and> is_binding (env ! key_index k kvs) k v"
  using assms unfolding binds_def
proof (induction env kvs rule: list_all2_induct)
  case (Cons b env kv kvs)
  then show ?case by (cases kv) (auto simp: key_index_def split: if_splits)
qed simp

text \<open>
  C35. \<open>execvpe\<close> searches \<open>PATH\<close>.  A program named without a leading slash is looked for in the
  directories that \<open>PATH\<close> lists between colons, in their order; the one executed is the first
  directory, a slash and the name for which \<open>open\<close> succeeds, and when there is none the call fails
  with \<open>errno\<close> 2.  The bounds are the sizes of its two buffers.
\<close>

theorem execvpe_searches:
  assumes "binds env kvs" "map_of kvs [80, 65, 84, 72] = Some path" "length path < 1023"
    "is_cstr file f" "hd f \<noteq> 47" "\<forall>d \<in> set (split_on 58 path). length d + length f + 2 \<le> 512"
  shows "execvpe can_open file env = Some (find can_open (map (candidate f) (path_dirs (split_on 58 path))))"
proof -
  note k = binds_key_index [OF assms(1,2)]
  obtain c where c: "byte_at file 0 = Some c" "c \<noteq> 47"
    using assms(4,5) by (cases f) (auto simp: is_cstr_def byte_at_def)
  have "is_cstr [80, 65, 84, 72, 0] [80, 65, 84, 72]" using is_cstrI [of "[80, 65, 84, 72]" "[]"] by simp
  from search_env_spec [OF assms(1) this, of 0] k
  have s: "search_env env [80, 65, 84, 72, 0] = Some (int (key_index [80, 65, 84, 72] kvs))" by (simp add: search_env_def)
  have "0 \<notin> set path" using k by (auto simp: is_binding_def is_cstr_def)
  then have "is_cstr (path @ replicate (1024 - length path) 0) path" by (rule is_cstr_replicate) (use assms(3) in simp)
  from try_paths_spec [OF this assms(4), of "replicate 512 0" can_open] assms(6)
  have t: "try_paths can_open file (Some (path @ replicate (1024 - length path) 0)) (replicate 512 0) =
      Some (find can_open (map (candidate f) (path_dirs (split_on 58 path))))" by simp
  have e: "extract_env (env ! key_index [80, 65, 84, 72] kvs) None (Some (replicate 1024 0)) =
      Some (Some (None, Some (path @ replicate (1024 - length path) 0)))"
    using extract_path [of _ _ _ 1024] k assms(3) by auto
  show ?thesis using c by (simp add: execvpe_def libc_search_env_def libc_extract_env_def s e t Let_def)
qed

theorem execvpe_searches_witness:
  "execvpe (\<lambda>f. f = [47, 98, 47, 108, 115]) [108, 115, 0] [[80, 65, 84, 72, 61, 47, 97, 58, 47, 98, 0]] =
     Some (Some [47, 98, 47, 108, 115])"
proof -
  have "binds [[80, 65, 84, 72, 61, 47, 97, 58, 47, 98, 0]] [([80, 65, 84, 72], [47, 97, 58, 47, 98])]"
    by (simp add: binds_def is_binding_def)
  from execvpe_searches [OF this, of "[47, 97, 58, 47, 98]" "[108, 115, 0]" "[108, 115]" "\<lambda>f. f = [47, 98, 47, 108, 115]"]
  show ?thesis by (simp add: candidate_def)
qed

section \<open>Numbers\<close>

lemma str_to_int_append: "str_to_int_from acc (xs @ [c]) = str_to_int_from acc xs * 10 + (scast c - 48)"
  by (induction xs arbitrary: acc) simp_all

lemma digit_read: "scast (ucast (48 + n mod 10) :: u8) - 48 = (n mod 10 :: u32)"
proof -
  have u: "unat (ucast (48 + n mod 10) :: u8) = 48 + unat n mod 10" by (rule dec_digit)
  have "sint (ucast (48 + n mod 10) :: u8) = int (48 + unat n mod 10)"
    using u by (simp add: sint_uint signed_take_bit_int_eq_self_iff uint_nat signed_take_bit_int_eq_self)
  then have "scast (ucast (48 + n mod 10) :: u8) = (of_int (int (48 + unat n mod 10)) :: u32)"
    by (metis of_int_sint)
  moreover have "of_nat (unat n mod 10) = n mod 10" by (simp add: word_unat_eq_iff unat_mod unsigned_of_nat take_bit_nat_eq_self less_imp_le_nat)
  ultimately show ?thesis by (simp only: of_int_of_nat_eq of_nat_add) simp
qed

lemma str_to_int_digits: "str_to_int_from 0 (rev (dec_digits n)) = n"
proof (induction n rule: dec_digits.induct)
  case (1 n)
  show ?case
  proof (cases "n div 10 = 0")
    case True
    then have "n mod 10 = n" using div_mult_mod_eq [of n 10] by simp
    then show ?thesis using True digit_read [of n] by (subst dec_digits.simps) simp
  next
    case False
    then show ?thesis using 1 by (subst dec_digits.simps) (simp add: str_to_int_append digit_read div_mult_mod_eq)
  qed
qed

text \<open>
  C39. A process number survives being printed and typed again: reading the digits that \<open>%d\<close>
  prints for a number that is not negative gives the number back.
\<close>

theorem printed_number_read_back:
  assumes "0 \<le> sint input"
  shows "str_to_int (libc_print_num input @ [0]) = Some input"
proof -
  have "\<forall>c \<in> set (dec_digits input). c \<noteq> 0" using dec_digits_value [of input] by fastforce
  moreover have "print_num input = rev (dec_digits input)"
    using assms by (simp add: print_num_def Let_def)
  ultimately have "is_cstr (libc_print_num input @ [0]) (rev (dec_digits input))"
    by (auto simp: libc_print_num_def intro!: is_cstrI)
  then show ?thesis by (simp add: str_to_int_def is_cstr_cstr str_to_int_digits)
qed

theorem printed_number_read_back_witness: "str_to_int (libc_print_num 1234 @ [0]) = Some 1234"
  using printed_number_read_back [of 1234] by simp

end
