(* ===== verification/Sbush_Main.thy ===== *)
theory Sbush_Main
  imports Libc
begin

text \<open>
  The main program of the shell (\<^verbatim>\<open>bin/sbush/sbush.c\<close>): the prompt, the loop over a script and the loop over
  the terminal, and \<open>ProcessCommand\<close> with the blocks it gets from \<open>malloc\<close>.
\<close>

section \<open>A command and the heap\<close>

text \<open>
  \<open>ProcessCommand\<close> with its calls of \<open>malloc\<close> up to the parsing of the line: the table of the parts, the
  parts, and the copy of the line in a block of the length of the line.  What may be written behind that
  block is the rest of the heap up to the break.  All of it is fresh: \<open>free\<close> does nothing, no
  block is handed out twice, and the kernel zeroes the pages it adds.
\<close>

definition ProcessCommand_heap ::
  "handler_reg \<Rightarrow> bytes \<Rightarrow> malloc_state \<Rightarrow> kernel \<Rightarrow> (job option \<times> malloc_state \<times> kernel) option" where
  "ProcessCommand_heap reg command ms k =
     do {
       (save_tokens, ms, k) \<leftarrow> mallocs reg
         (of_nat (8 * NUMBER_OF_TOKENS_BY_PIPE) # replicate NUMBER_OF_TOKENS_BY_PIPE (of_nat NUMBER_OF_CHAR_EACH_TOKEN)) ms k;
       len \<leftarrow> selfdefine_stringlen command;
       (backup, ms, k) \<leftarrow> libc_malloc (user_brk reg) (of_nat len) ms k;
       j \<leftarrow> ProcessCommand command (replicate (unat (current_brk ms - backup)) 0);
       Some (j, ms, k)
     }"

text \<open>
  C32. A command line becomes the job it denotes, unless its copy ends at the break.  For a line
  within the limits of the buffers (\<open>line_ok\<close>), the parts of the line between its bars are the
  processes, in order; the words of a part are the arguments, without an \<open>&\<close> at the end; and
  the job is in the background when the line ends in \<open>&\<close>.  But when the block for the copy, 1160
  bytes behind the first block of this call, ends at a multiple of 4096, its terminator is written
  behind the break, where the program has no memory, and there is no job.  The break is taken to be
  the end of the page that the next block starts in (\<open>tight\<close>), which \<open>malloc\<close> keeps, here too.
\<close>

theorem ProcessCommand_parses:
  assumes line: "is_cstr command t" "line_ok t"
    and heap: "malloc_ok k pr ms" "tight pr ms" "0 < unat (next_block pr ms)" "unat (next_block pr ms) + 1160 + length t + 4096 \<le> 2 ^ 64"
  shows "\<exists>ms' k' pr'. malloc_ok k' pr' ms' \<and> tight pr' ms' \<and>
     unat (next_block pr' ms') = unat (next_block pr ms) + 1160 + length t \<and>
     ProcessCommand_heap reg command ms k =
       (if 4096 dvd unat (next_block pr ms) + 1160 + length t then None
        else Some (Some
          \<lparr>job_processes = map (\<lambda>seg. new_job_process (map pad (strip_amp (words_of seg)))) (split_on BAR (trim t)),
           isBackground_job = (last (trim t) = AMP)\<rparr>, ms', k'))"
proof -
  let ?szs = "of_nat (8 * NUMBER_OF_TOKENS_BY_PIPE) # replicate NUMBER_OF_TOKENS_BY_PIPE (of_nat NUMBER_OF_CHAR_EACH_TOKEN) :: u64 list"
  have sum: "sum_list (map unat ?szs) = 1160"
    by (simp add: NUMBER_OF_TOKENS_BY_PIPE_def NUMBER_OF_CHAR_EACH_TOKEN_def sum_list_replicate)
  obtain ps ms1 k1 pr1 where 1: "mallocs reg ?szs ms k = Some (ps, ms1, k1)" "malloc_ok k1 pr1 ms1" "tight pr1 ms1"
    "unat (next_block pr1 ms1) = unat (next_block pr ms) + 1160"
    using mallocs_end [OF heap(1) _ heap(3,2), of ?szs reg] heap(4) unfolding sum by auto
  have len: "selfdefine_stringlen command = Some (length t)" "unat (of_nat (length t) :: u64) = length t"
    using line(1) heap(4) by (simp_all add: unat_of_nat take_bit_nat_eq_self)
  obtain ms' k' pr' where 2: "libc_malloc (user_brk reg) (of_nat (length t)) ms1 k1 = Some (next_block pr1 ms1, ms', k')"
    "malloc_ok k' pr' ms'" "tight pr' ms'" "current_brk ms' = heap_break pr'"
    "unat (next_block pr' ms') = unat (next_block pr ms) + 1160 + length t"
    using libc_malloc_step [OF 1(2), of "of_nat (length t)" reg] 1(3,4) heap(3,4) len(2) by auto
  define room where "room = unat (heap_break pr' - next_block pr1 ms1)"
  have le: "unat (next_block pr' ms') \<le> unat (heap_break pr')" using next_block_le [OF 2(2)] by (simp add: word_le_nat_alt)
  then have r: "room = unat (heap_break pr') - unat (next_block pr1 ms1)"
    using 1(4) 2(5) by (simp add: room_def unat_sub word_le_nat_alt)
  have st: "ProcessCommand_heap reg command ms k = map_option (\<lambda>j. (j, ms', k')) (ProcessCommand command (replicate room 0))"
    unfolding ProcessCommand_heap_def 1(1)
    by (cases "ProcessCommand command (replicate room 0)") (simp_all add: 2(1,4) len(1) room_def)
  have t: "4096 dvd unat (heap_break pr')" "unat (heap_break pr') < unat (next_block pr' ms') + 4096"
    using 2(3) by (simp_all add: tight_def)
  have "ProcessCommand_heap reg command ms k = None" if "4096 dvd unat (next_block pr ms) + 1160 + length t"
  proof -
    have "4096 dvd unat (heap_break pr') - unat (next_block pr' ms')" using t(1) that 2(5) by (simp add: dvd_diff_nat)
    moreover have "unat (heap_break pr') - unat (next_block pr' ms') < 4096" using t(2) le by linarith
    ultimately have "unat (heap_break pr') - unat (next_block pr' ms') = 0" using nat_dvd_not_less by blast
    then have "room = length t" using r le 1(4) 2(5) by simp
    then show ?thesis using st ProcessCommand_overflow [OF line(1)] by simp
  qed
  moreover have "ProcessCommand_heap reg command ms k = Some (Some
          \<lparr>job_processes = map (\<lambda>seg. new_job_process (map pad (strip_amp (words_of seg)))) (split_on BAR (trim t)),
           isBackground_job = (last (trim t) = AMP)\<rparr>, ms', k')" if "\<not> 4096 dvd unat (next_block pr ms) + 1160 + length t"
  proof -
    have "unat (heap_break pr') \<noteq> unat (next_block pr' ms')" using t(1) that 2(5) by auto
    then have "length t < room" using r le 1(4) 2(5) by simp
    then show ?thesis using st ProcessCommand_job [OF line, of "replicate room 0"] by simp
  qed
  ultimately show ?thesis using 2 by (intro exI [of _ ms'] exI [of _ k'] exI [of _ pr']) simp
qed

text \<open>The line \<open>ls -l | cat&\<close>, with spaces to remove, as the first command of a program.\<close>

theorem ProcessCommand_parses_witness:
  "\<exists>ms' k'. ProcessCommand_heap zero_reg [108, 115, 32, 32, 45, 108, 32, 124, 32, 99, 97, 116, 38, 32, 0] \<lparr>current_brk = 0, allocated = 0\<rparr>
       (put_proc (current_process kernel_example) (proc2\<lparr>heap_start := 0x600000, heap_break := 0x600000\<rparr>) kernel_example) = Some (Some
       \<lparr>job_processes = [new_job_process [pad [108, 115], pad [45, 108]], new_job_process [pad [99, 97, 116]]],
        isBackground_job = True\<rparr>, ms', k')"
proof -
  let ?pr = "proc2\<lparr>heap_start := 0x600000, heap_break := 0x600000\<rparr>" and ?ms = "\<lparr>current_brk = 0, allocated = 0\<rparr>"
  let ?k = "put_proc (current_process kernel_example) ?pr kernel_example"
  let ?t = "[108, 115, 32, 32, 45, 108, 32, 124, 32, 99, 97, 116, 38, 32] :: bytes"
  have t: "trim ?t = [108, 115, 32, 32, 45, 108, 32, 124, 32, 99, 97, 116, 38]" by (simp add: trim_def rtrim_def)
  have sp: "split_on BAR (trim ?t) = [[108, 115, 32, 32, 45, 108, 32], [32, 99, 97, 116, 38]]" by (simp add: t)
  have w: "words_of [108, 115, 32, 32, 45, 108, 32] = [[108, 115], [45, 108]]" "words_of [32, 99, 97, 116, 38] = [[99, 97, 116, 38]]"
    by (simp_all add: words_of_def)
  have line: "is_cstr (?t @ [0]) ?t" "line_ok ?t"
    using is_cstrI [of ?t "[]"] by (simp, simp add: line_ok_def part_ok_def sp w blank_def)
      (simp add: t NUMBER_OF_TOKENS_BY_PIPE_def NUMBER_OF_TOKENS_BY_SPACE_def NUMBER_OF_CHAR_EACH_TOKEN_def)
  have heap: "malloc_ok ?k ?pr ?ms" "tight ?pr ?ms" "next_block ?pr ?ms = 0x600000"
    by (simp_all add: malloc_ok_def no_signal_def rw_example_quiet(3) tight_def next_block_def)
  from ProcessCommand_parses [OF line heap(1,2), of zero_reg] heap(3) show ?thesis
    by (auto simp: sp w strip_amp_def) (simp add: t)
qed

section \<open>The two loops\<close>

text \<open>
  The loops yield what they do in order.  What \<open>ProcessCommand\<close> does with a line depends on the
  state \<open>'s\<close> of the shell: it returns a value other than zero or zero, or it does not return,
  because the line calls \<open>exit\<close> or the shell is killed while it runs.  What \<open>read\<close> does each time is
  a list: a byte, nothing (it returns 0), or a negative value; at the end of the list the shell waits.
\<close>

datatype shell_event = Put_string bytes | Putchar u8 | Command bytes | Prompt

datatype outcome = Parsed | Unparsed | Ended

datatype read_result = Got u8 | Got_none | Got_error

text \<open>The bytes written by \<open>print_prompt\<close>; \<open>sbush> \<close> stands for a missing \<open>PS1\<close>.\<close>

definition print_prompt :: "bytes list \<Rightarrow> bytes option" where
  "print_prompt environ =
     do {
       target \<leftarrow> search_env environ [80, 83, 49, 0];
       if target < 0 then Some [115, 98, 117, 115, 104, 62, 32]
       else do {
         r \<leftarrow> extract_env (environ ! nat target) (Some (replicate 128 0)) (Some (replicate 128 0));
         case r of Some (_, Some prompt) \<Rightarrow> if 0 \<in> set prompt then Some (cstr prompt) else None
         | _ \<Rightarrow> None
       }
     }"

text \<open>A line of a script, unless it starts with \<open>#!\<close>; the state is lost when the shell has ended.\<close>

definition script_line :: "(bytes \<Rightarrow> 's \<Rightarrow> outcome \<times> 's) \<Rightarrow> bytes \<Rightarrow> 's \<Rightarrow> (shell_event list \<times> 's option) option" where
  "script_line cmd line s =
     do {
       a \<leftarrow> byte_at line 0;
       shebang \<leftarrow> (if a = 35 then do { b \<leftarrow> byte_at line 1; Some (b = 33) } else Some False);
       Some (if shebang then ([], Some s)
         else ([Put_string (cstr line), Putchar 10, Command (cstr line)],
           (case cmd (cstr line) s of (Ended, _) \<Rightarrow> None | (_, s') \<Rightarrow> Some s')))
     }"

text \<open>The byte after a read that gave none is the one that was there.\<close>

definition after_read :: "read_result \<Rightarrow> bytes \<Rightarrow> nat \<Rightarrow> bytes option" where
  "after_read r b i = (case r of Got c \<Rightarrow> put_byte b i c | _ \<Rightarrow> Some b)"

fun script_loop :: "(bytes \<Rightarrow> 's \<Rightarrow> outcome \<times> 's) \<Rightarrow> read_result list \<Rightarrow> bytes \<Rightarrow> nat \<Rightarrow> 's \<Rightarrow> shell_event list option" where
  "script_loop cmd [] line index s = Some []"
| "script_loop cmd (r # rs) line index s =
     (if r = Got_none then do { line' \<leftarrow> put_byte line index 0; (es, _) \<leftarrow> script_line cmd line' s; Some es }
      else do {
        line' \<leftarrow> after_read r line index;
        c \<leftarrow> byte_at line' index;
        if c = 10 then do {
          line'' \<leftarrow> put_byte line' index 0;
          (es, s') \<leftarrow> script_line cmd line'' s;
          case s' of None \<Rightarrow> Some es
          | Some s' \<Rightarrow> do { rest \<leftarrow> script_loop cmd rs line'' 0 s'; Some (es @ rest) }
        } else script_loop cmd rs line' (index + 1) s
      })"

definition unable_to_read :: bytes where
  "unable_to_read = [117, 110, 97, 98, 108, 101, 32, 116, 111, 32, 114, 101, 97, 100, 46, 32, 101, 120, 105, 116, 105, 110, 103, 46, 46, 46, 10]"

definition unable_to_parse :: bytes where
  "unable_to_parse = [117, 110, 97, 98, 108, 101, 32, 116, 111, 32, 112, 97, 114, 115, 101, 32, 99, 111, 109, 109, 97, 110, 100, 46, 10]"

fun terminal_loop :: "(bytes \<Rightarrow> 's \<Rightarrow> outcome \<times> 's) \<Rightarrow> read_result list \<Rightarrow> bytes \<Rightarrow> nat \<Rightarrow> 's \<Rightarrow> shell_event list option" where
  "terminal_loop cmd [] inp pointer s = Some []"
| "terminal_loop cmd (r # rs) inp pointer s =
     (if r = Got_error then Some [Put_string unable_to_read]
      else do {
        inp' \<leftarrow> after_read r inp pointer;
        c \<leftarrow> byte_at inp' pointer;
        if c = 10 then do {
          inp'' \<leftarrow> put_byte inp' pointer 0;
          let line = cstr inp'';
          let es = [Put_string line, Putchar 10, Command line];
          case cmd line s of
            (Ended, _) \<Rightarrow> Some es
          | (out, s') \<Rightarrow> do {
              rest \<leftarrow> terminal_loop cmd rs inp'' 0 s';
              Some (es @ (if out = Unparsed then [Put_string unable_to_parse] else []) @ Prompt # rest)
            }
        } else terminal_loop cmd rs inp' (pointer + 1) s
      })"

text \<open>\<open>main\<close> with a script that opens, and with the terminal; the buffers hold what the stack held.\<close>

definition sbush_script :: "(bytes \<Rightarrow> 's \<Rightarrow> outcome \<times> 's) \<Rightarrow> read_result list \<Rightarrow> bytes \<Rightarrow> 's \<Rightarrow> shell_event list option" where
  "sbush_script cmd rs line s = script_loop cmd rs line 0 s"

definition sbush_terminal :: "(bytes \<Rightarrow> 's \<Rightarrow> outcome \<times> 's) \<Rightarrow> read_result list \<Rightarrow> bytes \<Rightarrow> 's \<Rightarrow> shell_event list option" where
  "sbush_terminal cmd rs inp s = map_option (\<lambda>es. Prompt # es) (terminal_loop cmd rs inp 0 s)"

section \<open>Lines\<close>

text \<open>What the lines of a script and the lines typed stand for, up to the one that ends the shell.\<close>

fun script_run :: "(bytes \<Rightarrow> 's \<Rightarrow> outcome \<times> 's) \<Rightarrow> bytes list \<Rightarrow> 's \<Rightarrow> shell_event list" where
  "script_run cmd [] s = []"
| "script_run cmd (t # ts) s =
     (if take 2 t = [35, 33] then script_run cmd ts s
      else [Put_string t, Putchar 10, Command t] @
        (if fst (cmd t s) = Ended then [] else script_run cmd ts (snd (cmd t s))))"

fun typed_run :: "(bytes \<Rightarrow> 's \<Rightarrow> outcome \<times> 's) \<Rightarrow> bytes list \<Rightarrow> 's \<Rightarrow> shell_event list" where
  "typed_run cmd [] s = []"
| "typed_run cmd (t # ts) s =
     [Put_string t, Putchar 10, Command t] @
       (if fst (cmd t s) = Ended then []
        else (if fst (cmd t s) = Unparsed then [Put_string unable_to_parse] else []) @
          Prompt # typed_run cmd ts (snd (cmd t s)))"

lemma put_byte_append_ex:
  assumes "length pre < length b" "take (length pre) b = pre"
  shows "\<exists>b'. put_byte b (length pre) c = Some b' \<and> length b' = length b \<and> take (length (pre @ [c])) b' = pre @ [c]"
  using put_byte_take [OF assms(1), of c] assms(2) by auto

lemma terminate_line:
  assumes "length pre < length b" "take (length pre) b = pre" "0 \<notin> set pre"
  shows "\<exists>b'. put_byte b (length pre) 0 = Some b' \<and> length b' = length b \<and> is_cstr b' pre"
proof -
  obtain b' where b: "put_byte b (length pre) 0 = Some b'" "length b' = length b" "take (length (pre @ [0])) b' = pre @ [0]"
    using put_byte_append_ex [OF assms(1,2)] by blast
  then have "b' = pre @ 0 # drop (length (pre @ [0])) b'" using append_take_drop_id [of "length (pre @ [0])" b'] by simp
  then show ?thesis using b assms(3) by (metis is_cstrI)
qed

lemma script_line_spec:
  assumes "is_cstr b t"
  shows "script_line cmd b s = Some (if take 2 t = [35, 33] then ([], Some s)
     else ([Put_string t, Putchar 10, Command t], if fst (cmd t s) = Ended then None else Some (snd (cmd t s))))"
proof -
  obtain rest where b: "b = t @ 0 # rest" using assms by (auto simp: is_cstr_def)
  have c: "cstr b = t" using assms by (rule is_cstr_cstr)
  have o: "(case cmd t s of (Ended, _) \<Rightarrow> None | (_, s') \<Rightarrow> Some s') = (if fst (cmd t s) = Ended then None else Some (snd (cmd t s)))"
    by (auto split: prod.splits outcome.splits)
  consider "t = []" | x where "t = [x]" | x y u where "t = x # y # u" by (metis neq_Nil_conv)
  then show ?thesis using c o by cases (auto simp: b script_line_def byte_at_def)
qed

lemma byte_at_put: "put_byte b i c = Some b' \<Longrightarrow> byte_at b' i = Some c"
  by (auto simp: put_byte_def byte_at_def split: if_splits)

text \<open>One byte of a line is stored behind those before; a newline ends the line.\<close>

lemma read_byte:
  assumes "length b = n" "take (length pre) b = pre" "0 \<notin> set pre" "length pre < n"
  obtains b' where "put_byte b (length pre) c = Some b'" "length b' = n" "take (length (pre @ [c])) b' = pre @ [c]"
    "byte_at b' (length pre) = Some c"
    "\<exists>z. put_byte b' (length pre) 0 = Some z \<and> length z = n \<and> is_cstr z pre"
proof -
  obtain b' where b: "put_byte b (length pre) c = Some b'" "length b' = n" "take (length (pre @ [c])) b' = pre @ [c]"
    using put_byte_append_ex [of pre b c] assms by auto
  have "take (length pre) b' = pre" using b(3) by (metis append_eq_conv_conj take_take min.absorb1 length_append le_add1)
  then have "\<exists>z. put_byte b' (length pre) 0 = Some z \<and> length z = n \<and> is_cstr z pre"
    using terminate_line [of pre b'] b assms by auto
  then show thesis using that b byte_at_put [OF b(1)] by blast
qed

lemma script_loop_spec:
  assumes "length line = n" "take (length pre) line = pre" "0 \<notin> set pre" "0 \<notin> set cs"
    "length pre + length (hd (split_on 10 cs)) < n" "\<forall>t \<in> set (tl (split_on 10 cs)). length t < n"
  shows "script_loop cmd (map Got cs @ [Got_none]) line (length pre) s =
     Some (script_run cmd ((pre @ hd (split_on 10 cs)) # tl (split_on 10 cs)) s)"
  using assms
proof (induction cs arbitrary: line pre s)
  case Nil
  then obtain b where "put_byte line (length pre) 0 = Some b" "is_cstr b pre" using terminate_line [of pre line] by auto
  then show ?case by (simp add: script_line_spec)
next
  case (Cons c cs)
  have "length pre < n" using Cons.prems(5) by simp
  then obtain l where l: "put_byte line (length pre) c = Some l" "length l = n" "take (length (pre @ [c])) l = pre @ [c]"
    "byte_at l (length pre) = Some c" "\<exists>z. put_byte l (length pre) 0 = Some z \<and> length z = n \<and> is_cstr z pre"
    by (rule read_byte [OF Cons.prems(1-3)])
  show ?case
  proof (cases "c = 10")
    case True
    obtain b where b: "put_byte l (length pre) 0 = Some b" "length b = n" "is_cstr b pre" using l(5) by blast
    have "script_loop cmd (map Got cs @ [Got_none]) b 0 s' = Some (script_run cmd (split_on 10 cs) s')" for s'
      using Cons.IH [of b "[]" s'] Cons.prems b True split_on_ne [of 10 cs] by (cases "split_on 10 cs") auto
    then show ?thesis using l(1,4) b script_line_spec [OF b(3), of cmd s] True by (auto simp: after_read_def)
  next
    case False
    have "script_loop cmd (map Got cs @ [Got_none]) l (length (pre @ [c])) s =
        Some (script_run cmd (((pre @ [c]) @ hd (split_on 10 cs)) # tl (split_on 10 cs)) s)"
      by (rule Cons.IH) (use Cons.prems l False in auto)
    then show ?thesis using l(1,4) False by (simp add: after_read_def)
  qed
qed

lemma terminal_loop_spec:
  assumes "length inp = n" "take (length pre) inp = pre" "0 \<notin> set pre" "0 \<notin> set cs"
    "length pre + length (hd (split_on 10 cs)) < n" "\<forall>t \<in> set (tl (split_on 10 cs)). length t < n"
  shows "terminal_loop cmd (map Got cs) inp (length pre) s =
     Some (typed_run cmd (butlast ((pre @ hd (split_on 10 cs)) # tl (split_on 10 cs))) s)"
  using assms
proof (induction cs arbitrary: inp pre s)
  case (Cons c cs)
  have "length pre < n" using Cons.prems(5) by simp
  then obtain l where l: "put_byte inp (length pre) c = Some l" "length l = n" "take (length (pre @ [c])) l = pre @ [c]"
    "byte_at l (length pre) = Some c" "\<exists>z. put_byte l (length pre) 0 = Some z \<and> length z = n \<and> is_cstr z pre"
    by (rule read_byte [OF Cons.prems(1-3)])
  show ?case
  proof (cases "c = 10")
    case True
    obtain b where b: "put_byte l (length pre) 0 = Some b" "length b = n" "is_cstr b pre" using l(5) by blast
    have ih: "terminal_loop cmd (map Got cs) b 0 s' = Some (typed_run cmd (butlast (split_on 10 cs)) s')" for s'
      using Cons.IH [of b "[]" s'] Cons.prems b True split_on_ne [of 10 cs] by (cases "split_on 10 cs") auto
    obtain out s' where o: "cmd pre s = (out, s')" by fastforce
    show ?thesis using l(1,4) b(1) ih is_cstr_cstr [OF b(3)] True o by (cases out) (auto simp: after_read_def)
  next
    case False
    have "terminal_loop cmd (map Got cs) l (length (pre @ [c])) s =
        Some (typed_run cmd (butlast (((pre @ [c]) @ hd (split_on 10 cs)) # tl (split_on 10 cs))) s)"
      by (rule Cons.IH) (use Cons.prems l False in auto)
    then show ?thesis using l(1,4) False by (simp add: after_read_def)
  qed
qed simp

text \<open>
  C38. The shell runs the lines it reads, in order, until one ends it.  The commands of a script are
  its lines between newlines, each echoed first, without those that start with \<open>#!\<close>; the commands
  typed at the terminal are the lines that a newline has completed, each followed by a prompt, with a
  message before it when the line gave no job.  A line after which \<open>ProcessCommand\<close> does not return,
  such as \<open>exit\<close>, is the last.
\<close>

theorem shell_runs_lines:
  assumes "0 \<notin> set content" "\<forall>t \<in> set (split_on 10 content). length t < 1024" "length buf = 1024"
  shows "sbush_script cmd (map Got content @ [Got_none]) buf s = Some (script_run cmd (split_on 10 content) s) \<and>
    sbush_terminal cmd (map Got content) buf s = Some (Prompt # typed_run cmd (butlast (split_on 10 content)) s)"
proof -
  obtain d ds where s: "split_on 10 content = d # ds" using split_on_ne [of 10 content] by (cases "split_on 10 content") auto
  have "script_loop cmd (map Got content @ [Got_none]) buf (length ([] :: bytes)) s =
      Some (script_run cmd (([] @ hd (split_on 10 content)) # tl (split_on 10 content)) s)"
    by (rule script_loop_spec) (use assms s in auto)
  moreover have "terminal_loop cmd (map Got content) buf (length ([] :: bytes)) s =
      Some (typed_run cmd (butlast (([] @ hd (split_on 10 content)) # tl (split_on 10 content))) s)"
    by (rule terminal_loop_spec) (use assms s in auto)
  ultimately show ?thesis using s by (simp add: sbush_script_def sbush_terminal_def)
qed

text \<open>A shell in which \<open>exit\<close> ends it and every other line gives a job.\<close>

definition exit_example :: "bytes \<Rightarrow> unit \<Rightarrow> outcome \<times> unit" where
  "exit_example line s = (if line = [101, 120, 105, 116] then Ended else Parsed, s)"

theorem shell_runs_lines_witness:
  "sbush_script exit_example (map Got [35, 33, 47, 10, 108, 115, 10, 112, 115] @ [Got_none]) (replicate 1024 0) () =
     Some [Put_string [108, 115], Putchar 10, Command [108, 115], Put_string [112, 115], Putchar 10, Command [112, 115]] \<and>
   sbush_terminal exit_example (map Got [101, 120, 105, 116, 10, 108, 115, 10]) (replicate 1024 0) () =
     Some [Prompt, Put_string [101, 120, 105, 116], Putchar 10, Command [101, 120, 105, 116]]"
proof
  show "sbush_script exit_example (map Got [35, 33, 47, 10, 108, 115, 10, 112, 115] @ [Got_none]) (replicate 1024 0) () =
     Some [Put_string [108, 115], Putchar 10, Command [108, 115], Put_string [112, 115], Putchar 10, Command [112, 115]]"
    using shell_runs_lines [of "[35, 33, 47, 10, 108, 115, 10, 112, 115]" "replicate 1024 0" exit_example "()"]
    by (simp add: exit_example_def)
  show "sbush_terminal exit_example (map Got [101, 120, 105, 116, 10, 108, 115, 10]) (replicate 1024 0) () =
     Some [Prompt, Put_string [101, 120, 105, 116], Putchar 10, Command [101, 120, 105, 116]]"
    using shell_runs_lines [of "[101, 120, 105, 116, 10, 108, 115, 10]" "replicate 1024 0" exit_example "()"]
    by (simp add: exit_example_def)
qed

text \<open>
  A terminal read that delivers nothing counts as the byte that was left in the buffer, and a read
  of the script that fails is not noticed either.
\<close>

lemma read_of_nothing:
  assumes "pointer < length b"
  shows "terminal_loop cmd (Got_none # rs) b pointer s = terminal_loop cmd (Got (b ! pointer) # rs) b pointer s"
    "script_loop cmd (Got_error # rs) b pointer s = script_loop cmd (Got (b ! pointer) # rs) b pointer s"
  using assms by (simp_all add: after_read_def put_byte_def)

text \<open>
  A newline at the end of a script makes its last command the empty line, for which the parser
  reads in front of its buffer (\<open>blank_line_undefined\<close>).
\<close>

lemma script_run_last: "\<forall>t s. fst (cmd t s) \<noteq> Ended \<Longrightarrow> \<exists>es. script_run cmd (ts @ [[]]) s = es @ [Command []]"
proof (induction ts arbitrary: s)
  case (Cons t ts)
  then have "\<exists>es. script_run cmd (ts @ [[]]) s' = es @ [Command []]" for s' by blast
  then obtain f where f: "script_run cmd (ts @ [[]]) s' = f s' @ [Command []]" for s' by metis
  then show ?case
    using Cons.prems by (auto intro: exI [of _ "f s"] exI [of _ "[Put_string t, Putchar 10, Command t] @ f (snd (cmd t s))"])
qed simp

lemma script_runs_empty_line:
  assumes "0 \<notin> set content" "\<forall>t \<in> set (split_on 10 (content @ [10])). length t < 1024" "length buf = 1024"
    "\<forall>t s. fst (cmd t s) \<noteq> Ended"
  shows "\<exists>es. sbush_script cmd (map Got (content @ [10]) @ [Got_none]) buf s = Some (es @ [Command []])"
proof -
  have l: "split_on x (content @ [x]) = split_on x content @ [[]]" for x
    by (induction content) (auto simp: hd_append)
  have "script_loop cmd (map Got (content @ [10]) @ [Got_none]) buf (length ([] :: bytes)) s =
      Some (script_run cmd (([] @ hd (split_on 10 (content @ [10]))) # tl (split_on 10 (content @ [10]))) s)"
    by (rule script_loop_spec) (use assms list.set_sel(2) [OF split_on_ne [of 10 content]] in \<open>auto simp: l hd_append\<close>)
  then have "sbush_script cmd (map Got (content @ [10]) @ [Got_none]) buf s = Some (script_run cmd (split_on 10 content @ [[]]) s)"
    using split_on_ne [of 10 content] by (cases "split_on 10 content") (auto simp: sbush_script_def l)
  then show ?thesis using script_run_last [OF assms(4), of "split_on 10 content" s] by auto
qed

section \<open>The prompt\<close>

text \<open>
  The prompt is the value of \<open>PS1\<close>, and \<open>sbush> \<close> when the environment has none.
\<close>

theorem print_prompt_shows:
  assumes "binds env kvs" "\<forall>v. map_of kvs [80, 83, 49] = Some v \<longrightarrow> length v < 127"
  shows "print_prompt env = Some (case map_of kvs [80, 83, 49] of Some v \<Rightarrow> v | None \<Rightarrow> [115, 98, 117, 115, 104, 62, 32])"
proof -
  have "is_cstr [80, 83, 49, 0] [80, 83, 49]" using is_cstrI [of "[80, 83, 49]" "[]"] by simp
  note s = search_env_spec [OF assms(1) this, of 0, folded search_env_def]
  show ?thesis
  proof (cases "map_of kvs [80, 83, 49]")
    case None
    then have "[80, 83, 49] \<notin> fst ` set kvs" by (simp add: map_of_eq_None_iff)
    then show ?thesis using s None by (simp add: print_prompt_def)
  next
    case (Some v)
    note k = binds_key_index [OF assms(1) Some]
    have v: "length v < 127" "0 \<notin> set v" using assms(2) Some k by (auto simp: is_binding_def is_cstr_def)
    have e: "extract_env (env ! key_index [80, 83, 49] kvs) (Some (replicate 128 0)) (Some (replicate 128 0)) =
        Some (Some (Some ([80, 83, 49] @ replicate (128 - 3) 0), Some (v @ replicate (128 - length v) 0)))"
      using extract_env_binding(1) [of _ "[80, 83, 49]" v 128 128] k v(1) by simp
    have "is_cstr (v @ replicate (128 - length v) 0) v" by (rule is_cstr_replicate) (use v in auto)
    then have "cstr (v @ replicate (128 - length v) 0) = v" "0 \<in> set (v @ replicate (128 - length v) 0)"
      by (auto simp: is_cstr_cstr dest: is_cstr_terminated)
    then show ?thesis using s k Some by (simp add: print_prompt_def e)
  qed
qed

theorem print_prompt_shows_witness:
  "print_prompt [[80, 83, 49, 61, 36, 0]] = Some [36] \<and> print_prompt [] = Some [115, 98, 117, 115, 104, 62, 32]"
proof
  have "binds [[80, 83, 49, 61, 36, 0]] [([80, 83, 49], [36])]" by (simp add: binds_def is_binding_def)
  from print_prompt_shows [OF this] show "print_prompt [[80, 83, 49, 61, 36, 0]] = Some [36]" by simp
  have "binds [] []" by (simp add: binds_def)
  from print_prompt_shows [OF this] show "print_prompt [] = Some [115, 98, 117, 115, 104, 62, 32]" by simp
qed

end
