(* ===== verification/Spec2Isabelle.thy ===== *)
theory Spec2Isabelle
  imports Kernel_Run Kernel_Heap Sbush_Main
begin

text \<open>
  A model of the sbuOS kernel, its C library and its shell, and what makes them correct.

  \<^bold>\<open>The program.\<close>  sbuOS is a small 64-bit kernel.  At boot \<^verbatim>\<open>sys/main.c\<close> reads the memory
  map, builds a table of physical pages and the kernel's page tables, finds the disk, opens the
  terminal and starts the first process.  From then on everything happens in interrupt
  handlers: the timer wakes sleeping processes and polls the disk, the keyboard edits the
  terminal's line, page faults copy shared pages, system calls create, replace and end
  processes and read and write files, and the scheduler picks who runs next.  User programs reach
  the system calls through the wrappers of \<^verbatim>\<open>libc\<close>; the shell \<^verbatim>\<open>bin/sbush\<close> reads lines and runs
  them as pipelines of processes.

  \<^bold>\<open>Conventions.\<close>  Pointers and machine integers are words of their width, so that arithmetic
  wraps as in C; a signed comparison is written as one.  Kernel objects that the code reaches
  through pointers (processes, file table entries) live in maps from addresses, memory that the
  code addresses by arithmetic (pages, page tables, kernel stacks) in a function from addresses
  to bytes, with 64-bit cells over it.  A linked list that only one owner walks (waiters, disk
  tasks, memory maps) is a list; the list of processes, which several components walk through
  its \<^verbatim>\<open>next\<close> pointers, is kept as pointers with the predicate \<open>chain\<close> for the list it
  represents.  Results are options: \<open>None\<close> stands for an execution that does not return a
  defined value (a panic that halts, a null or dangling pointer, an access outside of a buffer,
  a loop that never ends); errors the code reports are values.  The addresses returned by the
  kernel heap \<^verbatim>\<open>sf_malloc\<close> are arguments of the operations that call it, with the hypothesis
  that they are not in use, which is what \<open>Kernel_Heap\<close> shows of it; the pages that such a call
  takes through \<open>kbrk\<close> are not counted there.  The table of physical pages is kept apart from the
  memory it describes; \<open>get_phy_page_one\<close> says when that is right, and
  \<open>phy_page_init_hands_out_table\<close> that the code does not keep the two apart.  A block of the disk file
  system is read and written as a whole, before the caller goes on.  Register values shown by the disk are arguments as well.  A system
  call gets the user memory it reads as an argument and yields its stores to user memory as a
  list, in order; a call that waits is split at the context switch, its first part ends in
  \<open>Blocked\<close> with the point at which it goes on, and the kernel may have changed in between.
  Messages printed for debugging are left out in the handlers.

  \<^bold>\<open>Theories.\<close>
  \<^item> \<open>Kernel_Prelude\<close>: types, buffers, C strings, little-endian fields, facts on words.
  \<^item> \<open>Misc\<close> (\<^verbatim>\<open>sys/misc.c\<close>): string, memory and arithmetic helpers.
  \<^item> \<open>Phy_Page\<close> (\<^verbatim>\<open>sys/memory/phy_page.c\<close>): the table of physical pages, its construction from
    the memory map, allocation of one page or a run, the same allocation on a table that lies in
    the memory it manages, and the reference counts of shared pages.
    The locale \<open>page_sharing\<close> states the contract of sharing and is interpreted on the model.
  \<^item> \<open>Paging\<close> (\<^verbatim>\<open>phy_page.c\<close>, \<^verbatim>\<open>sys/thread/kthread.c\<close>): the four-level tables of processes as
    64-bit cells, mapping, sharing and the hardware walk \<open>translate_cr3\<close>.
  \<^item> \<open>Kbrk\<close> (\<^verbatim>\<open>phy_page.c\<close>): the kernel's own tables, the processor's walk of them with large
    pages, and the growth of the kernel heap.
  \<^item> \<open>Kmalloc\<close> (\<^verbatim>\<open>sys/memory/kmalloc.c\<close>): the operations of the kernel heap on its words;
    \<open>Heap_Layout\<close>: tags, links and marks of a heap with given blocks, and merging;
    \<open>Heap_Alloc\<close>: taking blocks and growing, over the locale \<open>program_break\<close> that states the
    contract of \<open>sf_sbrk\<close>; \<open>Heap_Free\<close>: release; \<open>Heap_Bytes\<close>: the bytes inside blocks;
    \<open>Kernel_Heap\<close>: the locale interpreted on \<open>kbrk\<close>, and clients of the heap as a step relation.
  \<^item> \<open>Tarfs\<close> (\<^verbatim>\<open>sys/tarfs.c\<close>): lookup, reading and listing in the boot archive.
  \<^item> \<open>File_Table\<close>, \<open>Simple_FS\<close>, \<open>File_System\<close>, \<open>Path\<close> (\<^verbatim>\<open>sys/disk/file_system.c\<close>): the ring of a
    pipe (with the locale \<open>byte_queue\<close> of a bounded queue, interpreted on the ring), files on
    disk, the operations on open files of every kind, and path computation in place.
  \<^item> \<open>Kprintf\<close> (\<^verbatim>\<open>sys/kprintf.c\<close>): number printing, the format interpreter, the text screen.
  \<^item> \<open>Ahci\<close>, \<open>Disk_Driver\<close> (\<^verbatim>\<open>sys/ahci.c\<close>, \<^verbatim>\<open>sys/disk/disk_driver.c\<close>): the command slots of a port,
    busy waiting, completion, and the queue of disk tasks of sleeping processes.
  \<^item> \<open>Kernel_State\<close>: the record \<open>kernel\<close> of all global variables the handlers share.
  \<^item> \<open>Process\<close> (\<^verbatim>\<open>kthread.c\<close>): searching, signals, reclaiming, copy on write, scheduling.
  \<^item> \<open>Spawn\<close> (\<^verbatim>\<open>kthread.c\<close>): \<open>spawn_process\<close>, \<open>fork_process\<close> and \<open>replace_process\<close>.
  \<^item> \<open>Timer\<close>, \<open>Terminal\<close> (\<^verbatim>\<open>sys/timer.c\<close>, \<^verbatim>\<open>sys/ternimal.c\<close>, \<^verbatim>\<open>sys/keyboard.c\<close>).
  \<^item> \<open>Elf\<close> (\<^verbatim>\<open>sys/elf64.c\<close>): the program headers of an executable, read from the archive or
    through an open file.
  \<^item> \<open>Idt\<close>, \<open>Kernel_Task\<close>, \<open>Trap\<close>, \<open>Syscall_File\<close>, \<open>Syscall_Proc\<close>, \<open>Exec\<close>, \<open>Interrupt\<close>
    (\<^verbatim>\<open>sys/idt.c\<close>): the gates of the interrupt table; the tasks that run on the kernel's page
    tables, page faults among them, and the delivery of signals; what the system calls share;
    the calls on files; the calls on processes; \<open>exec\<close> with its initial stack and loading; and
    \<open>isr_handler\<close>, which dispatches all of them, with \<open>resume_call\<close> for calls that waited.
  \<^item> \<open>Kernel_Run\<close>: the kernel as a state machine of traps, continuations, context switches and
    new processes, and an invariant of the process table that every step keeps.
  \<^item> \<open>Sbush_Parse\<close>, \<open>Sbush_Exec\<close>, \<open>Sbush_Main\<close> (\<^verbatim>\<open>bin/sbush\<close>): the parser of command lines in its buffers
    of fixed size, with a reference definition of what a line means; the environment and the calls
    that the shell and its children make for a job; a command with its blocks of the program's heap, and
    the loops over scripts and the terminal, up to a command that does not return.
  \<^item> \<open>Libc\<close> (\<^verbatim>\<open>libc/syscall.c\<close>, \<^verbatim>\<open>malloc.c\<close>, \<^verbatim>\<open>exec.c\<close>, \<^verbatim>\<open>printf.c\<close>): the wrappers with \<open>errno\<close>, the heap of a
    program over the kernel's \<open>sys_brk\<close>, the search of programs in \<open>PATH\<close>, printing and reading numbers.

  \<^bold>\<open>What is shown.\<close>  Runs: in every state the kernel can come to, whatever user programs and
  devices do, the process table has its form, and a process whose resources were released is
  never the current one.  Memory: the kernel's first tables map exactly the regions the kernel relies on,
  pages are handed out once and cleared as long as they are apart from the table of pages, a shared page becomes
  available with its last user, mapping makes the walk find the page and disturbs no other
  address, a write fault yields a private copy, the kernel heap grows only at its end, and its
  blocks with boundary tags implement a store of separate blocks for any sequence of
  allocations, releases and writes.
  Processes: the scheduler's unbounded loop ends at a process that can run and starves nobody,
  reclaiming releases exactly what the process owned and tells its parent, signals
  reach their process, and a tick of the timer does exactly what its code says.  Files: bytes written
  to disk are read back after opening again, files with paths that fit their list entries
  never share blocks, a pipe is a bounded queue except for a reader at cursor 0, archive files read as
  the archive holds them, paths without the forms the code mishandles resolve as their components say.  Devices: disk commands never overwrite one another,
  waiting for a hung port ends, finished tasks wake their processes, typed lines reach their
  readers, and output reaches the screen up to a zero byte or a percent sign.  Traps: the gates are the ones the kernel handles and
  only the system call gate is open to user mode, faults in heap and stack map a zeroed page and
  others end the process, a reader that waits is released by a write that fits the pipe and gets what
  was written, a parent that waits
  gets its child's exit status, a signal handler returns to the interrupted registers, a new
  program finds its arguments on its stack and its sections as the file has them, when they are mapped
  and their zeroed parts end within a page.  User space: a command
  line means the job that the reference definition gives, unless its copy ends at the break, lines are
  run in order up to one that ends the shell, the programs of a pipeline get the ends of
  their pipes and the shell keeps none, \<open>export\<close> binds its variable, a program is found in the first
  directory of \<open>PATH\<close> that has it, the blocks of a program's heap are separate and below the break the
  kernel granted, errors of the kernel arrive in \<open>errno\<close>, and a printed number is read back.
  Where the code departs from this, a theorem shows the
  departure on the model: the empty pipe whose producer cursor has wrapped, the full pipe that
  wakes nobody, the disk handle that overwrites, the waiter behind another one, the full
  terminal line, the page of the allocator's own table, the path that overwrites the next entry of the file
  list, the zero byte behind the limit of \<open>kprintfa\<close>, the dots that paths keep or lose, the section
  whose zeroed part hangs the kernel, the copy of a command that ends at the break, the wait that cuts off the list of processes, the descriptor behind the table,
  the request of two gigabytes that gets a small block, the blank or long command line, the
  command of the shell in a pipeline, \<open>gets\<close>, \<open>getppid\<close> and \<open>sbrk\<close>.

  \<^bold>\<open>Bounds and fuel.\<close>  Loops are structural or carry a measure; the loops over linked lists
  and the scheduler's loop are partial functions into \<open>option\<close>, whose results are proved to
  exist on every list the kernel builds.  The waits for the disk read a list of register
  values, as many as the device shows; \<open>wait_ready_terminates\<close> gives the number that is enough.

  \<^bold>\<open>Not modelled.\<close>  Segment descriptors, PCI and AHCI configuration and assembly, which only move
  values to devices and registers; the allocator in \<^verbatim>\<open>libc/malloc.c\<close> that is not compiled (its code is that
  of the kernel heap); and the utilities under \<^verbatim>\<open>bin\<close>, short sequences of library calls, except for their
  reading of numbers.
\<close>

end
